(* ===== verification/Prelude.thy ===== *)
theory Prelude
  imports Complex_Main "HOL-Library.Word" "HOL-Library.Signed_Division"
begin

section \<open>Shared vocabulary of the development\<close>

text \<open>
  This theory names the machine types of the C++ sources, the values that stand for a failed
  \<open>assert\<close>, an out-of-range access or a call of \<open>LOG_FATAL\<close>, the sequencing of fallible steps,
  and the element-by-element copies of \<open>std::copy\<close> with the list lemmas the component theories
  share. The Makefile builds without \<open>-DNDEBUG\<close>, so every \<open>assert\<close> of the sources is checked at
  run time and is modelled as a fault.
\<close>

named_theorems result_simps \<open>evaluation of fallible steps\<close>

subsection \<open>Machine types\<close>

type_synonym byte = "8 word"
type_synonym u16 = "16 word"
type_synonym u32 = "32 word"
type_synonym u64 = "64 word"

subsection \<open>Faults and fallible results\<close>

datatype fault =
    AssertionFailed string
  | OutOfBounds string
  | NullDereference string
  | Fatal string

type_synonym 'a result = "fault + 'a"

definition require :: "bool \<Rightarrow> fault \<Rightarrow> 'a result \<Rightarrow> 'a result" where
  "require b e k = (if b then k else Inl e)"

fun and_then :: "'a result \<Rightarrow> ('a \<Rightarrow> 'b result) \<Rightarrow> 'b result" where
  "and_then (Inl e) k = Inl e"
| "and_then (Inr a) k = k a"

definition is_fault :: "'a result \<Rightarrow> bool" where
  "is_fault r = (case r of Inl _ \<Rightarrow> True | Inr _ \<Rightarrow> False)"

lemma require_True [simp, result_simps]: "require True e k = k"
  by (simp add: require_def)

lemma require_False [simp, result_simps]: "require False e k = Inl e"
  by (simp add: require_def)

lemma require_Inr_iff [simp]: "require b e k = Inr x \<longleftrightarrow> b \<and> k = Inr x"
  by (simp add: require_def)

lemma require_Inl_iff: "require b e k = Inl f \<longleftrightarrow> (if b then k = Inl f else f = e)"
  by (auto simp: require_def)

lemma and_then_Inr_iff: "and_then r k = Inr y \<longleftrightarrow> (\<exists>x. r = Inr x \<and> k x = Inr y)"
  by (cases r) auto

lemma is_fault_simps [simp, result_simps]: "is_fault (Inl e)" "\<not> is_fault (Inr x)"
  by (simp_all add: is_fault_def)

lemma not_fault_iff: "\<not> is_fault r \<longleftrightarrow> (\<exists>x. r = Inr x)"
  by (cases r) auto

text \<open>A fallible step repeated over a list of arguments stops at the first fault.\<close>

fun for_each :: "('a \<Rightarrow> 's \<Rightarrow> 's result) \<Rightarrow> 'a list \<Rightarrow> 's \<Rightarrow> 's result" where
  "for_each f [] s = Inr s"
| "for_each f (x # xs) s = and_then (f x s) (for_each f xs)"

lemma for_each_append: "for_each f (xs @ ys) s = and_then (for_each f xs s) (for_each f ys)"
proof (induction xs arbitrary: s)
  case (Cons x xs)
  then show ?case by (cases "f x s") auto
qed simp

lemma for_each_invariant:
  assumes "\<And>x s. P s \<Longrightarrow> x \<in> set xs \<Longrightarrow> \<exists>s'. f x s = Inr s' \<and> P s'" and "P s"
  shows "\<exists>s'. for_each f xs s = Inr s' \<and> P s'"
  using assms
proof (induction xs arbitrary: s)
  case (Cons x xs)
  from Cons.prems(1) [OF Cons.prems(2)] obtain s' where s': "f x s = Inr s'" "P s'" by auto
  have "\<exists>s''. for_each f xs s' = Inr s'' \<and> P s''"
    by (rule Cons.IH) (use Cons.prems(1) s'(2) in auto)
  with s'(1) show ?case by simp
qed simp

lemma for_each_preserves:
  assumes "\<And>x s s'. P s \<Longrightarrow> x \<in> set xs \<Longrightarrow> f x s = Inr s' \<Longrightarrow> P s'"
    and "P s" and "for_each f xs s = Inr s'"
  shows "P s'"
  using assms
proof (induction xs arbitrary: s)
  case (Cons x xs)
  from Cons.prems(3) obtain t where t: "f x s = Inr t" "for_each f xs t = Inr s'"
    by (auto simp: and_then_Inr_iff)
  have "P t" using Cons.prems(1) [OF Cons.prems(2) _ t(1)] by simp
  show ?case by (rule Cons.IH [OF _ \<open>P t\<close> t(2)]) (use Cons.prems(1) in auto)
qed simp

text \<open>
  \<open>returns_or E P r\<close>: the step fails only with a fault of \<open>E\<close>, and what it returns satisfies \<open>P\<close>.
\<close>

definition returns_or :: "fault set \<Rightarrow> ('a \<Rightarrow> bool) \<Rightarrow> 'a result \<Rightarrow> bool" where
  "returns_or E P r = (case r of Inl e \<Rightarrow> e \<in> E | Inr x \<Rightarrow> P x)"

lemma returns_or_simps [simp]: "returns_or E P (Inl e) = (e \<in> E)" "returns_or E P (Inr x) = P x"
  by (simp_all add: returns_or_def)

lemma returns_or_and_then:
  assumes "returns_or E Q r" and "\<And>x. Q x \<Longrightarrow> returns_or E P (k x)"
  shows "returns_or E P (and_then r k)"
  using assms by (cases r) auto

lemma returns_or_mono: "returns_or E Q r \<Longrightarrow> (\<And>x. Q x \<Longrightarrow> P x) \<Longrightarrow> returns_or E P r"
  by (cases r) auto

lemma returns_or_for_each:
  assumes "\<And>x s. x \<in> set xs \<Longrightarrow> P s \<Longrightarrow> returns_or E P (f x s)" and "P s"
  shows "returns_or E P (for_each f xs s)"
  using assms
proof (induction xs arbitrary: s)
  case (Cons x xs)
  show ?case unfolding for_each.simps
  proof (rule returns_or_and_then)
    show "returns_or E P (f x s)" using Cons.prems by simp
    show "returns_or E P (for_each f xs s')" if "P s'" for s'
      by (rule Cons.IH) (use Cons.prems(1) that in auto)
  qed
qed simp

subsection \<open>Signed division\<close>

text \<open>C++ truncates the quotient towards zero, as \<open>sdiv\<close> does; on positive numbers it is \<open>div\<close>.\<close>

lemma division_of_positive:
  assumes "0 \<le> (a::int)" and "0 < b"
  shows "a sdiv b = a div b" and "a smod b = a mod b"
  using assms by (auto simp: signed_divide_int_def signed_modulo_int_def sgn_if minus_div_mult_eq_mod)

subsection \<open>size_t arithmetic\<close>

text \<open>
  Sizes and indices are natural numbers. A \<open>size_t\<close> subtraction whose result would be negative
  wraps modulo \<open>2 ^ 64\<close>, which \<open>size_sub\<close> writes out. The sums the sources form are of lengths of
  objects in memory, below \<open>2 ^ 63\<close> each, and cannot wrap.
\<close>

definition size_sub :: "nat \<Rightarrow> nat \<Rightarrow> nat" where
  "size_sub a b = (if b \<le> a then a - b else a + 2 ^ 64 - b)"

lemma size_sub_le [simp]: "b \<le> a \<Longrightarrow> size_sub a b = a - b"
  by (simp add: size_sub_def)

lemma size_sub_less_again: "n \<le> size_sub a b \<Longrightarrow> 0 < n \<Longrightarrow> size_sub a (b + n) < size_sub a b"
  by (auto simp: size_sub_def split: if_splits)

subsection \<open>Element-by-element copies\<close>

text \<open>
  \<open>copy_in v d xs\<close> is \<open>std::copy\<close> from another array into \<open>v\<close> at index \<open>d\<close>; \<open>copy_within v s n d\<close> is
  \<open>std::copy\<close> of \<open>n\<close> elements of \<open>v\<close> from index \<open>s\<close> to index \<open>d\<close> of the same array, element by
  element from the front, so that an overlap behaves as it does in C++.
\<close>

fun copy_in :: "'a list \<Rightarrow> nat \<Rightarrow> 'a list \<Rightarrow> 'a list" where
  "copy_in v d [] = v"
| "copy_in v d (x # xs) = copy_in (v[d := x]) (Suc d) xs"

fun copy_within :: "'a list \<Rightarrow> nat \<Rightarrow> nat \<Rightarrow> nat \<Rightarrow> 'a list" where
  "copy_within v s 0 d = v"
| "copy_within v s (Suc n) d = copy_within (v[d := v ! s]) (Suc s) n (Suc d)"

definition overwrite :: "'a list \<Rightarrow> nat \<Rightarrow> 'a list \<Rightarrow> 'a list" where
  "overwrite v d xs = take d v @ xs @ drop (d + length xs) v"

lemma length_copy_in [simp]: "length (copy_in v d xs) = length v"
  by (induction v d xs rule: copy_in.induct) auto

lemma length_copy_within [simp]: "length (copy_within v s n d) = length v"
  by (induction v s n d rule: copy_within.induct) auto

lemma length_overwrite [simp]: "d + length xs \<le> length v \<Longrightarrow> length (overwrite v d xs) = length v"
  by (simp add: overwrite_def)

lemma nth_copy_in:
  "d + length xs \<le> length v \<Longrightarrow> i < length v \<Longrightarrow>
   copy_in v d xs ! i = (if d \<le> i \<and> i < d + length xs then xs ! (i - d) else v ! i)"
proof (induction v d xs rule: copy_in.induct)
  case (2 v d x xs)
  then have IH: "copy_in (v[d := x]) (Suc d) xs ! i =
      (if Suc d \<le> i \<and> i < Suc d + length xs then xs ! (i - Suc d) else v[d := x] ! i)"
    by simp
  show ?case
  proof (cases "i = d")
    case True
    with IH 2 show ?thesis by simp
  next
    case False
    then have "d \<le> i \<longleftrightarrow> Suc d \<le> i" by auto
    moreover have "Suc d \<le> i \<Longrightarrow> (x # xs) ! (i - d) = xs ! (i - Suc d)"
      by (simp add: nth_Cons' Suc_diff_Suc)
    ultimately show ?thesis using IH False by simp
  qed
qed auto

lemma nth_copy_within:
  "d \<le> s \<Longrightarrow> s + n \<le> length v \<Longrightarrow> i < length v \<Longrightarrow>
   copy_within v s n d ! i = (if d \<le> i \<and> i < d + n then v ! (s + (i - d)) else v ! i)"
proof (induction v s n d rule: copy_within.induct)
  case (2 v s n d)
  let ?v = "v[d := v ! s]"
  from 2 have IH: "copy_within ?v (Suc s) n (Suc d) ! i =
      (if Suc d \<le> i \<and> i < Suc d + n then ?v ! (Suc s + (i - Suc d)) else ?v ! i)"
    by simp
  show ?case
  proof (cases "i = d")
    case True
    with IH 2 show ?thesis by simp
  next
    case False
    then show ?thesis using IH 2 by (auto simp: Suc_diff_Suc nth_list_update)
  qed
qed auto

lemma nth_overwrite:
  "d + length xs \<le> length v \<Longrightarrow> i < length v \<Longrightarrow>
   overwrite v d xs ! i = (if d \<le> i \<and> i < d + length xs then xs ! (i - d) else v ! i)"
  by (auto simp: overwrite_def nth_append)

lemma copy_in_overwrite: "d + length xs \<le> length v \<Longrightarrow> copy_in v d xs = overwrite v d xs"
  by (rule nth_equalityI) (auto simp: nth_copy_in nth_overwrite)

text \<open>Copying towards the front is correct even when source and destination overlap.\<close>

lemma copy_within_overwrite:
  assumes "d \<le> s" "s + n \<le> length v"
  shows "copy_within v s n d = overwrite v d (take n (drop s v))"
  by (rule nth_equalityI) (use assms in \<open>auto simp: nth_copy_within nth_overwrite\<close>)

lemma take_drop_overwrite_same:
  "d + length xs \<le> length v \<Longrightarrow> take (length xs) (drop d (overwrite v d xs)) = xs"
  by (simp add: overwrite_def)

lemma take_drop_overwrite_before:
  "a + n \<le> d \<Longrightarrow> d + length xs \<le> length v \<Longrightarrow>
   take n (drop a (overwrite v d xs)) = take n (drop a v)"
  by (rule nth_equalityI) (auto simp: nth_overwrite)

lemma take_drop_overwrite_append:
  assumes "a \<le> d" "d + length xs \<le> length v"
  shows "take (d + length xs - a) (drop a (overwrite v d xs)) = take (d - a) (drop a v) @ xs"
proof (rule nth_equalityI)
  show "length (take (d + length xs - a) (drop a (overwrite v d xs)))
      = length (take (d - a) (drop a v) @ xs)"
    using assms by simp
next
  fix i
  assume "i < length (take (d + length xs - a) (drop a (overwrite v d xs)))"
  then show "take (d + length xs - a) (drop a (overwrite v d xs)) ! i
      = (take (d - a) (drop a v) @ xs) ! i"
    using assms by (auto simp: nth_overwrite nth_append add.commute)
qed

text \<open>\<open>std::vector::resize\<close> keeps a prefix and fills new elements with zero.\<close>

definition vec_resize :: "nat \<Rightarrow> 'a::zero list \<Rightarrow> 'a list" where
  "vec_resize n v = take n v @ replicate (n - length v) 0"

lemma length_vec_resize [simp]: "length (vec_resize n v) = n"
  by (simp add: vec_resize_def)

lemma take_drop_vec_resize:
  "a + k \<le> length v \<Longrightarrow> length v \<le> n \<Longrightarrow> take k (drop a (vec_resize n v)) = take k (drop a v)"
  by (simp add: vec_resize_def)

end
