(* ===== verification/Channel.thy ===== *)
theory Channel
  imports Prelude
begin

unbundle bit_operations_syntax

section \<open>Channels: Channel.h and Channel.cc\<close>

text \<open>
  A \<open>Channel\<close> binds one descriptor of one loop to four callbacks. Its event masks are 32-bit words;
  the mask constants are those of \<open>poll.h\<close> on Linux. The callback fields say whether the
  \<open>boost::function\<close> is non-empty. \<open>handleEvent\<close> is the list of callbacks it invokes, in order; the
  owner of the channel gives them their meaning. \<open>update\<close>, the call of \<open>EventLoop::updateChannel\<close>, is
  made by the caller of the mask operations in \<open>Poller\<close>.
\<close>

type_synonym event_mask = u32

definition POLLIN :: event_mask where "POLLIN = 1"

definition POLLPRI :: event_mask where "POLLPRI = 2"

definition POLLOUT :: event_mask where "POLLOUT = 4"

definition POLLERR :: event_mask where "POLLERR = 8"

definition POLLHUP :: event_mask where "POLLHUP = 16"

definition POLLNVAL :: event_mask where "POLLNVAL = 32"

definition POLLRDHUP :: event_mask where "POLLRDHUP = 8192"

definition kNoneEvent :: event_mask where
  "kNoneEvent = 0"

definition kReadEvent :: event_mask where
  "kReadEvent = POLLIN OR POLLPRI"

definition kWriteEvent :: event_mask where
  "kWriteEvent = POLLOUT"

lemmas poll_consts = POLLIN_def POLLPRI_def POLLOUT_def POLLERR_def POLLHUP_def POLLNVAL_def
  POLLRDHUP_def kNoneEvent_def kReadEvent_def kWriteEvent_def

record channel =
  owner :: nat
  fd :: int
  events :: event_mask
  revents :: event_mask
  index :: int
  eventHanding :: bool
  readCallback :: bool
  writeCallback :: bool
  errorCallback :: bool
  closeCallback :: bool

definition new_channel :: "nat \<Rightarrow> int \<Rightarrow> channel" where
  "new_channel loop sockfd = \<lparr>owner = loop, fd = sockfd, events = 0, revents = 0, index = -1,
     eventHanding = False, readCallback = False, writeCallback = False, errorCallback = False,
     closeCallback = False\<rparr>"

definition set_revents :: "event_mask \<Rightarrow> channel \<Rightarrow> channel" where
  "set_revents revt ch = ch\<lparr>revents := revt\<rparr>"

definition set_index :: "int \<Rightarrow> channel \<Rightarrow> channel" where
  "set_index idx ch = ch\<lparr>index := idx\<rparr>"

definition isNoneEvent :: "channel \<Rightarrow> bool" where
  "isNoneEvent ch \<longleftrightarrow> events ch = kNoneEvent"

definition isWriting :: "channel \<Rightarrow> bool" where
  "isWriting ch \<longleftrightarrow> events ch AND kWriteEvent \<noteq> 0"

definition enableReading :: "channel \<Rightarrow> channel" where
  "enableReading ch = ch\<lparr>events := events ch OR kReadEvent\<rparr>"

definition enableWriting :: "channel \<Rightarrow> channel" where
  "enableWriting ch = ch\<lparr>events := events ch OR kWriteEvent\<rparr>"

definition disableWriting :: "channel \<Rightarrow> channel" where
  "disableWriting ch = ch\<lparr>events := events ch AND NOT kWriteEvent\<rparr>"

definition disableAll :: "channel \<Rightarrow> channel" where
  "disableAll ch = ch\<lparr>events := kNoneEvent\<rparr>"

datatype event_call = ErrorCall | CloseCall | ReadCall | WriteCall

definition event_calls :: "channel \<Rightarrow> event_call list" where
  "event_calls ch =
     (if revents ch AND (POLLERR OR POLLNVAL) \<noteq> 0 \<and> errorCallback ch then [ErrorCall] else []) @
     (if revents ch AND POLLHUP \<noteq> 0 \<and> revents ch AND POLLIN = 0 \<and> closeCallback ch
      then [CloseCall] else []) @
     (if revents ch AND (POLLIN OR POLLPRI OR POLLRDHUP) \<noteq> 0 \<and> readCallback ch
      then [ReadCall] else []) @
     (if revents ch AND POLLOUT \<noteq> 0 \<and> writeCallback ch then [WriteCall] else [])"

text \<open>
  \<open>handleEvent\<close> runs the callbacks on the state of the channel's owner, which holds the channel
  itself (\<open>get_ch\<close> and \<open>put_ch\<close>). Only the poller writes \<open>revents_\<close> and no callback of the library replaces
  a callback of its channel, so the calls are fixed by the channel at the start. The flag
  \<open>eventHanding_\<close> is set for the duration, and the destructor asserts that it is not.
\<close>

definition handleEvent ::
  "('s \<Rightarrow> channel) \<Rightarrow> (channel \<Rightarrow> 's \<Rightarrow> 's) \<Rightarrow> (event_call \<Rightarrow> 's \<Rightarrow> 's result) \<Rightarrow> 's \<Rightarrow> 's result" where
  "handleEvent get_ch put_ch run s =
     and_then (for_each run (event_calls (get_ch s)) (put_ch ((get_ch s)\<lparr>eventHanding := True\<rparr>) s))
       (\<lambda>s'. Inr (put_ch ((get_ch s')\<lparr>eventHanding := False\<rparr>) s'))"

definition destroy_channel :: "channel \<Rightarrow> unit result" where
  "destroy_channel ch = require (\<not> eventHanding ch) (AssertionFailed ''!eventHanding_'') (Inr ())"

subsection \<open>Facts on the masks\<close>

lemma and_pow2_iff: "w AND (2 ^ n :: u32) \<noteq> 0 \<longleftrightarrow> bit w n"
  by (simp add: and_exp_eq_0_iff_not_bit)

lemma isWriting_bit: "isWriting ch \<longleftrightarrow> bit (events ch) 2"
  using and_pow2_iff [of "events ch" 2] by (simp add: isWriting_def poll_consts)

lemma isWriting_enableWriting [simp]: "isWriting (enableWriting ch)"
  by (simp add: isWriting_bit enableWriting_def poll_consts bit_simps)

lemma isWriting_disableWriting [simp]: "\<not> isWriting (disableWriting ch)"
  by (simp add: isWriting_bit disableWriting_def poll_consts bit_simps)

lemma isWriting_disableAll [simp]: "\<not> isWriting (disableAll ch)"
  by (simp add: isWriting_bit disableAll_def poll_consts)

lemma isWriting_enableReading [simp]: "isWriting (enableReading ch) = isWriting ch"
  by (simp add: isWriting_bit enableReading_def poll_consts bit_simps)

lemma isWriting_new_channel [simp]: "\<not> isWriting (new_channel loop sockfd)"
  by (simp add: isWriting_bit new_channel_def)

lemma isNoneEvent_disableAll [simp]: "isNoneEvent (disableAll ch)"
  by (simp add: isNoneEvent_def disableAll_def)

lemma fd_updates [simp]:
  "fd (enableReading ch) = fd ch" "fd (enableWriting ch) = fd ch" "fd (disableWriting ch) = fd ch"
  "fd (disableAll ch) = fd ch" "fd (set_index i ch) = fd ch" "fd (set_revents r ch) = fd ch"
  "index (enableReading ch) = index ch" "index (enableWriting ch) = index ch"
  "index (disableWriting ch) = index ch" "index (disableAll ch) = index ch"
  "index (set_index i ch) = i" "index (set_revents r ch) = index ch"
  by (simp_all add: enableReading_def enableWriting_def disableWriting_def disableAll_def
      set_index_def set_revents_def)

end
