(* ===== verification/Poller.thy ===== *)
theory Poller
  imports Channel
begin

section \<open>The poller: Poller.h and Poller.cc\<close>

text \<open>
  \<open>Poller\<close> keeps an array of \<open>pollfd\<close> slots and a map from descriptors to channels; each registered
  channel holds the index of its slot. A channel pointer is a number and \<open>store\<close> is the memory the
  pointers lead to, so that the index a channel stores can be changed through another channel's
  removal. The system call \<open>poll\<close> is a parameter: from the slots it is given it returns its result
  and the returned events of every slot. \<open>in_loop\<close> says whether the caller runs in the thread of the
  loop.

  \<open>poller_inv\<close> is the agreement of array, map and stored indices; every operation keeps it, and
  none of the assertions fails where the channel is registered as its caller believes.
\<close>

type_synonym ptr = nat

record pollfd =
  slot_fd :: int
  slot_events :: u16
  slot_revents :: u16

record poller =
  pollfds :: "pollfd list"
  channels :: "int \<Rightarrow> ptr option"
  store :: "ptr \<Rightarrow> channel option"

definition new_poller :: "(ptr \<Rightarrow> channel option) \<Rightarrow> poller" where
  "new_poller mem = \<lparr>pollfds = [], channels = Map.empty, store = mem\<rparr>"

text \<open>An ignored slot holds \<open>-fd - 1\<close>; \<open>decode_fd\<close> reads the descriptor of either form.\<close>

definition ignored_fd :: "int \<Rightarrow> int" where
  "ignored_fd f = - f - 1"

definition decode_fd :: "int \<Rightarrow> int" where
  "decode_fd f = (if f < 0 then - (f + 1) else f)"

definition assertInLoopThread :: "bool \<Rightarrow> 'a result \<Rightarrow> 'a result" where
  "assertInLoopThread in_loop k = require in_loop (Fatal ''EventLoop::abortNotInLoopThread'') k"

definition deref :: "poller \<Rightarrow> ptr \<Rightarrow> (channel \<Rightarrow> 'a result) \<Rightarrow> 'a result" where
  "deref s p k = (case store s p of None \<Rightarrow> Inl (NullDereference ''channel'') | Some ch \<Rightarrow> k ch)"

definition put_channel :: "ptr \<Rightarrow> channel \<Rightarrow> poller \<Rightarrow> poller" where
  "put_channel p ch s = s\<lparr>store := (store s)(p \<mapsto> ch)\<rparr>"

subsection \<open>Operations\<close>

definition updateChannel :: "bool \<Rightarrow> ptr \<Rightarrow> poller \<Rightarrow> poller result" where
  "updateChannel in_loop p s = assertInLoopThread in_loop (deref s p (\<lambda>ch.
     if index ch < 0 then
       require (channels s (fd ch) = None)
         (AssertionFailed ''channels_.find(channel->fd()) == channels_.end()'')
       (let pfd = \<lparr>slot_fd = fd ch, slot_events = ucast (events ch), slot_revents = 0\<rparr>;
            fds = pollfds s @ [pfd];
            idx = int (length fds) - 1
        in Inr (put_channel p (set_index idx ch)
             (s\<lparr>pollfds := fds, channels := (channels s)(fd ch \<mapsto> p)\<rparr>)))
     else
       require (channels s (fd ch) \<noteq> None)
         (AssertionFailed ''channels_.find(channel->fd()) != channels_.end()'')
      (require (channels s (fd ch) = Some p) (AssertionFailed ''channels_[channel->fd()] == channel'')
      (let idx = index ch in
       require (0 \<le> idx \<and> idx < int (length (pollfds s)))
         (AssertionFailed ''idx >= 0 && idx < static_cast<int>(pollfds_.size())'')
      (let pfd = pollfds s ! nat idx in
       require (slot_fd pfd = fd ch \<or> slot_fd pfd = ignored_fd (fd ch))
         (AssertionFailed ''pfd.fd == channel->fd() || pfd.fd == -channel->fd() - 1'')
      (let pfd' = pfd\<lparr>slot_events := ucast (events ch), slot_revents := 0\<rparr>;
           pfd'' = (if isNoneEvent ch then pfd'\<lparr>slot_fd := ignored_fd (fd ch)\<rparr> else pfd')
       in Inr (s\<lparr>pollfds := (pollfds s)[nat idx := pfd'']\<rparr>)))))))"

definition removeChannel :: "bool \<Rightarrow> ptr \<Rightarrow> poller \<Rightarrow> poller result" where
  "removeChannel in_loop p s = assertInLoopThread in_loop (deref s p (\<lambda>ch.
     require (channels s (fd ch) \<noteq> None)
       (AssertionFailed ''channels_.find(channel->fd()) != channels_.end()'')
    (require (channels s (fd ch) = Some p) (AssertionFailed ''channels_[channel->fd()] == channel'')
    (require (isNoneEvent ch) (AssertionFailed ''channel->isNoneEvent()'')
    (let idx = index ch in
     require (0 \<le> idx \<and> idx < int (length (pollfds s)))
       (AssertionFailed ''idx >= 0 && idx < static_cast<int>(pollfds_.size())'')
    (let pfd = pollfds s ! nat idx in
     require (slot_fd pfd = fd ch \<or> slot_fd pfd = ignored_fd (fd ch))
       (AssertionFailed ''pfd.fd == channel->fd() || pfd.fd == -channel->fd() - 1'')
    (let s1 = s\<lparr>channels := (channels s)(fd ch := None)\<rparr> in
     if nat idx = length (pollfds s) - 1 then
       Inr (s1\<lparr>pollfds := butlast (pollfds s)\<rparr>)
     else
      (let channelAtEnd = decode_fd (slot_fd (last (pollfds s)));
           s2 = s1\<lparr>pollfds := butlast ((pollfds s)[nat idx := last (pollfds s)])\<rparr>
       in case channels s2 channelAtEnd of
            None \<Rightarrow> Inl (NullDereference ''channels_[channelAtEnd]'')
          | Some q \<Rightarrow> deref s2 q (\<lambda>c. Inr (put_channel q (set_index idx c) s2))))))))))"

fun fillActiveChannels :: "int \<Rightarrow> pollfd list \<Rightarrow> poller \<Rightarrow> (ptr list \<times> poller) result" where
  "fillActiveChannels numEvents [] s = Inr ([], s)"
| "fillActiveChannels numEvents (it # its) s =
     (if 0 < numEvents then
        if 0 < sint (slot_revents it) then
          (case channels s (slot_fd it) of
             None \<Rightarrow> Inl (AssertionFailed ''ch != channels_.end()'')
           | Some p \<Rightarrow> deref s p (\<lambda>ch.
               require (fd ch = slot_fd it) (AssertionFailed ''channel->fd() == it->fd'')
                 (and_then (fillActiveChannels (numEvents - 1) its
                     (put_channel p (set_revents (scast (slot_revents it)) ch) s))
                   (\<lambda>(active, s'). Inr (p # active, s')))))
        else fillActiveChannels numEvents its s
      else Inr ([], s))"

text \<open>\<open>poll\<close> stores the returned events of the system call and collects the active channels.\<close>

definition store_revents :: "u16 list \<Rightarrow> pollfd list \<Rightarrow> pollfd list" where
  "store_revents rs fds = map2 (\<lambda>r pfd. pfd\<lparr>slot_revents := r\<rparr>) rs fds"

definition poll :: "(pollfd list \<Rightarrow> int \<times> u16 list) \<Rightarrow> poller \<Rightarrow> (ptr list \<times> poller) result" where
  "poll kernel_poll s =
     (let (numEvents, rs) = kernel_poll (pollfds s);
          s' = s\<lparr>pollfds := store_revents rs (pollfds s)\<rparr>
      in if 0 < numEvents then fillActiveChannels numEvents (pollfds s') s' else Inr ([], s'))"

subsection \<open>The agreement of slots, map and stored indices\<close>

definition slot_ok :: "poller \<Rightarrow> nat \<Rightarrow> bool" where
  "slot_ok s i \<longleftrightarrow>
     (case channels s (decode_fd (slot_fd (pollfds s ! i))) of
        None \<Rightarrow> False
      | Some p \<Rightarrow> (case store s p of
          None \<Rightarrow> False
        | Some ch \<Rightarrow> index ch = int i \<and> fd ch = decode_fd (slot_fd (pollfds s ! i))))"

definition poller_inv :: "poller \<Rightarrow> bool" where
  "poller_inv s \<longleftrightarrow>
     (\<forall>i < length (pollfds s). slot_ok s i) \<and>
     (\<forall>f p. channels s f = Some p \<longrightarrow>
        (\<exists>i < length (pollfds s). decode_fd (slot_fd (pollfds s ! i)) = f))"

text \<open>A channel is registered when the map leads from its descriptor to it.\<close>

definition registered :: "poller \<Rightarrow> ptr \<Rightarrow> bool" where
  "registered s p \<longleftrightarrow> (case store s p of None \<Rightarrow> False | Some ch \<Rightarrow> channels s (fd ch) = Some p)"

lemma decode_ignored [simp]: "0 \<le> f \<Longrightarrow> decode_fd (ignored_fd f) = f"
  by (simp add: decode_fd_def ignored_fd_def)

lemma decode_nonneg [simp]: "0 \<le> f \<Longrightarrow> decode_fd f = f" and decode_fd_ge_0 [simp]: "0 \<le> decode_fd g"
  by (simp_all add: decode_fd_def)

lemma decode_fd_eq_iff: "decode_fd g = f \<longleftrightarrow> 0 \<le> f \<and> (g = f \<or> g = ignored_fd f)"
  by (auto simp: decode_fd_def ignored_fd_def)

lemma poller_inv_new [simp]: "poller_inv (new_poller mem)"
  by (simp add: poller_inv_def new_poller_def)

lemma slot_ok_iff: "slot_ok s i \<longleftrightarrow>
  (\<exists>p ch. channels s (decode_fd (slot_fd (pollfds s ! i))) = Some p \<and> store s p = Some ch \<and>
     index ch = int i \<and> fd ch = decode_fd (slot_fd (pollfds s ! i)))"
  by (auto simp: slot_ok_def split: option.splits)

lemma slot_okD:
  assumes "slot_ok s i"
  obtains p ch where "channels s (decode_fd (slot_fd (pollfds s ! i))) = Some p" "store s p = Some ch"
    "index ch = int i" "fd ch = decode_fd (slot_fd (pollfds s ! i))"
  using assms by (auto simp: slot_ok_def split: option.splits)

text \<open>What the invariant says of one registered channel.\<close>

lemma registered_slot:
  assumes inv: "poller_inv s" and st: "store s p = Some ch" and m: "channels s (fd ch) = Some p"
  shows "0 \<le> index ch" "nat (index ch) < length (pollfds s)"
    "decode_fd (slot_fd (pollfds s ! nat (index ch))) = fd ch" "0 \<le> fd ch"
proof -
  obtain i where i: "i < length (pollfds s)" "decode_fd (slot_fd (pollfds s ! i)) = fd ch"
    using inv m by (auto simp: poller_inv_def)
  have "slot_ok s i" using inv i(1) by (simp add: poller_inv_def)
  then have "index ch = int i" using i(2) st m by (auto elim!: slot_okD)
  with i show "0 \<le> index ch" "nat (index ch) < length (pollfds s)"
    "decode_fd (slot_fd (pollfds s ! nat (index ch))) = fd ch" by simp_all
  show "0 \<le> fd ch" using i(2) [symmetric] by simp
qed

lemma slots_distinct:
  assumes "poller_inv s" "i < length (pollfds s)" "j < length (pollfds s)"
    and "decode_fd (slot_fd (pollfds s ! i)) = decode_fd (slot_fd (pollfds s ! j))"
  shows "i = j"
proof -
  have "slot_ok s i" "slot_ok s j" using assms(1-3) by (simp_all add: poller_inv_def)
  then obtain p ch q c where i: "channels s (decode_fd (slot_fd (pollfds s ! i))) = Some p"
      "store s p = Some ch" "index ch = int i"
    and j: "channels s (decode_fd (slot_fd (pollfds s ! j))) = Some q" "store s q = Some c" "index c = int j"
    by (elim slot_okD) (rule that)
  have "p = q" using i(1) j(1) by (simp only: assms(4) option.inject)
  then have "ch = c" using i(2) j(2) by simp
  then show ?thesis using i(3) j(3) by simp
qed

lemma map_channel:
  assumes "poller_inv s" and "channels s f = Some p"
  obtains ch where "store s p = Some ch" "fd ch = f" "registered s p"
proof -
  obtain i where i: "i < length (pollfds s)" "decode_fd (slot_fd (pollfds s ! i)) = f"
    using assms by (auto simp: poller_inv_def)
  have "slot_ok s i" using assms(1) i(1) by (simp add: poller_inv_def)
  with i(2) assms(2) obtain ch where "store s p = Some ch" "fd ch = f" by (auto elim!: slot_okD)
  with assms(2) that show thesis by (simp add: registered_def)
qed

subsection \<open>Every operation keeps the agreement\<close>

lemma slot_ok_frame:
  assumes "slot_ok s i" and "pollfds s' ! i = pollfds s ! i"
    and "channels s' (decode_fd (slot_fd (pollfds s ! i))) = channels s (decode_fd (slot_fd (pollfds s ! i)))"
    and "\<And>p ch. store s p = Some ch \<Longrightarrow> index ch = int i \<Longrightarrow> store s' p = Some ch"
  shows "slot_ok s' i"
  using assms by (auto simp: slot_ok_def split: option.splits)

lemma updateChannel_add:
  assumes inv: "poller_inv s" and st: "store s p = Some ch" and new: "index ch < 0"
    and free: "channels s (fd ch) = None" and pos: "0 \<le> fd ch"
  defines "n \<equiv> length (pollfds s)"
  defines "s' \<equiv> put_channel p (set_index (int n) ch) (s\<lparr>pollfds := pollfds s @
      [\<lparr>slot_fd = fd ch, slot_events = ucast (events ch), slot_revents = 0\<rparr>],
      channels := (channels s)(fd ch \<mapsto> p)\<rparr>)"
  shows "updateChannel True p s = Inr s'" and "poller_inv s'"
proof -
  show "updateChannel True p s = Inr s'"
    using assms by (simp add: updateChannel_def assertInLoopThread_def deref_def Let_def)
  have old: "slot_ok s' i" if i: "i < n" for i
  proof (rule slot_ok_frame)
    show ok: "slot_ok s i" using inv i by (simp add: poller_inv_def n_def)
    show "pollfds s' ! i = pollfds s ! i" using i by (simp add: s'_def put_channel_def nth_append n_def)
    show "channels s' (decode_fd (slot_fd (pollfds s ! i))) = channels s (decode_fd (slot_fd (pollfds s ! i)))"
      using ok free by (auto simp: s'_def put_channel_def elim!: slot_okD)
    show "store s' q = Some c" if "store s q = Some c" "index c = int i" for q c
      using that st new by (auto simp: s'_def put_channel_def)
  qed
  have last: "slot_ok s' n"
    using pos by (simp add: slot_ok_def s'_def put_channel_def n_def nth_append)
  have "\<exists>i < Suc n. decode_fd (slot_fd (pollfds s' ! i)) = f" if "channels s' f = Some q" for f q
  proof (cases "f = fd ch")
    case True
    then show ?thesis using pos by (intro exI [of _ n]) (simp add: s'_def put_channel_def n_def)
  next
    case False
    then have "channels s f = Some q" using that by (simp add: s'_def put_channel_def)
    then obtain i where "i < n" "decode_fd (slot_fd (pollfds s ! i)) = f"
      using inv by (auto simp: poller_inv_def n_def)
    then show ?thesis by (intro exI [of _ i]) (simp add: s'_def put_channel_def nth_append n_def)
  qed
  moreover have "length (pollfds s') = Suc n" by (simp add: s'_def put_channel_def n_def)
  ultimately show "poller_inv s'" using old last by (auto simp: poller_inv_def less_Suc_eq)
qed

lemma updateChannel_change:
  assumes inv: "poller_inv s" and st: "store s p = Some ch" and m: "channels s (fd ch) = Some p"
  defines "i \<equiv> nat (index ch)"
  defines "e \<equiv> (pollfds s ! i)\<lparr>slot_events := ucast (events ch), slot_revents := 0\<rparr>"
  defines "s' \<equiv> s\<lparr>pollfds := (pollfds s)[i := (if isNoneEvent ch then e\<lparr>slot_fd := ignored_fd (fd ch)\<rparr> else e)]\<rparr>"
  shows "updateChannel True p s = Inr s'" and "poller_inv s'"
proof -
  note r = registered_slot [OF inv st m]
  have dec: "slot_fd (pollfds s ! i) = fd ch \<or> slot_fd (pollfds s ! i) = ignored_fd (fd ch)"
    using r(3) by (simp add: decode_fd_eq_iff i_def)
  show "updateChannel True p s = Inr s'"
    using r dec st m
    by (simp add: updateChannel_def assertInLoopThread_def deref_def Let_def s'_def i_def e_def)
  have same: "decode_fd (slot_fd (pollfds s' ! j)) = decode_fd (slot_fd (pollfds s ! j))"
    if "j < length (pollfds s)" for j
    using that r by (cases "j = i") (simp_all add: s'_def e_def i_def)
  have len: "length (pollfds s') = length (pollfds s)" by (simp add: s'_def)
  have "slot_ok s' j" if j: "j < length (pollfds s)" for j
  proof -
    have "slot_ok s j" using inv j by (simp add: poller_inv_def)
    moreover have "channels s' = channels s" "store s' = store s" by (simp_all add: s'_def)
    ultimately show ?thesis using same [OF j] by (simp add: slot_ok_iff)
  qed
  moreover have "\<exists>j < length (pollfds s'). decode_fd (slot_fd (pollfds s' ! j)) = f"
    if "channels s' f = Some q" for f q
  proof -
    have "channels s f = Some q" using that by (simp add: s'_def)
    then obtain j where "j < length (pollfds s)" "decode_fd (slot_fd (pollfds s ! j)) = f"
      using inv by (auto simp: poller_inv_def)
    then show ?thesis using same len by auto
  qed
  ultimately show "poller_inv s'" using len by (simp add: poller_inv_def)
qed

text \<open>Removing a slot that is not the last moves the last slot into its place.\<close>

lemma removeChannel_ok:
  assumes inv: "poller_inv s" and st: "store s p = Some ch" and m: "channels s (fd ch) = Some p"
    and none: "isNoneEvent ch"
  shows "\<exists>s'. removeChannel True p s = Inr s' \<and> poller_inv s' \<and>
    channels s' = (channels s)(fd ch := None) \<and> store s' p = Some ch \<and>
    Suc (length (pollfds s')) = length (pollfds s) \<and>
    (\<forall>q c. q \<noteq> p \<longrightarrow> store s q = Some c \<longrightarrow>
       (\<exists>k. store s' q = Some (c\<lparr>index := k\<rparr>))) \<and>
    (\<forall>q c. store s q = Some c \<longrightarrow> channels s (fd c) \<noteq> Some q \<longrightarrow> store s' q = Some c)"
proof -
  let ?n = "length (pollfds s)" and ?i = "nat (index ch)"
  note r = registered_slot [OF inv st m]
  have dec: "slot_fd (pollfds s ! ?i) = fd ch \<or> slot_fd (pollfds s ! ?i) = ignored_fd (fd ch)"
    using r(3) by (simp add: decode_fd_eq_iff)
  let ?m = "(channels s)(fd ch := None)"
  have other: "decode_fd (slot_fd (pollfds s ! j)) \<noteq> fd ch" if "j < ?n" "j \<noteq> ?i" for j
    using slots_distinct [OF inv that(1) r(2)] that r(3) by metis
  have ok: "slot_ok s j" if "j < ?n" for j using inv that by (simp add: poller_inv_def)
  have in_map: "\<exists>j < ?n. j \<noteq> ?i \<and> decode_fd (slot_fd (pollfds s ! j)) = f" if f: "?m f = Some q" for f q
  proof -
    have "channels s f = Some q" "f \<noteq> fd ch" using f by (auto split: if_splits)
    then obtain j where "j < ?n" "decode_fd (slot_fd (pollfds s ! j)) = f"
      using inv by (auto simp: poller_inv_def)
    with r(3) \<open>f \<noteq> fd ch\<close> show ?thesis by auto
  qed
  show ?thesis
  proof (cases "?i = ?n - 1")
    case True
    let ?s = "s\<lparr>channels := ?m, pollfds := butlast (pollfds s)\<rparr>"
    have step: "removeChannel True p s = Inr ?s"
      using r dec st m none True
      by (simp add: removeChannel_def assertInLoopThread_def deref_def Let_def)
    have "slot_ok ?s j" if j: "j < ?n - 1" for j
    proof (rule slot_ok_frame)
      show "slot_ok s j" using ok j by simp
      show "pollfds ?s ! j = pollfds s ! j" using j by (simp add: nth_butlast)
      show "channels ?s (decode_fd (slot_fd (pollfds s ! j))) = channels s (decode_fd (slot_fd (pollfds s ! j)))"
        using other [of j] j True by simp
    qed simp
    moreover have "\<exists>j < ?n - 1. decode_fd (slot_fd (pollfds ?s ! j)) = f" if f: "?m f = Some q" for f q
    proof -
      obtain j where "j < ?n" "j \<noteq> ?i" "decode_fd (slot_fd (pollfds s ! j)) = f" using in_map [OF f] by blast
      with True show ?thesis by (intro exI [of _ j]) (simp add: nth_butlast)
    qed
    ultimately have "poller_inv ?s" by (simp add: poller_inv_def)
    moreover have "\<exists>k. c = c\<lparr>index := k\<rparr>" for c :: channel by (rule exI [of _ "index c"]) simp
    ultimately show ?thesis using step st r(2) by (intro exI [of _ ?s]) auto
  next
    case False
    then have lt: "?i < ?n - 1" using r(2) by simp
    let ?last = "last (pollfds s)"
    have last: "?last = pollfds s ! (?n - 1)" using lt by (intro last_conv_nth) auto
    have "slot_ok s (?n - 1)" using lt by (intro ok) simp
    then obtain q c where q: "channels s (decode_fd (slot_fd ?last)) = Some q" "store s q = Some c"
        "index c = int (?n - 1)" "fd c = decode_fd (slot_fd ?last)"
      unfolding last by (elim slot_okD)
    have fq: "decode_fd (slot_fd ?last) \<noteq> fd ch" using other [of "?n - 1"] lt unfolding last by simp
    have qp: "q \<noteq> p" using q st r lt by auto
    let ?fds = "butlast ((pollfds s)[?i := ?last])"
    let ?s = "put_channel q (set_index (index ch) c) (s\<lparr>channels := ?m, pollfds := ?fds\<rparr>)"
    have step: "removeChannel True p s = Inr ?s"
      using r dec st m none False fq q(1,2)
      by (simp add: removeChannel_def assertInLoopThread_def deref_def Let_def)
    have nth: "?fds ! j = (if j = ?i then ?last else pollfds s ! j)" if "j < ?n - 1" for j
      using that by (simp add: nth_butlast nth_list_update)
    have "slot_ok ?s j" if j: "j < ?n - 1" for j
    proof (cases "j = ?i")
      case True
      then show ?thesis using q fq r(1) nth [OF j] by (simp add: slot_ok_def put_channel_def)
    next
      case ne: False
      show ?thesis
      proof (rule slot_ok_frame)
        show "slot_ok s j" using ok j by simp
        show "pollfds ?s ! j = pollfds s ! j" using nth [OF j] ne by (simp add: put_channel_def)
        show "channels ?s (decode_fd (slot_fd (pollfds s ! j))) = channels s (decode_fd (slot_fd (pollfds s ! j)))"
          using other [of j] j ne by (simp add: put_channel_def)
        show "store ?s x = Some y" if "store s x = Some y" "index y = int j" for x y
          using that q j by (auto simp: put_channel_def)
      qed
    qed
    moreover have "\<exists>j < ?n - 1. decode_fd (slot_fd (?fds ! j)) = f" if f: "?m f = Some x" for f x
    proof -
      obtain j where j: "j < ?n" "j \<noteq> ?i" "decode_fd (slot_fd (pollfds s ! j)) = f" using in_map [OF f] by blast
      show ?thesis
      proof (cases "j = ?n - 1")
        case True
        then show ?thesis using j(3) lt nth [of ?i] last by (intro exI [of _ ?i]) simp
      next
        case False
        then show ?thesis using j nth [of j] by (intro exI [of _ j]) simp
      qed
    qed
    ultimately have "poller_inv ?s" by (simp add: poller_inv_def put_channel_def)
    moreover have "\<exists>k. store ?s x = Some (y\<lparr>index := k\<rparr>)" if "store s x = Some y" for x y
      using that q(2) by (cases "x = q") (auto simp: put_channel_def set_index_def intro: exI [of _ "index y"])
    moreover have "store ?s x = Some y" if "store s x = Some y" "channels s (fd y) \<noteq> Some x" for x y
      using that q by (auto simp: put_channel_def)
    ultimately show ?thesis using step st r(2) qp
      by (intro exI [of _ ?s]) (simp add: put_channel_def)
  qed
qed

subsection \<open>Collecting the active channels\<close>

definition active_slot :: "pollfd \<Rightarrow> bool" where
  "active_slot it \<longleftrightarrow> 0 < sint (slot_revents it)"

definition slot_channel :: "poller \<Rightarrow> pollfd \<Rightarrow> ptr" where
  "slot_channel s it = (case channels s (slot_fd it) of None \<Rightarrow> 0 | Some p \<Rightarrow> p)"

text \<open>
  What \<open>poll(2)\<close> documents: the returned events of every slot, none negative as a \<open>short\<close>, none in
  a slot with a negative descriptor, and as result the number of slots with returned events.
\<close>

definition poll_reply_ok :: "pollfd list \<Rightarrow> int \<times> u16 list \<Rightarrow> bool" where
  "poll_reply_ok fds reply \<longleftrightarrow> length (snd reply) = length fds \<and>
     (0 < fst reply \<longrightarrow> fst reply = int (length (filter (\<lambda>r. 0 < sint r) (snd reply))) \<and>
       (\<forall>i < length fds. slot_fd (fds ! i) < 0 \<longrightarrow> snd reply ! i = 0))"

definition only_revents :: "(ptr \<Rightarrow> channel option) \<Rightarrow> (ptr \<Rightarrow> channel option) \<Rightarrow> bool" where
  "only_revents mem mem' \<longleftrightarrow>
     (\<forall>q. case mem q of None \<Rightarrow> mem' q = None | Some c \<Rightarrow> \<exists>r. mem' q = Some (c\<lparr>revents := r\<rparr>))"

lemma only_revents_refl [simp]: "only_revents mem mem"
proof -
  have "\<exists>r. c = c\<lparr>revents := r\<rparr>" for c :: channel by (rule exI [of _ "revents c"]) simp
  then show ?thesis by (simp add: only_revents_def split: option.split)
qed

lemma only_revents_upd:
  assumes "mem p = Some c" and "only_revents (mem(p \<mapsto> c\<lparr>revents := r\<rparr>)) mem'"
  shows "only_revents mem mem'"
  unfolding only_revents_def
proof
  fix q
  show "case mem q of None \<Rightarrow> mem' q = None | Some c \<Rightarrow> \<exists>r. mem' q = Some (c\<lparr>revents := r\<rparr>)"
    using assms(1) assms(2) [unfolded only_revents_def, THEN spec, of q]
    by (cases "q = p") (auto split: option.splits)
qed

lemma only_revents_Some:
  "only_revents mem mem' \<Longrightarrow> mem q = Some c \<Longrightarrow> \<exists>r. mem' q = Some (c\<lparr>revents := r\<rparr>)"
  unfolding only_revents_def by (drule spec [of _ q]) simp

lemma fillActiveChannels_ok:
  assumes "\<forall>it \<in> set its. active_slot it \<longrightarrow>
      (\<exists>p ch. channels s (slot_fd it) = Some p \<and> store s p = Some ch \<and> fd ch = slot_fd it)"
    and "n = int (length (filter active_slot its))"
  shows "\<exists>mem. fillActiveChannels n its s
      = Inr (map (slot_channel s) (filter active_slot its), s\<lparr>store := mem\<rparr>) \<and>
    only_revents (store s) mem \<and>
    (\<forall>q c. store s q = Some c \<longrightarrow> fd c \<notin> slot_fd ` set (filter active_slot its) \<longrightarrow> mem q = Some c) \<and>
    (distinct (map slot_fd (filter active_slot its)) \<longrightarrow>
      (\<forall>it \<in> set its. active_slot it \<longrightarrow>
        (\<exists>c. mem (slot_channel s it) = Some c \<and> revents c = scast (slot_revents it))))"
  using assms
proof (induction its arbitrary: n s)
  case Nil
  show ?case by (rule exI [of _ "store s"]) simp
next
  case (Cons it its)
  show ?case
  proof (cases "active_slot it")
    case False
    then have n: "n = int (length (filter active_slot its))" using Cons.prems(2) by simp
    show ?thesis
    proof (cases "0 < n")
      case True
      then have "fillActiveChannels n (it # its) s = fillActiveChannels n its s"
        using False by (simp add: active_slot_def)
      with Cons.IH [of s n] Cons.prems(1) n False show ?thesis by auto
    next
      case none: False
      then have "filter active_slot (it # its) = []" using n False by simp
      moreover have "fillActiveChannels n (it # its) s = Inr ([], s\<lparr>store := store s\<rparr>)" using none by simp
      moreover have "\<forall>x \<in> set (it # its). \<not> active_slot x"
        using n none False by (auto simp: filter_empty_conv)
      ultimately show ?thesis by (intro exI [of _ "store s"]) simp
    qed
  next
    case True
    then obtain p ch where p: "channels s (slot_fd it) = Some p" "store s p = Some ch" "fd ch = slot_fd it"
      using Cons.prems(1) by auto
    let ?s = "put_channel p (set_revents (scast (slot_revents it)) ch) s"
    have ch: "channels ?s = channels s" by (simp add: put_channel_def)
    have ch': "slot_channel ?s = slot_channel s" by (simp add: slot_channel_def fun_eq_iff ch)
    have "\<forall>x \<in> set its. active_slot x \<longrightarrow>
      (\<exists>p ch. channels ?s (slot_fd x) = Some p \<and> store ?s p = Some ch \<and> fd ch = slot_fd x)"
    proof (intro ballI impI)
      fix x
      assume "x \<in> set its" "active_slot x"
      then obtain q c where "channels s (slot_fd x) = Some q" "store s q = Some c" "fd c = slot_fd x"
        using Cons.prems(1) by auto
      then show "\<exists>p ch. channels ?s (slot_fd x) = Some p \<and> store ?s p = Some ch \<and> fd ch = slot_fd x"
        using p by (cases "q = p") (auto simp: put_channel_def)
    qed
    moreover have "n - 1 = int (length (filter active_slot its))" using Cons.prems(2) True by simp
    ultimately obtain mem where mem: "fillActiveChannels (n - 1) its ?s
        = Inr (map (slot_channel ?s) (filter active_slot its), ?s\<lparr>store := mem\<rparr>)"
      "only_revents (store ?s) mem"
      "\<forall>q c. store ?s q = Some c \<longrightarrow> fd c \<notin> slot_fd ` set (filter active_slot its) \<longrightarrow> mem q = Some c"
      "distinct (map slot_fd (filter active_slot its)) \<longrightarrow>
        (\<forall>it \<in> set its. active_slot it \<longrightarrow>
          (\<exists>c. mem (slot_channel ?s it) = Some c \<and> revents c = scast (slot_revents it)))"
      using Cons.IH [of ?s "n - 1"] by blast
    have "0 < n" using Cons.prems(2) True by simp
    then have step: "fillActiveChannels n (it # its) s
        = Inr (map (slot_channel s) (filter active_slot (it # its)), s\<lparr>store := mem\<rparr>)"
      using True p mem(1) ch'
      by (simp add: active_slot_def deref_def slot_channel_def [of s it]) (simp add: put_channel_def)
    have st: "store ?s = (store s)(p \<mapsto> ch\<lparr>revents := scast (slot_revents it)\<rparr>)"
      by (simp add: put_channel_def set_revents_def)
    have "only_revents (store s) mem" using p(2) mem(2) unfolding st by (rule only_revents_upd)
    moreover have "mem q = Some c"
      if "store s q = Some c" "fd c \<notin> slot_fd ` set (filter active_slot (it # its))" for q c
    proof -
      have "q \<noteq> p" using that p True by auto
      then show ?thesis using that mem(3) [rule_format, of q c] True by (simp add: st)
    qed
    moreover have "\<exists>c. mem (slot_channel s x) = Some c \<and> revents c = scast (slot_revents x)"
      if "distinct (map slot_fd (filter active_slot (it # its)))" "x \<in> set (it # its)" "active_slot x" for x
    proof (cases "x = it")
      case x: True
      have "fd (ch\<lparr>revents := scast (slot_revents it)\<rparr>) \<notin> slot_fd ` set (filter active_slot its)"
        using that(1) True p(3) by simp
      with mem(3) have "mem p = Some (ch\<lparr>revents := scast (slot_revents it)\<rparr>)" by (simp add: st)
      with x p(1) show ?thesis by (simp add: slot_channel_def)
    next
      case False
      with that True mem(4) ch' show ?thesis by simp
    qed
    ultimately show ?thesis using step by blast
  qed
qed

lemma poller_inv_only_revents:
  assumes inv: "poller_inv s" and mem: "only_revents (store s) mem"
    and len: "length fds = length (pollfds s)"
    and same: "\<And>i. i < length fds \<Longrightarrow> slot_fd (fds ! i) = slot_fd (pollfds s ! i)"
  shows "poller_inv (s\<lparr>pollfds := fds, store := mem\<rparr>)"
proof -
  have "slot_ok (s\<lparr>pollfds := fds, store := mem\<rparr>) i" if i: "i < length fds" for i
  proof -
    have "slot_ok s i" using inv i len by (simp add: poller_inv_def)
    then obtain p ch where "channels s (decode_fd (slot_fd (pollfds s ! i))) = Some p" "store s p = Some ch"
        "index ch = int i" "fd ch = decode_fd (slot_fd (pollfds s ! i))" by (elim slot_okD)
    with only_revents_Some [OF mem, of p ch] same [OF i] show ?thesis by (auto simp: slot_ok_iff)
  qed
  moreover have "\<exists>i < length fds. decode_fd (slot_fd (fds ! i)) = f" if "channels s f = Some p" for f p
    using inv that len same unfolding poller_inv_def by metis
  ultimately show ?thesis by (simp add: poller_inv_def)
qed

lemma filter_active_store_revents:
  assumes "length rs = length fds"
  shows "length (filter active_slot (store_revents rs fds)) = length (filter (\<lambda>r. 0 < sint r) rs)"
  using assms
proof (induction rs fds rule: list_induct2)
  case (Cons r rs f fds)
  then show ?case by (simp add: store_revents_def active_slot_def)
qed (simp add: store_revents_def)

lemma poll_ok:
  assumes inv: "poller_inv s" and reply: "poll_reply_ok (pollfds s) (kernel_poll (pollfds s))"
  defines "rs \<equiv> snd (kernel_poll (pollfds s))"
  defines "fds \<equiv> store_revents rs (pollfds s)"
  shows "\<exists>active s'. poll kernel_poll s = Inr (active, s') \<and> poller_inv s' \<and>
    channels s' = channels s \<and> only_revents (store s) (store s') \<and>
    active = (if 0 < fst (kernel_poll (pollfds s)) then map (slot_channel s) (filter active_slot fds) else []) \<and>
    (0 < fst (kernel_poll (pollfds s)) \<longrightarrow> (\<forall>i < length fds. active_slot (fds ! i) \<longrightarrow>
      (\<exists>p c. channels s (slot_fd (pollfds s ! i)) = Some p \<and> store s' p = Some c \<and>
        fd c = slot_fd (pollfds s ! i) \<and> revents c = scast (rs ! i))))"
proof -
  obtain n where k: "kernel_poll (pollfds s) = (n, rs)" unfolding rs_def by (metis prod.collapse)
  have len: "length rs = length (pollfds s)" using reply k by (simp add: poll_reply_ok_def)
  have lf: "length fds = length (pollfds s)" using len by (simp add: fds_def store_revents_def)
  have nth: "slot_fd (fds ! i) = slot_fd (pollfds s ! i)" "slot_revents (fds ! i) = rs ! i"
    if "i < length fds" for i
    using that len by (simp_all add: fds_def store_revents_def)
  let ?s = "s\<lparr>pollfds := fds\<rparr>"
  show ?thesis
  proof (cases "0 < n")
    case False
    have "poller_inv (s\<lparr>pollfds := fds, store := store s\<rparr>)"
      using inv lf nth(1) by (intro poller_inv_only_revents) simp_all
    moreover have "poll kernel_poll s = Inr ([], ?s)" using False k by (simp add: poll_def fds_def)
    ultimately show ?thesis using False k by (intro exI [of _ "[]"] exI [of _ ?s]) simp
  next
    case True
    have act: "\<exists>p ch. channels s (slot_fd (fds ! i)) = Some p \<and> store s p = Some ch \<and> fd ch = slot_fd (fds ! i)"
      if i: "i < length fds" "active_slot (fds ! i)" for i
    proof -
      have "rs ! i \<noteq> 0" using i nth by (auto simp: active_slot_def)
      then have pos: "0 \<le> slot_fd (pollfds s ! i)"
        using reply True k i lf by (force simp: poll_reply_ok_def)
      have "slot_ok s i" using inv i lf by (simp add: poller_inv_def)
      with pos nth(1) [OF i(1)] show ?thesis by (elim slot_okD) simp
    qed
    have hyp: "\<forall>it \<in> set fds. active_slot it \<longrightarrow>
      (\<exists>p ch. channels ?s (slot_fd it) = Some p \<and> store ?s p = Some ch \<and> fd ch = slot_fd it)"
      using act by (auto simp: in_set_conv_nth)
    have cnt: "n = int (length (filter active_slot fds))"
      using reply True k filter_active_store_revents [OF len] by (simp add: poll_reply_ok_def fds_def)
    have inj: "distinct (map slot_fd (filter active_slot fds))"
    proof -
      have "distinct (map slot_fd fds)"
        unfolding distinct_conv_nth
      proof (intro allI impI)
        fix i j
        assume "i < length (map slot_fd fds)" "j < length (map slot_fd fds)" "i \<noteq> j"
        then show "map slot_fd fds ! i \<noteq> map slot_fd fds ! j"
          using slots_distinct [OF inv, of i j] lf nth(1) by auto
      qed
      then show ?thesis by (rule distinct_map_filter)
    qed
    obtain mem where mem: "fillActiveChannels n fds ?s
        = Inr (map (slot_channel ?s) (filter active_slot fds), ?s\<lparr>store := mem\<rparr>)"
      "only_revents (store ?s) mem"
      "\<forall>it \<in> set fds. active_slot it \<longrightarrow>
        (\<exists>c. mem (slot_channel ?s it) = Some c \<and> revents c = scast (slot_revents it))"
      using fillActiveChannels_ok [OF hyp cnt] inj by blast
    have sc: "slot_channel ?s = slot_channel s" by (simp add: slot_channel_def fun_eq_iff)
    have "\<exists>p c. channels s (slot_fd (pollfds s ! i)) = Some p \<and> mem p = Some c \<and>
        fd c = slot_fd (pollfds s ! i) \<and> revents c = scast (rs ! i)"
      if i: "i < length fds" "active_slot (fds ! i)" for i
    proof -
      obtain p ch where p: "channels s (slot_fd (fds ! i)) = Some p" "store s p = Some ch" "fd ch = slot_fd (fds ! i)"
        using act [OF i] by blast
      have "fds ! i \<in> set fds" using i(1) by simp
      with i(2) mem(3) obtain c where "mem (slot_channel ?s (fds ! i)) = Some c"
          "revents c = scast (slot_revents (fds ! i))" by blast
      moreover have "slot_channel ?s (fds ! i) = p" using p(1) by (simp add: slot_channel_def)
      moreover obtain r where "mem p = Some (ch\<lparr>revents := r\<rparr>)"
        using only_revents_Some [OF mem(2), of p ch] p(2) by auto
      ultimately show ?thesis using p nth [OF i(1)] by auto
    qed
    moreover have "poller_inv (s\<lparr>pollfds := fds, store := mem\<rparr>)"
      using inv mem(2) lf nth(1) by (intro poller_inv_only_revents) simp_all
    moreover have "poll kernel_poll s = Inr (map (slot_channel s) (filter active_slot fds), ?s\<lparr>store := mem\<rparr>)"
      using True k mem(1) sc by (simp add: poll_def fds_def)
    ultimately show ?thesis using True k mem(2)
      by (intro exI [of _ "map (slot_channel s) (filter active_slot fds)"] exI [of _ "?s\<lparr>store := mem\<rparr>"]) simp
  qed
qed

text \<open>Changing other fields of a channel than its descriptor and index keeps the agreement.\<close>

lemma poller_inv_put_channel:
  assumes inv: "poller_inv s" and st: "store s p = Some ch" and same: "fd ch' = fd ch" "index ch' = index ch"
  shows "poller_inv (put_channel p ch' s)"
proof -
  have "slot_ok (put_channel p ch' s) i" if "i < length (pollfds s)" for i
  proof -
    have "slot_ok s i" using inv that by (simp add: poller_inv_def)
    then obtain q c where "channels s (decode_fd (slot_fd (pollfds s ! i))) = Some q" "store s q = Some c"
        "index c = int i" "fd c = decode_fd (slot_fd (pollfds s ! i))" by (elim slot_okD)
    with st same show ?thesis by (cases "q = p") (auto simp: slot_ok_iff put_channel_def)
  qed
  with inv show ?thesis by (simp add: poller_inv_def put_channel_def)
qed

lemma ignored_not_active:
  assumes inv: "poller_inv s" and st: "store s p = Some ch" and m: "channels s (fd ch) = Some p"
    and ign: "slot_fd (pollfds s ! nat (index ch)) < 0"
    and reply: "poll_reply_ok (pollfds s) (kernel_poll (pollfds s))"
  shows "\<exists>active s'. poll kernel_poll s = Inr (active, s') \<and> p \<notin> set active"
proof -
  let ?k = "kernel_poll (pollfds s)"
  let ?fds = "store_revents (snd ?k) (pollfds s)"
  obtain active s' where a: "poll kernel_poll s = Inr (active, s')"
      "active = (if 0 < fst ?k then map (slot_channel s) (filter active_slot ?fds) else [])"
    using poll_ok [OF inv, of kernel_poll, OF reply] by blast
  note r = registered_slot [OF inv st m]
  have len: "length ?fds = length (pollfds s)"
    using reply by (simp add: poll_reply_ok_def store_revents_def)
  have "slot_channel s it \<noteq> p" if it: "it \<in> set ?fds" "active_slot it" "0 < fst ?k" for it
  proof -
    obtain i where i: "i < length ?fds" "it = ?fds ! i" using it(1) by (auto simp: in_set_conv_nth)
    have n: "slot_fd it = slot_fd (pollfds s ! i)" "slot_revents it = snd ?k ! i"
      using i len reply by (simp_all add: store_revents_def poll_reply_ok_def)
    have nz: "snd ?k ! i \<noteq> 0" using it(2) n by (auto simp: active_slot_def)
    then have "0 \<le> slot_fd (pollfds s ! i)"
      using reply it(3) i len by (force simp: poll_reply_ok_def)
    moreover have "i \<noteq> nat (index ch)" using nz ign reply it(3) r(2) by (auto simp: poll_reply_ok_def)
    moreover have "slot_ok s i" using inv i len by (simp add: poller_inv_def)
    ultimately show ?thesis using st n(1)
      by (elim slot_okD) (auto simp: slot_channel_def)
  qed
  with a show ?thesis by auto
qed

subsection \<open>Properties\<close>

text \<open>\<open>Poller::updateChannel\<close> called in the loop's thread for a channel that is registered, or new
  with a descriptor no one has registered, fails no assertion, keeps the agreement of slots, map and
  indices, leaves the channel registered with a slot that holds its event mask and no returned
  events, and drops no other channel.\<close>

theorem updateChannel_registers:
  assumes "poller_inv s" and "store s p = Some ch"
    and "if index ch < 0 then channels s (fd ch) = None \<and> 0 \<le> fd ch else registered s p"
  shows "\<exists>s' ch'. updateChannel True p s = Inr s' \<and> poller_inv s' \<and> registered s' p \<and>
    store s' p = Some ch' \<and> fd ch' = fd ch \<and> events ch' = events ch \<and>
    slot_events (pollfds s' ! nat (index ch')) = ucast (events ch) \<and>
    slot_revents (pollfds s' ! nat (index ch')) = 0 \<and>
    (\<forall>q. registered s q \<longrightarrow> registered s' q)"
proof (cases "index ch < 0")
  case True
  then have "channels s (fd ch) = None" "0 \<le> fd ch" using assms(3) by simp_all
  note add = updateChannel_add [OF assms(1,2) True this]
  let ?s = "put_channel p (set_index (int (length (pollfds s))) ch) (s\<lparr>pollfds := pollfds s @
      [\<lparr>slot_fd = fd ch, slot_events = ucast (events ch), slot_revents = 0\<rparr>],
      channels := (channels s)(fd ch \<mapsto> p)\<rparr>)"
  have "registered ?s q" if "registered s q" for q
    using that assms(2) \<open>channels s (fd ch) = None\<close>
    by (auto simp: registered_def put_channel_def split: option.splits)
  moreover have "store ?s p = Some (set_index (int (length (pollfds s))) ch)" "registered ?s p"
    by (simp_all add: put_channel_def registered_def)
  ultimately show ?thesis using add
    by (intro exI [of _ ?s] exI [of _ "set_index (int (length (pollfds s))) ch"])
      (auto simp: put_channel_def set_index_def)
next
  case False
  then have m: "channels s (fd ch) = Some p" using assms(2,3) by (simp add: registered_def)
  let ?i = "nat (index ch)"
  let ?e = "(pollfds s ! ?i)\<lparr>slot_events := ucast (events ch), slot_revents := 0\<rparr>"
  let ?s = "s\<lparr>pollfds := (pollfds s)[?i := (if isNoneEvent ch then ?e\<lparr>slot_fd := ignored_fd (fd ch)\<rparr> else ?e)]\<rparr>"
  have "registered ?s q = registered s q" for q by (auto simp: registered_def split: option.splits)
  then show ?thesis
    using updateChannel_change [OF assms(1,2) m] registered_slot(2) [OF assms(1,2) m] assms(2,3) False
    by (intro exI [of _ ?s] exI [of _ ch]) simp
qed

theorem updateChannel_registers_witness:
  "\<exists>s'. updateChannel True 1 (new_poller [1 \<mapsto> enableReading (new_channel 0 5)]) = Inr s' \<and>
     registered s' 1 \<and> poller_inv s'"
proof -
  let ?c = "enableReading (new_channel 0 5)"
  have "store (new_poller [1 \<mapsto> ?c]) 1 = Some ?c" by (simp add: new_poller_def)
  from updateChannel_registers [OF poller_inv_new this] show ?thesis
    by (auto simp: new_poller_def enableReading_def new_channel_def)
qed

text \<open>\<open>Poller::removeChannel\<close> of a registered channel without events fails no assertion: the
  channel is no longer found under its descriptor, one slot is gone, the agreement holds with the
  last slot moved into the gap, and every other registered channel is still registered.\<close>

theorem removeChannel_keeps_others:
  assumes "poller_inv s" and "store s p = Some ch" and "registered s p" and "isNoneEvent ch"
  shows "\<exists>s'. removeChannel True p s = Inr s' \<and> poller_inv s' \<and> \<not> registered s' p \<and>
    Suc (length (pollfds s')) = length (pollfds s) \<and>
    (\<forall>q. q \<noteq> p \<longrightarrow> registered s q \<longrightarrow> registered s' q)"
proof -
  have m: "channels s (fd ch) = Some p" using assms(2,3) by (simp add: registered_def)
  from removeChannel_ok [OF assms(1,2) m assms(4)] obtain s' where s': "removeChannel True p s = Inr s'"
      "poller_inv s'" "channels s' = (channels s)(fd ch := None)" "store s' p = Some ch"
      "Suc (length (pollfds s')) = length (pollfds s)"
      "\<forall>q c. q \<noteq> p \<longrightarrow> store s q = Some c \<longrightarrow> (\<exists>k. store s' q = Some (c\<lparr>index := k\<rparr>))" by blast
  have "registered s' q" if q: "q \<noteq> p" "registered s q" for q
  proof -
    obtain c where c: "store s q = Some c" "channels s (fd c) = Some q"
      using q(2) by (auto simp: registered_def split: option.splits)
    then obtain k where "store s' q = Some (c\<lparr>index := k\<rparr>)" using s'(6) q(1) by blast
    then show ?thesis using c q(1) m s'(3) by (auto simp: registered_def)
  qed
  then show ?thesis using s' by (auto simp: registered_def)
qed

theorem removeChannel_keeps_others_witness:
  "\<exists>s'. removeChannel True 1 \<lparr>pollfds = [\<lparr>slot_fd = -6, slot_events = 0, slot_revents = 0\<rparr>],
       channels = [5 \<mapsto> 1], store = [1 \<mapsto> set_index 0 (new_channel 0 5)]\<rparr> = Inr s' \<and>
     \<not> registered s' 1 \<and> pollfds s' = []"
proof -
  let ?s = "\<lparr>pollfds = [\<lparr>slot_fd = -6, slot_events = 0, slot_revents = 0\<rparr>],
       channels = [5 \<mapsto> 1], store = [1 \<mapsto> set_index 0 (new_channel 0 5)]\<rparr>"
  have "poller_inv ?s" "store ?s 1 = Some (set_index 0 (new_channel 0 5))" "registered ?s 1"
      "isNoneEvent (set_index 0 (new_channel 0 5))"
    by (simp_all add: poller_inv_def slot_ok_def decode_fd_def registered_def set_index_def
        new_channel_def isNoneEvent_def kNoneEvent_def)
  from removeChannel_keeps_others [OF this] show ?thesis by auto
qed

text \<open>\<open>Poller::poll\<close> with a system call that answers as documented fails no assertion and keeps
  the agreement. The active channels are, in slot order, those of the slots with returned events;
  each gets the returned events of its slot, and nothing but returned events changes.\<close>

theorem poll_reports_active:
  assumes "poller_inv s" and "poll_reply_ok (pollfds s) (kernel_poll (pollfds s))"
  shows "\<exists>active s'. poll kernel_poll s = Inr (active, s') \<and> poller_inv s' \<and>
    channels s' = channels s \<and> only_revents (store s) (store s') \<and>
    active = (if 0 < fst (kernel_poll (pollfds s))
      then map (slot_channel s)
        (filter active_slot (store_revents (snd (kernel_poll (pollfds s))) (pollfds s)))
      else []) \<and>
    (0 < fst (kernel_poll (pollfds s)) \<longrightarrow> (\<forall>i < length (pollfds s).
      0 < sint (snd (kernel_poll (pollfds s)) ! i) \<longrightarrow>
      (\<exists>p c. channels s (slot_fd (pollfds s ! i)) = Some p \<and> store s' p = Some c \<and>
        fd c = slot_fd (pollfds s ! i) \<and> revents c = scast (snd (kernel_poll (pollfds s)) ! i))))"
proof -
  have "length (snd (kernel_poll (pollfds s))) = length (pollfds s)"
    using assms(2) by (simp add: poll_reply_ok_def)
  with poll_ok [OF assms(1), of kernel_poll, OF assms(2)] show ?thesis
    by (auto simp: store_revents_def active_slot_def)
qed

theorem poll_reports_active_witness:
  "\<exists>s'. poll (\<lambda>_. (1, [1])) \<lparr>pollfds = [\<lparr>slot_fd = 5, slot_events = 3, slot_revents = 0\<rparr>],
       channels = [5 \<mapsto> 1], store = [1 \<mapsto> set_index 0 (new_channel 0 5)]\<rparr> = Inr ([1], s') \<and> poller_inv s'"
proof -
  let ?s = "\<lparr>pollfds = [\<lparr>slot_fd = 5, slot_events = 3, slot_revents = 0\<rparr>],
       channels = [5 \<mapsto> 1], store = [1 \<mapsto> set_index 0 (new_channel 0 5)]\<rparr>"
  have "poller_inv ?s" "poll_reply_ok (pollfds ?s) ((\<lambda>_. (1, [1])) (pollfds ?s))"
    by (simp_all add: poller_inv_def slot_ok_def set_index_def new_channel_def poll_reply_ok_def)
  from poll_reports_active [of ?s "\<lambda>_. (1, [1])", OF this] show ?thesis
    by (auto simp: store_revents_def active_slot_def slot_channel_def)
qed

text \<open>A registered channel whose events were all disabled stays ignored for ever: enabling an event
  again updates the mask of its slot but not the negated descriptor, so no later \<open>poll\<close>, whatever the
  system call answers, reports the channel active.\<close>

theorem reenabled_channel_stays_ignored:
  assumes "poller_inv s" and "store s p = Some ch" and "registered s p"
  shows "\<exists>s1 s2. updateChannel True p (put_channel p (disableAll ch) s) = Inr s1 \<and>
    updateChannel True p (put_channel p (enableReading (disableAll ch)) s1) = Inr s2 \<and>
    poller_inv s2 \<and> slot_fd (pollfds s2 ! nat (index ch)) = ignored_fd (fd ch) \<and>
    (\<forall>kernel_poll. poll_reply_ok (pollfds s2) (kernel_poll (pollfds s2)) \<longrightarrow>
      (\<exists>active s3. poll kernel_poll s2 = Inr (active, s3) \<and> p \<notin> set active))"
proof -
  have m: "channels s (fd ch) = Some p" using assms(2,3) by (simp add: registered_def)
  let ?t = "put_channel p (disableAll ch) s" and ?i = "nat (index ch)"
  have t: "poller_inv ?t" "store ?t p = Some (disableAll ch)" "channels ?t (fd (disableAll ch)) = Some p"
    using poller_inv_put_channel [OF assms(1,2), of "disableAll ch"] m by (simp_all add: put_channel_def)
  let ?s1 = "?t\<lparr>pollfds := (pollfds ?t)[?i := (pollfds ?t ! ?i)\<lparr>
     slot_events := ucast (events (disableAll ch)), slot_revents := 0, slot_fd := ignored_fd (fd ch)\<rparr>]\<rparr>"
  have u1: "updateChannel True p ?t = Inr ?s1" "poller_inv ?s1"
    using updateChannel_change [OF t] by simp_all
  let ?ch = "enableReading (disableAll ch)"
  let ?t1 = "put_channel p ?ch ?s1"
  have t1: "poller_inv ?t1" "store ?t1 p = Some ?ch" "channels ?t1 (fd ?ch) = Some p"
    using poller_inv_put_channel [OF u1(2), of p "disableAll ch" ?ch] m by (simp_all add: put_channel_def)
  have ev: "\<not> isNoneEvent ?ch"
    by (simp add: isNoneEvent_def enableReading_def disableAll_def poll_consts)
  let ?s2 = "?t1\<lparr>pollfds := (pollfds ?t1)[?i := (pollfds ?t1 ! ?i)\<lparr>slot_events := ucast (events ?ch),
     slot_revents := 0\<rparr>]\<rparr>"
  have u2: "updateChannel True p ?t1 = Inr ?s2" "poller_inv ?s2"
    using updateChannel_change [OF t1] ev by simp_all
  note r = registered_slot [OF assms(1,2) m]
  have fd: "slot_fd (pollfds ?s2 ! ?i) = ignored_fd (fd ch)" using r(2) by (simp add: put_channel_def)
  then have neg: "slot_fd (pollfds ?s2 ! nat (index ?ch)) < 0" using r(4) by (simp add: ignored_fd_def)
  have st: "store ?s2 p = Some ?ch" "channels ?s2 (fd ?ch) = Some p" using t1 by simp_all
  show ?thesis using u1(1) u2 fd ignored_not_active [OF u2(2) st neg] by blast
qed

theorem reenabled_channel_stays_ignored_witness:
  "\<exists>s1 s2. updateChannel True 1 (put_channel 1 (disableAll (set_index 0 (new_channel 0 5)))
       \<lparr>pollfds = [\<lparr>slot_fd = 5, slot_events = 3, slot_revents = 0\<rparr>], channels = [5 \<mapsto> 1],
         store = [1 \<mapsto> set_index 0 (new_channel 0 5)]\<rparr>) = Inr s1 \<and>
     updateChannel True 1 (put_channel 1 (enableReading (disableAll (set_index 0 (new_channel 0 5)))) s1)
       = Inr s2 \<and> slot_fd (pollfds s2 ! 0) = -6"
proof -
  let ?s = "\<lparr>pollfds = [\<lparr>slot_fd = 5, slot_events = 3, slot_revents = 0\<rparr>],
       channels = [5 \<mapsto> 1], store = [1 \<mapsto> set_index 0 (new_channel 0 5)]\<rparr>"
  have "poller_inv ?s" "store ?s 1 = Some (set_index 0 (new_channel 0 5))" "registered ?s 1"
    by (simp_all add: poller_inv_def slot_ok_def set_index_def new_channel_def registered_def)
  from reenabled_channel_stays_ignored [OF this] obtain s1 s2 where
    "updateChannel True 1 (put_channel 1 (disableAll (set_index 0 (new_channel 0 5))) ?s) = Inr s1"
    "updateChannel True 1 (put_channel 1 (enableReading (disableAll (set_index 0 (new_channel 0 5)))) s1)
       = Inr s2" "slot_fd (pollfds s2 ! 0) = -6"
    by (auto simp: set_index_def new_channel_def ignored_fd_def)
  then show ?thesis by blast
qed

end
