(* ===== verification/StdSet.thy ===== *)
theory StdSet
  imports Prelude "HOL-Library.Product_Lexorder"
begin

section \<open>Ordered sets: std::set\<close>

text \<open>
  A \<open>std::set\<close> is the list of its elements in ascending order without repetition. \<open>set_insert\<close>,
  \<open>set_erase\<close> and \<open>split_before\<close> are \<open>insert\<close> (with its flag), \<open>erase\<close> by key (with its count) and
  the two ranges \<open>lower_bound\<close> separates. A pair is ordered by its first component, then its second,
  as \<open>std::pair\<close> is.

  The locale \<open>ordered_set\<close> is what \<open>TimerQueue\<close> relies on: the elements as a mathematical set, with
  the smallest at the front. It is interpreted on the three operations.
\<close>

definition set_insert :: "'a::linorder \<Rightarrow> 'a list \<Rightarrow> 'a list \<times> bool" where
  "set_insert x xs = (if x \<in> set xs then (xs, False) else (insort x xs, True))"

definition set_erase :: "'a::linorder \<Rightarrow> 'a list \<Rightarrow> 'a list \<times> nat" where
  "set_erase x xs = (remove1 x xs, if x \<in> set xs then 1 else 0)"

definition split_before :: "'a::linorder \<Rightarrow> 'a list \<Rightarrow> 'a list \<times> 'a list" where
  "split_before x xs = (takeWhile (\<lambda>y. y < x) xs, dropWhile (\<lambda>y. y < x) xs)"

definition ascending :: "'a::linorder list \<Rightarrow> bool" where
  "ascending xs \<longleftrightarrow> sorted xs \<and> distinct xs"

locale ordered_set =
  fixes wf :: "'c \<Rightarrow> bool"
    and elems :: "'c \<Rightarrow> 'a::linorder set"
    and first :: "'c \<Rightarrow> 'a option"
    and ins :: "'a \<Rightarrow> 'c \<Rightarrow> 'c \<times> bool"
    and del :: "'a \<Rightarrow> 'c \<Rightarrow> 'c \<times> nat"
  assumes fin: "wf c \<Longrightarrow> finite (elems c)"
    and first_None: "wf c \<Longrightarrow> first c = None \<longleftrightarrow> elems c = {}"
    and first_in: "wf c \<Longrightarrow> first c = Some x \<Longrightarrow> x \<in> elems c \<and> (\<forall>y \<in> elems c. x \<le> y)"
    and ins_wf: "wf c \<Longrightarrow> ins x c = (c', b) \<Longrightarrow> wf c' \<and> elems c' = insert x (elems c) \<and> b = (x \<notin> elems c)"
    and del_wf: "wf c \<Longrightarrow> del x c = (c', n) \<Longrightarrow>
      wf c' \<and> elems c' = elems c - {x} \<and> n = (if x \<in> elems c then 1 else 0)"
begin

lemma first_is_Min: "wf c \<Longrightarrow> elems c \<noteq> {} \<Longrightarrow> first c = Some (Min (elems c))"
  using first_None first_in fin by (metis Min_eqI option.exhaust)

lemma first_ins:
  assumes "wf c" and "ins x c = (c', b)"
  shows "first c' = Some (case first c of None \<Rightarrow> x | Some y \<Rightarrow> min x y)"
proof -
  have i: "wf c'" "elems c' = insert x (elems c)" using ins_wf [OF assms] by simp_all
  then have c': "first c' = Some (Min (insert x (elems c)))" using first_is_Min by simp
  show ?thesis
  proof (cases "elems c = {}")
    case True
    then have "first c = None" using first_None assms(1) by blast
    with c' True show ?thesis by simp
  next
    case False
    then show ?thesis using c' first_is_Min assms(1) fin by simp
  qed
qed

lemma del_ins_new:
  assumes "wf c" and "x \<notin> elems c" and "ins x c = (c', b)" and "del x c' = (c'', n)"
  shows "elems c'' = elems c \<and> n = 1 \<and> b"
  using ins_wf [OF assms(1,3)] del_wf [of c' x c'' n] assms(2,4) by auto

end

lemma ascending_Nil [simp]: "ascending []"
  by (simp add: ascending_def)

lemma ascending_insort: "ascending xs \<Longrightarrow> x \<notin> set xs \<Longrightarrow> ascending (insort x xs)"
  by (simp add: ascending_def sorted_insort distinct_insort)

lemma ascending_remove1: "ascending xs \<Longrightarrow> ascending (remove1 x xs)"
  by (simp add: ascending_def sorted_remove1)

lemma ascending_set_remove1 [simp]: "ascending xs \<Longrightarrow> set (remove1 x xs) = set xs - {x}"
  by (simp add: ascending_def)

lemma ascending_hd_le: "ascending (x # xs) \<Longrightarrow> y \<in> set (x # xs) \<Longrightarrow> x \<le> y"
  by (auto simp: ascending_def)

lemma ascending_split:
  assumes "ascending xs" and "split_before x xs = (ys, zs)"
  shows "xs = ys @ zs" "ascending ys" "ascending zs" "set ys = {y \<in> set xs. y < x}" "set zs = {y \<in> set xs. x \<le> y}"
proof -
  have yz: "ys = takeWhile (\<lambda>y. y < x) xs" "zs = dropWhile (\<lambda>y. y < x) xs"
    using assms(2) by (simp_all add: split_before_def)
  then show xs: "xs = ys @ zs" by simp
  then show "ascending ys" "ascending zs" using assms(1) by (simp_all add: ascending_def sorted_append)
  have lo: "y < x" if "y \<in> set ys" for y using that yz by (auto dest: set_takeWhileD)
  have hi: "x \<le> y" if "y \<in> set zs" for y
  proof -
    obtain z zs' where z: "zs = z # zs'" using \<open>y \<in> set zs\<close> by (cases zs) auto
    have "\<not> z < x" using yz(2) z hd_dropWhile [of "\<lambda>y. y < x" xs]
      by (metis list.sel(1) list.discI)
    moreover have "z \<le> y" using \<open>ascending zs\<close> \<open>y \<in> set zs\<close> z by (auto simp: ascending_def)
    ultimately show ?thesis by simp
  qed
  show "set ys = {y \<in> set xs. y < x}" "set zs = {y \<in> set xs. x \<le> y}"
    using xs lo hi by (auto simp: not_less [symmetric])
qed

lemma length_ascending: "ascending xs \<Longrightarrow> length xs = card (set xs)"
  by (simp add: ascending_def distinct_card)

interpretation std: ordered_set ascending set "\<lambda>xs. case xs of [] \<Rightarrow> None | x # _ \<Rightarrow> Some x"
  set_insert set_erase
proof
  fix c c' :: "'a list" and x b n
  assume c: "ascending c"
  show "finite (set c)" by simp
  show "((case c of [] \<Rightarrow> None | x # _ \<Rightarrow> Some x) = None) = (set c = {})" by (cases c) auto
  show "x \<in> set c \<and> (\<forall>y \<in> set c. x \<le> y)" if "(case c of [] \<Rightarrow> None | x # _ \<Rightarrow> Some x) = Some x"
    using that c ascending_hd_le by (cases c) auto
  show "ascending c' \<and> set c' = insert x (set c) \<and> b = (x \<notin> set c)" if "set_insert x c = (c', b)"
    using that c ascending_insort by (auto simp: set_insert_def set_insort_key split: if_splits)
  show "ascending c' \<and> set c' = set c - {x} \<and> n = (if x \<in> set c then 1 else 0)"
    if "set_erase x c = (c', n)"
    using that c ascending_remove1 by (auto simp: set_erase_def)
qed

end
