(* ===== verification/TimerQueue.thy ===== *)
theory TimerQueue
  imports StdSet
begin

section \<open>Timers: Timer, TimerId and TimerQueue\<close>

text \<open>
  \<open>TimerQueue\<close> owns the \<open>Timer\<close> objects of a loop and keeps them in two ordered sets, one by expiration
  and one by address. The model has both sets, the heap of timers (\<open>mem\<close>, by 64-bit address) and the
  state of the one-shot \<open>timerfd\<close>: \<open>armed\<close> is the expiration last given to \<open>resetTimerfd\<close> with the delay it
  was programmed to, \<open>None\<close> once the descriptor has fired; \<open>clock\<close> is what \<open>Timestamp::now\<close> answers
  there. \<open>fired\<close> records the callbacks \<open>handleRead\<close> has run.

  \<open>Timestamp\<close> and \<open>AtomicInt64\<close> are not part of the repository: the type \<open>'ts\<close> is any linear order, and
  the record \<open>platform\<close> holds their operations and the allocator. An interval, a \<open>double\<close>, is a real
  number. What a user callback does to the queue is a parameter, from the callback's number and the
  current state to the requests it makes, in the loop's thread, so that they run at once.
\<close>

record 'ts timer =
  callback :: nat
  expiration :: 'ts
  interval :: real
  repeat :: bool
  sequence :: u64

record timer_id =
  id_timer :: u64
  id_sequence :: u64

record 'ts platform =
  ts_valid :: "'ts \<Rightarrow> bool"
  ts_default :: 'ts
  ts_invalid :: 'ts
  addTime :: "'ts \<Rightarrow> real \<Rightarrow> 'ts"
  microSecondsSinceEpoch :: "'ts \<Rightarrow> u64"
  kMicroSecondsPerSecond :: u64
  incrementAndGet :: "u64 \<Rightarrow> u64 \<times> u64"
  allocate :: "(u64 \<Rightarrow> 'ts timer option) \<Rightarrow> u64 option"

record 'ts timer_queue =
  timers :: "('ts \<times> u64) list"
  activeTimers :: "(u64 \<times> u64) list"
  cancelingTimers :: "(u64 \<times> u64) list"
  callingExpiredTimers :: bool
  s_numCreated :: u64
  mem :: "u64 \<Rightarrow> 'ts timer option"
  clock :: 'ts
  armed :: "('ts \<times> u64 \<times> u64) option"
  fired :: "nat list"

subsection \<open>Timer\<close>

definition new_timer :: "nat \<Rightarrow> 'ts \<Rightarrow> real \<Rightarrow> u64 \<Rightarrow> 'ts timer" where
  "new_timer cb when intv seq =
     \<lparr>callback = cb, expiration = when, interval = intv, repeat = intv > 1, sequence = seq\<rparr>"

definition restart :: "'ts platform \<Rightarrow> 'ts \<Rightarrow> 'ts timer \<Rightarrow> 'ts timer" where
  "restart pf now t =
     (if repeat t then t\<lparr>expiration := addTime pf now (interval t)\<rparr>
      else t\<lparr>expiration := ts_invalid pf\<rparr>)"

text \<open>\<open>TimerId\<close>'s constructor has a default sequence of 0.\<close>

definition make_timer_id :: "u64 \<Rightarrow> timer_id" where
  "make_timer_id p = \<lparr>id_timer = p, id_sequence = 0\<rparr>"

definition howMuchTimerFromNow :: "'ts platform \<Rightarrow> 'ts \<Rightarrow> 'ts \<Rightarrow> u64 \<times> u64" where
  "howMuchTimerFromNow pf when now =
     (let d = microSecondsSinceEpoch pf when - microSecondsSinceEpoch pf now;
          microseconds = (if sint d < 100 then 100 else d)
      in (word_of_int (sint microseconds sdiv sint (kMicroSecondsPerSecond pf)),
          word_of_int (sint microseconds smod sint (kMicroSecondsPerSecond pf) * 1000)))"

definition new_timer_queue :: "(u64 \<Rightarrow> 'ts timer option) \<Rightarrow> u64 \<Rightarrow> 'ts \<Rightarrow> 'ts timer_queue" where
  "new_timer_queue m created now = \<lparr>timers = [], activeTimers = [], cancelingTimers = [],
     callingExpiredTimers = False, s_numCreated = created, mem = m, clock = now, armed = None, fired = []\<rparr>"

subsection \<open>Operations\<close>

definition deref_timer :: "'ts timer_queue \<Rightarrow> u64 \<Rightarrow> ('ts timer \<Rightarrow> 'a result) \<Rightarrow> 'a result" where
  "deref_timer q p k = (case mem q p of None \<Rightarrow> Inl (NullDereference ''timer'') | Some t \<Rightarrow> k t)"

definition same_size :: "'ts timer_queue \<Rightarrow> 'a result \<Rightarrow> 'a result" where
  "same_size q k = require (length (timers q) = length (activeTimers q))
     (AssertionFailed ''timers_.size() == activeTimers_.size()'') k"

definition resetTimerfd :: "'ts platform \<Rightarrow> 'ts \<Rightarrow> 'ts timer_queue \<Rightarrow> 'ts timer_queue" where
  "resetTimerfd pf when q = q\<lparr>armed := Some (when, howMuchTimerFromNow pf when (clock q))\<rparr>"

definition readTimerfd :: "'ts timer_queue \<Rightarrow> 'ts timer_queue" where
  "readTimerfd q = q\<lparr>armed := None\<rparr>"

definition insert_timer :: "bool \<Rightarrow> u64 \<Rightarrow> ('ts::linorder) timer_queue \<Rightarrow> (bool \<times> 'ts timer_queue) result" where
  "insert_timer in_loop p q = require in_loop (Fatal ''EventLoop::abortNotInLoopThread'') (same_size q (deref_timer q p (\<lambda>t.
     let when = expiration t;
         earliestChanged = (case timers q of [] \<Rightarrow> True | (w, _) # _ \<Rightarrow> when < w);
         (ts, new1) = set_insert (when, p) (timers q)
     in require new1 (AssertionFailed ''result.second'')
     (let (act, new2) = set_insert (p, sequence t) (activeTimers q) in
      require new2 (AssertionFailed ''result.second'')
      (let q' = q\<lparr>timers := ts, activeTimers := act\<rparr> in
       same_size q' (Inr (earliestChanged, q')))))))"

definition addTimerInLoop :: "'ts platform \<Rightarrow> bool \<Rightarrow> u64 \<Rightarrow> ('ts::linorder) timer_queue \<Rightarrow> 'ts timer_queue result" where
  "addTimerInLoop pf in_loop p q =
     require in_loop (Fatal ''EventLoop::abortNotInLoopThread'')
       (and_then (insert_timer in_loop p q) (\<lambda>(earliestChanged, q').
          if earliestChanged then deref_timer q' p (\<lambda>t. Inr (resetTimerfd pf (expiration t) q'))
          else Inr q'))"

text \<open>
  \<open>addTimer\<close> allocates the timer in the calling thread; the rest is run in the loop. \<open>operator new\<close>
  throws when no memory is left.
\<close>

definition bad_alloc :: fault where
  "bad_alloc = Fatal ''std::bad_alloc''"

definition create_timer ::
  "'ts platform \<Rightarrow> nat \<Rightarrow> 'ts \<Rightarrow> real \<Rightarrow> 'ts timer_queue \<Rightarrow> (u64 \<times> 'ts timer_queue) result" where
  "create_timer pf cb when intv q =
     (case allocate pf (mem q) of
        None \<Rightarrow> Inl bad_alloc
      | Some p \<Rightarrow>
          (let (counter, seq) = incrementAndGet pf (s_numCreated q)
           in Inr (p, q\<lparr>mem := (mem q)(p \<mapsto> new_timer cb when intv seq), s_numCreated := counter\<rparr>)))"

definition addTimer ::
  "'ts platform \<Rightarrow> nat \<Rightarrow> ('ts::linorder) \<Rightarrow> real \<Rightarrow> 'ts timer_queue \<Rightarrow> (timer_id \<times> 'ts timer_queue) result" where
  "addTimer pf cb when intv q =
     and_then (create_timer pf cb when intv q) (\<lambda>(p, q').
       and_then (addTimerInLoop pf True p q') (\<lambda>q''. Inr (make_timer_id p, q'')))"

definition cancelInLoop :: "bool \<Rightarrow> timer_id \<Rightarrow> ('ts::linorder) timer_queue \<Rightarrow> 'ts timer_queue result" where
  "cancelInLoop in_loop tid q =
     require in_loop (Fatal ''EventLoop::abortNotInLoopThread'')
    (same_size q
      (let timer = (id_timer tid, id_sequence tid) in
       if timer \<in> set (activeTimers q) then
         deref_timer q (fst timer) (\<lambda>t.
           let (ts, n) = set_erase (expiration t, fst timer) (timers q) in
           require (n = 1) (AssertionFailed ''n == 1'')
          (let q' = q\<lparr>timers := ts, mem := (mem q)(fst timer := None),
                 activeTimers := fst (set_erase timer (activeTimers q))\<rparr>
           in same_size q' (Inr q')))
       else if callingExpiredTimers q then
         (let q' = q\<lparr>cancelingTimers := fst (set_insert timer (cancelingTimers q))\<rparr>
          in same_size q' (Inr q'))
       else same_size q (Inr q)))"

definition erase_active :: "'ts \<times> u64 \<Rightarrow> ('ts::linorder) timer_queue \<Rightarrow> 'ts timer_queue result" where
  "erase_active e q = deref_timer q (snd e) (\<lambda>t.
     let (act, n) = set_erase (snd e, sequence t) (activeTimers q)
     in require (n = 1) (AssertionFailed ''n == 1'') (Inr (q\<lparr>activeTimers := act\<rparr>)))"

definition UINTPTR_MAX :: u64 where
  "UINTPTR_MAX = -1"

definition getExpired ::
  "('ts::linorder) \<Rightarrow> 'ts timer_queue \<Rightarrow> (('ts \<times> u64) list \<times> 'ts timer_queue) result" where
  "getExpired now q = same_size q
     (let (expired, rest) = split_before (now, UINTPTR_MAX) (timers q) in
      require (case rest of [] \<Rightarrow> True | (w, _) # _ \<Rightarrow> now < w)
        (AssertionFailed ''it == timers_.end() || now < it->first'')
     (and_then (for_each erase_active expired (q\<lparr>timers := rest\<rparr>)) (\<lambda>q'.
        require (length (activeTimers q') = length (timers q'))
          (AssertionFailed ''activeTimers_.size() == timers_.size()'') (Inr (expired, q')))))"

text \<open>Only \<open>handleRead\<close> calls \<open>reset\<close>, after its own check of the thread.\<close>

definition reset_entry :: "'ts platform \<Rightarrow> ('ts::linorder) \<Rightarrow> 'ts \<times> u64 \<Rightarrow> 'ts timer_queue \<Rightarrow> 'ts timer_queue result" where
  "reset_entry pf now e q = deref_timer q (snd e) (\<lambda>t.
     if repeat t \<and> (snd e, sequence t) \<notin> set (cancelingTimers q) then
       and_then (insert_timer True (snd e) (q\<lparr>mem := (mem q)(snd e \<mapsto> restart pf now t)\<rparr>)) (\<lambda>(_, q'). Inr q')
     else Inr (q\<lparr>mem := (mem q)(snd e := None)\<rparr>))"

definition reset ::
  "'ts platform \<Rightarrow> ('ts \<times> u64) list \<Rightarrow> ('ts::linorder) \<Rightarrow> 'ts timer_queue \<Rightarrow> 'ts timer_queue result" where
  "reset pf expired now q =
     and_then (for_each (reset_entry pf now) expired q) (\<lambda>q'.
       and_then (case timers q' of
           [] \<Rightarrow> Inr (ts_default pf)
         | (_, p) # _ \<Rightarrow> deref_timer q' p (\<lambda>t. Inr (expiration t)))
         (\<lambda>nextExpire. Inr (if ts_valid pf nextExpire then resetTimerfd pf nextExpire q' else q')))"

text \<open>What a callback asks of the queue of its loop, and the run of one expired timer.\<close>

datatype 'ts request = AddTimer nat 'ts real | CancelTimer timer_id

fun perform :: "'ts platform \<Rightarrow> ('ts::linorder) request \<Rightarrow> 'ts timer_queue \<Rightarrow> 'ts timer_queue result" where
  "perform pf (AddTimer cb when intv) q = and_then (addTimer pf cb when intv q) (\<lambda>(_, q'). Inr q')"
| "perform pf (CancelTimer tid) q = cancelInLoop True tid q"

definition run_timer ::
  "'ts platform \<Rightarrow> (nat \<Rightarrow> 'ts timer_queue \<Rightarrow> ('ts::linorder) request list) \<Rightarrow> 'ts \<times> u64
     \<Rightarrow> 'ts timer_queue \<Rightarrow> 'ts timer_queue result" where
  "run_timer pf user e q = deref_timer q (snd e) (\<lambda>t.
     for_each (perform pf) (user (callback t) q) (q\<lparr>fired := fired q @ [callback t]\<rparr>))"

definition handleRead ::
  "'ts platform \<Rightarrow> (nat \<Rightarrow> 'ts timer_queue \<Rightarrow> ('ts::linorder) request list) \<Rightarrow> bool \<Rightarrow> 'ts
     \<Rightarrow> 'ts timer_queue \<Rightarrow> 'ts timer_queue result" where
  "handleRead pf user in_loop now q =
     require in_loop (Fatal ''EventLoop::abortNotInLoopThread'')
    (and_then (getExpired now (readTimerfd q)) (\<lambda>(expired, q1).
     and_then (for_each (run_timer pf user) expired
         (q1\<lparr>callingExpiredTimers := True, cancelingTimers := []\<rparr>)) (\<lambda>q2.
       reset pf expired now (q2\<lparr>callingExpiredTimers := False\<rparr>))))"

text \<open>The destructor deletes the timers still in the set.\<close>

definition destroy_timer_queue :: "'ts timer_queue \<Rightarrow> 'ts timer_queue" where
  "destroy_timer_queue q = q\<lparr>mem := fold (\<lambda>e m. m(snd e := None)) (timers q) (mem q)\<rparr>"


subsection \<open>The agreement of the two sets and the heap\<close>

text \<open>
  \<open>tq_inv H q\<close>: both sets are ordered; an entry of \<open>timers_\<close> is the expiration and the address of a
  live timer; \<open>activeTimers_\<close> holds exactly the address and sequence of those timers; and the live
  timers are those in the sets and those of \<open>H\<close>, which are in neither (the expired ones while their
  callbacks run, or those another thread has created and not yet queued). With \<open>H\<close> empty nothing
  has leaked.
\<close>

definition tq_inv :: "u64 set \<Rightarrow> ('ts::linorder) timer_queue \<Rightarrow> bool" where
  "tq_inv H q \<longleftrightarrow> ascending (timers q) \<and> ascending (activeTimers q) \<and>
     (\<forall>(w, p) \<in> set (timers q). p \<notin> H \<and> p \<noteq> UINTPTR_MAX \<and> (\<exists>t. mem q p = Some t \<and> expiration t = w)) \<and>
     (\<forall>p n. (p, n) \<in> set (activeTimers q) \<longleftrightarrow>
        (\<exists>t. mem q p = Some t \<and> sequence t = n \<and> (expiration t, p) \<in> set (timers q))) \<and>
     dom (mem q) = snd ` set (timers q) \<union> H"

lemma tq_inv_new: "dom m = {} \<Longrightarrow> tq_inv {} (new_timer_queue m c n)"
  by (simp add: tq_inv_def new_timer_queue_def)

lemma tq_inv_active:
  assumes "tq_inv H q"
  shows "(p, n) \<in> set (activeTimers q) \<longleftrightarrow>
    (\<exists>t. mem q p = Some t \<and> sequence t = n \<and> (expiration t, p) \<in> set (timers q))"
proof -
  have "\<forall>p n. (p, n) \<in> set (activeTimers q) \<longleftrightarrow>
      (\<exists>t. mem q p = Some t \<and> sequence t = n \<and> (expiration t, p) \<in> set (timers q))"
    using assms unfolding tq_inv_def by (elim conjE)
  then show ?thesis by (rule spec2)
qed

lemma tq_invD:
  assumes "tq_inv H q" and "(w, p) \<in> set (timers q)"
  obtains t where "mem q p = Some t" "expiration t = w" "p \<notin> H" "p \<noteq> UINTPTR_MAX"
    "(p, sequence t) \<in> set (activeTimers q)"
proof -
  have "\<forall>(w, p) \<in> set (timers q). p \<notin> H \<and> p \<noteq> UINTPTR_MAX \<and> (\<exists>t. mem q p = Some t \<and> expiration t = w)"
    using assms(1) unfolding tq_inv_def by (elim conjE)
  with assms(2) obtain t where "p \<notin> H" "p \<noteq> UINTPTR_MAX" "mem q p = Some t" "expiration t = w" by blast
  with that assms(2) tq_inv_active [OF assms(1), of p "sequence t"] show thesis by blast
qed

lemma tq_inv_same_size:
  assumes "tq_inv H q"
  shows "length (timers q) = length (activeTimers q)"
proof -
  have "inj_on snd (set (timers q))"
  proof (rule inj_onI)
    fix e f
    assume "e \<in> set (timers q)" "f \<in> set (timers q)" "snd e = snd f"
    then show "e = f" using tq_invD [OF assms, of "fst e" "snd e"] tq_invD [OF assms, of "fst f" "snd f"]
      by (metis option.inject prod.collapse)
  qed
  moreover have "inj_on fst (set (activeTimers q))"
    using assms by (auto simp: inj_on_def tq_inv_def)
  moreover have "fst ` set (activeTimers q) = snd ` set (timers q)"
  proof (intro equalityI subsetI)
    fix p
    assume "p \<in> snd ` set (timers q)"
    then obtain w where "(w, p) \<in> set (timers q)" by auto
    from tq_invD [OF assms this] show "p \<in> fst ` set (activeTimers q)" by (metis fst_conv imageI)
  next
    fix p
    assume "p \<in> fst ` set (activeTimers q)"
    then obtain n where "(p, n) \<in> set (activeTimers q)" by auto
    then obtain t where "mem q p = Some t" "(expiration t, p) \<in> set (timers q)"
      by (auto simp: tq_inv_active [OF assms, of p n])
    then show "p \<in> snd ` set (timers q)" by (metis snd_conv imageI)
  qed
  ultimately have "card (set (timers q)) = card (set (activeTimers q))"
    by (metis card_image)
  then show ?thesis using assms by (simp add: length_ascending tq_inv_def)
qed

lemma same_size_ok [simp]: "tq_inv H q \<Longrightarrow> same_size q k = k"
  by (simp add: same_size_def tq_inv_same_size)

text \<open>The invariant does not depend on the other fields.\<close>

lemma tq_inv_other [simp]:
  "tq_inv H (q\<lparr>armed := a\<rparr>) = tq_inv H q" "tq_inv H (q\<lparr>fired := f\<rparr>) = tq_inv H q"
  "tq_inv H (q\<lparr>cancelingTimers := c\<rparr>) = tq_inv H q"
  "tq_inv H (q\<lparr>callingExpiredTimers := b\<rparr>) = tq_inv H q"
  "tq_inv H (q\<lparr>s_numCreated := n\<rparr>) = tq_inv H q" "tq_inv H (q\<lparr>clock := c'\<rparr>) = tq_inv H q"
  by (simp_all add: tq_inv_def)

lemma insert_timer_ok:
  assumes inv: "tq_inv (insert p H) q" and p: "p \<notin> H" "p \<noteq> UINTPTR_MAX" and t: "mem q p = Some t"
  defines "q' \<equiv> q\<lparr>timers := insort (expiration t, p) (timers q),
    activeTimers := insort (p, sequence t) (activeTimers q)\<rparr>"
  shows "insert_timer True p q
      = Inr (case timers q of [] \<Rightarrow> True | (w, _) # _ \<Rightarrow> expiration t < w, q')"
    and "tq_inv H q'"
proof -
  have new: "(w, p) \<notin> set (timers q)" "(p, n) \<notin> set (activeTimers q)" for w n
    using inv by (auto simp: tq_inv_def)
  show inv': "tq_inv H q'"
    using inv p t new unfolding tq_inv_def q'_def
    by (auto simp: ascending_insort set_insort_key) 
  show "insert_timer True p q
      = Inr (case timers q of [] \<Rightarrow> True | (w, _) # _ \<Rightarrow> expiration t < w, q')"
    using inv inv' t new
    by (simp add: insert_timer_def deref_timer_def set_insert_def Let_def q'_def)
qed


text \<open>The allocator returns unused addresses, never the largest one.\<close>

definition allocator_ok :: "'ts platform \<Rightarrow> bool" where
  "allocator_ok pf \<longleftrightarrow> (\<forall>m p. allocate pf m = Some p \<longrightarrow> m p = None \<and> p \<noteq> UINTPTR_MAX)"

lemma tq_inv_create:
  assumes "tq_inv H q" and "mem q p = None"
  shows "tq_inv (insert p H) (q\<lparr>mem := (mem q)(p \<mapsto> t), s_numCreated := n\<rparr>)" and "p \<notin> H"
proof -
  have d: "dom (mem q) = snd ` set (timers q) \<union> H" using assms(1) by (simp add: tq_inv_def)
  then show "p \<notin> H" using assms(2) by auto
  have "\<And>w. (w, p) \<notin> set (timers q)" using d assms(2) by force
  with assms show "tq_inv (insert p H) (q\<lparr>mem := (mem q)(p \<mapsto> t), s_numCreated := n\<rparr>)"
    unfolding tq_inv_def by (auto simp: d)
qed

text \<open>Adding a timer from the loop's thread: its entry is new, and the descriptor is armed for it
  when it is the earliest.\<close>

lemma addTimer_ok:
  fixes due :: "'ts::linorder" and cb :: nat and intv :: real
  assumes inv: "tq_inv H q" and al: "allocator_ok pf" and p: "allocate pf (mem q) = Some p"
  defines "t \<equiv> new_timer cb due intv (snd (incrementAndGet pf (s_numCreated q)))"
  defines "q' \<equiv> q\<lparr>timers := insort (due, p) (timers q),
    activeTimers := insort (p, sequence t) (activeTimers q), mem := (mem q)(p \<mapsto> t),
    s_numCreated := fst (incrementAndGet pf (s_numCreated q)),
    armed := (case timers q of [] \<Rightarrow> Some (due, howMuchTimerFromNow pf due (clock q))
      | (w, _) # _ \<Rightarrow> if due < w then Some (due, howMuchTimerFromNow pf due (clock q)) else armed q)\<rparr>"
  shows "addTimer pf cb due intv q = Inr (make_timer_id p, q')" and "tq_inv H q'" and "p \<notin> H"
proof -
  have free: "mem q p = None" "p \<noteq> UINTPTR_MAX" using al p by (auto simp: allocator_ok_def)
  let ?q = "q\<lparr>mem := (mem q)(p \<mapsto> t), s_numCreated := fst (incrementAndGet pf (s_numCreated q))\<rparr>"
  note c = tq_inv_create(1) [OF inv free(1), where t = t and n = "fst (incrementAndGet pf (s_numCreated q))"]
  have H: "p \<notin> H" by (rule tq_inv_create(2) [OF inv free(1)])
  then show "p \<notin> H" .
  have e: "expiration t = due" by (simp add: t_def new_timer_def)
  note i = insert_timer_ok [OF c H free(2), of t]
  show "tq_inv H q'"
    using i(2) e by (simp add: q'_def tq_inv_def)
  show "addTimer pf cb due intv q = Inr (make_timer_id p, q')"
  proof -
    have mk: "create_timer pf cb due intv q = Inr (p, ?q)"
      using p by (simp add: create_timer_def t_def split: prod.split)
    have "addTimerInLoop pf True p ?q = Inr q'"
    proof (cases "timers q")
      case Nil
      then have "(case timers ?q of [] \<Rightarrow> True | (w, _) # _ \<Rightarrow> expiration t < w) = True" by simp
      with i(1) Nil e show ?thesis
        by (simp add: addTimerInLoop_def deref_timer_def resetTimerfd_def q'_def)
    next
      case (Cons x xs)
      obtain w r where x: "x = (w, r)" by (cases x)
      define ts where "ts = insort (due, p) (timers q)"
      have "insert_timer True p ?q = Inr (due < w, ?q\<lparr>timers := ts,
          activeTimers := insort (p, sequence t) (activeTimers q)\<rparr>)"
        using i(1) Cons x e unfolding ts_def by simp
      with Cons x e show ?thesis unfolding q'_def ts_def [symmetric]
        by (simp add: addTimerInLoop_def deref_timer_def resetTimerfd_def)
    qed
    with mk show ?thesis by (simp add: addTimer_def)
  qed
qed

lemma addTimer_fault: "allocate pf (mem q) = None \<Longrightarrow> addTimer pf cb when intv q = Inl bad_alloc"
  by (simp add: addTimer_def create_timer_def)

text \<open>Cancelling the identity of a queued timer deletes it and nothing else.\<close>

definition without_timer :: "timer_id \<Rightarrow> 'ts timer \<Rightarrow> ('ts::linorder) timer_queue \<Rightarrow> 'ts timer_queue" where
  "without_timer tid t q = q\<lparr>timers := remove1 (expiration t, id_timer tid) (timers q),
       mem := (mem q)(id_timer tid := None),
       activeTimers := remove1 (id_timer tid, id_sequence tid) (activeTimers q)\<rparr>"

lemma cancelInLoop_active:
  assumes inv: "tq_inv H q" and act: "(id_timer tid, id_sequence tid) \<in> set (activeTimers q)"
  obtains t where "mem q (id_timer tid) = Some t" "sequence t = id_sequence tid" "id_timer tid \<notin> H"
    "cancelInLoop True tid q = Inr (without_timer tid t q)" "tq_inv H (without_timer tid t q)"
proof -
  let ?p = "id_timer tid"
  obtain t where t: "mem q ?p = Some t" "sequence t = id_sequence tid" "(expiration t, ?p) \<in> set (timers q)"
    using act by (auto simp: tq_inv_active [OF inv])
  then have H: "?p \<notin> H" using inv by (auto simp: tq_inv_def)
  let ?q = "q\<lparr>timers := remove1 (expiration t, ?p) (timers q), mem := (mem q)(?p := None),
       activeTimers := remove1 (?p, id_sequence tid) (activeTimers q)\<rparr>"
  have only: "w = expiration t" if "(w, ?p) \<in> set (timers q)" for w
    using tq_invD [OF inv that] t(1) by auto
  have asc: "ascending (timers q)" "ascending (activeTimers q)" and d: "dom (mem q) = snd ` set (timers q) \<union> H"
    using inv by (simp_all add: tq_inv_def)
  have "tq_inv H ?q"
    unfolding tq_inv_def
  proof (intro conjI)
    show "ascending (timers ?q)" "ascending (activeTimers ?q)" using asc by (simp_all add: ascending_remove1)
    show "\<forall>(w, p) \<in> set (timers ?q). p \<notin> H \<and> p \<noteq> UINTPTR_MAX \<and> (\<exists>t. mem ?q p = Some t \<and> expiration t = w)"
    proof (clarify)
      fix w p
      assume "(w, p) \<in> set (timers ?q)"
      then have e: "(w, p) \<in> set (timers q)" "p \<noteq> ?p" using asc only by auto
      from tq_invD [OF inv e(1)] e(2)
      show "p \<notin> H \<and> p \<noteq> UINTPTR_MAX \<and> (\<exists>t. mem ?q p = Some t \<and> expiration t = w)" by auto
    qed
    show "\<forall>p n. ((p, n) \<in> set (activeTimers ?q)) =
        (\<exists>t. mem ?q p = Some t \<and> sequence t = n \<and> (expiration t, p) \<in> set (timers ?q))"
    proof (intro allI)
      fix p n
      show "((p, n) \<in> set (activeTimers ?q)) =
        (\<exists>t. mem ?q p = Some t \<and> sequence t = n \<and> (expiration t, p) \<in> set (timers ?q))"
        using asc t by (cases "p = ?p") (auto simp: tq_inv_active [OF inv])
    qed
    have "snd ` (set (timers q) - {(expiration t, ?p)}) = snd ` set (timers q) - {?p}"
      using only by force
    then show "dom (mem ?q) = snd ` set (timers ?q) \<union> H" using d asc H by auto
  qed
  moreover from this have "cancelInLoop True tid q = Inr ?q"
    using inv act t by (simp add: cancelInLoop_def deref_timer_def set_erase_def Let_def)
  ultimately show thesis using that t(1,2) H by (simp add: without_timer_def)
qed

lemma cancelInLoop_inactive:
  assumes inv: "tq_inv H q" and act: "(id_timer tid, id_sequence tid) \<notin> set (activeTimers q)"
  shows "cancelInLoop True tid q = Inr (if callingExpiredTimers q
    then q\<lparr>cancelingTimers := fst (set_insert (id_timer tid, id_sequence tid) (cancelingTimers q))\<rparr>
    else q)"
  using assms by (simp add: cancelInLoop_def Let_def)


subsection \<open>Callbacks keep the agreement\<close>

text \<open>
  What a callback may not do to the timers outside the sets, whose callbacks are being run: their
  objects stay as they are, and a request to cancel one is remembered.
\<close>

definition kept :: "u64 set \<Rightarrow> 'ts timer_queue \<Rightarrow> 'ts timer_queue \<Rightarrow> bool" where
  "kept H q q' \<longleftrightarrow> (\<forall>p \<in> H. mem q' p = mem q p) \<and> callingExpiredTimers q' = callingExpiredTimers q \<and>
     set (cancelingTimers q) \<subseteq> set (cancelingTimers q')"

lemma kept_refl [simp]: "kept H q q" and kept_fired [simp]: "kept H q (q\<lparr>fired := f\<rparr>)"
  by (simp_all add: kept_def)

lemma kept_trans: "kept H q q1 \<Longrightarrow> kept H q1 q2 \<Longrightarrow> kept H q q2"
  by (auto simp: kept_def)

lemma kept_without_timer:
  "id_timer tid \<notin> H \<Longrightarrow> kept H q (without_timer tid t q) \<and> fired (without_timer tid t q) = fired q"
  by (auto simp: kept_def without_timer_def)

lemma cancelInLoop_keeps:
  assumes inv: "tq_inv H q"
  shows "\<exists>q'. cancelInLoop True tid q = Inr q' \<and> tq_inv H q' \<and> kept H q q' \<and> fired q' = fired q"
proof (cases "(id_timer tid, id_sequence tid) \<in> set (activeTimers q)")
  case True
  from cancelInLoop_active [OF inv True] show ?thesis
    by (metis kept_without_timer)
next
  case False
  from cancelInLoop_inactive [OF inv False] inv show ?thesis
    by (auto simp: kept_def set_insert_def set_insort_key)
qed

lemma perform_keeps:
  assumes inv: "tq_inv H q" and al: "allocator_ok pf"
  shows "returns_or {bad_alloc} (\<lambda>q'. tq_inv H q' \<and> kept H q q' \<and> fired q' = fired q) (perform pf r q)"
proof (cases r)
  case (AddTimer cb due intv)
  show ?thesis
  proof (cases "allocate pf (mem q)")
    case None
    then show ?thesis using AddTimer by (simp add: addTimer_fault)
  next
    case (Some p)
    note a = addTimer_ok(1,2) [OF inv al Some, where cb = cb and due = due and intv = intv]
    from a addTimer_ok(3) [OF inv al Some] AddTimer show ?thesis by (auto simp: kept_def)
  qed
next
  case (CancelTimer tid)
  with cancelInLoop_keeps [OF inv, of tid] show ?thesis by auto
qed

lemma run_timer_keeps:
  assumes inv: "tq_inv H q" and al: "allocator_ok pf" and t: "mem q (snd e) = Some t"
  shows "returns_or {bad_alloc} (\<lambda>q'. tq_inv H q' \<and> kept H q q' \<and> fired q' = fired q @ [callback t])
    (run_timer pf user e q)"
proof -
  let ?q = "q\<lparr>fired := fired q @ [callback t]\<rparr>"
  have "returns_or {bad_alloc} (\<lambda>q'. tq_inv H q' \<and> kept H q q' \<and> fired q' = fired q @ [callback t])
      (for_each (perform pf) (user (callback t) q) ?q)"
  proof (rule returns_or_for_each)
    fix r s
    assume s: "tq_inv H s \<and> kept H q s \<and> fired s = fired q @ [callback t]"
    show "returns_or {bad_alloc} (\<lambda>q'. tq_inv H q' \<and> kept H q q' \<and> fired q' = fired q @ [callback t]) (perform pf r s)"
      using perform_keeps [OF _ al, of H s r] s kept_trans by (auto elim!: returns_or_mono)
  qed (use inv in simp)
  then show ?thesis using t by (simp add: run_timer_def deref_timer_def)
qed

definition callback_of :: "'ts timer_queue \<Rightarrow> 'ts \<times> u64 \<Rightarrow> nat" where
  "callback_of q e = (case mem q (snd e) of None \<Rightarrow> 0 | Some t \<Rightarrow> callback t)"

lemma run_all_keeps:
  assumes "tq_inv H q" and al: "allocator_ok pf" and "snd ` set es \<subseteq> H"
  shows "returns_or {bad_alloc}
    (\<lambda>q'. tq_inv H q' \<and> kept H q q' \<and> fired q' = fired q @ map (callback_of q) es)
    (for_each (run_timer pf user) es q)"
  using assms(1,3)
proof (induction es arbitrary: q)
  case (Cons e es)
  have "snd e \<in> dom (mem q)" using Cons.prems by (auto simp: tq_inv_def)
  then obtain t where t: "mem q (snd e) = Some t" by auto
  have cb: "callback_of q e = callback t" using t by (simp add: callback_of_def)
  show ?case unfolding for_each.simps
  proof (rule returns_or_and_then [OF run_timer_keeps [OF Cons.prems(1) al t]])
    fix q1
    assume q1: "tq_inv H q1 \<and> kept H q q1 \<and> fired q1 = fired q @ [callback t]"
    have same: "map (callback_of q1) es = map (callback_of q) es"
      using q1 Cons.prems(2) by (auto simp: callback_of_def kept_def)
    have "returns_or {bad_alloc}
        (\<lambda>q'. tq_inv H q' \<and> kept H q1 q' \<and> fired q' = fired q1 @ map (callback_of q1) es)
        (for_each (run_timer pf user) es q1)"
      using Cons.IH [of q1] q1 Cons.prems(2) by simp
    then show "returns_or {bad_alloc}
        (\<lambda>q'. tq_inv H q' \<and> kept H q q' \<and> fired q' = fired q @ map (callback_of q) (e # es))
        (for_each (run_timer pf user) es q1)"
      using q1 same cb by (elim returns_or_mono) (auto intro: kept_trans)
  qed
qed simp

subsection \<open>Taking out the expired timers\<close>

lemma erase_all:
  assumes "ascending (activeTimers q)" and "inj_on fst (set (activeTimers q))"
    and "\<forall>e \<in> set es. \<exists>t. mem q (snd e) = Some t \<and> (snd e, sequence t) \<in> set (activeTimers q)"
    and "distinct (map snd es)"
  shows "\<exists>act. for_each erase_active es q = Inr (q\<lparr>activeTimers := act\<rparr>) \<and> ascending act \<and>
    set act = {x \<in> set (activeTimers q). fst x \<notin> snd ` set es}"
  using assms
proof (induction es arbitrary: q)
  case Nil
  then show ?case by (intro exI [of _ "activeTimers q"]) simp
next
  case (Cons e es)
  obtain t where t: "mem q (snd e) = Some t" "(snd e, sequence t) \<in> set (activeTimers q)"
    using Cons.prems(3) by auto
  let ?q = "q\<lparr>activeTimers := remove1 (snd e, sequence t) (activeTimers q)\<rparr>"
  have step: "erase_active e q = Inr ?q" using t by (simp add: erase_active_def deref_timer_def set_erase_def)
  have "fst x = snd e \<longleftrightarrow> x = (snd e, sequence t)" if "x \<in> set (activeTimers q)" for x
    using inj_onD [OF Cons.prems(2), of x "(snd e, sequence t)"] that t(2) by auto
  moreover have "set (activeTimers ?q) = set (activeTimers q) - {(snd e, sequence t)}"
    using Cons.prems(1) by simp
  ultimately have s: "set (activeTimers ?q) = {x \<in> set (activeTimers q). fst x \<noteq> snd e}" by blast
  have "\<forall>x \<in> set es. \<exists>t. mem ?q (snd x) = Some t \<and> (snd x, sequence t) \<in> set (activeTimers ?q)"
  proof
    fix x
    assume "x \<in> set es"
    then have "snd x \<noteq> snd e" using Cons.prems(4) by (metis distinct.simps(2) image_eqI list.simps(9) set_map)
    moreover obtain u where "mem q (snd x) = Some u" "(snd x, sequence u) \<in> set (activeTimers q)"
      using Cons.prems(3) \<open>x \<in> set es\<close> by auto
    ultimately show "\<exists>t. mem ?q (snd x) = Some t \<and> (snd x, sequence t) \<in> set (activeTimers ?q)"
      unfolding s by simp
  qed
  moreover have "inj_on fst (set (activeTimers ?q))"
    using Cons.prems(2) unfolding s by (rule inj_on_subset) auto
  moreover have "ascending (activeTimers ?q)" using Cons.prems(1) by (simp add: ascending_remove1)
  ultimately obtain act where "for_each erase_active es ?q = Inr (?q\<lparr>activeTimers := act\<rparr>)" "ascending act"
      "set act = {x \<in> set (activeTimers ?q). fst x \<notin> snd ` set es}"
    using Cons.IH [of ?q] Cons.prems(4) by auto
  moreover from this(3) have "set act = {x \<in> set (activeTimers q). fst x \<notin> snd ` set (e # es)}"
    unfolding s by auto
  ultimately show ?case using step by (intro exI [of _ act]) simp
qed


lemma tq_inv_inj:
  assumes "tq_inv H q"
  shows "inj_on fst (set (activeTimers q))" and "inj_on snd (set (timers q))"
proof -
  show "inj_on fst (set (activeTimers q))"
  proof (rule inj_onI)
    fix x y
    assume "x \<in> set (activeTimers q)" "y \<in> set (activeTimers q)" "fst x = fst y"
    then show "x = y"
      using tq_inv_active [OF assms, of "fst x" "snd x"] tq_inv_active [OF assms, of "fst y" "snd y"]
      by (metis option.inject prod.collapse)
  qed
  show "inj_on snd (set (timers q))"
  proof (rule inj_onI)
    fix e f
    assume "e \<in> set (timers q)" "f \<in> set (timers q)" "snd e = snd f"
    then show "e = f" using tq_invD [OF assms, of "fst e" "snd e"] tq_invD [OF assms, of "fst f" "snd f"]
      by (metis option.inject prod.collapse)
  qed
qed

text \<open>The sentry has the largest address, so it separates the timers due at \<open>now\<close> or before.\<close>

definition due :: "('ts::linorder) \<Rightarrow> 'ts timer_queue \<Rightarrow> ('ts \<times> u64) list" where
  "due now q = takeWhile (\<lambda>e. fst e \<le> now) (timers q)"

lemma less_sentry:
  fixes now :: "'ts::linorder"
  shows "p \<noteq> UINTPTR_MAX \<Longrightarrow> ((w, p) < (now, UINTPTR_MAX)) = (w \<le> now)"
  by (auto simp: UINTPTR_MAX_def less_prod_def' word_order.not_eq_extremum)

lemma getExpired_ok:
  assumes inv: "tq_inv H q"
  obtains q' where "getExpired now q = Inr (due now q, q')"
    "tq_inv (H \<union> snd ` set (due now q)) q'" "mem q' = mem q" "timers q = due now q @ timers q'"
    "set (due now q) = {e \<in> set (timers q). fst e \<le> now}" "fired q' = fired q"
    "distinct (map snd (due now q))" "armed q' = armed q"
proof -
  have asc: "ascending (timers q)" "ascending (activeTimers q)"
    and d: "dom (mem q) = snd ` set (timers q) \<union> H" using inv by (simp_all add: tq_inv_def)
  have ne: "snd e \<noteq> UINTPTR_MAX" if "e \<in> set (timers q)" for e
    using tq_invD [OF inv, of "fst e" "snd e"] that by auto
  have lt: "e < (now, UINTPTR_MAX) \<longleftrightarrow> fst e \<le> now" if "e \<in> set (timers q)" for e
    using less_sentry [OF ne [OF that], of "fst e" now] by simp
  obtain es rest where sp: "split_before (now, UINTPTR_MAX) (timers q) = (es, rest)" by (cases "split_before (now, UINTPTR_MAX) (timers q)")
  note a = ascending_split [OF asc(1) sp]
  have es: "es = due now q"
  proof -
    have "takeWhile (\<lambda>y. y < (now, UINTPTR_MAX)) (timers q) = takeWhile (\<lambda>e. fst e \<le> now) (timers q)"
      by (rule takeWhile_cong [OF refl]) (rule lt)
    then show ?thesis using sp by (simp add: split_before_def due_def)
  qed
  have set_es: "set es = {e \<in> set (timers q). fst e \<le> now}" using a(4) lt by auto
  have set_rest: "set rest = {e \<in> set (timers q). now < fst e}" using a(5) lt by (auto simp: not_less [symmetric])
  have dist: "distinct (map snd es)"
    using a(2) tq_inv_inj(2) [OF inv] set_es unfolding distinct_map ascending_def
    by (metis (no_types, lifting) inj_on_subset mem_Collect_eq subsetI)
  let ?q = "q\<lparr>timers := rest\<rparr>"
  have "\<forall>e \<in> set es. \<exists>t. mem ?q (snd e) = Some t \<and> (snd e, sequence t) \<in> set (activeTimers ?q)"
  proof
    fix e
    assume "e \<in> set es"
    then have "(fst e, snd e) \<in> set (timers q)" using set_es by simp
    from tq_invD [OF inv this]
    show "\<exists>t. mem ?q (snd e) = Some t \<and> (snd e, sequence t) \<in> set (activeTimers ?q)" by auto
  qed
  then obtain act where act: "for_each erase_active es ?q = Inr (?q\<lparr>activeTimers := act\<rparr>)" "ascending act"
      "set act = {x \<in> set (activeTimers q). fst x \<notin> snd ` set es}"
    using erase_all [of ?q es] asc(2) tq_inv_inj(1) [OF inv] dist by auto
  let ?r = "?q\<lparr>activeTimers := act\<rparr>"
  have split: "p \<in> snd ` set es \<longleftrightarrow> w \<le> now" if "(w, p) \<in> set (timers q)" for w p
  proof -
    have "e = (w, p)" if "e \<in> set es" "snd e = p" for e
      using inj_onD [OF tq_inv_inj(2) [OF inv], of e "(w, p)"] that set_es \<open>(w, p) \<in> set (timers q)\<close> by simp
    then show ?thesis using set_es that by force
  qed
  define P where "P = snd ` set es"
  have inv': "tq_inv (H \<union> snd ` set es) ?r"
    unfolding tq_inv_def
  proof (intro conjI)
    show "ascending (timers ?r)" "ascending (activeTimers ?r)" using a(3) act(2) by simp_all
    show "\<forall>(w, p) \<in> set (timers ?r). p \<notin> H \<union> snd ` set es \<and> p \<noteq> UINTPTR_MAX \<and>
        (\<exists>t. mem ?r p = Some t \<and> expiration t = w)"
    proof clarify
      fix w p
      assume "(w, p) \<in> set (timers ?r)"
      then have e: "(w, p) \<in> set (timers q)" "\<not> w \<le> now" using set_rest by auto
      from tq_invD [OF inv e(1)] split [OF e(1)] e(2)
      show "p \<notin> H \<union> snd ` set es \<and> p \<noteq> UINTPTR_MAX \<and> (\<exists>t. mem ?r p = Some t \<and> expiration t = w)" by auto
    qed
    show "\<forall>p n. ((p, n) \<in> set (activeTimers ?r)) =
        (\<exists>t. mem ?r p = Some t \<and> sequence t = n \<and> (expiration t, p) \<in> set (timers ?r))"
    proof (intro allI)
      fix p n
      show "((p, n) \<in> set (activeTimers ?r)) =
        (\<exists>t. mem ?r p = Some t \<and> sequence t = n \<and> (expiration t, p) \<in> set (timers ?r))"
      proof (cases "\<exists>t. mem q p = Some t \<and> (expiration t, p) \<in> set (timers q)")
        case True
        then obtain t where "mem q p = Some t" "(expiration t, p) \<in> set (timers q)" by blast
        with act(3) [folded P_def] set_rest split [of "expiration t" p, folded P_def]
        show ?thesis by (simp add: tq_inv_active [OF inv] not_le)
      next
        case False
        with act(3) set_rest show ?thesis by (auto simp: tq_inv_active [OF inv])
      qed
    qed
    have "snd ` set (timers q) = snd ` set rest \<union> snd ` set es" using a(1) by auto
    then show "dom (mem ?r) = snd ` set (timers ?r) \<union> (H \<union> snd ` set es)" using d by auto
  qed
  have "(case rest of [] \<Rightarrow> True | (w, _) # _ \<Rightarrow> now < w)"
  proof (cases rest)
    case (Cons e es)
    have "e \<in> set rest" unfolding Cons by simp
    then have "now < fst e" using set_rest by simp
    then show ?thesis using Cons by (cases e) simp
  qed simp
  then have "getExpired now q = Inr (es, ?r)"
    using act(1) sp tq_inv_same_size [OF inv'] inv by (simp add: getExpired_def)
  then show thesis
  proof (intro that [of ?r])
    show "timers q = due now q @ timers ?r" unfolding es [symmetric] using a(1) by simp
    show "tq_inv (H \<union> snd ` set (due now q)) ?r" using inv' unfolding es .
    show "set (due now q) = {e \<in> set (timers q). fst e \<le> now}" using set_es unfolding es .
    show "distinct (map snd (due now q))" using dist unfolding es .
  qed (simp_all add: es)
qed


subsection \<open>Putting the repeating timers back\<close>

definition again :: "'ts timer_queue \<Rightarrow> 'ts \<times> u64 \<Rightarrow> bool" where
  "again q e \<longleftrightarrow> (case mem q (snd e) of None \<Rightarrow> False
     | Some t \<Rightarrow> repeat t \<and> (snd e, sequence t) \<notin> set (cancelingTimers q))"

lemma tq_inv_dealloc: "tq_inv (insert p H) q \<Longrightarrow> p \<notin> H \<Longrightarrow> tq_inv H (q\<lparr>mem := (mem q)(p := None)\<rparr>)"
  unfolding tq_inv_def by (auto simp: image_iff)

lemma tq_inv_change_held:
  assumes "tq_inv H q" and "p \<in> H"
  shows "tq_inv H (q\<lparr>mem := (mem q)(p \<mapsto> t)\<rparr>)"
proof -
  have "(w, p) \<notin> set (timers q)" for w using tq_invD [OF assms(1), of w p] assms(2) by blast
  then show ?thesis using assms unfolding tq_inv_def by auto
qed

lemma reset_entry_ok:
  assumes inv: "tq_inv (insert p H) q" and p: "p \<notin> H" "p \<noteq> UINTPTR_MAX" and t: "mem q p = Some t"
  shows "\<exists>q'. reset_entry pf now (w, p) q = Inr q' \<and> tq_inv H q' \<and> fired q' = fired q \<and>
    cancelingTimers q' = cancelingTimers q \<and> (\<forall>r. r \<noteq> p \<longrightarrow> mem q' r = mem q r) \<and>
    (if again q (w, p)
     then mem q' p = Some (restart pf now t) \<and> set (timers q') = insert (addTime pf now (interval t), p) (set (timers q))
     else mem q' p = None \<and> timers q' = timers q)"
proof (cases "again q (w, p)")
  case True
  let ?q = "q\<lparr>mem := (mem q)(p \<mapsto> restart pf now t)\<rparr>"
  have rep: "repeat t" "(p, sequence t) \<notin> set (cancelingTimers q)" using True t by (simp_all add: again_def)
  then have e: "expiration (restart pf now t) = addTime pf now (interval t)" by (simp add: restart_def)
  have "mem ?q p = Some (restart pf now t)" by simp
  note i = insert_timer_ok [OF tq_inv_change_held [OF inv insertI1] p this]
  show ?thesis using True rep t i e
    by (simp add: reset_entry_def deref_timer_def set_insort_key)
next
  case False
  then have "(repeat t \<and> (p, sequence t) \<notin> set (cancelingTimers q)) = False" using t by (simp add: again_def)
  then have "reset_entry pf now (w, p) q = Inr (q\<lparr>mem := (mem q)(p := None)\<rparr>)"
    using t by (simp only: reset_entry_def deref_timer_def snd_conv option.case if_False)
  with tq_inv_dealloc [OF inv p(1)] False show ?thesis by simp
qed

lemma reset_entries_ok:
  assumes "tq_inv (H \<union> snd ` set es) q" and "distinct (map snd es)" and "H \<inter> snd ` set es = {}"
    and "UINTPTR_MAX \<notin> snd ` set es"
  shows "\<exists>q'. for_each (reset_entry pf now) es q = Inr q' \<and> tq_inv H q' \<and> fired q' = fired q \<and>
    cancelingTimers q' = cancelingTimers q \<and> (\<forall>r. r \<notin> snd ` set es \<longrightarrow> mem q' r = mem q r) \<and>
    set (timers q) \<subseteq> set (timers q') \<and>
    (\<forall>e \<in> set es. \<forall>t. mem q (snd e) = Some t \<longrightarrow>
      mem q' (snd e) = (if again q e then Some (restart pf now t) else None) \<and>
      (again q e \<longrightarrow> (addTime pf now (interval t), snd e) \<in> set (timers q')))"
  using assms
proof (induction es arbitrary: q)
  case (Cons e es)
  obtain w p where e: "e = (w, p)" by (cases e)
  let ?H = "H \<union> snd ` set es"
  have inv: "tq_inv (insert p ?H) q" using Cons.prems(1) e by simp
  have p: "p \<notin> ?H" "p \<noteq> UINTPTR_MAX" using Cons.prems(2-4) e by auto
  have "p \<in> dom (mem q)" using inv by (simp add: tq_inv_def)
  then obtain t where t: "mem q p = Some t" by auto
  obtain q1 where q1: "reset_entry pf now (w, p) q = Inr q1" "tq_inv ?H q1" "fired q1 = fired q"
      "cancelingTimers q1 = cancelingTimers q" "\<forall>r. r \<noteq> p \<longrightarrow> mem q1 r = mem q r"
      "if again q (w, p) then mem q1 p = Some (restart pf now t) \<and>
         set (timers q1) = insert (addTime pf now (interval t), p) (set (timers q))
       else mem q1 p = None \<and> timers q1 = timers q"
    using reset_entry_ok [OF inv p t, of pf now w] by blast
  obtain q2 where q2: "for_each (reset_entry pf now) es q1 = Inr q2" "tq_inv H q2" "fired q2 = fired q1"
      "cancelingTimers q2 = cancelingTimers q1" "\<forall>r. r \<notin> snd ` set es \<longrightarrow> mem q2 r = mem q1 r"
      "set (timers q1) \<subseteq> set (timers q2)"
      "\<forall>e \<in> set es. \<forall>t. mem q1 (snd e) = Some t \<longrightarrow>
        mem q2 (snd e) = (if again q1 e then Some (restart pf now t) else None) \<and>
        (again q1 e \<longrightarrow> (addTime pf now (interval t), snd e) \<in> set (timers q2))"
    using Cons.IH [of q1] q1(2) Cons.prems(2-4) by auto
  have ne: "snd x \<noteq> p" if "x \<in> set es" for x using p(1) that by auto
  then have same: "mem q1 (snd x) = mem q (snd x)" "again q1 x = again q x" if "x \<in> set es" for x
    using q1(4,5) that by (simp_all add: again_def cong: option.case_cong)
  have "mem q2 (snd x) = (if again q x then Some (restart pf now u) else None) \<and>
      (again q x \<longrightarrow> (addTime pf now (interval u), snd x) \<in> set (timers q2))"
    if x: "x \<in> set (e # es)" "mem q (snd x) = Some u" for x u
  proof (cases "x \<in> set es")
    case True
    then show ?thesis using q2(7) same x(2) by simp
  next
    case False
    then have "x = (w, p)" using x(1) e by simp
    moreover have "mem q2 p = mem q1 p" using q2(5) p(1) by simp
    ultimately show ?thesis using q1(6) q2(6) x(2) t by (auto split: if_splits)
  qed
  moreover have "mem q2 r = mem q r" if "r \<notin> snd ` set (e # es)" for r
    using that q1(5) q2(5) e by simp
  moreover have "set (timers q) \<subseteq> set (timers q2)" using q1(6) q2(6) by (auto split: if_splits)
  moreover have "for_each (reset_entry pf now) (e # es) q = Inr q2" using q1(1) q2(1) e by simp
  ultimately show ?case using q1(3,4) q2(2,3,4) by (intro exI [of _ q2]) simp
qed auto


lemma reset_ok:
  assumes "tq_inv (H \<union> snd ` set es) q" and "distinct (map snd es)" and "H \<inter> snd ` set es = {}"
    and "UINTPTR_MAX \<notin> snd ` set es" and bad: "\<not> ts_valid pf (ts_default pf)"
  shows "\<exists>q'. reset pf es now q = Inr q' \<and> tq_inv H q' \<and> fired q' = fired q \<and>
    cancelingTimers q' = cancelingTimers q \<and>
    (\<forall>e \<in> set es. \<forall>t. mem q (snd e) = Some t \<longrightarrow>
      mem q' (snd e) = (if again q e then Some (restart pf now t) else None) \<and>
      (again q e \<longrightarrow> (addTime pf now (interval t), snd e) \<in> set (timers q'))) \<and>
    (timers q' \<noteq> [] \<longrightarrow> ts_valid pf (fst (hd (timers q'))) \<longrightarrow> armed q' = Some (fst (hd (timers q')), howMuchTimerFromNow pf (fst (hd (timers q'))) (clock q')))"
proof -
  obtain q1 where q1: "for_each (reset_entry pf now) es q = Inr q1" "tq_inv H q1" "fired q1 = fired q"
      "cancelingTimers q1 = cancelingTimers q"
      "\<forall>e \<in> set es. \<forall>t. mem q (snd e) = Some t \<longrightarrow>
        mem q1 (snd e) = (if again q e then Some (restart pf now t) else None) \<and>
        (again q e \<longrightarrow> (addTime pf now (interval t), snd e) \<in> set (timers q1))"
    using reset_entries_ok [OF assms(1-4), of pf now] by blast
  show ?thesis
  proof (cases "timers q1")
    case Nil
    then have "reset pf es now q = Inr q1" using q1(1) bad by (simp add: reset_def)
    then show ?thesis using q1 Nil by (intro exI [of _ q1]) simp
  next
    case (Cons x xs)
    obtain w p where x: "x = (w, p)" by (cases x)
    have "(w, p) \<in> set (timers q1)" using Cons x by simp
    from tq_invD [OF q1(2) this] obtain t where t: "mem q1 p = Some t" "expiration t = w" by blast
    let ?r = "if ts_valid pf w then resetTimerfd pf w q1 else q1"
    have "reset pf es now q = Inr ?r" using q1(1) Cons x t by (simp add: reset_def deref_timer_def)
    then show ?thesis using q1 Cons x by (intro exI [of _ ?r]) (simp add: resetTimerfd_def)
  qed
qed

lemma handleRead_ok:
  assumes inv: "tq_inv H q" and al: "allocator_ok pf" and bad: "\<not> ts_valid pf (ts_default pf)"
  shows "returns_or {bad_alloc} (\<lambda>q'. tq_inv H q' \<and>
      fired q' = fired q @ map (callback_of q) (due now q) \<and>
      (\<forall>e \<in> set (due now q). \<forall>t. mem q (snd e) = Some t \<longrightarrow>
         (if repeat t \<and> (snd e, sequence t) \<notin> set (cancelingTimers q')
          then mem q' (snd e) = Some (restart pf now t) \<and>
            (addTime pf now (interval t), snd e) \<in> set (timers q')
          else mem q' (snd e) = None)) \<and>
      (timers q' \<noteq> [] \<longrightarrow> ts_valid pf (fst (hd (timers q'))) \<longrightarrow> armed q' = Some (fst (hd (timers q')), howMuchTimerFromNow pf (fst (hd (timers q'))) (clock q'))))
    (handleRead pf user True now q)"
proof -
  let ?es = "due now q"
  have du: "due now (readTimerfd q) = ?es" by (simp add: due_def readTimerfd_def)
  have inv0: "tq_inv H (readTimerfd q)" using inv by (simp add: readTimerfd_def)
  obtain q1 where g: "getExpired now (readTimerfd q) = Inr (due now (readTimerfd q), q1)"
      "tq_inv (H \<union> snd ` set (due now (readTimerfd q))) q1" "mem q1 = mem (readTimerfd q)"
      "set (due now (readTimerfd q)) = {e \<in> set (timers (readTimerfd q)). fst e \<le> now}"
      "fired q1 = fired (readTimerfd q)" "distinct (map snd (due now (readTimerfd q)))"
    by (rule getExpired_ok [OF inv0, of now])
  have same: "mem (readTimerfd q) = mem q" "timers (readTimerfd q) = timers q" "fired (readTimerfd q) = fired q"
    by (simp_all add: readTimerfd_def)
  have q1: "getExpired now (readTimerfd q) = Inr (?es, q1)" "tq_inv (H \<union> snd ` set ?es) q1"
      "mem q1 = mem q" "set ?es \<subseteq> set (timers q)" "fired q1 = fired q" "distinct (map snd ?es)"
    using g unfolding du same by simp_all
  have dis: "H \<inter> snd ` set ?es = {}" "UINTPTR_MAX \<notin> snd ` set ?es"
  proof -
    have "snd e \<notin> H \<and> snd e \<noteq> UINTPTR_MAX" if "e \<in> set ?es" for e
      using tq_invD [OF inv, of "fst e" "snd e"] that q1(4) by auto
    then show "H \<inter> snd ` set ?es = {}" "UINTPTR_MAX \<notin> snd ` set ?es" by force+
  qed
  let ?q1 = "q1\<lparr>callingExpiredTimers := True, cancelingTimers := []\<rparr>"
  have "tq_inv (H \<union> snd ` set ?es) ?q1" using q1(2) by simp
  note run = run_all_keeps [OF this al, of ?es user]
  have cb: "map (callback_of ?q1) ?es = map (callback_of q) ?es" using q1(3) by (simp add: callback_of_def)
  show ?thesis
    unfolding handleRead_def q1(1) require_True and_then.simps case_prod_conv
  proof (rule returns_or_and_then [OF run])
    fix q2
    assume q2: "tq_inv (H \<union> snd ` set ?es) q2 \<and> kept (H \<union> snd ` set ?es) ?q1 q2 \<and>
      fired q2 = fired ?q1 @ map (callback_of ?q1) ?es"
    let ?q2 = "q2\<lparr>callingExpiredTimers := False\<rparr>"
    have "tq_inv (H \<union> snd ` set ?es) ?q2" using q2 by simp
    from reset_ok [OF this q1(6) dis bad, of now] obtain q' where q': "reset pf ?es now ?q2 = Inr q'" "tq_inv H q'"
      "fired q' = fired ?q2" "cancelingTimers q' = cancelingTimers ?q2"
      "\<forall>e \<in> set ?es. \<forall>t. mem ?q2 (snd e) = Some t \<longrightarrow>
        mem q' (snd e) = (if again ?q2 e then Some (restart pf now t) else None) \<and>
        (again ?q2 e \<longrightarrow> (addTime pf now (interval t), snd e) \<in> set (timers q'))"
      "timers q' \<noteq> [] \<longrightarrow> ts_valid pf (fst (hd (timers q'))) \<longrightarrow> armed q' = Some (fst (hd (timers q')), howMuchTimerFromNow pf (fst (hd (timers q'))) (clock q'))"
      by blast
    have "if repeat t \<and> (snd e, sequence t) \<notin> set (cancelingTimers q')
          then mem q' (snd e) = Some (restart pf now t) \<and>
            (addTime pf now (interval t), snd e) \<in> set (timers q')
          else mem q' (snd e) = None" if e: "e \<in> set ?es" "mem q (snd e) = Some t" for e t
    proof -
      have m: "mem ?q2 (snd e) = Some t" using q2 e q1(3) by (auto simp: kept_def)
      then have "again ?q2 e = (repeat t \<and> (snd e, sequence t) \<notin> set (cancelingTimers q'))"
        using q'(4) by (simp add: again_def)
      with q'(5) e(1) m show ?thesis by auto
    qed
    then show "returns_or {bad_alloc} (\<lambda>q'. tq_inv H q' \<and>
      fired q' = fired q @ map (callback_of q) (due now q) \<and>
      (\<forall>e \<in> set (due now q). \<forall>t. mem q (snd e) = Some t \<longrightarrow>
         (if repeat t \<and> (snd e, sequence t) \<notin> set (cancelingTimers q')
          then mem q' (snd e) = Some (restart pf now t) \<and>
            (addTime pf now (interval t), snd e) \<in> set (timers q')
          else mem q' (snd e) = None)) \<and>
      (timers q' \<noteq> [] \<longrightarrow> ts_valid pf (fst (hd (timers q'))) \<longrightarrow> armed q' = Some (fst (hd (timers q')), howMuchTimerFromNow pf (fst (hd (timers q'))) (clock q'))))
      (reset pf ?es now ?q2)"
      using q' q2 q1(5) cb by simp
  qed simp
qed


subsection \<open>The descriptor is armed early enough\<close>

definition armed_ok :: "('ts::linorder) timer_queue \<Rightarrow> bool" where
  "armed_ok q \<longleftrightarrow> (timers q \<noteq> [] \<longrightarrow> (\<exists>a v. armed q = Some (a, v) \<and> a \<le> fst (hd (timers q))))"

lemma first_insort:
  "fst (hd (insort (d, p) es)) = (case es of [] \<Rightarrow> d | e # _ \<Rightarrow> min d (fst e))"
  by (cases es) (auto simp: min_def less_eq_prod_def)

lemma first_remove1:
  assumes "ascending es" and "remove1 x es \<noteq> []"
  shows "fst (hd es) \<le> fst (hd (remove1 x es))"
proof -
  have "hd (remove1 x es) \<in> set es" using assms(2) set_remove1_subset [of x es] hd_in_set by blast
  then have "hd es \<le> hd (remove1 x es)"
    using assms(1) ascending_hd_le [of "hd es" "tl es"] by (cases es) auto
  then show ?thesis by (auto simp: less_eq_prod_def dest: less_imp_le)
qed

lemma perform_armed:
  assumes inv: "tq_inv H q" and ok: "armed_ok q" and al: "allocator_ok pf"
  shows "returns_or {bad_alloc} (\<lambda>q'. tq_inv H q' \<and> armed_ok q') (perform pf r q)"
proof (cases r)
  case (AddTimer cb d intv)
  show ?thesis
  proof (cases "allocate pf (mem q)")
    case None
    then show ?thesis using AddTimer by (simp add: addTimer_fault)
  next
    case (Some p)
    note a = addTimer_ok(1,2) [OF inv al Some, where cb = cb and due = d and intv = intv]
    show ?thesis using a AddTimer ok
      by (cases "timers q") (auto simp: armed_ok_def first_insort min_def split: if_splits)
  qed
next
  case (CancelTimer tid)
  show ?thesis
  proof (cases "(id_timer tid, id_sequence tid) \<in> set (activeTimers q)")
    case True
    have asc: "ascending (timers q)" using inv by (simp add: tq_inv_def)
    have "armed_ok (without_timer tid t q)" for t
    proof (cases "remove1 (expiration t, id_timer tid) (timers q) = []")
      case False
      with ok first_remove1 [OF asc False] show ?thesis
        by (auto simp: armed_ok_def without_timer_def)
    qed (simp add: armed_ok_def without_timer_def)
    with cancelInLoop_active [OF inv True] CancelTimer show ?thesis
      by (metis perform.simps(2) returns_or_simps(2))
  next
    case False
    with cancelInLoop_inactive [OF inv False] CancelTimer inv ok show ?thesis by (simp add: armed_ok_def)
  qed
qed


subsection \<open>Properties\<close>

definition micro_clock :: "int platform" where
  "micro_clock = \<lparr>ts_valid = (\<lambda>t. 0 < t), ts_default = 0, ts_invalid = 0,
     addTime = (\<lambda>t i. t + \<lfloor>i * 1000000\<rfloor>), microSecondsSinceEpoch = word_of_int,
     kMicroSecondsPerSecond = 1000000, incrementAndGet = (\<lambda>n. (n + 1, n + 1)),
     allocate = (\<lambda>m. if m 8 = None then Some 8 else if m 16 = None then Some 16 else None)\<rparr>"

lemma allocator_micro_clock: "allocator_ok micro_clock"
  by (simp add: allocator_ok_def micro_clock_def UINTPTR_MAX_def)

lemma valid_micro_clock: "\<not> ts_valid micro_clock (ts_default micro_clock)"
  by (simp add: micro_clock_def)

text \<open>The same clock with an allocator that has room for eight timers.\<close>

definition roomy_clock :: "int platform" where
  "roomy_clock = micro_clock\<lparr>allocate := (\<lambda>m. List.find (\<lambda>p. m p = None) [1, 2, 3, 4, 5, 6, 7, 8])\<rparr>"

lemma roomy_clock_ok:
  "allocator_ok roomy_clock" "\<not> ts_valid roomy_clock (ts_default roomy_clock)"
  "incrementAndGet roomy_clock n = (n + 1, n + 1)"
  by (auto simp: allocator_ok_def roomy_clock_def micro_clock_def UINTPTR_MAX_def)

text \<open>A queue with two timers: one repeating every two seconds, one that fires once.\<close>

definition two_timers :: "int timer_queue" where
  "two_timers = \<lparr>timers = [(100, 8), (300, 16)], activeTimers = [(8, 1), (16, 2)], cancelingTimers = [],
     callingExpiredTimers = False, s_numCreated = 2,
     mem = [8 \<mapsto> new_timer 1 100 2 1, 16 \<mapsto> new_timer 2 300 0 2], clock = 90, armed = Some (100, 0, 100000), fired = []\<rparr>"

lemma two_timers_inv: "tq_inv {} two_timers" "armed_ok two_timers"
  by (auto simp: tq_inv_def two_timers_def ascending_def less_eq_prod_def UINTPTR_MAX_def new_timer_def armed_ok_def)

text \<open>C14: When the timer descriptor fires, \<open>handleRead\<close> runs the callbacks of exactly the timers due,
  each once and in order of expiration, whatever timers the callbacks add or cancel. It fails no
  assertion and touches no deleted timer (only a failed allocation stops it); afterwards a repeating
  timer no callback cancelled is queued one interval from now and every other due timer is deleted;
  the two sets and the heap agree, and the descriptor is armed for the earliest timer.\<close>

theorem handleRead_runs_due_timers:
  assumes "tq_inv H q" and "allocator_ok pf" and "\<not> ts_valid pf (ts_default pf)"
  shows "returns_or {bad_alloc} (\<lambda>q'. tq_inv H q' \<and>
      fired q' = fired q @ map (callback_of q) (due now q) \<and>
      (\<forall>e \<in> set (due now q). \<forall>t. mem q (snd e) = Some t \<longrightarrow>
         (if repeat t \<and> (snd e, sequence t) \<notin> set (cancelingTimers q')
          then mem q' (snd e) = Some (restart pf now t) \<and>
            (addTime pf now (interval t), snd e) \<in> set (timers q')
          else mem q' (snd e) = None)) \<and>
      (timers q' \<noteq> [] \<longrightarrow> ts_valid pf (fst (hd (timers q'))) \<longrightarrow> armed q' = Some (fst (hd (timers q')), howMuchTimerFromNow pf (fst (hd (timers q'))) (clock q'))))
    (handleRead pf user True now q)"
  using assms by (rule handleRead_ok)

text \<open>The repeating timer is due; its callback cancels the other one and adds a third, which is due
  already but not run.\<close>

lemma two_timers_handled:
  "case handleRead roomy_clock (\<lambda>n q. [CancelTimer \<lparr>id_timer = 16, id_sequence = 2\<rparr>, AddTimer 3 150 0]) True 200 two_timers of
     Inl e \<Rightarrow> False
   | Inr q \<Rightarrow> cancelingTimers q = [] \<and> timers q = [(150, 1), (2000200, 8)] \<and> mem q 16 = None"
  by code_simp

theorem handleRead_runs_due_timers_witness:
  "\<exists>q. handleRead roomy_clock (\<lambda>n q. [CancelTimer \<lparr>id_timer = 16, id_sequence = 2\<rparr>, AddTimer 3 150 0]) True 200 two_timers = Inr q \<and>
     tq_inv {} q \<and> fired q = [1] \<and> timers q = [(150, 1), (2000200, 8)] \<and> mem q 16 = None \<and>
     mem q 8 = Some (restart roomy_clock 200 (new_timer 1 100 2 1)) \<and> armed q = Some (150, howMuchTimerFromNow roomy_clock 150 (clock q))"
proof -
  let ?user = "\<lambda>n q. [CancelTimer \<lparr>id_timer = 16, id_sequence = 2\<rparr>, AddTimer 3 150 0]"
  obtain q where q: "handleRead roomy_clock ?user True 200 two_timers = Inr q" "cancelingTimers q = []"
    "timers q = [(150, 1), (2000200, 8)]" "mem q 16 = None" using two_timers_handled by (auto split: sum.splits)
  have d: "due 200 two_timers = [(100, 8)]" "mem two_timers 8 = Some (new_timer 1 100 2 1)" "fired two_timers = []"
    by (simp_all add: due_def two_timers_def)
  have v: "ts_valid roomy_clock 150" "repeat (new_timer 1 100 2 1 :: int timer)"
    by (simp_all add: roomy_clock_def micro_clock_def new_timer_def)
  from handleRead_runs_due_timers [OF two_timers_inv(1) roomy_clock_ok(1,2), where user = ?user and now = 200] show ?thesis
    unfolding q(1) returns_or_simps d(1) using q d(2,3) v by (simp add: callback_of_def) (simp add: new_timer_def)
qed

text \<open>Adding and cancelling timers in the loop's thread, in any order, with any identities, keeps
  the sets and the heap in agreement and the descriptor armed no later than the earliest timer.\<close>

theorem timerfd_stays_armed:
  assumes "tq_inv H q" and "armed_ok q" and "allocator_ok pf"
  shows "returns_or {bad_alloc} (\<lambda>q'. tq_inv H q' \<and> armed_ok q') (for_each (perform pf) rs q)"
  by (rule returns_or_for_each) (use assms perform_armed in auto)

theorem timerfd_stays_armed_witness:
  "returns_or {bad_alloc} armed_ok (for_each (perform micro_clock)
     [CancelTimer \<lparr>id_timer = 8, id_sequence = 1\<rparr>, AddTimer 7 50 0] two_timers)"
  by (rule returns_or_mono [OF timerfd_stays_armed [OF two_timers_inv allocator_micro_clock]]) simp

text \<open>The identity \<open>addTimer\<close> returns carries sequence 0, and the timers are numbered from 1: to
  cancel it removes no timer, so the timer it was returned for still fires.\<close>

theorem cancel_of_returned_id_is_ignored:
  assumes "addTimer pf cb d intv q0 = Inr (tid, q1)"
    and "tq_inv H q" and "\<forall>p t. mem q p = Some t \<longrightarrow> sequence t \<noteq> 0"
  shows "\<exists>q'. cancelInLoop True tid q = Inr q' \<and> timers q' = timers q \<and>
    activeTimers q' = activeTimers q \<and> mem q' = mem q \<and> due now q' = due now q"
proof -
  have "id_sequence tid = 0"
    using assms(1) by (auto simp: addTimer_def and_then_Inr_iff make_timer_id_def split: prod.splits)
  then have "(id_timer tid, id_sequence tid) \<notin> set (activeTimers q)"
    using assms(3) by (auto simp: tq_inv_active [OF assms(2)])
  from cancelInLoop_inactive [OF assms(2) this] show ?thesis by (simp add: due_def)
qed

theorem cancel_of_returned_id_is_ignored_witness:
  "\<exists>q1 q2. addTimer micro_clock 4 500 0 (new_timer_queue Map.empty 0 90) = Inr (make_timer_id 8, q1) \<and>
     cancelInLoop True (make_timer_id 8) q1 = Inr q2 \<and> due 600 q2 = [(500, 8)]"
proof -
  let ?q = "new_timer_queue Map.empty 0 90 :: int timer_queue"
  let ?t = "new_timer 4 500 0 1 :: int timer"
  have inv: "tq_inv {} ?q" by (simp add: tq_inv_new)
  have p: "allocate micro_clock (mem ?q) = Some 8" by (simp add: micro_clock_def new_timer_queue_def)
  note a = addTimer_ok(1,2) [OF inv allocator_micro_clock p, where cb = 4 and due = 500 and intv = 0]
  have s: "incrementAndGet micro_clock 0 = (1, 1)" by (simp add: micro_clock_def)
  obtain q1 where q1: "addTimer micro_clock 4 500 0 ?q = Inr (make_timer_id 8, q1)" "tq_inv {} q1"
      "timers q1 = [(500, 8)]" "mem q1 = [8 \<mapsto> ?t]"
    using a by (simp add: s new_timer_queue_def)
  have "\<forall>p t. mem q1 p = Some t \<longrightarrow> sequence t \<noteq> 0" using q1(4) by (simp add: new_timer_def)
  from cancel_of_returned_id_is_ignored [OF q1(1,2) this, of 600] q1(1,3) show ?thesis
    by (auto simp: due_def)
qed

text \<open>A timer with an interval of one second or less does not repeat: the \<open>handleRead\<close> that runs it
  deletes it (\<open>repeat_\<close> is \<open>interval > 1.0\<close>, so \<open>runEvery(0.5, cb)\<close> fires once).\<close>

theorem short_interval_fires_once:
  assumes "tq_inv H q" and "allocator_ok pf" and "\<not> ts_valid pf (ts_default pf)"
    and "(w, p) \<in> set (due now q)" and "mem q p = Some (new_timer cb w intv seq)" and "intv \<le> 1"
  shows "returns_or {bad_alloc} (\<lambda>q'. cb \<in> set (fired q') \<and> mem q' p = None \<and>
    (\<forall>v. (v, p) \<notin> set (timers q'))) (handleRead pf user True now q)"
proof (rule returns_or_mono [OF handleRead_ok [OF assms(1-3)]], elim conjE)
  fix q'
  assume inv: "tq_inv H q'" and f: "fired q' = fired q @ map (callback_of q) (due now q)"
    and m: "\<forall>e \<in> set (due now q). \<forall>t. mem q (snd e) = Some t \<longrightarrow>
         (if repeat t \<and> (snd e, sequence t) \<notin> set (cancelingTimers q')
          then mem q' (snd e) = Some (restart pf now t) \<and>
            (addTime pf now (interval t), snd e) \<in> set (timers q')
          else mem q' (snd e) = None)"
  have "callback_of q (w, p) = cb" using assms(5) by (simp add: callback_of_def new_timer_def)
  then have "cb \<in> set (fired q')" using f assms(4) by force
  moreover have "mem q' p = None" using m assms(4-6) by (force simp: new_timer_def)
  moreover from this have "(v, p) \<notin> set (timers q')" for v using tq_invD [OF inv, of v p] by force
  ultimately show "cb \<in> set (fired q') \<and> mem q' p = None \<and> (\<forall>v. (v, p) \<notin> set (timers q'))" by blast
qed

theorem short_interval_fires_once_witness:
  "returns_or {bad_alloc} (\<lambda>q'. 2 \<in> set (fired q') \<and> mem q' 16 = None)
     (handleRead micro_clock (\<lambda>_ _. []) True 300 two_timers)"
  by (rule returns_or_mono [OF short_interval_fires_once
        [OF two_timers_inv(1) allocator_micro_clock valid_micro_clock, where w = 300 and p = 16 and cb = 2 and intv = 0 and seq = 2]])
    (simp_all add: due_def two_timers_def)

text \<open>\<open>howMuchTimerFromNow\<close> never asks for less than 100 microseconds, and is exact otherwise: seconds
  and nanoseconds are those of the difference, the nanoseconds below a full second.\<close>

lemma sint_of_small_int:
  assumes "0 \<le> x" and "x < 2 ^ 63"
  shows "sint (word_of_int x :: u64) = x"
  using assms by (simp add: signed_of_int signed_take_bit_int_eq_self)

theorem howMuchTimerFromNow_exact:
  assumes "sint (microSecondsSinceEpoch pf d - microSecondsSinceEpoch pf now) = delta"
    and "kMicroSecondsPerSecond pf = 1000000"
  shows "0 \<le> sint (snd (howMuchTimerFromNow pf d now)) \<and>
    sint (snd (howMuchTimerFromNow pf d now)) < 1000000000 \<and>
    sint (fst (howMuchTimerFromNow pf d now)) * 1000000000 + sint (snd (howMuchTimerFromNow pf d now))
      = max 100 delta * 1000"
proof -
  define m where "m = max 100 delta"
  define w :: u64 where "w = (if delta < 100 then 100 else microSecondsSinceEpoch pf d - microSecondsSinceEpoch pf now)"
  have w: "sint w = m" using assms(1) by (simp add: w_def m_def)
  have m: "100 \<le> m" "m < 2 ^ 63" using w sint_lt [of w] by (simp_all add: m_def)
  have k: "sint (kMicroSecondsPerSecond pf) = 1000000" using assms(2) by simp
  have h: "howMuchTimerFromNow pf d now
      = (word_of_int (m div 1000000), word_of_int (m mod 1000000 * 1000))"
    unfolding howMuchTimerFromNow_def Let_def assms(1) w_def [symmetric] w k
    using m division_of_positive [of m 1000000] by simp
  have s: "sint (fst (howMuchTimerFromNow pf d now)) = m div 1000000"
    unfolding h fst_conv by (rule sint_of_small_int) (use m in auto)
  have n: "sint (snd (howMuchTimerFromNow pf d now)) = m mod 1000000 * 1000"
    unfolding h snd_conv
  proof (rule sint_of_small_int)
    have "m mod 1000000 < 1000000" by simp
    then have "m mod 1000000 * 1000 < 1000000 * 1000" by (rule mult_strict_right_mono) simp
    then show "m mod 1000000 * 1000 < 2 ^ 63" by simp
  qed simp
  have "0 \<le> m mod 1000000" "m mod 1000000 < 1000000" by simp_all
  moreover have "m div 1000000 * 1000000 + m mod 1000000 = m" by (rule div_mult_mod_eq)
  ultimately show ?thesis unfolding s n m_def [symmetric] by linarith
qed

theorem howMuchTimerFromNow_exact_witness:
  "snd (howMuchTimerFromNow micro_clock 2500000 1000000) = 500000000"
proof -
  have "sint (microSecondsSinceEpoch micro_clock 2500000 - microSecondsSinceEpoch micro_clock 1000000) = 1500000"
    "kMicroSecondsPerSecond micro_clock = 1000000" by (simp_all add: micro_clock_def)
  note h = howMuchTimerFromNow_exact [OF this]
  define ns where "ns = sint (snd (howMuchTimerFromNow micro_clock 2500000 1000000))"
  define sec where "sec = sint (fst (howMuchTimerFromNow micro_clock 2500000 1000000))"
  have e: "0 \<le> ns" "ns < 1000000000" "sec * 1000000000 + ns = 1500000000"
    using h unfolding ns_def [symmetric] sec_def [symmetric] by simp_all
  then have "sec = 1" by linarith
  with e(3) have "ns = 500000000" by simp
  then have "sint (snd (howMuchTimerFromNow micro_clock 2500000 1000000)) = sint (500000000 :: u64)"
    unfolding ns_def by simp
  then show ?thesis by (rule iffD2 [OF word_eq_iff_signed])
qed

text \<open>The destructor leaves no timer of the queue behind.\<close>

lemma destroy_fold: "fold (\<lambda>e m. m(snd e := None)) es m = (\<lambda>p. if p \<in> snd ` set es then None else m p)"
  by (induction es arbitrary: m) auto

lemma destroy_frees_all: "tq_inv {} q \<Longrightarrow> mem (destroy_timer_queue q) = Map.empty"
  by (auto simp: destroy_timer_queue_def destroy_fold tq_inv_def fun_eq_iff domIff)

end
