(* ===== verification/EventLoop.thy ===== *)
theory EventLoop
  imports Poller TimerQueue
begin

section \<open>The event loop: EventLoop.h and EventLoop.cc\<close>

text \<open>
  A loop belongs to one thread, which polls, dispatches events and then runs the functors other
  code has queued. The type \<open>'f\<close> stands for functors, \<open>'e\<close> for the channels of a poll, \<open>'s\<close> for the
  state they work on: what a functor or an event handler does is a parameter, from the state to the
  new state and the calls it makes on its loop, in order, or a fault.

  The first part of the theory has the member functions. The second is the loop as a step relation
  with the other threads: the loop's thread advances one statement at a time, the others queue
  functors or ask to quit, in two steps each, since the wakeup is written after the lock is
  released. The eventfd is its counter; \<open>owed\<close> counts the threads that have yet to write to it. The
  ghost fields \<open>queued\<close> and \<open>ran\<close> record the functors in the order they were queued and run.

  The locale \<open>loop_client\<close> is what a component promises that runs its work in a loop.
\<close>

datatype 'f call = QueueCall 'f | QuitCall

record ('f, 's) event_loop =
  looping :: bool
  quitting :: bool
  callingPendingFunctors :: bool
  pendingFunctors :: "'f list"
  counter :: nat
  user :: 's

definition new_event_loop :: "bool \<Rightarrow> 's \<Rightarrow> ('f, 's) event_loop result" where
  "new_event_loop another_in_thread s =
     require (\<not> another_in_thread) (Fatal ''Another EventLoop exists in this thread'')
       (Inr \<lparr>looping = False, quitting = False, callingPendingFunctors = False, pendingFunctors = [],
          counter = 0, user = s\<rparr>)"

definition destroy_event_loop :: "('f, 's) event_loop \<Rightarrow> unit result" where
  "destroy_event_loop L = require (\<not> looping L) (AssertionFailed ''!looping_'') (Inr ())"

subsection \<open>Member functions\<close>

definition wakeup :: "('f, 's) event_loop \<Rightarrow> ('f, 's) event_loop" where
  "wakeup L = L\<lparr>counter := counter L + 1\<rparr>"

definition loop_handleRead :: "('f, 's) event_loop \<Rightarrow> ('f, 's) event_loop" where
  "loop_handleRead L = L\<lparr>counter := 0\<rparr>"

definition quit :: "bool \<Rightarrow> ('f, 's) event_loop \<Rightarrow> ('f, 's) event_loop" where
  "quit in_loop L = (let L' = L\<lparr>quitting := True\<rparr> in if \<not> in_loop then wakeup L' else L')"

definition queueInLoop :: "bool \<Rightarrow> 'f \<Rightarrow> ('f, 's) event_loop \<Rightarrow> ('f, 's) event_loop" where
  "queueInLoop in_loop f L =
     (let L' = L\<lparr>pendingFunctors := pendingFunctors L @ [f]\<rparr>
      in if \<not> in_loop \<or> callingPendingFunctors L' then wakeup L' else L')"

fun loop_call :: "'f call \<Rightarrow> ('f, 's) event_loop \<Rightarrow> ('f, 's) event_loop" where
  "loop_call (QueueCall f) L = queueInLoop True f L"
| "loop_call QuitCall L = quit True L"

text \<open>A piece of code of the loop's thread: the state it leaves, then its calls on the loop.\<close>

definition in_thread ::
  "('s \<Rightarrow> ('s \<times> 'f call list) result) \<Rightarrow> ('f, 's) event_loop \<Rightarrow> ('f, 's) event_loop result" where
  "in_thread code L = and_then (code (user L)) (\<lambda>(s, calls). Inr (fold loop_call calls (L\<lparr>user := s\<rparr>)))"

definition runInLoop ::
  "('f \<Rightarrow> 's \<Rightarrow> ('s \<times> 'f call list) result) \<Rightarrow> bool \<Rightarrow> 'f \<Rightarrow> ('f, 's) event_loop
     \<Rightarrow> ('f, 's) event_loop result" where
  "runInLoop run in_loop f L =
     (if in_loop then in_thread (run f) L else Inr (queueInLoop in_loop f L))"

definition doPendingFunctors ::
  "('f \<Rightarrow> 's \<Rightarrow> ('s \<times> 'f call list) result) \<Rightarrow> ('f, 's) event_loop \<Rightarrow> ('f, 's) event_loop result" where
  "doPendingFunctors run L =
     (let L1 = L\<lparr>callingPendingFunctors := True\<rparr>;
          functors = pendingFunctors L1;
          L2 = L1\<lparr>pendingFunctors := []\<rparr>
      in and_then (for_each (\<lambda>f. in_thread (run f)) functors L2)
           (\<lambda>L3. Inr (L3\<lparr>callingPendingFunctors := False\<rparr>)))"

text \<open>The channels of a loop: its own wakeup channel and those of its components.\<close>

datatype 'e active = WakeupChannel | Component 'e

fun dispatch ::
  "('e \<Rightarrow> 's \<Rightarrow> ('s \<times> 'f call list) result) \<Rightarrow> 'e active \<Rightarrow> ('f, 's) event_loop
     \<Rightarrow> ('f, 's) event_loop result" where
  "dispatch handle WakeupChannel L = Inr (loop_handleRead L)"
| "dispatch handle (Component e) L = in_thread (handle e) L"

text \<open>
  \<open>loop\<close> on a finite sequence of answers of \<open>Poller::poll\<close>: it stops when \<open>quit_\<close> is found set, or where
  the answers end, still looping.
\<close>

fun loop_while ::
  "('f \<Rightarrow> 's \<Rightarrow> ('s \<times> 'f call list) result) \<Rightarrow> ('e \<Rightarrow> 's \<Rightarrow> ('s \<times> 'f call list) result)
     \<Rightarrow> 'e active list list \<Rightarrow> ('f, 's) event_loop \<Rightarrow> ('f, 's) event_loop result" where
  "loop_while run handle polls L =
     (if quitting L then Inr (L\<lparr>looping := False\<rparr>)
      else case polls of
          [] \<Rightarrow> Inr L
        | activeChannels # rest \<Rightarrow>
            and_then (for_each (dispatch handle) activeChannels L) (\<lambda>L1.
            and_then (doPendingFunctors run L1) (loop_while run handle rest)))"

definition loop ::
  "('f \<Rightarrow> 's \<Rightarrow> ('s \<times> 'f call list) result) \<Rightarrow> ('e \<Rightarrow> 's \<Rightarrow> ('s \<times> 'f call list) result)
     \<Rightarrow> bool \<Rightarrow> 'e active list list \<Rightarrow> ('f, 's) event_loop \<Rightarrow> ('f, 's) event_loop result" where
  "loop run handle in_loop polls L =
     require (\<not> looping L) (AssertionFailed ''!looping_'')
    (require in_loop (Fatal ''EventLoop::abortNotInLoopThread'')
      (loop_while run handle polls (L\<lparr>looping := True, quitting := False\<rparr>)))"

text \<open>Channels are registered with the poller of their own loop, in its thread.\<close>

definition loop_updateChannel :: "nat \<Rightarrow> bool \<Rightarrow> ptr \<Rightarrow> poller \<Rightarrow> poller result" where
  "loop_updateChannel this in_loop p s = deref s p (\<lambda>ch.
     require (owner ch = this) (AssertionFailed ''channel->ownerLoop() == this'')
    (require in_loop (AssertionFailed ''isInLoopThread()'') (updateChannel in_loop p s)))"

definition loop_removeChannel :: "nat \<Rightarrow> bool \<Rightarrow> ptr \<Rightarrow> poller \<Rightarrow> poller result" where
  "loop_removeChannel this in_loop p s = deref s p (\<lambda>ch.
     require (owner ch = this) (AssertionFailed ''channel->ownerLoop() == this'')
    (require in_loop (Fatal ''EventLoop::abortNotInLoopThread'') (removeChannel in_loop p s)))"

text \<open>Timers of the loop.\<close>

definition runAt ::
  "'ts platform \<Rightarrow> 'ts \<Rightarrow> nat \<Rightarrow> ('ts::linorder) timer_queue \<Rightarrow> (timer_id \<times> 'ts timer_queue) result" where
  "runAt pf time cb q = addTimer pf cb time 0 q"

definition runAfter ::
  "'ts platform \<Rightarrow> real \<Rightarrow> nat \<Rightarrow> ('ts::linorder) timer_queue \<Rightarrow> (timer_id \<times> 'ts timer_queue) result" where
  "runAfter pf delay cb q = runAt pf (addTime pf (clock q) delay) cb q"

definition runEvery ::
  "'ts platform \<Rightarrow> real \<Rightarrow> nat \<Rightarrow> ('ts::linorder) timer_queue \<Rightarrow> (timer_id \<times> 'ts timer_queue) result" where
  "runEvery pf intv cb q = addTimer pf cb (addTime pf (clock q) intv) intv q"


declare loop_while.simps [simp del]

subsection \<open>What the calls of a piece of code do to its loop\<close>

fun queued_by :: "'f call list \<Rightarrow> 'f list" where
  "queued_by [] = []"
| "queued_by (QueueCall f # cs) = f # queued_by cs"
| "queued_by (QuitCall # cs) = queued_by cs"

lemma queued_by_append [simp]: "queued_by (xs @ ys) = queued_by xs @ queued_by ys"
  by (induction xs rule: queued_by.induct) auto

lemma fold_loop_call:
  "pendingFunctors (fold loop_call cs L) = pendingFunctors L @ queued_by cs"
  "callingPendingFunctors (fold loop_call cs L) = callingPendingFunctors L"
  "looping (fold loop_call cs L) = looping L"
  "user (fold loop_call cs L) = user L"
  "quitting (fold loop_call cs L) = (quitting L \<or> QuitCall \<in> set cs)"
  "counter (fold loop_call cs L)
    = counter L + (if callingPendingFunctors L then length (queued_by cs) else 0)"
proof (induction cs arbitrary: L)
  case (Cons c cs)
  case 1 show ?case by (cases c) (simp_all add: Cons.IH queueInLoop_def quit_def wakeup_def Let_def)
  case 2 show ?case by (cases c) (simp_all add: Cons.IH queueInLoop_def quit_def wakeup_def Let_def)
  case 3 show ?case by (cases c) (simp_all add: Cons.IH queueInLoop_def quit_def wakeup_def Let_def)
  case 4 show ?case by (cases c) (simp_all add: Cons.IH queueInLoop_def quit_def wakeup_def Let_def)
  case 5 show ?case by (cases c) (auto simp: Cons.IH queueInLoop_def quit_def wakeup_def Let_def)
  case 6 show ?case by (cases c) (simp_all add: Cons.IH queueInLoop_def quit_def wakeup_def Let_def)
qed simp_all

lemma in_threadE:
  assumes "in_thread code L = Inr L'"
  obtains s cs where "code (user L) = Inr (s, cs)" "user L' = s"
    "pendingFunctors L' = pendingFunctors L @ queued_by cs"
    "callingPendingFunctors L' = callingPendingFunctors L" "looping L' = looping L"
    "quitting L' = (quitting L \<or> QuitCall \<in> set cs)"
    "counter L' = counter L + (if callingPendingFunctors L then length (queued_by cs) else 0)"
  using assms by (auto simp: in_thread_def and_then_Inr_iff fold_loop_call)

lemma in_thread_fault: "in_thread code L = Inl e \<longleftrightarrow> code (user L) = Inl e"
  by (cases "code (user L)") (auto simp: in_thread_def)

subsection \<open>The loop and the other threads\<close>

datatype ('f, 'e) pc =
    Outside | Check | Polling | Dispatching "'e active list" | Swapping | Running "'f list"
  | Finished | Crashed fault

record ('f, 'e, 's) threads =
  lp :: "('f, 's) event_loop"
  pc :: "('f, 'e) pc"
  owed :: nat
  queued :: "'f list"
  ran :: "'f list"

definition start :: "('f, 's) event_loop \<Rightarrow> ('f, 'e, 's) threads" where
  "start L = \<lparr>lp = L, pc = Outside, owed = 0, queued = pendingFunctors L, ran = []\<rparr>"

text \<open>The loop's thread leaves \<open>L'\<close> and goes on at \<open>c\<close>; what it queued is recorded.\<close>

definition advance :: "('f, 's) event_loop \<Rightarrow> ('f, 'e) pc \<Rightarrow> ('f, 'e, 's) threads \<Rightarrow> ('f, 'e, 's) threads" where
  "advance L' c \<sigma> = \<sigma>\<lparr>lp := L', pc := c,
     queued := queued \<sigma> @ drop (length (pendingFunctors (lp \<sigma>))) (pendingFunctors L')\<rparr>"

inductive step ::
  "('f \<Rightarrow> 's \<Rightarrow> ('s \<times> 'f call list) result) \<Rightarrow> ('e \<Rightarrow> 's \<Rightarrow> ('s \<times> 'f call list) result)
     \<Rightarrow> ('s \<Rightarrow> 'f \<Rightarrow> 's \<Rightarrow> bool) \<Rightarrow> ('f, 'e, 's) threads \<Rightarrow> ('f, 'e, 's) threads \<Rightarrow> bool"
  for run handle post
where
  enter: "pc \<sigma> = Outside \<Longrightarrow>
    step run handle post \<sigma> (\<sigma>\<lparr>lp := (lp \<sigma>)\<lparr>looping := True, quitting := False\<rparr>, pc := Check\<rparr>)"
| leave: "pc \<sigma> = Check \<Longrightarrow> quitting (lp \<sigma>) \<Longrightarrow>
    step run handle post \<sigma> (\<sigma>\<lparr>lp := (lp \<sigma>)\<lparr>looping := False\<rparr>, pc := Finished\<rparr>)"
| block: "pc \<sigma> = Check \<Longrightarrow> \<not> quitting (lp \<sigma>) \<Longrightarrow> step run handle post \<sigma> (\<sigma>\<lparr>pc := Polling\<rparr>)"
| poll_returns: "pc \<sigma> = Polling \<Longrightarrow> (WakeupChannel \<in> set as \<longleftrightarrow> 0 < counter (lp \<sigma>)) \<Longrightarrow>
    step run handle post \<sigma> (\<sigma>\<lparr>pc := Dispatching as\<rparr>)"
| dispatches: "pc \<sigma> = Dispatching (a # as) \<Longrightarrow> dispatch handle a (lp \<sigma>) = Inr L \<Longrightarrow>
    step run handle post \<sigma> (advance L (Dispatching as) \<sigma>)"
| dispatch_fails: "pc \<sigma> = Dispatching (a # as) \<Longrightarrow> dispatch handle a (lp \<sigma>) = Inl e \<Longrightarrow>
    step run handle post \<sigma> (\<sigma>\<lparr>pc := Crashed e\<rparr>)"
| dispatched: "pc \<sigma> = Dispatching [] \<Longrightarrow>
    step run handle post \<sigma> (\<sigma>\<lparr>lp := (lp \<sigma>)\<lparr>callingPendingFunctors := True\<rparr>, pc := Swapping\<rparr>)"
| swap: "pc \<sigma> = Swapping \<Longrightarrow>
    step run handle post \<sigma> (\<sigma>\<lparr>lp := (lp \<sigma>)\<lparr>pendingFunctors := []\<rparr>,
      pc := Running (pendingFunctors (lp \<sigma>))\<rparr>)"
| runs: "pc \<sigma> = Running (f # fs) \<Longrightarrow> in_thread (run f) (lp \<sigma>) = Inr L \<Longrightarrow>
    step run handle post \<sigma> ((advance L (Running fs) \<sigma>)\<lparr>ran := ran \<sigma> @ [f]\<rparr>)"
| run_fails: "pc \<sigma> = Running (f # fs) \<Longrightarrow> in_thread (run f) (lp \<sigma>) = Inl e \<Longrightarrow>
    step run handle post \<sigma> (\<sigma>\<lparr>pc := Crashed e\<rparr>)"
| done_running: "pc \<sigma> = Running [] \<Longrightarrow>
    step run handle post \<sigma> (\<sigma>\<lparr>lp := (lp \<sigma>)\<lparr>callingPendingFunctors := False\<rparr>, pc := Check\<rparr>)"
| other_queues: "post (user (lp \<sigma>)) f s \<Longrightarrow>
    step run handle post \<sigma> (\<sigma>\<lparr>lp := (lp \<sigma>)\<lparr>user := s, pendingFunctors := pendingFunctors (lp \<sigma>) @ [f]\<rparr>,
      owed := Suc (owed \<sigma>), queued := queued \<sigma> @ [f]\<rparr>)"
| other_quits:
    "step run handle post \<sigma> (\<sigma>\<lparr>lp := (lp \<sigma>)\<lparr>quitting := True\<rparr>, owed := Suc (owed \<sigma>)\<rparr>)"
| other_wakes: "owed \<sigma> = Suc n \<Longrightarrow>
    step run handle post \<sigma> (\<sigma>\<lparr>lp := wakeup (lp \<sigma>), owed := n\<rparr>)"

abbreviation runs_to ::
  "('f \<Rightarrow> 's \<Rightarrow> ('s \<times> 'f call list) result) \<Rightarrow> ('e \<Rightarrow> 's \<Rightarrow> ('s \<times> 'f call list) result)
     \<Rightarrow> ('s \<Rightarrow> 'f \<Rightarrow> 's \<Rightarrow> bool) \<Rightarrow> ('f, 'e, 's) threads \<Rightarrow> ('f, 'e, 's) threads \<Rightarrow> bool" where
  "runs_to run handle post \<equiv> (step run handle post)\<^sup>*\<^sup>*"

text \<open>
  What a poll may report is up to the kernel. A theorem that needs more than the relation \<open>step\<close> allows
  says so with \<open>runs_reporting ok\<close>: the runs in which every event a poll reports on a component is one
  of \<open>ok\<close>. With \<open>\<lambda>e. True\<close> these are all runs.
\<close>

definition polls_only :: "('e \<Rightarrow> bool) \<Rightarrow> ('f, 'e, 's) threads \<Rightarrow> bool" where
  "polls_only ok \<sigma> \<longleftrightarrow> (case pc \<sigma> of Dispatching as \<Rightarrow> (\<forall>e. Component e \<in> set as \<longrightarrow> ok e) | _ \<Rightarrow> True)"

definition step_reporting ::
  "('e \<Rightarrow> bool) \<Rightarrow> ('f \<Rightarrow> 's \<Rightarrow> ('s \<times> 'f call list) result) \<Rightarrow> ('e \<Rightarrow> 's \<Rightarrow> ('s \<times> 'f call list) result)
     \<Rightarrow> ('s \<Rightarrow> 'f \<Rightarrow> 's \<Rightarrow> bool) \<Rightarrow> ('f, 'e, 's) threads \<Rightarrow> ('f, 'e, 's) threads \<Rightarrow> bool" where
  "step_reporting ok run handle post \<sigma> \<sigma>' \<longleftrightarrow> step run handle post \<sigma> \<sigma>' \<and> polls_only ok \<sigma>'"

abbreviation runs_reporting ::
  "('e \<Rightarrow> bool) \<Rightarrow> ('f \<Rightarrow> 's \<Rightarrow> ('s \<times> 'f call list) result) \<Rightarrow> ('e \<Rightarrow> 's \<Rightarrow> ('s \<times> 'f call list) result)
     \<Rightarrow> ('s \<Rightarrow> 'f \<Rightarrow> 's \<Rightarrow> bool) \<Rightarrow> ('f, 'e, 's) threads \<Rightarrow> ('f, 'e, 's) threads \<Rightarrow> bool" where
  "runs_reporting ok run handle post \<equiv> (step_reporting ok run handle post)\<^sup>*\<^sup>*"

lemma runs_reporting_all: "runs_reporting (\<lambda>e. True) run handle post = runs_to run handle post"
proof -
  have "step_reporting (\<lambda>e. True) run handle post = step run handle post"
    by (simp add: step_reporting_def polls_only_def fun_eq_iff split: pc.splits)
  then show ?thesis by simp
qed

lemma runs_reporting_runs: "runs_reporting ok run handle post \<sigma> \<sigma>' \<Longrightarrow> runs_to run handle post \<sigma> \<sigma>'"
  by (erule rtranclp_mono [THEN predicate2D, rotated]) (auto simp: step_reporting_def)

lemma runs_reporting_only:
  "runs_reporting ok run handle post \<sigma> \<sigma>' \<Longrightarrow> polls_only ok \<sigma> \<Longrightarrow> polls_only ok \<sigma>'"
  by (induction rule: rtranclp_induct) (auto simp: step_reporting_def)

lemma polls_only_start [simp]: "polls_only ok (start L)"
  by (simp add: polls_only_def start_def)

text \<open>
  Without other threads the relation does what \<open>loop_while\<close> does: a turn of the loop, from a poll to the
  end of the functors, is a run that comes back to the test of \<open>quit_\<close> or fails as the turn does.
\<close>

lemma reporting_step:
  "step run handle post \<sigma> \<sigma>' \<Longrightarrow> polls_only ok \<sigma>' \<Longrightarrow> runs_reporting ok run handle post \<sigma>' \<sigma>'' \<Longrightarrow>
    runs_reporting ok run handle post \<sigma> \<sigma>''"
  by (rule converse_rtranclp_into_rtranclp) (simp_all add: step_reporting_def)

lemma reporting_two_steps:
  assumes "step run handle post \<sigma> \<sigma>1" and "polls_only ok \<sigma>1" and "step run handle post \<sigma>1 \<sigma>2" and "polls_only ok \<sigma>2"
  shows "runs_reporting ok run handle post \<sigma> \<sigma>2"
  by (rule reporting_step [OF assms(1,2) reporting_step [OF assms(3,4) rtranclp.rtrancl_refl]])

lemma enter_run:
  "runs_reporting ok run handle post (start L)
     ((start L)\<lparr>lp := L\<lparr>looping := True, quitting := False\<rparr>, pc := Check\<rparr>)"
  by (rule reporting_step [OF step.enter]) (simp_all add: start_def polls_only_def)

definition arrives :: "('f, 'e) pc \<Rightarrow> ('f, 's) event_loop result \<Rightarrow> ('f, 'e, 's) threads \<Rightarrow> bool" where
  "arrives c r \<sigma> \<longleftrightarrow> (case r of Inl e \<Rightarrow> pc \<sigma> = Crashed e | Inr L \<Rightarrow> pc \<sigma> = c \<and> lp \<sigma> = L)"

lemma dispatch_run:
  "pc \<sigma> = Dispatching as \<Longrightarrow> polls_only ok \<sigma> \<Longrightarrow>
    \<exists>\<sigma>'. runs_reporting ok run handle post \<sigma> \<sigma>' \<and>
      arrives (Dispatching []) (for_each (dispatch handle) as (lp \<sigma>)) \<sigma>'"
proof (induction as arbitrary: \<sigma>)
  case (Cons a as)
  show ?case
  proof (cases "dispatch handle a (lp \<sigma>)")
    case (Inl e)
    from step.dispatch_fails [OF Cons.prems(1) this] have "runs_reporting ok run handle post \<sigma> (\<sigma>\<lparr>pc := Crashed e\<rparr>)"
      by (rule reporting_step) (simp_all add: polls_only_def)
    then show ?thesis using Inl by (intro exI [of _ "\<sigma>\<lparr>pc := Crashed e\<rparr>"]) (simp add: arrives_def)
  next
    case (Inr M)
    let ?\<sigma> = "advance M (Dispatching as) \<sigma>"
    have only: "polls_only ok ?\<sigma>" using Cons.prems(1,2) by (simp add: polls_only_def advance_def)
    have "step run handle post \<sigma> ?\<sigma>" using Cons.prems(1) Inr by (rule step.dispatches)
    moreover have "pc ?\<sigma> = Dispatching as" "lp ?\<sigma> = M" by (simp_all add: advance_def)
    ultimately show ?thesis using Cons.IH [of ?\<sigma>] only Inr reporting_step [OF _ only, of run handle post \<sigma>] by force
  qed
qed (auto simp: arrives_def)

lemma functors_run:
  "pc \<sigma> = Running fs \<Longrightarrow>
    \<exists>\<sigma>'. runs_reporting ok run handle post \<sigma> \<sigma>' \<and>
      arrives (Running []) (for_each (\<lambda>f. in_thread (run f)) fs (lp \<sigma>)) \<sigma>'"
proof (induction fs arbitrary: \<sigma>)
  case (Cons f fs)
  show ?case
  proof (cases "in_thread (run f) (lp \<sigma>)")
    case (Inl e)
    with Cons.prems have "step run handle post \<sigma> (\<sigma>\<lparr>pc := Crashed e\<rparr>)" by (rule step.run_fails)
    then have "runs_reporting ok run handle post \<sigma> (\<sigma>\<lparr>pc := Crashed e\<rparr>)"
      by (rule reporting_step) (simp_all add: polls_only_def)
    then show ?thesis using Inl by (intro exI [of _ "\<sigma>\<lparr>pc := Crashed e\<rparr>"]) (simp add: arrives_def)
  next
    case (Inr M)
    let ?\<sigma> = "(advance M (Running fs) \<sigma>)\<lparr>ran := ran \<sigma> @ [f]\<rparr>"
    have only: "polls_only ok ?\<sigma>" by (simp add: polls_only_def advance_def)
    have "step run handle post \<sigma> ?\<sigma>" using Cons.prems Inr by (rule step.runs)
    moreover have "pc ?\<sigma> = Running fs" "lp ?\<sigma> = M" by (simp_all add: advance_def)
    ultimately show ?thesis using Cons.IH [of ?\<sigma>] Inr reporting_step [OF _ only, of run handle post \<sigma>] by force
  qed
qed (auto simp: arrives_def)

lemma turn_run:
  assumes c: "pc \<sigma> = Check" "\<not> quitting (lp \<sigma>)" and w: "WakeupChannel \<in> set as \<longleftrightarrow> 0 < counter (lp \<sigma>)"
    and only: "\<And>e. Component e \<in> set as \<Longrightarrow> ok e"
  shows "\<exists>\<sigma>'. runs_reporting ok run handle post \<sigma> \<sigma>' \<and>
    arrives Check (and_then (for_each (dispatch handle) as (lp \<sigma>)) (doPendingFunctors run)) \<sigma>'"
proof -
  let ?R = "runs_reporting ok run handle post"
  let ?poll = "\<sigma>\<lparr>pc := Polling\<rparr>" and ?disp = "\<sigma>\<lparr>pc := Dispatching as\<rparr>"
  have o: "polls_only ok ?disp" using only by (simp add: polls_only_def)
  moreover have "step run handle post ?poll ?disp" using step.poll_returns [of ?poll as run handle post] w by simp
  moreover have "polls_only ok ?poll" by (simp add: polls_only_def)
  ultimately have p: "?R \<sigma> ?disp" using reporting_two_steps [OF step.block [OF c]] by blast
  from dispatch_run [of ?disp as ok run handle post] o obtain \<sigma>1 where
    s1: "?R ?disp \<sigma>1" "arrives (Dispatching []) (for_each (dispatch handle) as (lp \<sigma>)) \<sigma>1" by auto
  have to1: "?R \<sigma> \<sigma>1" using p s1(1) by (rule rtranclp_trans)
  show ?thesis
  proof (cases "for_each (dispatch handle) as (lp \<sigma>)")
    case (Inl e)
    with s1(2) to1 show ?thesis by (intro exI [of _ \<sigma>1]) (simp add: arrives_def)
  next
    case (Inr L)
    with s1(2) have d: "pc \<sigma>1 = Dispatching []" "lp \<sigma>1 = L" by (simp_all add: arrives_def)
    let ?swap = "\<sigma>1\<lparr>lp := L\<lparr>callingPendingFunctors := True\<rparr>, pc := Swapping\<rparr>"
    let ?run = "?swap\<lparr>lp := L\<lparr>callingPendingFunctors := True, pendingFunctors := []\<rparr>, pc := Running (pendingFunctors L)\<rparr>"
    have "step run handle post ?swap ?run" using step.swap [of ?swap run handle post] by simp
    moreover have "step run handle post \<sigma>1 ?swap" using step.dispatched [OF d(1)] d(2) by simp
    moreover have "polls_only ok ?swap" "polls_only ok ?run" by (simp_all add: polls_only_def)
    ultimately have q: "?R \<sigma>1 ?run" using reporting_two_steps by blast
    let ?r = "for_each (\<lambda>f. in_thread (run f)) (pendingFunctors L) (L\<lparr>callingPendingFunctors := True, pendingFunctors := []\<rparr>)"
    from functors_run [of ?run "pendingFunctors L" ok run handle post] obtain \<sigma>2 where
      s2: "?R ?run \<sigma>2" "arrives (Running []) ?r \<sigma>2" by auto
    have to2: "?R \<sigma> \<sigma>2" using rtranclp_trans [OF to1 rtranclp_trans [OF q s2(1)]] .
    have r: "doPendingFunctors run L = and_then ?r (\<lambda>L3. Inr (L3\<lparr>callingPendingFunctors := False\<rparr>))"
      by (simp add: doPendingFunctors_def)
    show ?thesis
    proof (cases ?r)
      case (Inl e)
      with s2(2) to2 r \<open>for_each (dispatch handle) as (lp \<sigma>) = Inr L\<close> show ?thesis
        by (intro exI [of _ \<sigma>2]) (simp add: arrives_def)
    next
      case r3: (Inr L3)
      with s2(2) have f: "pc \<sigma>2 = Running []" "lp \<sigma>2 = L3" by (simp_all add: arrives_def)
      let ?over = "\<sigma>2\<lparr>lp := L3\<lparr>callingPendingFunctors := False\<rparr>, pc := Check\<rparr>"
      have "step run handle post \<sigma>2 ?over" using step.done_running [OF f(1)] f(2) by simp
      then have "?R \<sigma>2 ?over" by (rule reporting_step) (simp_all add: polls_only_def)
      with to2 have "?R \<sigma> ?over" by (rule rtranclp_trans)
      then show ?thesis using r r3 Inr by (intro exI [of _ ?over]) (simp add: arrives_def)
    qed
  qed
qed

text \<open>So every run of \<open>loop_while\<close> over answers the poller can give is one of the relation.\<close>

fun turns ::
  "('f \<Rightarrow> 's \<Rightarrow> ('s \<times> 'f call list) result) \<Rightarrow> ('e \<Rightarrow> 's \<Rightarrow> ('s \<times> 'f call list) result)
     \<Rightarrow> 'e active list list \<Rightarrow> ('f, 's) event_loop \<Rightarrow> ('f, 's) event_loop result" where
  "turns run handle [] L = Inr L"
| "turns run handle (as # polls) L =
     (if quitting L \<or> (WakeupChannel \<in> set as \<longleftrightarrow> counter L = 0) then Inr L
      else and_then (and_then (for_each (dispatch handle) as L) (doPendingFunctors run)) (turns run handle polls))"

lemma turns_run:
  "pc \<sigma> = Check \<Longrightarrow> (\<And>as e. as \<in> set polls \<Longrightarrow> Component e \<in> set as \<Longrightarrow> ok e) \<Longrightarrow>
    \<exists>\<sigma>'. runs_reporting ok run handle post \<sigma> \<sigma>' \<and> arrives Check (turns run handle polls (lp \<sigma>)) \<sigma>'"
proof (induction polls arbitrary: \<sigma>)
  case (Cons as polls)
  show ?case
  proof (cases "quitting (lp \<sigma>) \<or> (WakeupChannel \<in> set as \<longleftrightarrow> counter (lp \<sigma>) = 0)")
    case True
    then show ?thesis using Cons.prems by (intro exI [of _ \<sigma>]) (auto simp: arrives_def)
  next
    case False
    let ?turn = "and_then (for_each (dispatch handle) as (lp \<sigma>)) (doPendingFunctors run)"
    have "\<not> quitting (lp \<sigma>)" "WakeupChannel \<in> set as \<longleftrightarrow> 0 < counter (lp \<sigma>)" using False by auto
    from turn_run [OF Cons.prems(1) this, of ok run handle post] Cons.prems(2) obtain \<sigma>1 where
      s1: "runs_reporting ok run handle post \<sigma> \<sigma>1" "arrives Check ?turn \<sigma>1" by auto
    show ?thesis
    proof (cases ?turn)
      case (Inl e)
      with s1 False show ?thesis by (intro exI [of _ \<sigma>1]) (simp add: arrives_def)
    next
      case (Inr L)
      with s1(2) have "pc \<sigma>1 = Check" "lp \<sigma>1 = L" by (simp_all add: arrives_def)
      with Cons.IH [of \<sigma>1] Cons.prems(2) obtain \<sigma>2 where
        "runs_reporting ok run handle post \<sigma>1 \<sigma>2" "arrives Check (turns run handle polls L) \<sigma>2" by auto
      with s1(1) Inr False show ?thesis
        by (intro exI [of _ \<sigma>2]) (auto intro: rtranclp_trans)
    qed
  qed
qed (auto simp: arrives_def)

lemma polls_run:
  assumes "\<And>as e. as \<in> set polls \<Longrightarrow> Component e \<in> set as \<Longrightarrow> ok e"
  shows "\<exists>\<sigma>. runs_reporting ok run handle post (start L) \<sigma> \<and>
    arrives Check (turns run handle polls (L\<lparr>looping := True, quitting := False\<rparr>)) \<sigma>"
proof -
  let ?\<sigma> = "(start L)\<lparr>lp := L\<lparr>looping := True, quitting := False\<rparr>, pc := Check\<rparr>"
  from turns_run [of ?\<sigma> polls ok run handle post] assms obtain \<sigma>' where
    "runs_reporting ok run handle post ?\<sigma> \<sigma>'"
    "arrives Check (turns run handle polls (L\<lparr>looping := True, quitting := False\<rparr>)) \<sigma>'" by auto
  with rtranclp_trans [OF enter_run] show ?thesis by blast
qed

fun running :: "('f, 'e) pc \<Rightarrow> 'f list" where
  "running (Running fs) = fs"
| "running _ = []"

fun crashed :: "('f, 'e) pc \<Rightarrow> bool" where
  "crashed (Crashed _) = True"
| "crashed _ = False"

lemma dispatchE:
  assumes "dispatch handle a L = Inr L'"
  obtains (wake) "a = WakeupChannel" "L' = loop_handleRead L"
  | (component) e where "a = Component e" "in_thread (handle e) L = Inr L'"
  using assms by (cases a) auto

subsection \<open>No wakeup is lost\<close>

definition awake :: "('f, 'e, 's) threads \<Rightarrow> bool" where
  "awake \<sigma> \<longleftrightarrow> 0 < counter (lp \<sigma>) \<or> 0 < owed \<sigma>"

definition wakeup_inv :: "('f, 'e, 's) threads \<Rightarrow> bool" where
  "wakeup_inv \<sigma> \<longleftrightarrow>
     (case pc \<sigma> of
        Running _ \<Rightarrow> callingPendingFunctors (lp \<sigma>) \<and> (pendingFunctors (lp \<sigma>) \<noteq> [] \<longrightarrow> awake \<sigma>)
      | Outside \<Rightarrow> (pendingFunctors (lp \<sigma>) \<noteq> [] \<longrightarrow> awake \<sigma>)
      | Check \<Rightarrow> (pendingFunctors (lp \<sigma>) \<noteq> [] \<longrightarrow> awake \<sigma>)
      | Polling \<Rightarrow> (pendingFunctors (lp \<sigma>) \<noteq> [] \<or> quitting (lp \<sigma>) \<longrightarrow> awake \<sigma>)
      | Swapping \<Rightarrow> callingPendingFunctors (lp \<sigma>)
      | _ \<Rightarrow> True)"

lemma wakeup_inv_step:
  assumes "step run handle post \<sigma> \<sigma>'" and "wakeup_inv \<sigma>"
  shows "wakeup_inv \<sigma>'"
  using assms
proof (cases rule: step.cases)
  case (runs f fs L)
  from runs(3) show ?thesis
    by (rule in_threadE) (use runs assms(2) in \<open>auto simp: wakeup_inv_def awake_def advance_def\<close>)
next
  case (dispatches a as L)
  then show ?thesis by (simp add: wakeup_inv_def advance_def)
qed (auto simp: wakeup_inv_def awake_def wakeup_def split: pc.splits)

lemma wakeup_inv_reachable:
  "runs_to run handle post \<sigma> \<sigma>' \<Longrightarrow> wakeup_inv \<sigma> \<Longrightarrow> wakeup_inv \<sigma>'"
  by (induction rule: rtranclp_induct) (auto intro: wakeup_inv_step)

subsection \<open>Functors run once, in the order they were queued\<close>

definition fifo_inv :: "('f, 'e, 's) threads \<Rightarrow> bool" where
  "fifo_inv \<sigma> \<longleftrightarrow> (\<not> crashed (pc \<sigma>) \<longrightarrow>
     queued \<sigma> = ran \<sigma> @ running (pc \<sigma>) @ pendingFunctors (lp \<sigma>)) \<and>
     (\<exists>rest. queued \<sigma> = ran \<sigma> @ rest)"

lemma fifo_inv_step:
  assumes "step run handle post \<sigma> \<sigma>'" and "fifo_inv \<sigma>"
  shows "fifo_inv \<sigma>'"
  using assms
proof (cases rule: step.cases)
  case (runs f fs L)
  from runs(3) show ?thesis
    by (rule in_threadE) (use runs assms(2) in \<open>auto simp: fifo_inv_def advance_def\<close>)
next
  case (dispatches a as L)
  from dispatches(3) show ?thesis
  proof (cases rule: dispatchE)
    case wake
    then show ?thesis using dispatches assms(2) by (auto simp: fifo_inv_def advance_def loop_handleRead_def)
  next
    case (component e)
    from component(2) show ?thesis
      by (rule in_threadE) (use dispatches assms(2) in \<open>auto simp: fifo_inv_def advance_def\<close>)
  qed
qed (auto simp: fifo_inv_def wakeup_def)


lemma fifo_inv_reachable: "runs_to run handle post \<sigma> \<sigma>' \<Longrightarrow> fifo_inv \<sigma> \<Longrightarrow> fifo_inv \<sigma>'"
  by (induction rule: rtranclp_induct) (auto intro: fifo_inv_step)

lemma start_invs: "pendingFunctors L = [] \<Longrightarrow> wakeup_inv (start L)" "fifo_inv (start L)"
  by (simp_all add: start_def wakeup_inv_def fifo_inv_def)

text \<open>The loop's thread alone empties the functors it has taken.\<close>

lemma runs_all:
  assumes total: "\<And>f s. \<exists>s' cs. run f s = Inr (s', cs)" and "pc \<sigma> = Running fs"
  shows "\<exists>\<sigma>'. runs_to run handle post \<sigma> \<sigma>' \<and> pc \<sigma>' = Running [] \<and> ran \<sigma>' = ran \<sigma> @ fs"
  using assms(2)
proof (induction fs arbitrary: \<sigma>)
  case Nil
  then show ?case by (intro exI [of _ \<sigma>]) simp
next
  case (Cons f fs)
  obtain s' cs where "run f (user (lp \<sigma>)) = Inr (s', cs)" using total by blast
  then obtain L where L: "in_thread (run f) (lp \<sigma>) = Inr L" by (simp add: in_thread_def)
  let ?\<sigma> = "(advance L (Running fs) \<sigma>)\<lparr>ran := ran \<sigma> @ [f]\<rparr>"
  have "step run handle post \<sigma> ?\<sigma>" using Cons.prems L by (rule step.runs)
  moreover have "pc ?\<sigma> = Running fs" "ran ?\<sigma> = ran \<sigma> @ [f]" by (simp_all add: advance_def)
  then obtain \<sigma>' where "runs_to run handle post ?\<sigma> \<sigma>'" "pc \<sigma>' = Running []" "ran \<sigma>' = ran \<sigma> @ f # fs"
    using Cons.IH [of ?\<sigma>] by auto
  ultimately show ?case by (intro exI [of _ \<sigma>']) (simp add: converse_rtranclp_into_rtranclp)
qed

lemma polling_runs_pending:
  assumes total: "\<And>f s. \<exists>s' cs. run f s = Inr (s', cs)"
    and "pc \<sigma> = Polling" and "0 < counter (lp \<sigma>)" and "fifo_inv \<sigma>"
  shows "\<exists>\<sigma>'. runs_to run handle post \<sigma> \<sigma>' \<and> pc \<sigma>' = Check \<and> ran \<sigma>' = queued \<sigma>"
proof -
  have s1: "step run handle post \<sigma> (\<sigma>\<lparr>pc := Dispatching [WakeupChannel]\<rparr>)"
    using assms(2,3) by (intro step.poll_returns) simp_all
  define s1 where "s1 = \<sigma>\<lparr>pc := Dispatching [WakeupChannel]\<rparr>"
  define s2 where "s2 = advance (loop_handleRead (lp s1)) (Dispatching []) s1"
  define s3 where "s3 = s2\<lparr>lp := (lp s2)\<lparr>callingPendingFunctors := True\<rparr>, pc := Swapping\<rparr>"
  define s4 where "s4 = s3\<lparr>lp := (lp s3)\<lparr>pendingFunctors := []\<rparr>, pc := Running (pendingFunctors (lp s3))\<rparr>"
  have "step run handle post s1 s2"
    unfolding s2_def by (rule step.dispatches [where a = WakeupChannel]) (simp_all add: s1_def)
  with s1 have to2: "runs_to run handle post \<sigma> s2" unfolding s1_def by (rule converse_rtranclp_into_rtranclp [OF _ r_into_rtranclp])
  have "pc s2 = Dispatching []" by (simp add: s2_def advance_def)
  from step.dispatched [OF this] have "step run handle post s2 s3" unfolding s3_def .
  with to2 have to3: "runs_to run handle post \<sigma> s3" by (rule rtranclp.rtrancl_into_rtrancl)
  have "pc s3 = Swapping" by (simp add: s3_def)
  from step.swap [OF this] have "step run handle post s3 s4" unfolding s4_def .
  with to3 have to4: "runs_to run handle post \<sigma> s4" by (rule rtranclp.rtrancl_into_rtrancl)
  have "pc s4 = Running (pendingFunctors (lp \<sigma>))" "ran s4 = ran \<sigma>"
    by (simp_all add: s4_def s3_def s2_def s1_def advance_def loop_handleRead_def)
  then obtain \<sigma>5 where s5: "runs_to run handle post s4 \<sigma>5" "pc \<sigma>5 = Running []"
      "ran \<sigma>5 = ran \<sigma> @ pendingFunctors (lp \<sigma>)"
    using runs_all [where run = run and handle = handle and post = post and \<sigma> = s4, OF total] by auto
  let ?s6 = "\<sigma>5\<lparr>lp := (lp \<sigma>5)\<lparr>callingPendingFunctors := False\<rparr>, pc := Check\<rparr>"
  have "step run handle post \<sigma>5 ?s6" using s5(2) by (rule step.done_running)
  with rtranclp_trans [OF to4 s5(1)] have "runs_to run handle post \<sigma> ?s6"
    by (rule rtranclp.rtrancl_into_rtrancl)
  moreover have "queued \<sigma> = ran \<sigma> @ pendingFunctors (lp \<sigma>)" using assms(2,4) by (simp add: fifo_inv_def)
  ultimately show ?thesis using s5(3) by (intro exI [of _ ?s6]) simp
qed

subsection \<open>What a component of the loop promises\<close>

text \<open>
  \<open>inv fs s\<close> is the component's invariant when the functors \<open>fs\<close> are still to be run: running the first
  of them, handling an event that the component can be told of, one of \<open>ok\<close>, and an action of another
  thread that queues a functor keep it, with the functors queued meanwhile at the end. Faults outside
  \<open>E\<close> do not occur, and one in \<open>E\<close> leaves the state as it was.
\<close>

definition threads_ok ::
  "('f list \<Rightarrow> 's \<Rightarrow> bool) \<Rightarrow> fault set \<Rightarrow> ('f, 'e, 's) threads \<Rightarrow> bool" where
  "threads_ok P E \<sigma> \<longleftrightarrow> (case pc \<sigma> of Crashed e \<Rightarrow> e \<in> E \<and> (\<exists>fs. P fs (user (lp \<sigma>)))
     | _ \<Rightarrow> P (running (pc \<sigma>) @ pendingFunctors (lp \<sigma>)) (user (lp \<sigma>)))"

locale loop_client =
  fixes ok :: "'e \<Rightarrow> bool"
    and inv :: "'f list \<Rightarrow> 's \<Rightarrow> bool"
    and E :: "fault set"
    and run :: "'f \<Rightarrow> 's \<Rightarrow> ('s \<times> 'f call list) result"
    and handle :: "'e \<Rightarrow> 's \<Rightarrow> ('s \<times> 'f call list) result"
    and post :: "'s \<Rightarrow> 'f \<Rightarrow> 's \<Rightarrow> bool"
  assumes run_ok: "inv (f # fs) s \<Longrightarrow> returns_or E (\<lambda>(s', cs). inv (fs @ queued_by cs) s') (run f s)"
    and handle_ok: "ok e \<Longrightarrow> inv fs s \<Longrightarrow> returns_or E (\<lambda>(s', cs). inv (fs @ queued_by cs) s') (handle e s)"
    and post_ok: "inv fs s \<Longrightarrow> post s f s' \<Longrightarrow> inv (fs @ [f]) s'"
begin

lemma run_in_thread:
  assumes "inv (f # fs @ pendingFunctors L) (user L)"
  shows "returns_or E (\<lambda>L'. inv (fs @ pendingFunctors L') (user L')) (in_thread (run f) L)"
  unfolding in_thread_def
  by (rule returns_or_and_then [OF run_ok [OF assms]]) (auto simp: fold_loop_call)

lemma handle_in_thread:
  assumes "ok e" and "inv (fs @ pendingFunctors L) (user L)"
  shows "returns_or E (\<lambda>L'. inv (fs @ pendingFunctors L') (user L')) (in_thread (handle e) L)"
  unfolding in_thread_def
  by (rule returns_or_and_then [OF handle_ok [OF assms]]) (auto simp: fold_loop_call)

lemma dispatch_ok:
  assumes "inv (pendingFunctors L) (user L)" and "\<And>e. a = Component e \<Longrightarrow> ok e"
  shows "returns_or E (\<lambda>L'. inv (pendingFunctors L') (user L')) (dispatch handle a L)"
proof (cases a)
  case WakeupChannel
  then show ?thesis using assms by (simp add: loop_handleRead_def)
next
  case (Component e)
  then show ?thesis using handle_in_thread [of e "[]" L] assms by simp
qed

lemma run_list_ok:
  "inv (fs @ pendingFunctors L) (user L) \<Longrightarrow>
    returns_or E (\<lambda>L'. inv (pendingFunctors L') (user L')) (for_each (\<lambda>f. in_thread (run f)) fs L)"
proof (induction fs arbitrary: L)
  case (Cons f fs)
  have "inv (f # fs @ pendingFunctors L) (user L)" using Cons.prems by simp
  from returns_or_and_then [OF run_in_thread [OF this] Cons.IH] show ?case by simp
qed simp

lemma doPendingFunctors_ok:
  assumes "inv (pendingFunctors L) (user L)"
  shows "returns_or E (\<lambda>L'. inv (pendingFunctors L') (user L')) (doPendingFunctors run L)"
  unfolding doPendingFunctors_def Let_def
  by (rule returns_or_and_then [OF run_list_ok]) (use assms in simp_all)

lemma dispatch_list_ok:
  "inv (pendingFunctors L) (user L) \<Longrightarrow> (\<And>e. Component e \<in> set as \<Longrightarrow> ok e) \<Longrightarrow>
    returns_or E (\<lambda>L'. inv (pendingFunctors L') (user L')) (for_each (dispatch handle) as L)"
proof (induction as arbitrary: L)
  case (Cons a as)
  from returns_or_and_then [OF dispatch_ok [OF Cons.prems(1), of a] Cons.IH] Cons.prems(2) show ?case by simp
qed simp

lemma loop_while_ok:
  "inv (pendingFunctors L) (user L) \<Longrightarrow> (\<And>as e. as \<in> set polls \<Longrightarrow> Component e \<in> set as \<Longrightarrow> ok e) \<Longrightarrow>
    returns_or E (\<lambda>L'. inv (pendingFunctors L') (user L')) (loop_while run handle polls L)"
proof (induction polls arbitrary: L)
  case Nil
  then show ?case by (subst loop_while.simps) simp
next
  case (Cons as polls)
  let ?P = "\<lambda>L'. inv (pendingFunctors L') (user L')"
  have rest: "returns_or E ?P (loop_while run handle polls M)" if "?P M" for M
    by (rule Cons.IH [OF that]) (use Cons.prems(2) in auto)
  have "returns_or E ?P (and_then (for_each (dispatch handle) as L) (\<lambda>L1.
      and_then (doPendingFunctors run L1) (loop_while run handle polls)))"
  proof (rule returns_or_and_then [OF dispatch_list_ok [OF Cons.prems(1)]])
    show "ok e" if "Component e \<in> set as" for e using that Cons.prems(2) [of as e] by simp
    show "returns_or E ?P (and_then (doPendingFunctors run M) (loop_while run handle polls))" if "?P M" for M
      by (rule returns_or_and_then [OF doPendingFunctors_ok [OF that] rest])
  qed
  then show ?case using Cons.prems by (subst loop_while.simps) simp
qed

lemma loop_ok:
  assumes "inv (pendingFunctors L) (user L)" and "\<not> looping L"
    and "\<And>as e. as \<in> set polls \<Longrightarrow> Component e \<in> set as \<Longrightarrow> ok e"
  shows "returns_or E (\<lambda>L'. inv (pendingFunctors L') (user L')) (loop run handle True polls L)"
  using loop_while_ok [of "L\<lparr>looping := True, quitting := False\<rparr>" polls] assms by (simp add: loop_def)

text \<open>The same under any interleaving with other threads.\<close>

lemma threads_ok_step:
  assumes "step run handle post \<sigma> \<sigma>'" and "threads_ok inv E \<sigma>" and "polls_only ok \<sigma>"
  shows "threads_ok inv E \<sigma>'"
  using assms(1,2)
proof (cases rule: step.cases)
  case (runs f fs L)
  have "inv (f # fs @ pendingFunctors (lp \<sigma>)) (user (lp \<sigma>))" using assms(2) runs by (simp add: threads_ok_def)
  from run_in_thread [OF this] runs show ?thesis by (simp add: threads_ok_def advance_def)
next
  case (run_fails f fs e)
  have "inv (f # fs @ pendingFunctors (lp \<sigma>)) (user (lp \<sigma>))" using assms(2) run_fails by (simp add: threads_ok_def)
  from run_in_thread [OF this] this run_fails show ?thesis by (auto simp: threads_ok_def)
next
  case (dispatches a as L)
  have "inv (pendingFunctors (lp \<sigma>)) (user (lp \<sigma>))" using assms(2) dispatches by (simp add: threads_ok_def)
  from dispatch_ok [OF this, of a] dispatches assms(3) show ?thesis
    by (simp add: threads_ok_def polls_only_def advance_def)
next
  case (dispatch_fails a as e)
  have "inv (pendingFunctors (lp \<sigma>)) (user (lp \<sigma>))" using assms(2) dispatch_fails by (simp add: threads_ok_def)
  from dispatch_ok [OF this, of a] this dispatch_fails assms(3) show ?thesis
    by (auto simp: threads_ok_def polls_only_def)
next
  case (other_queues f s)
  show ?thesis
  proof (cases "crashed (pc \<sigma>)")
    case True
    then obtain e fs where e: "pc \<sigma> = Crashed e" "e \<in> E" "inv fs (user (lp \<sigma>))"
      using assms(2) by (cases "pc \<sigma>") (auto simp: threads_ok_def)
    from post_ok [OF e(3) other_queues(2)] e(1,2) other_queues show ?thesis by (auto simp: threads_ok_def)
  next
    case False
    then have "inv (running (pc \<sigma>) @ pendingFunctors (lp \<sigma>)) (user (lp \<sigma>))"
      using assms(2) by (cases "pc \<sigma>") (auto simp: threads_ok_def)
    from post_ok [OF this other_queues(2)] other_queues False show ?thesis
      by (cases "pc \<sigma>") (auto simp: threads_ok_def)
  qed
qed (auto simp: threads_ok_def wakeup_def split: pc.splits)

lemma threads_ok_reachable:
  assumes "runs_reporting ok run handle post (start L) \<sigma>" and "inv (pendingFunctors L) (user L)"
  shows "threads_ok inv E \<sigma>"
  using assms(1)
proof (induction rule: rtranclp_induct)
  case base
  then show ?case using assms(2) by (simp add: threads_ok_def start_def)
next
  case (step \<sigma> \<sigma>')
  have "polls_only ok \<sigma>" using runs_reporting_only [OF step.hyps(1)] by simp
  with step show ?case using threads_ok_step unfolding step_reporting_def by blast
qed

end


subsection \<open>Properties\<close>

text \<open>A small client for the witnesses: the functors are numbers the state adds up.\<close>

definition add_up :: "nat \<Rightarrow> nat \<Rightarrow> (nat \<times> nat call list) result" where
  "add_up n s = Inr (s + n, if n = 3 then [QueueCall 4] else [])"

definition adder :: "(nat, nat) event_loop" where
  "adder = \<lparr>looping = False, quitting = False, callingPendingFunctors = False, pendingFunctors = [],
     counter = 0, user = 0\<rparr>"

definition any_post :: "nat \<Rightarrow> nat \<Rightarrow> nat \<Rightarrow> bool" where
  "any_post s f s' \<longleftrightarrow> s' = s"

text \<open>C8: No wakeup is lost. Under any interleaving with other threads, when the loop's thread blocks in
  \<open>poll\<close> while functors are pending or a quit is requested, the eventfd is readable or a thread is
  about to write to it, provided nothing was queued before the loop was entered.\<close>

theorem no_wakeup_lost:
  assumes "runs_to run handle post (start L) \<sigma>" and "pendingFunctors L = []"
    and "pc \<sigma> = Polling" and "pendingFunctors (lp \<sigma>) \<noteq> [] \<or> quitting (lp \<sigma>)"
  shows "0 < counter (lp \<sigma>) \<or> 0 < owed \<sigma>"
  using wakeup_inv_reachable [OF assms(1) start_invs(1) [OF assms(2)]] assms(3,4)
  by (simp add: wakeup_inv_def awake_def)

definition adder_polling :: "(nat, nat, nat) threads" where
  "adder_polling = (start adder)\<lparr>lp := adder\<lparr>looping := True, pendingFunctors := [3]\<rparr>, pc := Polling,
     owed := 1, queued := [3]\<rparr>"

lemma adder_polling_reachable: "runs_to add_up add_up any_post (start adder) adder_polling"
proof -
  let ?s1 = "(start adder)\<lparr>lp := adder\<lparr>looping := True, quitting := False\<rparr>, pc := Check\<rparr>"
  let ?s2 = "?s1\<lparr>pc := Polling\<rparr>"
  have "step add_up add_up any_post (start adder) ?s1"
    using step.enter [of "start adder" add_up add_up any_post] by (simp add: start_def)
  moreover have "step add_up add_up any_post ?s1 ?s2"
    by (rule step.block) (simp_all add: adder_def)
  moreover have "step add_up add_up any_post ?s2 adder_polling"
    using step.other_queues [of any_post ?s2 3 0 add_up add_up]
    by (simp add: any_post_def adder_polling_def adder_def start_def)
  ultimately show ?thesis by (meson converse_rtranclp_into_rtranclp rtranclp.rtrancl_refl)
qed

theorem no_wakeup_lost_witness: "0 < counter (lp adder_polling) \<or> 0 < owed adder_polling"
  by (rule no_wakeup_lost [OF adder_polling_reachable])
    (simp_all add: adder_def adder_polling_def)

text \<open>
  The premise is needed: a functor that the loop's own thread queues before it calls \<open>loop\<close> wakes nobody,
  so the loop may block with it pending and the eventfd not readable, until something else happens.
\<close>

theorem early_functor_waits:
  assumes "\<not> callingPendingFunctors L" and "counter L = 0"
  shows "\<exists>\<sigma>. runs_to run handle post (start (queueInLoop True f L)) \<sigma> \<and> pc \<sigma> = Polling \<and>
    f \<in> set (pendingFunctors (lp \<sigma>)) \<and> counter (lp \<sigma>) = 0 \<and> owed \<sigma> = 0"
proof -
  let ?L = "queueInLoop True f L"
  let ?check = "(start ?L)\<lparr>lp := ?L\<lparr>looping := True, quitting := False\<rparr>, pc := Check\<rparr>"
  let ?poll = "?check\<lparr>pc := Polling\<rparr>"
  have "runs_to run handle post (start ?L) ?check" using runs_reporting_runs [OF enter_run] .
  moreover have "step run handle post ?check ?poll" by (rule step.block) simp_all
  ultimately have "runs_to run handle post (start ?L) ?poll" by (rule rtranclp.rtrancl_into_rtrancl)
  then show ?thesis using assms by (intro exI [of _ ?poll]) (simp add: start_def queueInLoop_def Let_def)
qed

theorem early_functor_waits_witness:
  "\<exists>\<sigma>. runs_to add_up add_up any_post (start (queueInLoop True 3 adder)) \<sigma> \<and> pc \<sigma> = Polling \<and>
    3 \<in> set (pendingFunctors (lp \<sigma>)) \<and> counter (lp \<sigma>) = 0 \<and> owed \<sigma> = 0"
  by (rule early_functor_waits) (simp_all add: adder_def)

text \<open>C12: Functors are run in the order in which they were queued, each once, by the loop's thread: at
  any moment the functors run are a prefix of those queued, and while the loop has not failed the
  rest are exactly those taken and not yet run followed by those pending.\<close>

theorem functors_run_in_order:
  assumes "runs_to run handle post (start L) \<sigma>"
  shows "(\<exists>rest. queued \<sigma> = ran \<sigma> @ rest) \<and>
    (\<not> crashed (pc \<sigma>) \<longrightarrow> queued \<sigma> = ran \<sigma> @ running (pc \<sigma>) @ pendingFunctors (lp \<sigma>))"
  using fifo_inv_reachable [OF assms(1) start_invs(2)] by (simp add: fifo_inv_def)

theorem functors_run_in_order_witness: "queued adder_polling = ran adder_polling @ [3]"
  using functors_run_in_order [OF adder_polling_reachable]
  by (simp add: adder_def adder_polling_def)

text \<open>Where no functor fails, every functor queued is run: once the loop's thread is blocked in \<open>poll\<close>
  with the eventfd readable, its own next steps run all of them, in order.\<close>

theorem queued_functors_are_run:
  assumes "runs_to run handle post (start L) \<sigma>"
    and "\<And>f s. \<exists>s' cs. run f s = Inr (s', cs)"
    and "pc \<sigma> = Polling" and "0 < counter (lp \<sigma>)"
  shows "\<exists>\<sigma>'. runs_to run handle post \<sigma> \<sigma>' \<and> pc \<sigma>' = Check \<and> ran \<sigma>' = queued \<sigma>"
  by (rule polling_runs_pending [OF assms(2-4)])
    (rule fifo_inv_reachable [OF assms(1) start_invs(2)])

theorem queued_functors_are_run_witness:
  "\<exists>\<sigma>'. runs_to add_up add_up any_post (adder_polling\<lparr>lp := wakeup (lp adder_polling), owed := 0\<rparr>) \<sigma>' \<and>
     ran \<sigma>' = [3]"
proof -
  let ?s = "adder_polling\<lparr>lp := wakeup (lp adder_polling), owed := 0\<rparr>"
  have "step add_up add_up any_post adder_polling ?s"
    by (rule step.other_wakes) (simp add: adder_polling_def)
  with adder_polling_reachable have r: "runs_to add_up add_up any_post (start adder) ?s"
    by (rule rtranclp.rtrancl_into_rtrancl)
  have "\<exists>\<sigma>'. runs_to add_up add_up any_post ?s \<sigma>' \<and> pc \<sigma>' = Check \<and> ran \<sigma>' = queued ?s"
    by (rule queued_functors_are_run [OF r])
      (simp_all add: add_up_def adder_def adder_polling_def wakeup_def)
  then show ?thesis by (auto simp: adder_polling_def)
qed

text \<open>A \<open>quit\<close> before \<open>loop\<close> is lost, from whichever thread: \<open>loop\<close> clears \<open>quit_\<close> on entry, so it runs as
  if it had not been asked to stop, only with one more wakeup when the request came from another
  thread.\<close>

theorem quit_before_loop_is_lost:
  "loop run handle True polls (quit in_loop L) = loop run handle True polls (if in_loop then L else wakeup L)"
  by (simp add: loop_def quit_def wakeup_def Let_def)

end
