(* ===== verification/LoopTimers.thy ===== *)
theory LoopTimers
  imports EventLoop
begin

section \<open>The timers of a loop\<close>

text \<open>
  How \<open>TimerQueue\<close> lives in an \<open>EventLoop\<close>: \<open>addTimer\<close> and \<open>cancel\<close> called from another thread do their
  first part there and queue \<open>addTimerInLoop\<close> or \<open>cancelInLoop\<close> through \<open>runInLoop\<close>; called in the
  loop's thread they run at once, from a functor, an event handler or a timer callback. The timer
  descriptor's channel is the event. The theory shows that this is a \<open>loop_client\<close>.
\<close>

datatype 'ts timer_task = AddTimerInLoop u64 | CancelInLoop timer_id | UserCode "'ts request list"

fun run_task ::
  "'ts platform \<Rightarrow> ('ts::linorder) timer_task \<Rightarrow> 'ts timer_queue
     \<Rightarrow> ('ts timer_queue \<times> 'ts timer_task call list) result" where
  "run_task pf (AddTimerInLoop p) q = and_then (addTimerInLoop pf True p q) (\<lambda>q'. Inr (q', []))"
| "run_task pf (CancelInLoop tid) q = and_then (cancelInLoop True tid q) (\<lambda>q'. Inr (q', []))"
| "run_task pf (UserCode rs) q = and_then (for_each (perform pf) rs q) (\<lambda>q'. Inr (q', []))"

definition timer_event ::
  "'ts platform \<Rightarrow> (nat \<Rightarrow> 'ts timer_queue \<Rightarrow> ('ts::linorder) request list) \<Rightarrow> 'ts \<Rightarrow> 'ts timer_queue
     \<Rightarrow> ('ts timer_queue \<times> 'ts timer_task call list) result" where
  "timer_event pf users now q =
     and_then (handleRead pf users True now (q\<lparr>clock := now\<rparr>)) (\<lambda>q'. Inr (q', []))"

text \<open>What another thread does before it queues its functor.\<close>

inductive post_task :: "'ts platform \<Rightarrow> 'ts timer_queue \<Rightarrow> 'ts timer_task \<Rightarrow> 'ts timer_queue \<Rightarrow> bool"
  for pf where
  post_add: "create_timer pf cb d intv q = Inr (p, q') \<Longrightarrow> post_task pf q (AddTimerInLoop p) q'"
| post_cancel: "post_task pf q (CancelInLoop tid) q"
| post_user: "post_task pf q (UserCode rs) q"

inductive_cases post_taskE: "post_task pf q f q'"

fun created :: "'ts timer_task list \<Rightarrow> u64 list" where
  "created [] = []"
| "created (AddTimerInLoop p # fs) = p # created fs"
| "created (_ # fs) = created fs"

lemma created_append [simp]: "created (fs @ gs) = created fs @ created gs"
  by (induction fs rule: created.induct) auto

definition timers_inv :: "'ts platform \<Rightarrow> ('ts::linorder) timer_task list \<Rightarrow> 'ts timer_queue \<Rightarrow> bool" where
  "timers_inv pf fs q \<longleftrightarrow> allocator_ok pf \<and> \<not> ts_valid pf (ts_default pf) \<and> distinct (created fs) \<and> UINTPTR_MAX \<notin> set (created fs) \<and> tq_inv (set (created fs)) q"

lemma addTimerInLoop_ok:
  assumes "tq_inv (insert p H) q" and "p \<notin> H" and "p \<noteq> UINTPTR_MAX"
  shows "\<exists>q'. addTimerInLoop pf True p q = Inr q' \<and> tq_inv H q'"
proof -
  have "p \<in> dom (mem q)" using assms(1) by (simp add: tq_inv_def)
  then obtain t where t: "mem q p = Some t" by auto
  from insert_timer_ok [OF assms t] show ?thesis
    by (simp add: addTimerInLoop_def deref_timer_def resetTimerfd_def t split: if_splits)
qed

lemma perform_script_keeps:
  assumes "tq_inv H q" and "allocator_ok pf"
  shows "returns_or {bad_alloc} (tq_inv H) (for_each (perform pf) rs q)"
proof (rule returns_or_for_each)
  show "returns_or {bad_alloc} (tq_inv H) (perform pf r s)" if "tq_inv H s" for r s
    using perform_keeps [OF that assms(2)] by (rule returns_or_mono) simp
qed (rule assms(1))

interpretation lt: loop_client "\<lambda>e. True" "timers_inv pf" "{bad_alloc}" "run_task pf" "timer_event pf users" "post_task pf"
  for pf :: "('ts::linorder) platform" and users
proof
  fix f fs and q :: "'ts timer_queue"
  assume I: "timers_inv pf (f # fs) q"
  have al: "allocator_ok pf" using I by (simp add: timers_inv_def)
  show "returns_or {bad_alloc} (\<lambda>(q', cs). timers_inv pf (fs @ queued_by cs) q') (run_task pf f q)"
  proof (cases f)
    case (AddTimerInLoop p)
    then have "tq_inv (insert p (set (created fs))) q" "p \<notin> set (created fs)" "p \<noteq> UINTPTR_MAX"
      using I by (auto simp: timers_inv_def)
    from addTimerInLoop_ok [OF this, of pf] AddTimerInLoop I show ?thesis by (auto simp: timers_inv_def)
  next
    case (CancelInLoop tid)
    then have "tq_inv (set (created fs)) q" using I by (simp add: timers_inv_def)
    from cancelInLoop_keeps [OF this, of tid] CancelInLoop I show ?thesis by (auto simp: timers_inv_def)
  next
    case (UserCode rs)
    then have "tq_inv (set (created fs)) q" using I by (simp add: timers_inv_def)
    show ?thesis unfolding UserCode run_task.simps
      by (rule returns_or_and_then [OF perform_script_keeps [OF \<open>tq_inv (set (created fs)) q\<close> al]])
        (use I UserCode in \<open>simp add: timers_inv_def\<close>)
  qed
next
  fix fs e and q :: "'ts timer_queue"
  assume I: "timers_inv pf fs q"
  then have "tq_inv (set (created fs)) (q\<lparr>clock := e\<rparr>)" and al: "allocator_ok pf"
    and bad: "\<not> ts_valid pf (ts_default pf)" by (simp_all add: timers_inv_def)
  show "returns_or {bad_alloc} (\<lambda>(q', cs). timers_inv pf (fs @ queued_by cs) q') (timer_event pf users e q)"
    unfolding timer_event_def
    by (rule returns_or_and_then [OF handleRead_ok [OF \<open>tq_inv (set (created fs)) (q\<lparr>clock := e\<rparr>)\<close> al bad]])
      (use I in \<open>simp add: timers_inv_def\<close>)
next
  fix fs f and q q' :: "'ts timer_queue"
  assume I: "timers_inv pf fs q" and "post_task pf q f q'"
  from this(2) show "timers_inv pf (fs @ [f]) q'"
  proof (rule post_taskE)
    fix p cb d intv
    assume f: "f = AddTimerInLoop p" and c: "create_timer pf cb d intv q = Inr (p, q')"
    have p: "mem q p = None" "p \<noteq> UINTPTR_MAX"
      using c I by (auto simp: create_timer_def allocator_ok_def timers_inv_def split: option.splits prod.splits)
    have inv: "tq_inv (set (created fs)) q" using I by (simp add: timers_inv_def)
    obtain t n where q': "q' = q\<lparr>mem := (mem q)(p \<mapsto> t), s_numCreated := n\<rparr>"
      using c by (auto simp: create_timer_def split: option.splits prod.splits)
    show ?thesis
      using tq_inv_create(1) [OF inv p(1)] tq_inv_create(2) [OF inv p(1)] p(2) I f q'
      by (simp add: timers_inv_def)
  qed (use I in \<open>simp_all add: timers_inv_def\<close>)
qed


subsection \<open>Properties\<close>

text \<open>C6: Under any interleaving of the loop's thread with threads that add and cancel timers, no
  assertion of the queue fails and no deleted timer is touched: only a failed allocation stops the
  loop, and in between the sets and the heap agree, the only timers in neither set being those whose
  \<open>addTimerInLoop\<close> is still pending.\<close>

theorem timers_safe_across_threads:
  assumes "runs_to (run_task pf) (timer_event pf users) (post_task pf) (start L) \<sigma>"
    and "timers_inv pf (pendingFunctors L) (user L)"
  shows "case pc \<sigma> of Crashed e \<Rightarrow> e = bad_alloc
    | _ \<Rightarrow> timers_inv pf (running (pc \<sigma>) @ pendingFunctors (lp \<sigma>)) (user (lp \<sigma>))"
proof -
  have "threads_ok (timers_inv pf) {bad_alloc} \<sigma>"
    using lt.threads_ok_reachable [OF _ assms(2)] assms(1) unfolding runs_reporting_all .
  then show ?thesis by (auto simp: threads_ok_def split: pc.splits)
qed

definition timer_loop :: "(int timer_task, int timer_queue) event_loop" where
  "timer_loop = \<lparr>looping = False, quitting = False, callingPendingFunctors = False,
     pendingFunctors = [UserCode [AddTimer 3 150 0]], counter = 0, user = two_timers\<rparr>"

theorem timers_safe_across_threads_witness:
  "timers_inv micro_clock [UserCode [AddTimer 3 150 0], CancelInLoop (make_timer_id 8)] two_timers"
proof -
  have i: "timers_inv micro_clock (pendingFunctors timer_loop) (user timer_loop)"
    using two_timers_inv(1) allocator_micro_clock valid_micro_clock by (simp add: timers_inv_def timer_loop_def)
  have "post_task micro_clock (user (lp (start timer_loop))) (CancelInLoop (make_timer_id 8)) two_timers"
    using post_cancel by (simp add: start_def timer_loop_def)
  note s = step.other_queues [where run = "run_task micro_clock" and handle = "timer_event micro_clock (\<lambda>_ _. [])"
      and post = "post_task micro_clock", OF this]
  from timers_safe_across_threads [OF r_into_rtranclp [where r = "step (run_task micro_clock)
      (timer_event micro_clock (\<lambda>_ _. [])) (post_task micro_clock)", OF s] i]
  show ?thesis by (simp add: start_def timer_loop_def)
qed

end
