(* ===== verification/ByteQueue.thy ===== *)
theory ByteQueue
  imports Prelude
begin

section \<open>The contract of a byte buffer\<close>

text \<open>
  What the connection and the codec rely on of \<open>Buffer\<close>: a first-in first-out queue of bytes with
  an operation that adds bytes at the back and cannot fail, and one that drops bytes from the front
  and fails exactly when fewer bytes are held. The locale states the contract; its lemmas are what
  a client may conclude from it, in particular that any script of operations behaves as the same
  script on a plain list of bytes. The theory \<open>Buffer\<close> interprets it.
\<close>

datatype queue_op = Put "byte list" | Drop nat

fun list_op :: "queue_op \<Rightarrow> byte list \<Rightarrow> byte list result" where
  "list_op (Put bs) xs = Inr (xs @ bs)"
| "list_op (Drop n) xs =
     require (n \<le> length xs) (AssertionFailed ''len <= readableBytes()'') (Inr (drop n xs))"

fun queue_op_on ::
  "(byte list \<Rightarrow> 'q \<Rightarrow> 'q result) \<Rightarrow> (nat \<Rightarrow> 'q \<Rightarrow> 'q result) \<Rightarrow> queue_op \<Rightarrow> 'q \<Rightarrow> 'q result" where
  "queue_op_on put drp (Put bs) q = put bs q"
| "queue_op_on put drp (Drop n) q = drp n q"

locale byte_queue =
  fixes inv :: "'q \<Rightarrow> bool"
    and bytes :: "'q \<Rightarrow> byte list"
    and put :: "byte list \<Rightarrow> 'q \<Rightarrow> 'q result"
    and drp :: "nat \<Rightarrow> 'q \<Rightarrow> 'q result"
  assumes put_ok: "inv q \<Longrightarrow> \<exists>q'. put bs q = Inr q' \<and> inv q' \<and> bytes q' = bytes q @ bs"
    and drp_ok: "inv q \<Longrightarrow> n \<le> length (bytes q) \<Longrightarrow>
      \<exists>q'. drp n q = Inr q' \<and> inv q' \<and> bytes q' = drop n (bytes q)"
    and drp_fault: "inv q \<Longrightarrow> length (bytes q) < n \<Longrightarrow> is_fault (drp n q)"
begin

lemma put_InrD: "inv q \<Longrightarrow> put bs q = Inr q' \<Longrightarrow> inv q' \<and> bytes q' = bytes q @ bs"
  using put_ok [of q bs] by auto

lemma drp_InrD:
  "inv q \<Longrightarrow> drp n q = Inr q' \<Longrightarrow> n \<le> length (bytes q) \<and> inv q' \<and> bytes q' = drop n (bytes q)"
  using drp_ok [of q n] drp_fault [of q n] by (cases "n \<le> length (bytes q)") auto

lemma op_simulates_list:
  assumes "inv q"
  shows "case list_op x (bytes q) of
      Inl _ \<Rightarrow> is_fault (queue_op_on put drp x q)
    | Inr ys \<Rightarrow> (\<exists>q'. queue_op_on put drp x q = Inr q' \<and> inv q' \<and> bytes q' = ys)"
proof (cases x)
  case (Put bs)
  with put_ok [OF assms, of bs] show ?thesis by simp
next
  case (Drop n)
  show ?thesis
  proof (cases "n \<le> length (bytes q)")
    case True
    with Drop drp_ok [OF assms, of n] show ?thesis by simp
  next
    case False
    with Drop drp_fault [OF assms, of n] show ?thesis by simp
  qed
qed

lemma script_simulates_list:
  assumes "inv q"
  shows "case for_each list_op ops (bytes q) of
      Inl _ \<Rightarrow> is_fault (for_each (queue_op_on put drp) ops q)
    | Inr ys \<Rightarrow> (\<exists>q'. for_each (queue_op_on put drp) ops q = Inr q' \<and> inv q' \<and> bytes q' = ys)"
  using assms
proof (induction ops arbitrary: q)
  case (Cons x ops)
  note step = op_simulates_list [OF Cons.prems, of x]
  show ?case
  proof (cases "list_op x (bytes q)")
    case (Inl e)
    with step have "is_fault (queue_op_on put drp x q)" by simp
    then have "is_fault (for_each (queue_op_on put drp) (x # ops) q)"
      by (cases "queue_op_on put drp x q") simp_all
    with Inl show ?thesis by simp
  next
    case (Inr ys)
    with step obtain q' where "queue_op_on put drp x q = Inr q'" "inv q'" "bytes q' = ys" by auto
    with Inr Cons.IH [OF \<open>inv q'\<close>] show ?thesis by (auto split: sum.splits)
  qed
qed simp

lemma put_all:
  assumes "inv q"
  shows "\<exists>q'. for_each put bss q = Inr q' \<and> inv q' \<and> bytes q' = bytes q @ concat bss"
  using assms
proof (induction bss arbitrary: q)
  case (Cons bs bss)
  obtain q' where "put bs q = Inr q'" "inv q'" "bytes q' = bytes q @ bs"
    using put_ok [OF Cons.prems, of bs] by blast
  with Cons.IH [of q'] show ?case by auto
qed simp

text \<open>A front part that was put in before is what comes out first, whatever follows it.\<close>

lemma fifo:
  assumes "inv q" and "bytes q = []"
  shows "\<exists>q1 q2. put (xs @ ys) q = Inr q1 \<and> drp (length xs) q1 = Inr q2 \<and> inv q2 \<and> bytes q2 = ys"
proof -
  obtain q1 where q1: "put (xs @ ys) q = Inr q1" "inv q1" "bytes q1 = xs @ ys"
    using put_ok [OF assms(1), of "xs @ ys"] assms(2) by auto
  have "length xs \<le> length (bytes q1)" using q1(3) by simp
  then obtain q2 where "drp (length xs) q1 = Inr q2" "inv q2" "bytes q2 = drop (length xs) (bytes q1)"
    using drp_ok [OF q1(2)] by blast
  with q1 show ?thesis by auto
qed

end

end
