(* ===== verification/Endian.thy ===== *)
theory Endian
  imports Prelude
begin

unbundle bit_operations_syntax

section \<open>Byte order: SocketsOps.h\<close>

text \<open>
  The byte order conversions of \<open>sockets\<close> in \<open>SocketsOps.h\<close> and the raw memory images that
  \<open>memcpy\<close> and pointer casts of \<open>Buffer.h\<close> and \<open>codec.cc\<close> take of an integer. The order of the host
  is a parameter of every definition: \<open>htonl\<close> swaps on a little-endian host and is the identity on a
  big-endian one, and the bytes an integer occupies in memory follow the same order. The lemmas
  show that an integer converted to network order and then read as raw bytes is big-endian on
  either host, and that the conversions are inverse to each other.
\<close>

named_theorems endian_simps \<open>byte images of integers\<close>

datatype host_order = LittleEndian | BigEndian

subsection \<open>Big-endian images of a word\<close>

fun be_bytes :: "nat \<Rightarrow> 'a::len word \<Rightarrow> byte list" where
  "be_bytes 0 w = []"
| "be_bytes (Suc n) w = ucast (drop_bit (8 * n) w) # be_bytes n w"

fun be_word_acc :: "'a::len word \<Rightarrow> byte list \<Rightarrow> 'a word" where
  "be_word_acc acc [] = acc"
| "be_word_acc acc (b # bs) = be_word_acc (push_bit 8 acc OR ucast b) bs"

definition be_word :: "byte list \<Rightarrow> 'a::len word" where
  "be_word bs = be_word_acc 0 bs"

lemma length_be_bytes [simp]: "length (be_bytes n w) = n"
  by (induction n) auto

lemma be_word_acc_bytes:
  "be_word_acc acc (be_bytes n w) = push_bit (8 * n) acc OR take_bit (8 * n) (w :: 'a::len word)"
proof (induction n arbitrary: acc)
  case 0
  then show ?case by simp
next
  case (Suc n)
  have "push_bit (8 * n) (push_bit 8 acc OR ucast (ucast (drop_bit (8 * n) w) :: byte))
      OR take_bit (8 * n) w = push_bit (8 * Suc n) acc OR take_bit (8 * Suc n) w"
    by (rule bit_word_eqI) (auto simp: bit_simps add.commute)
  then show ?case by (simp add: Suc.IH)
qed

lemma be_word_be_bytes: "8 * n = LENGTH('a) \<Longrightarrow> be_word (be_bytes n w) = (w :: 'a::len word)"
  by (simp add: be_word_def be_word_acc_bytes)

lemma bit_be_word_acc:
  "bit (be_word_acc acc bs :: 'a::len word) i \<longleftrightarrow>
     i < LENGTH('a) \<and> (if i < 8 * length bs then bit (rev bs ! (i div 8)) (i mod 8)
       else bit acc (i - 8 * length bs))"
proof (induction bs arbitrary: acc)
  case Nil
  then show ?case by (auto dest: bit_imp_le_length)
next
  case (Cons b bs)
  let ?acc = "push_bit 8 acc OR ucast b :: 'a word"
  have *: "bit (be_word_acc acc (b # bs)) i \<longleftrightarrow>
     i < LENGTH('a) \<and> (if i < 8 * length bs then bit (rev bs ! (i div 8)) (i mod 8)
       else bit ?acc (i - 8 * length bs))"
    using Cons.IH by simp
  show ?case
  proof (cases "i < 8 * length bs")
    case True
    then have "i div 8 < length bs" by (simp add: less_mult_imp_div_less mult.commute)
    then have "rev (b # bs) ! (i div 8) = rev bs ! (i div 8)"
      by (simp add: nth_append)
    with True * show ?thesis by simp
  next
    case False
    define j where "j = i - 8 * length bs"
    with False have i: "i = 8 * length bs + j" by simp
    show ?thesis
    proof (cases "j < 8")
      case True
      then have "i div 8 = length bs" "i mod 8 = j" by (simp_all add: i)
      with * True False show ?thesis
        by (auto simp: nth_append i bit_simps dest: bit_imp_le_length)
    next
      case j: False
      then have "\<not> i < 8 * length (b # bs)" by (simp add: i)
      with * False j show ?thesis
        by (auto simp: i bit_simps dest: bit_imp_le_length)
    qed
  qed
qed

lemma be_bytes_nth: "k < n \<Longrightarrow> be_bytes n w ! k = ucast (drop_bit (8 * (n - Suc k)) w)"
proof (induction n arbitrary: k)
  case (Suc n)
  then show ?case by (cases k) auto
qed simp

lemma be_bytes_be_word:
  assumes "8 * length bs \<le> LENGTH('a::len)"
  shows "be_bytes (length bs) (be_word bs :: 'a word) = bs"
proof (rule nth_equalityI)
  fix k
  assume "k < length (be_bytes (length bs) (be_word bs :: 'a word))"
  then have k: "k < length bs" by simp
  show "be_bytes (length bs) (be_word bs :: 'a word) ! k = bs ! k"
  proof (rule bit_word_eqI)
    fix n
    assume "n < LENGTH(8)"
    then have n: "n < 8" by simp
    define i where "i = 8 * (length bs - Suc k) + n"
    have i: "i < 8 * length bs" "i div 8 = length bs - Suc k" "i mod 8 = n"
      using k n by (auto simp: i_def)
    have "rev bs ! (length bs - Suc k) = bs ! k" using k by (simp add: rev_nth)
    then show "bit (be_bytes (length bs) (be_word bs :: 'a word) ! k) n = bit (bs ! k) n"
      using assms i k n
      by (simp add: be_bytes_nth be_word_def bit_simps bit_be_word_acc i_def [symmetric])
  qed
qed simp

subsection \<open>Host images and conversions\<close>

text \<open>\<open>mem_bytes\<close> is the object representation of an integer of \<open>n\<close> bytes, \<open>mem_word\<close> its inverse.\<close>

definition mem_bytes :: "host_order \<Rightarrow> nat \<Rightarrow> 'a::len word \<Rightarrow> byte list" where
  "mem_bytes h n w = (case h of LittleEndian \<Rightarrow> rev (be_bytes n w) | BigEndian \<Rightarrow> be_bytes n w)"

definition mem_word :: "host_order \<Rightarrow> byte list \<Rightarrow> 'a::len word" where
  "mem_word h bs = (case h of LittleEndian \<Rightarrow> be_word (rev bs) | BigEndian \<Rightarrow> be_word bs)"

definition swap_on :: "host_order \<Rightarrow> nat \<Rightarrow> 'a::len word \<Rightarrow> 'a word" where
  "swap_on h n w = (case h of LittleEndian \<Rightarrow> be_word (rev (be_bytes n w)) | BigEndian \<Rightarrow> w)"

definition hostToNetwork64 :: "host_order \<Rightarrow> u64 \<Rightarrow> u64" where
  "hostToNetwork64 h host64 = swap_on h 8 host64"

definition hostToNetwork32 :: "host_order \<Rightarrow> u32 \<Rightarrow> u32" where
  "hostToNetwork32 h host32 = swap_on h 4 host32"

definition hostToNetwork16 :: "host_order \<Rightarrow> u16 \<Rightarrow> u16" where
  "hostToNetwork16 h host16 = swap_on h 2 host16"

definition networkToHost64 :: "host_order \<Rightarrow> u64 \<Rightarrow> u64" where
  "networkToHost64 h net64 = swap_on h 8 net64"

definition networkToHost32 :: "host_order \<Rightarrow> u32 \<Rightarrow> u32" where
  "networkToHost32 h net32 = swap_on h 4 net32"

definition networkToHost16 :: "host_order \<Rightarrow> u16 \<Rightarrow> u16" where
  "networkToHost16 h net16 = swap_on h 2 net16"

lemma length_mem_bytes [simp]: "length (mem_bytes h n w) = n"
  by (simp add: mem_bytes_def split: host_order.split)

lemma swap_on_involution:
  assumes "8 * n = LENGTH('a::len)"
  shows "swap_on h n (swap_on h n (w :: 'a word)) = w"
proof (cases h)
  case LittleEndian
  have "be_bytes n (be_word (rev (be_bytes n w)) :: 'a word) = rev (be_bytes n w)"
    using be_bytes_be_word [of "rev (be_bytes n w)", where 'a = 'a] assms by simp
  with LittleEndian assms show ?thesis by (simp add: swap_on_def be_word_be_bytes)
qed (simp add: swap_on_def)

lemma mem_bytes_swap_on:
  assumes "8 * n = LENGTH('a::len)"
  shows "mem_bytes h n (swap_on h n (w :: 'a word)) = be_bytes n w"
proof (cases h)
  case LittleEndian
  have "be_bytes n (be_word (rev (be_bytes n w)) :: 'a word) = rev (be_bytes n w)"
    using be_bytes_be_word [of "rev (be_bytes n w)", where 'a = 'a] assms by simp
  with LittleEndian show ?thesis by (simp add: swap_on_def mem_bytes_def)
qed (simp add: swap_on_def mem_bytes_def)

lemma swap_on_mem_word:
  assumes "8 * n = LENGTH('a::len)" and "length bs = n"
  shows "swap_on h n (mem_word h bs :: 'a word) = be_word bs"
proof (cases h)
  case LittleEndian
  have "be_bytes n (be_word (rev bs) :: 'a word) = rev bs"
    using be_bytes_be_word [of "rev bs", where 'a = 'a] assms by simp
  with LittleEndian show ?thesis by (simp add: swap_on_def mem_word_def)
qed (simp add: swap_on_def mem_word_def)

lemma mem_hostToNetwork32 [endian_simps]:
  "mem_bytes h 4 (hostToNetwork32 h w) = be_bytes 4 w"
  by (simp add: hostToNetwork32_def mem_bytes_swap_on)

lemma networkToHost32_mem [endian_simps]:
  "length bs = 4 \<Longrightarrow> networkToHost32 h (mem_word h bs) = be_word bs"
  by (simp add: networkToHost32_def swap_on_mem_word)

lemma be_word32_be_bytes [simp, endian_simps]: "be_word (be_bytes 4 w) = (w :: u32)"
  by (rule be_word_be_bytes) simp

lemma networkToHost_hostToNetwork [simp]:
  "networkToHost64 h (hostToNetwork64 h a) = a"
  "networkToHost32 h (hostToNetwork32 h b) = b"
  "networkToHost16 h (hostToNetwork16 h c) = c"
  by (simp_all add: networkToHost64_def hostToNetwork64_def networkToHost32_def
      hostToNetwork32_def networkToHost16_def hostToNetwork16_def swap_on_involution)

end
