(* ===== verification/Buffer.thy ===== *)
theory Buffer
  imports ByteQueue Endian
begin

section \<open>The byte buffer: Buffer.h and Buffer.cc\<close>

text \<open>
  Class \<open>Buffer\<close>: a vector with a reader and a writer index,
  \<open>0 <= readerIndex_ <= writerIndex_ <= buffer_.size()\<close>. A pointer into the vector
  (\<open>peek()\<close>, \<open>beginWrite()\<close>) is its offset. The system call \<open>readv\<close> is a parameter: from the
  lengths of the two areas it is given it returns an error number or the bytes it stored, the first
  area filled before the second. The lemmas show that every operation keeps the index order, that
  the readable bytes behave as the queue of \<open>ByteQueue\<close>, that no assertion of the growth path can
  fail, and what \<open>shrink\<close> really does.
\<close>

named_theorems buffer_defs \<open>definitions of the buffer operations\<close>

definition kCheapPrepend :: nat where
  "kCheapPrepend = 8"

definition kInitialSize :: nat where
  "kInitialSize = 1024"

record buffer =
  vec :: "byte list"
  readerIndex :: nat
  writerIndex :: nat

definition new_buffer :: buffer where
  "new_buffer = \<lparr>vec = replicate (kCheapPrepend + kInitialSize) 0,
     readerIndex = kCheapPrepend, writerIndex = kCheapPrepend\<rparr>"

subsection \<open>Sizes and positions\<close>

definition readableBytes :: "buffer \<Rightarrow> nat" where
  "readableBytes b = size_sub (writerIndex b) (readerIndex b)"

definition writableBytes :: "buffer \<Rightarrow> nat" where
  "writableBytes b = size_sub (length (vec b)) (writerIndex b)"

definition prependableBytes :: "buffer \<Rightarrow> nat" where
  "prependableBytes b = readerIndex b"

definition peek :: "buffer \<Rightarrow> nat" where
  "peek b = readerIndex b"

definition beginWrite :: "buffer \<Rightarrow> nat" where
  "beginWrite b = writerIndex b"

text \<open>The bytes of the area that starts at \<open>peek()\<close> and has \<open>readableBytes()\<close> elements.\<close>

definition readable :: "buffer \<Rightarrow> byte list" where
  "readable b = take (readableBytes b) (drop (peek b) (vec b))"

definition wf_buffer :: "buffer \<Rightarrow> bool" where
  "wf_buffer b \<longleftrightarrow> readerIndex b \<le> writerIndex b \<and> writerIndex b \<le> length (vec b)"

subsection \<open>Retrieving\<close>

definition retrieve :: "nat \<Rightarrow> buffer \<Rightarrow> buffer result" where
  "retrieve len b =
     require (len \<le> readableBytes b) (AssertionFailed ''len <= readableBytes()'')
       (Inr (b\<lparr>readerIndex := readerIndex b + len\<rparr>))"

definition retrieveUntil :: "nat \<Rightarrow> buffer \<Rightarrow> buffer result" where
  "retrieveUntil end_pos b =
     require (peek b \<le> end_pos) (AssertionFailed ''peek() <= end'')
       (require (end_pos \<le> beginWrite b) (AssertionFailed ''end <= beginWrite()'')
         (retrieve (end_pos - peek b) b))"

definition retrieveAll :: "buffer \<Rightarrow> buffer" where
  "retrieveAll b = b\<lparr>readerIndex := kCheapPrepend, writerIndex := kCheapPrepend\<rparr>"

definition retrieveAsString :: "buffer \<Rightarrow> byte list \<times> buffer" where
  "retrieveAsString b = (let str = readable b in (str, retrieveAll b))"

subsection \<open>Making space and appending\<close>

definition hasWritten :: "nat \<Rightarrow> buffer \<Rightarrow> buffer" where
  "hasWritten len b = b\<lparr>writerIndex := writerIndex b + len\<rparr>"

definition makeSpace :: "nat \<Rightarrow> buffer \<Rightarrow> buffer result" where
  "makeSpace len b =
     (if writableBytes b + prependableBytes b < len + kCheapPrepend
      then Inr (b\<lparr>vec := vec_resize (writerIndex b + len) (vec b)\<rparr>)
      else require (kCheapPrepend < readerIndex b) (AssertionFailed ''kCheapPrepend < readerIndex_'')
        (let n = readableBytes b;
             b' = b\<lparr>vec := copy_within (vec b) (readerIndex b) n kCheapPrepend,
                    readerIndex := kCheapPrepend,
                    writerIndex := kCheapPrepend + n\<rparr>
         in require (readableBytes b' = n) (AssertionFailed ''readableBytes() == readable'')
              (Inr b')))"

definition ensureWritableBytes :: "nat \<Rightarrow> buffer \<Rightarrow> buffer result" where
  "ensureWritableBytes len b =
     and_then (if writableBytes b < len then makeSpace len b else Inr b)
       (\<lambda>b'. require (len \<le> writableBytes b') (AssertionFailed ''len <= writableBytes()'') (Inr b'))"

definition append :: "byte list \<Rightarrow> buffer \<Rightarrow> buffer result" where
  "append data b =
     and_then (ensureWritableBytes (length data) b)
       (\<lambda>b'. Inr (hasWritten (length data)
          (b'\<lparr>vec := copy_in (vec b') (beginWrite b') data\<rparr>)))"

definition prepend :: "byte list \<Rightarrow> buffer \<Rightarrow> buffer result" where
  "prepend data b =
     require (length data \<le> prependableBytes b) (AssertionFailed ''len <= prependableBytes()'')
       (let r = readerIndex b - length data
        in Inr (b\<lparr>readerIndex := r, vec := copy_in (vec b) r data\<rparr>))"

text \<open>\<open>shrink\<close> swaps in a vector of the asked size and leaves both indices as they were.\<close>

definition shrink :: "nat \<Rightarrow> buffer \<Rightarrow> buffer" where
  "shrink reserve b =
     (let buf = replicate (kCheapPrepend + readableBytes b + reserve) 0
      in b\<lparr>vec := copy_in buf kCheapPrepend (readable b)\<rparr>)"

subsection \<open>Integers in network order\<close>

definition appendInt32 :: "host_order \<Rightarrow> u32 \<Rightarrow> buffer \<Rightarrow> buffer result" where
  "appendInt32 h x b = append (mem_bytes h 4 (hostToNetwork32 h x)) b"

definition peekInt32 :: "host_order \<Rightarrow> buffer \<Rightarrow> u32 result" where
  "peekInt32 h b =
     require (4 \<le> readableBytes b) (AssertionFailed ''readableBytes() >= sizeof(int32_t)'')
       (Inr (networkToHost32 h (mem_word h (take 4 (drop (peek b) (vec b))))))"

definition readInt32 :: "host_order \<Rightarrow> buffer \<Rightarrow> (u32 \<times> buffer) result" where
  "readInt32 h b =
     and_then (peekInt32 h b) (\<lambda>x. and_then (retrieve 4 b) (\<lambda>b'. Inr (x, b')))"

subsection \<open>Reading from a descriptor\<close>

datatype readv_result = ReadvError int | ReadvBytes "byte list"

definition kExtraBuf :: nat where
  "kExtraBuf = 65536"

definition readFd :: "(nat list \<Rightarrow> readv_result) \<Rightarrow> buffer \<Rightarrow> (int \<times> int option \<times> buffer) result" where
  "readFd readv b =
     (let writable = writableBytes b in
      case readv [writable, kExtraBuf] of
        ReadvError err \<Rightarrow> Inr (-1, Some err, b)
      | ReadvBytes bs \<Rightarrow>
          (let n = length bs;
               b1 = b\<lparr>vec := copy_in (vec b) (beginWrite b) (take writable bs)\<rparr>
           in if n \<le> writableBytes b1 then Inr (int n, None, hasWritten n b1)
              else and_then (append (drop writable bs) (b1\<lparr>writerIndex := length (vec b1)\<rparr>))
                     (\<lambda>b2. Inr (int n, None, b2))))"

lemmas [buffer_defs] = readableBytes_def writableBytes_def prependableBytes_def peek_def
  beginWrite_def readable_def wf_buffer_def

subsection \<open>Basic facts\<close>

lemma wf_new_buffer [simp]: "wf_buffer new_buffer"
  by (simp add: wf_buffer_def new_buffer_def)

lemma readable_new_buffer [simp]: "readable new_buffer = []"
  by (simp add: buffer_defs new_buffer_def)

lemma readerIndex_new_buffer [simp]: "readerIndex new_buffer = 8"
  by (simp add: new_buffer_def kCheapPrepend_def)

lemma readable_wf: "wf_buffer b \<Longrightarrow>
  readable b = take (writerIndex b - readerIndex b) (drop (readerIndex b) (vec b))"
  by (simp add: buffer_defs)

lemma length_readable: "wf_buffer b \<Longrightarrow> length (readable b) = writerIndex b - readerIndex b"
  by (simp add: buffer_defs min_absorb2 diff_le_mono)

lemma readableBytes_wf: "wf_buffer b \<Longrightarrow> readableBytes b = length (readable b)"
  by (simp add: length_readable) (simp add: buffer_defs)

lemma vec_at_peek: "wf_buffer b \<Longrightarrow> n \<le> length (readable b) \<Longrightarrow>
  take n (drop (peek b) (vec b)) = take n (readable b)"
  by (simp add: length_readable) (simp add: readable_wf peek_def min_absorb1)

lemma retrieve_ok:
  assumes "wf_buffer b" and "n \<le> length (readable b)"
  shows "\<exists>b'. retrieve n b = Inr b' \<and> wf_buffer b' \<and> readable b' = drop n (readable b)"
proof -
  have n: "n \<le> writerIndex b - readerIndex b" "readerIndex b \<le> writerIndex b"
    using assms by (simp_all add: length_readable) (simp add: wf_buffer_def)
  let ?b = "b\<lparr>readerIndex := readerIndex b + n\<rparr>"
  have "retrieve n b = Inr ?b" "wf_buffer ?b" using n assms(1) by (simp_all add: retrieve_def buffer_defs)
  moreover have "readable ?b = drop n (readable b)"
    using n by (simp add: buffer_defs drop_take add.commute diff_diff_left)
  ultimately show ?thesis by blast
qed

lemma retrieve_fault: "wf_buffer b \<Longrightarrow> length (readable b) < n \<Longrightarrow> is_fault (retrieve n b)"
  by (simp add: retrieve_def readableBytes_wf)

lemma retrieveAll_empty [simp]: "readable (retrieveAll b) = []"
  by (simp add: retrieveAll_def buffer_defs)

lemma makeSpace_ok:
  assumes wf: "wf_buffer b" and small: "writableBytes b < len"
  shows "\<exists>b'. makeSpace len b = Inr b' \<and> wf_buffer b' \<and> readable b' = readable b \<and>
    len \<le> writableBytes b' \<and> min 8 (readerIndex b) \<le> readerIndex b' \<and>
    length (vec b') = (if writableBytes b < len \<and> writableBytes b + prependableBytes b < len + kCheapPrepend
      then writerIndex b + len else length (vec b))"
proof (cases "writableBytes b + prependableBytes b < len + kCheapPrepend")
  case True
  let ?b = "b\<lparr>vec := vec_resize (writerIndex b + len) (vec b)\<rparr>"
  have "length (vec b) \<le> writerIndex b + len"
    using small wf by (simp add: buffer_defs)
  then have "readable ?b = readable b"
    using wf by (simp add: buffer_defs take_drop_vec_resize)
  with True wf small show ?thesis by (simp add: makeSpace_def buffer_defs)
next
  case False
  then have r: "kCheapPrepend < readerIndex b"
    using small by (simp add: buffer_defs)
  let ?n = "writerIndex b - readerIndex b"
  let ?b = "b\<lparr>vec := copy_within (vec b) (readerIndex b) ?n kCheapPrepend,
     readerIndex := kCheapPrepend, writerIndex := kCheapPrepend + ?n\<rparr>"
  have bound: "readerIndex b + ?n \<le> length (vec b)" "kCheapPrepend \<le> readerIndex b"
    using wf r by (simp_all add: buffer_defs)
  have copy: "copy_within (vec b) (readerIndex b) ?n kCheapPrepend
      = overwrite (vec b) kCheapPrepend (readable b)"
    using bound wf by (simp add: copy_within_overwrite readable_wf)
  have "makeSpace len b = Inr ?b"
    using False r wf by (simp add: makeSpace_def buffer_defs Let_def)
  moreover have len: "length (readable b) = ?n" "kCheapPrepend + ?n \<le> length (vec b)"
    using wf bound by (simp_all add: length_readable)
  moreover have "readable ?b = take ?n (drop kCheapPrepend (overwrite (vec b) kCheapPrepend (readable b)))"
    unfolding copy [symmetric] by (simp add: readable_def readableBytes_def peek_def)
  then have "readable ?b = readable b"
    using len take_drop_overwrite_same [of kCheapPrepend "readable b" "vec b"] by simp
  moreover have "len \<le> writableBytes ?b"
    using False wf len(2) by (simp add: buffer_defs)
  moreover have "wf_buffer ?b" using len(2) by (simp add: wf_buffer_def)
  ultimately show ?thesis using False by (simp add: kCheapPrepend_def)
qed

lemma ensureWritableBytes_ok:
  assumes "wf_buffer b"
  shows "\<exists>b'. ensureWritableBytes len b = Inr b' \<and> wf_buffer b' \<and> readable b' = readable b \<and>
    len \<le> writableBytes b' \<and> min 8 (readerIndex b) \<le> readerIndex b' \<and>
    length (vec b') = (if writableBytes b < len \<and> writableBytes b + prependableBytes b < len + kCheapPrepend
      then writerIndex b + len else length (vec b))"
proof (cases "writableBytes b < len")
  case True
  from makeSpace_ok [OF assms True] True show ?thesis by (auto simp: ensureWritableBytes_def)
next
  case False
  with assms show ?thesis by (simp add: ensureWritableBytes_def)
qed

text \<open>Storing bytes at \<open>beginWrite()\<close> and announcing them extends the readable bytes.\<close>

lemma write_then_hasWritten:
  assumes "wf_buffer b" and "length data \<le> writableBytes b"
  shows "wf_buffer (hasWritten (length data) (b\<lparr>vec := copy_in (vec b) (beginWrite b) data\<rparr>))"
    and "readable (hasWritten (length data) (b\<lparr>vec := copy_in (vec b) (beginWrite b) data\<rparr>))
      = readable b @ data"
proof -
  have w: "readerIndex b \<le> writerIndex b" "writerIndex b + length data \<le> length (vec b)"
    using assms by (auto simp: buffer_defs)
  then show "wf_buffer (hasWritten (length data) (b\<lparr>vec := copy_in (vec b) (beginWrite b) data\<rparr>))"
    by (simp add: wf_buffer_def hasWritten_def)
  show "readable (hasWritten (length data) (b\<lparr>vec := copy_in (vec b) (beginWrite b) data\<rparr>))
      = readable b @ data"
    using w by (simp add: buffer_defs hasWritten_def copy_in_overwrite take_drop_overwrite_append)
qed

lemma append_ok:
  assumes "wf_buffer b"
  shows "\<exists>b'. append data b = Inr b' \<and> wf_buffer b' \<and> readable b' = readable b @ data \<and>
    min 8 (readerIndex b) \<le> readerIndex b' \<and>
    length (vec b') = (if writableBytes b < length data \<and>
        writableBytes b + prependableBytes b < length data + kCheapPrepend
      then writerIndex b + length data else length (vec b))"
proof -
  obtain c where c: "ensureWritableBytes (length data) b = Inr c" "wf_buffer c"
      "readable c = readable b" "length data \<le> writableBytes c"
      "min 8 (readerIndex b) \<le> readerIndex c"
      "length (vec c) = (if writableBytes b < length data \<and>
           writableBytes b + prependableBytes b < length data + kCheapPrepend
         then writerIndex b + length data else length (vec b))"
    using ensureWritableBytes_ok [OF assms, of "length data"] by blast
  with write_then_hasWritten [of c data] show ?thesis
    by (simp add: append_def) (simp add: hasWritten_def)
qed

interpretation buf: byte_queue wf_buffer readable append retrieve
proof (unfold_locales, goal_cases)
  case (1 q bs)
  then show ?case using append_ok [of q bs] by blast
next
  case (2 q n)
  then show ?case by (rule retrieve_ok)
next
  case (3 q n)
  then show ?case by (rule retrieve_fault)
qed

lemma prepend_ok:
  assumes "wf_buffer b" and "length data \<le> readerIndex b"
  shows "\<exists>b'. prepend data b = Inr b' \<and> wf_buffer b' \<and> readable b' = data @ readable b"
proof -
  obtain r where r: "readerIndex b = r + length data"
    using assms(2) by (metis add.commute le_add_diff_inverse)
  let ?b = "b\<lparr>readerIndex := r, vec := copy_in (vec b) r data\<rparr>"
  have ord: "r + length data \<le> writerIndex b" "writerIndex b \<le> length (vec b)"
    using assms r by (simp_all add: wf_buffer_def)
  then have copy: "copy_in (vec b) r data = overwrite (vec b) r data"
    by (simp add: copy_in_overwrite)
  have "readable ?b = take (writerIndex b - r) (drop r (overwrite (vec b) r data))"
    using ord by (simp add: buffer_defs copy)
  also have "drop r (overwrite (vec b) r data) = data @ drop (readerIndex b) (vec b)"
    using ord r by (simp add: overwrite_def min_absorb2)
  also have "take (writerIndex b - r) \<dots> = data @ readable b"
    using ord r by (simp add: readable_wf [OF assms(1)])
  finally have "readable ?b = data @ readable b" .
  moreover have "wf_buffer ?b" using ord by (simp add: wf_buffer_def)
  moreover have "prepend data b = Inr ?b" using r by (simp add: prepend_def prependableBytes_def Let_def)
  ultimately show ?thesis by blast
qed

lemma peekInt32_ok:
  assumes "wf_buffer b" and "4 \<le> length (readable b)"
  shows "peekInt32 h b = Inr (be_word (take 4 (readable b)))"
proof -
  have "take 4 (drop (peek b) (vec b)) = take 4 (readable b)"
    using assms by (rule vec_at_peek)
  with assms show ?thesis
    by (simp add: peekInt32_def readableBytes_wf networkToHost32_mem)
qed

lemma appendInt32_eq: "appendInt32 h x b = append (be_bytes 4 x) b"
  by (simp add: appendInt32_def mem_hostToNetwork32)

lemma readFd_ok:
  assumes wf: "wf_buffer b" and ret: "readv [writableBytes b, kExtraBuf] = ReadvBytes bs"
  shows "\<exists>b'. readFd readv b = Inr (int (length bs), None, b') \<and> wf_buffer b' \<and>
    readable b' = readable b @ bs"
proof (cases "length bs \<le> writableBytes b")
  case True
  with wf ret write_then_hasWritten [OF wf, of bs] show ?thesis
    by (simp add: readFd_def Let_def writableBytes_def)
next
  case False
  let ?w = "writableBytes b"
  let ?b1 = "b\<lparr>vec := copy_in (vec b) (beginWrite b) (take ?w bs)\<rparr>"
  have len: "length (take ?w bs) = ?w" "writerIndex b + ?w = length (vec b)"
    using False wf by (simp_all add: buffer_defs)
  have eq: "?b1\<lparr>writerIndex := length (vec ?b1)\<rparr> = hasWritten (length (take ?w bs)) ?b1"
    using len by (simp add: hasWritten_def)
  have wf1: "wf_buffer (?b1\<lparr>writerIndex := length (vec ?b1)\<rparr>)"
    "readable (?b1\<lparr>writerIndex := length (vec ?b1)\<rparr>) = readable b @ take ?w bs"
    using write_then_hasWritten [OF wf, of "take ?w bs"] len unfolding eq by simp_all
  obtain b' where b': "append (drop ?w bs) (?b1\<lparr>writerIndex := length (vec ?b1)\<rparr>) = Inr b'"
      "wf_buffer b'" "readable b' = (readable b @ take ?w bs) @ drop ?w bs"
    using buf.put_ok [OF wf1(1), of "drop ?w bs"] wf1(2) by auto
  have "\<not> length bs \<le> writableBytes ?b1" using False by (simp add: writableBytes_def)
  with ret b' show ?thesis by (simp add: readFd_def Let_def)
qed

lemma readable_vec_update:
  "readable (b\<lparr>vec := v\<rparr>) = take (readableBytes b) (drop (readerIndex b) v)"
  by (simp add: readable_def readableBytes_def peek_def)

lemma readable_shrink:
  assumes "wf_buffer b" and "readerIndex b = kCheapPrepend"
  shows "readable (shrink k b) = readable b"
proof -
  let ?z = "replicate (kCheapPrepend + readableBytes b + k) (0 :: byte)"
  have len: "kCheapPrepend + length (readable b) \<le> length ?z"
    using assms(1) by (simp add: readableBytes_wf)
  have "readable (shrink k b)
      = take (readableBytes b) (drop kCheapPrepend (overwrite ?z kCheapPrepend (readable b)))"
    using len assms(2) by (simp add: shrink_def Let_def readable_vec_update copy_in_overwrite)
  then show ?thesis
    using take_drop_overwrite_same [OF len] assms(1) by (simp add: readableBytes_wf)
qed

lemma wf_shrink_iff:
  assumes "wf_buffer b"
  shows "wf_buffer (shrink k b) \<longleftrightarrow> readerIndex b \<le> kCheapPrepend + k"
proof -
  have "length (vec (shrink k b)) = kCheapPrepend + (writerIndex b - readerIndex b) + k"
    using assms by (simp add: shrink_def Let_def buffer_defs)
  then show ?thesis using assms by (auto simp: wf_buffer_def shrink_def Let_def)
qed

subsection \<open>Properties\<close>

text \<open>C17: Any script of appends and retrieves on a well-formed buffer behaves as the same script on
  a plain queue of bytes: it faults exactly when the queue does (a retrieve of more than is held),
  and otherwise leaves a well-formed buffer whose readable bytes are the queue's contents.\<close>

theorem buffer_refines_byte_queue:
  assumes "wf_buffer b"
  shows "case for_each list_op ops (readable b) of
      Inl _ \<Rightarrow> is_fault (for_each (queue_op_on append retrieve) ops b)
    | Inr ys \<Rightarrow> (\<exists>b'. for_each (queue_op_on append retrieve) ops b = Inr b' \<and>
        wf_buffer b' \<and> readable b' = ys)"
  using assms by (rule buf.script_simulates_list)

theorem buffer_refines_byte_queue_witness:
  "\<exists>b'. for_each (queue_op_on append retrieve) [Put [1, 2, 3], Drop 2, Put [4]] new_buffer = Inr b' \<and>
     wf_buffer b' \<and> readable b' = [3, 4]"
  using buffer_refines_byte_queue [OF wf_new_buffer, of "[Put [1, 2, 3], Drop 2, Put [4]]"] by simp

text \<open>Appending never fails: no assertion of \<open>ensureWritableBytes\<close> or \<open>makeSpace\<close> can fire. The
  data follows what was readable, at least the eight bytes of prependable space survive when they
  were there, and the vector grows, to exactly the writer index plus the length, only when neither
  the space behind the writer index nor compaction suffices.\<close>

theorem append_total:
  assumes "wf_buffer b"
  shows "\<exists>b'. append data b = Inr b' \<and> wf_buffer b' \<and> readable b' = readable b @ data \<and>
    min 8 (readerIndex b) \<le> readerIndex b' \<and>
    length (vec b') = (if writableBytes b < length data \<and>
        writableBytes b + prependableBytes b < length data + kCheapPrepend
      then writerIndex b + length data else length (vec b))"
  using assms by (rule append_ok)

theorem append_total_witness:
  "\<exists>b'. append [7, 8] (\<lparr>vec = replicate 10 0, readerIndex = 9, writerIndex = 9\<rparr>) = Inr b' \<and>
     readable b' = [7, 8] \<and> length (vec b') = 10"
  using append_total [of "\<lparr>vec = replicate 10 0, readerIndex = 9, writerIndex = 9\<rparr>" "[7, 8]"]
  by (auto simp: buffer_defs kCheapPrepend_def)

text \<open>\<open>readFd\<close> adds exactly the bytes \<open>readv\<close> delivered, whether they fit behind the writer index
  or overflow into the stack buffer and are appended; on an error it reports \<open>-1\<close> with the error
  number and leaves the buffer alone.\<close>

theorem readFd_delivers:
  assumes "wf_buffer b"
  shows "case readv [writableBytes b, kExtraBuf] of
      ReadvError err \<Rightarrow> readFd readv b = Inr (-1, Some err, b)
    | ReadvBytes bs \<Rightarrow> (\<exists>b'. readFd readv b = Inr (int (length bs), None, b') \<and> wf_buffer b' \<and>
        readable b' = readable b @ bs)"
  using readFd_ok [OF assms]
  by (cases "readv [writableBytes b, kExtraBuf]") (auto simp: readFd_def Let_def)

theorem readFd_delivers_witness:
  "\<exists>b'. readFd (\<lambda>_. ReadvBytes [1, 2, 3]) \<lparr>vec = replicate 9 0, readerIndex = 8, writerIndex = 8\<rparr>
     = Inr (3, None, b') \<and> readable b' = [1, 2, 3]"
  using readFd_delivers [of "\<lparr>vec = replicate 9 0, readerIndex = 8, writerIndex = 8\<rparr>"
      "\<lambda>_. ReadvBytes [1, 2, 3]"] by (auto simp: buffer_defs)

text \<open>An integer appended on a host of one byte order travels as its four big-endian bytes and is
  read back unchanged on a host of any byte order, whatever follows it in the stream.\<close>

theorem int32_roundtrip:
  assumes "wf_buffer b" and "wf_buffer c"
  shows "\<exists>b'. appendInt32 h x b = Inr b' \<and> wf_buffer b' \<and> readable b' = readable b @ be_bytes 4 x \<and>
    (readable c = be_bytes 4 x @ rest \<longrightarrow>
      (\<exists>c'. readInt32 h' c = Inr (x, c') \<and> wf_buffer c' \<and> readable c' = rest))"
proof -
  obtain b' where "appendInt32 h x b = Inr b'" "wf_buffer b'" "readable b' = readable b @ be_bytes 4 x"
    using buf.put_ok [OF assms(1)] by (auto simp: appendInt32_eq)
  moreover have "\<exists>c'. readInt32 h' c = Inr (x, c') \<and> wf_buffer c' \<and> readable c' = rest"
    if c: "readable c = be_bytes 4 x @ rest"
    using buf.drp_ok [OF assms(2), of 4] peekInt32_ok [OF assms(2), of h'] c
    by (auto simp: readInt32_def)
  ultimately show ?thesis by blast
qed

theorem int32_roundtrip_witness:
  "\<exists>b'. appendInt32 LittleEndian 258 new_buffer = Inr b' \<and> readable b' = [0, 0, 1, 2] \<and>
     (\<exists>c'. readInt32 BigEndian b' = Inr (258, c') \<and> readable c' = [])"
proof -
  have img: "be_bytes 4 (258 :: u32) = [0, 0, 1, 2]" by code_simp
  obtain b' where b': "appendInt32 LittleEndian 258 new_buffer = Inr b'" "wf_buffer b'"
      "readable b' = be_bytes 4 (258 :: u32)"
    using int32_roundtrip [OF wf_new_buffer wf_new_buffer, of LittleEndian 258 "[]" BigEndian]
    by auto
  then show ?thesis
    using int32_roundtrip [OF wf_new_buffer b'(2), of LittleEndian 258 "[]" BigEndian] img by auto
qed

text \<open>Prepending into the reserved space puts the data in front of the readable bytes and moves
  nothing; more data than there is space in front fails the assertion.\<close>

theorem prepend_spec:
  assumes "wf_buffer b"
  shows "if length data \<le> readerIndex b
    then \<exists>b'. prepend data b = Inr b' \<and> wf_buffer b' \<and> readable b' = data @ readable b
    else prepend data b = Inl (AssertionFailed ''len <= prependableBytes()'')"
  using prepend_ok [OF assms] by (simp add: prepend_def prependableBytes_def)

theorem prepend_spec_witness:
  "\<exists>b'. prepend [1, 2] \<lparr>vec = [0, 0, 0, 5], readerIndex = 3, writerIndex = 4\<rparr> = Inr b' \<and>
     readable b' = [1, 2, 5]"
  using prepend_spec [of "\<lparr>vec = [0, 0, 0, 5], readerIndex = 3, writerIndex = 4\<rparr>" "[1, 2]"]
  by (auto simp: buffer_defs)

text \<open>\<open>shrink\<close> copies the readable bytes to offset 8 and leaves the indices alone. It keeps the
  contents when the reader index is 8; with the reader index beyond \<open>8 + reserve\<close> the writer index
  ends up outside the new vector, and the next append would write out of bounds.\<close>

theorem shrink_keeps_indices:
  assumes "wf_buffer b"
  shows "readerIndex (shrink k b) = readerIndex b \<and> writerIndex (shrink k b) = writerIndex b \<and>
    (readerIndex b = kCheapPrepend \<longrightarrow> readable (shrink k b) = readable b) \<and>
    (wf_buffer (shrink k b) \<longleftrightarrow> readerIndex b \<le> kCheapPrepend + k)"
  using readable_shrink [OF assms] wf_shrink_iff [OF assms] by (simp add: shrink_def Let_def)

theorem shrink_keeps_indices_witness:
  "\<not> wf_buffer (shrink 0 \<lparr>vec = replicate 9 0 @ [5], readerIndex = 9, writerIndex = 10\<rparr>) \<and>
   readable \<lparr>vec = replicate 9 0 @ [5], readerIndex = 9, writerIndex = 10\<rparr> = [5]"
proof -
  let ?b = "\<lparr>vec = replicate 9 0 @ [5], readerIndex = 9, writerIndex = 10\<rparr>"
  have "wf_buffer ?b" by (simp add: wf_buffer_def)
  from shrink_keeps_indices [OF this, of 0] show ?thesis
    by (simp add: kCheapPrepend_def) (simp add: buffer_defs)
qed

end
