(* ===== verification/TcpConnection.thy ===== *)
theory TcpConnection
  imports Buffer EventLoop
begin

section \<open>A TCP connection: TcpConnection.h and TcpConnection.cc\<close>

text \<open>
  The state of a connection is its phase, its channel and its two buffers; the fields after
  \<open>writeCompleteCallback\<close> belong to the surroundings: \<open>toLoop\<close> collects the functors given to
  \<open>queueInLoop\<close> and the requests to the poller, with the channel's mask, and to the upper layer are
  logged in \<open>effects\<close>. \<open>wire\<close> is
  the byte stream the kernel has taken, \<open>fin\<close> says that the write side was shut down, \<open>down\<close> that
  \<open>handleClose\<close> or \<open>connectDestroyed\<close> has disabled the channel, and \<open>accepted\<close> the bytes of all messages
  that reached \<open>sendInLoop\<close>, in order; \<open>received\<close> collects the bytes that \<open>readv\<close> delivered.

  The system calls \<open>write\<close> and \<open>readv\<close> are parameters that may answer every call differently. User
  callbacks are parameters as well: what they do to the connection is a list of calls of its public
  functions, made in the loop's thread while the callback runs.
\<close>

datatype conn_state = kConnecting | kConnected | kDisconnecting | kDisconnected

datatype conn_functor =
    SendInLoop "byte list"
  | ShutdownInLoop
  | WriteComplete
  | ConnectEstablished
  | ConnectDestroyed

datatype callback_kind = ConnectionCallback | MessageCallback | WriteCompleteCallback

datatype conn_effect = UpdateChannel event_mask | RemoveChannel | CloseCallback | UserCallback callback_kind bool

record tcp_connection =
  state :: conn_state
  chan :: channel
  inputBuffer :: buffer
  outputBuffer :: buffer
  writeCompleteCallback :: bool
  toLoop :: "conn_functor list"
  effects :: "conn_effect list"
  syscalls :: nat
  wire :: "byte list"
  fin :: bool
  down :: bool
  accepted :: "byte list"
  received :: "byte list"

record net =
  sys_write :: "nat \<Rightarrow> byte list \<Rightarrow> int"
  sys_readv :: "nat \<Rightarrow> nat list \<Rightarrow> readv_result"

datatype user_call = Send "byte list" | Shutdown | RetrieveInput nat

type_synonym user_code = "callback_kind \<Rightarrow> tcp_connection \<Rightarrow> user_call list"

definition new_connection :: "nat \<Rightarrow> int \<Rightarrow> bool \<Rightarrow> tcp_connection" where
  "new_connection this_loop sockfd wcc = \<lparr>state = kConnecting,
     chan = (new_channel this_loop sockfd)\<lparr>readCallback := True, writeCallback := True, closeCallback := True,
       errorCallback := True\<rparr>,
     inputBuffer = new_buffer, outputBuffer = new_buffer, writeCompleteCallback = wcc, toLoop = [],
     effects = [], syscalls = 0, wire = [], fin = False, down = False, accepted = [],
     received = []\<rparr>"

definition connected :: "tcp_connection \<Rightarrow> bool" where
  "connected c \<longleftrightarrow> state c = kConnected"

definition in_loop_thread :: "bool \<Rightarrow> 'a result \<Rightarrow> 'a result" where
  "in_loop_thread in_loop k = require in_loop (Fatal ''EventLoop::abortNotInLoopThread'') k"

definition update_chan :: "(channel \<Rightarrow> channel) \<Rightarrow> tcp_connection \<Rightarrow> tcp_connection" where
  "update_chan f c = c\<lparr>chan := f (chan c), effects := effects c @ [UpdateChannel (events (f (chan c)))]\<rparr>"

definition queue_functor :: "conn_functor \<Rightarrow> tcp_connection \<Rightarrow> tcp_connection" where
  "queue_functor f c = c\<lparr>toLoop := toLoop c @ [f]\<rparr>"

subsection \<open>Sending\<close>

text \<open>A call of \<open>write\<close>: its result, and the bytes it took on the wire.\<close>

definition do_write :: "net \<Rightarrow> byte list \<Rightarrow> tcp_connection \<Rightarrow> int \<times> tcp_connection" where
  "do_write net data c =
     (let n = sys_write net (syscalls c) data
      in (n, c\<lparr>syscalls := Suc (syscalls c), wire := wire c @ take (nat n) data\<rparr>))"

definition sendInLoop :: "net \<Rightarrow> bool \<Rightarrow> byte list \<Rightarrow> tcp_connection \<Rightarrow> tcp_connection result" where
  "sendInLoop net in_loop message c0 = in_loop_thread in_loop
     (let c = c0\<lparr>accepted := accepted c0 @ message\<rparr>;
          (nwrote, c1) =
            (if \<not> isWriting (chan c) \<and> readableBytes (outputBuffer c) = 0 then
               (let (n, c') = do_write net message c in
                if 0 \<le> n then
                  (n, if nat n < length message then c'
                      else if writeCompleteCallback c' then queue_functor WriteComplete c' else c')
                else (0, c'))
             else (0, c))
      in require (0 \<le> nwrote) (AssertionFailed ''nwrote >= 0'')
        (if nat nwrote < length message then
           and_then (append (drop (nat nwrote) message) (outputBuffer c1)) (\<lambda>ob.
             let c2 = c1\<lparr>outputBuffer := ob\<rparr>
             in Inr (if \<not> isWriting (chan c2) then update_chan enableWriting c2 else c2))
         else Inr c1))"

definition shutdownInLoop :: "bool \<Rightarrow> tcp_connection \<Rightarrow> tcp_connection result" where
  "shutdownInLoop in_loop c = in_loop_thread in_loop
     (Inr (if \<not> isWriting (chan c) then c\<lparr>fin := True\<rparr> else c))"

definition send :: "net \<Rightarrow> bool \<Rightarrow> byte list \<Rightarrow> tcp_connection \<Rightarrow> tcp_connection result" where
  "send net in_loop message c =
     (if state c = kConnected then
        if in_loop then sendInLoop net in_loop message c
        else Inr (queue_functor (SendInLoop message) c)
      else Inr c)"

definition shutdown :: "bool \<Rightarrow> tcp_connection \<Rightarrow> tcp_connection result" where
  "shutdown in_loop c =
     (if state c = kConnected then
        (let c' = c\<lparr>state := kDisconnecting\<rparr>
         in if in_loop then shutdownInLoop in_loop c' else Inr (queue_functor ShutdownInLoop c'))
      else Inr c)"

subsection \<open>User callbacks\<close>

fun user_step :: "net \<Rightarrow> user_call \<Rightarrow> tcp_connection \<Rightarrow> tcp_connection result" where
  "user_step net (Send m) c = send net True m c"
| "user_step net Shutdown c = shutdown True c"
| "user_step net (RetrieveInput n) c =
     and_then (retrieve (min n (readableBytes (inputBuffer c))) (inputBuffer c))
       (\<lambda>b. Inr (c\<lparr>inputBuffer := b\<rparr>))"

definition call_user :: "net \<Rightarrow> user_code \<Rightarrow> callback_kind \<Rightarrow> tcp_connection \<Rightarrow> tcp_connection result" where
  "call_user net ucode kind c =
     for_each (user_step net) (ucode kind c) (c\<lparr>effects := effects c @ [UserCallback kind (connected c)]\<rparr>)"

subsection \<open>Establishing and destroying\<close>

definition connectEstablished :: "net \<Rightarrow> user_code \<Rightarrow> bool \<Rightarrow> tcp_connection \<Rightarrow> tcp_connection result" where
  "connectEstablished net ucode in_loop c = in_loop_thread in_loop
    (require (state c = kConnecting) (AssertionFailed ''state_ == kConnecting'')
    (let c1 = c\<lparr>state := kConnected\<rparr> in
     require (connected c1) (AssertionFailed ''connected()'')
       (call_user net ucode ConnectionCallback (update_chan enableReading c1))))"

definition connectDestroyed :: "net \<Rightarrow> user_code \<Rightarrow> bool \<Rightarrow> tcp_connection \<Rightarrow> tcp_connection result" where
  "connectDestroyed net ucode in_loop c = in_loop_thread in_loop
    (require (state c = kConnected \<or> state c = kDisconnecting)
       (AssertionFailed ''state_ == kConnected || state_ == kDisconnecting'')
    (let c1 = update_chan disableAll (c\<lparr>state := kDisconnected, down := True\<rparr>) in
     and_then (call_user net ucode ConnectionCallback c1) (\<lambda>c2.
       Inr (c2\<lparr>effects := effects c2 @ [RemoveChannel]\<rparr>))))"

subsection \<open>Event handlers\<close>

definition handleClose :: "bool \<Rightarrow> tcp_connection \<Rightarrow> tcp_connection result" where
  "handleClose in_loop c = in_loop_thread in_loop
    (require (state c = kConnected \<or> state c = kDisconnecting)
       (AssertionFailed ''state_ == kConnected || state_ == kDisconnecting'')
    (let c1 = update_chan disableAll (c\<lparr>down := True\<rparr>)
     in Inr (c1\<lparr>effects := effects c1 @ [CloseCallback]\<rparr>)))"

text \<open>\<open>handleError\<close> reads and logs the pending error of the socket.\<close>

definition handleError :: "tcp_connection \<Rightarrow> tcp_connection result" where
  "handleError c = Inr c"

definition handleRead :: "net \<Rightarrow> user_code \<Rightarrow> tcp_connection \<Rightarrow> tcp_connection result" where
  "handleRead net ucode c =
     and_then (readFd (sys_readv net (syscalls c)) (inputBuffer c)) (\<lambda>(n, savedError, ib).
       let c1 = c\<lparr>inputBuffer := ib, syscalls := Suc (syscalls c),
                 received := received c @ drop (readableBytes (inputBuffer c)) (readable ib)\<rparr> in
       if 0 < n then call_user net ucode MessageCallback c1
       else if n = 0 then handleClose True c1
       else handleError c1)"

definition handleWrite :: "net \<Rightarrow> bool \<Rightarrow> tcp_connection \<Rightarrow> tcp_connection result" where
  "handleWrite net in_loop c = in_loop_thread in_loop
     (if isWriting (chan c) then
        (let (n, c1) = do_write net (readable (outputBuffer c)) c in
         if 0 < n then
           and_then (retrieve (nat n) (outputBuffer c1)) (\<lambda>ob.
             let c2 = c1\<lparr>outputBuffer := ob\<rparr> in
             if readableBytes (outputBuffer c2) = 0 then
               (let c3 = update_chan disableWriting c2;
                    c4 = (if writeCompleteCallback c3 then queue_functor WriteComplete c3 else c3)
                in if state c4 = kDisconnecting then shutdownInLoop True c4 else Inr c4)
             else Inr c2)
         else Inr c1)
      else Inr c)"

fun conn_handler :: "net \<Rightarrow> user_code \<Rightarrow> event_call \<Rightarrow> tcp_connection \<Rightarrow> tcp_connection result" where
  "conn_handler net ucode ReadCall c = handleRead net ucode c"
| "conn_handler net ucode WriteCall c = handleWrite net True c"
| "conn_handler net ucode CloseCall c = handleClose True c"
| "conn_handler net ucode ErrorCall c = handleError c"

definition conn_event :: "net \<Rightarrow> user_code \<Rightarrow> event_mask \<Rightarrow> tcp_connection \<Rightarrow> tcp_connection result" where
  "conn_event net ucode revt c =
     handleEvent chan (\<lambda>ch s. s\<lparr>chan := ch\<rparr>) (conn_handler net ucode) (c\<lparr>chan := set_revents revt (chan c)\<rparr>)"

text \<open>The functors a connection gives to its loop.\<close>

fun run_functor :: "net \<Rightarrow> user_code \<Rightarrow> conn_functor \<Rightarrow> tcp_connection \<Rightarrow> tcp_connection result" where
  "run_functor net ucode (SendInLoop m) c = sendInLoop net True m c"
| "run_functor net ucode ShutdownInLoop c = shutdownInLoop True c"
| "run_functor net ucode WriteComplete c = call_user net ucode WriteCompleteCallback c"
| "run_functor net ucode ConnectEstablished c = connectEstablished net ucode True c"
| "run_functor net ucode ConnectDestroyed c = connectDestroyed net ucode True c"


subsection \<open>The invariant of a connection\<close>

text \<open>
  Every byte accepted is on the wire or in the output buffer, in order; the channel waits for
  writability exactly while the output buffer holds bytes, as long as the connection is not closed.
\<close>

definition conn_inv :: "tcp_connection \<Rightarrow> bool" where
  "conn_inv c \<longleftrightarrow> wf_buffer (inputBuffer c) \<and> wf_buffer (outputBuffer c) \<and>
     wire c @ readable (outputBuffer c) = accepted c \<and>
     (isWriting (chan c) \<longrightarrow> readable (outputBuffer c) \<noteq> []) \<and>
     (\<not> down c \<longrightarrow> readable (outputBuffer c) \<noteq> [] \<longrightarrow> isWriting (chan c))"

text \<open>What \<open>write(2)\<close> documents of its result.\<close>

definition write_ok :: "net \<Rightarrow> bool" where
  "write_ok net \<longleftrightarrow> (\<forall>k data. -1 \<le> sys_write net k data \<and> sys_write net k data \<le> int (length data))"

lemma conn_inv_new: "conn_inv (new_connection l sockfd wcc)"
  by (simp add: conn_inv_def new_connection_def isWriting_bit new_channel_def)

lemma isWriting_handing [simp]:
  "isWriting (ch\<lparr>eventHanding := b\<rparr>) = isWriting ch" "isWriting (set_revents r ch) = isWriting ch"
  by (simp_all add: isWriting_def set_revents_def)

lemma writeCallback_updates [simp]:
  "writeCallback (disableWriting ch) = writeCallback ch" "writeCallback (enableWriting ch) = writeCallback ch"
  "writeCallback (disableAll ch) = writeCallback ch" "writeCallback (enableReading ch) = writeCallback ch"
  by (simp_all add: disableWriting_def enableWriting_def disableAll_def enableReading_def)

lemma readableBytes_eq_0: "wf_buffer b \<Longrightarrow> readableBytes b = 0 \<longleftrightarrow> readable b = []"
  by (simp add: readableBytes_wf)

lemma take_write:
  "wf_buffer b \<Longrightarrow> xs @ readable b = zs \<Longrightarrow> xs @ take n (readable b) @ drop n (readable b) = zs"
  by simp

text \<open>The fields that sending leaves alone.\<close>

definition same_phase :: "tcp_connection \<Rightarrow> tcp_connection \<Rightarrow> bool" where
  "same_phase c c' \<longleftrightarrow> state c' = state c \<and> fin c' = fin c \<and> down c' = down c \<and>
     inputBuffer c' = inputBuffer c \<and> writeCompleteCallback c' = writeCompleteCallback c"

lemma sendInLoop_ok:
  assumes inv: "conn_inv c" and w: "write_ok net"
  shows "\<exists>c'. sendInLoop net True m c = Inr c' \<and> conn_inv c' \<and> same_phase c c' \<and>
    accepted c' = accepted c @ m \<and> set (toLoop c') \<subseteq> insert WriteComplete (set (toLoop c)) \<and>
    count_list (effects c') CloseCallback = count_list (effects c) CloseCallback"
proof -
  let ?ob = "outputBuffer c"
  have wf: "wf_buffer ?ob" and acc: "wire c @ readable ?ob = accepted c" using inv by (simp_all add: conn_inv_def)
  define n where "n = sys_write net (syscalls c) m"
  have n: "-1 \<le> n" "n \<le> int (length m)" using w by (simp_all add: write_ok_def n_def)
  show ?thesis
  proof (cases "\<not> isWriting (chan c) \<and> readable ?ob = []")
    case False
    then have dir: "\<not> (\<not> isWriting (chan c) \<and> readableBytes ?ob = 0)" using wf by (simp add: readableBytes_eq_0)
    obtain ob where ob: "append m ?ob = Inr ob" "wf_buffer ob" "readable ob = readable ?ob @ m"
      using append_ok [OF wf, of m] by blast
    show ?thesis
    proof (cases "m = []")
      case True
      then have "sendInLoop net True m c = Inr c"
        using dir by (cases "isWriting (chan c)") (simp_all add: sendInLoop_def in_loop_thread_def Let_def)
      then show ?thesis using inv True by (auto simp: same_phase_def)
    next
      case ne: False
      let ?c2 = "c\<lparr>accepted := accepted c @ m, outputBuffer := ob\<rparr>"
      have "sendInLoop net True m c = Inr (if \<not> isWriting (chan c) then update_chan enableWriting ?c2 else ?c2)"
        using dir ne ob(1)
        by (cases "isWriting (chan c)") (simp_all add: sendInLoop_def in_loop_thread_def Let_def)
      then show ?thesis using inv ob ne acc
        by (auto simp: conn_inv_def same_phase_def update_chan_def)
    qed
  next
    case True
    then have dir: "\<not> isWriting (chan c) \<and> readableBytes ?ob = 0" using wf by (simp add: readableBytes_eq_0)
    define k where "k = (if 0 \<le> n then nat n else 0)"
    have k: "k \<le> length m" "take (nat n) m = take k m" using n by (auto simp: k_def)
    let ?c1 = "c\<lparr>accepted := accepted c @ m, syscalls := Suc (syscalls c), wire := wire c @ take k m\<rparr>"
    have dw: "do_write net m (c\<lparr>accepted := accepted c @ m\<rparr>) = (n, ?c1)"
      by (simp add: do_write_def n_def [symmetric] k(2) Let_def)
    have kn: "nat n = k" if "0 \<le> n" using that by (simp add: k_def)
    have k0: "k = 0" if "\<not> 0 \<le> n" using that by (simp add: k_def)
    show ?thesis
    proof (cases "k < length m")
      case more: True
      obtain ob where ob: "append (drop k m) ?ob = Inr ob" "wf_buffer ob" "readable ob = readable ?ob @ drop k m"
        using append_ok [OF wf, of "drop k m"] by blast
      have "sendInLoop net True m c = Inr (update_chan enableWriting (?c1\<lparr>outputBuffer := ob\<rparr>))"
        using dir ob(1) more kn k0 dw
        by (cases "0 \<le> n") (simp_all add: sendInLoop_def in_loop_thread_def)
      moreover have "conn_inv (update_chan enableWriting (?c1\<lparr>outputBuffer := ob\<rparr>))"
        using inv ob acc True more by (simp add: conn_inv_def update_chan_def)
      ultimately show ?thesis
        by (simp add: same_phase_def update_chan_def subset_insertI)
    next
      case all: False
      then have kl: "k = length m" using k by simp
      let ?c2 = "if writeCompleteCallback c \<and> 0 \<le> n then queue_functor WriteComplete ?c1 else ?c1"
      have "sendInLoop net True m c = Inr ?c2"
        using dir kl kn k0 dw
        by (cases "0 \<le> n") (simp_all add: sendInLoop_def in_loop_thread_def)
      then show ?thesis using inv acc True kl
        by (auto simp: conn_inv_def same_phase_def queue_functor_def)
    qed
  qed
qed


text \<open>
  \<open>fin_inv\<close>: once the write side is shut down, \<open>send\<close> is refused and nothing was left behind.
  \<open>progress\<close> is what any code of the loop's thread does to a connection short of closing it.
\<close>

definition fin_inv :: "tcp_connection \<Rightarrow> bool" where
  "fin_inv c \<longleftrightarrow> (fin c \<longrightarrow> state c \<noteq> kConnecting \<and> state c \<noteq> kConnected \<and> (\<not> down c \<longrightarrow> wire c = accepted c))"

definition progress :: "tcp_connection \<Rightarrow> tcp_connection \<Rightarrow> bool" where
  "progress c c' \<longleftrightarrow> down c' = down c \<and>
     (state c' = state c \<or> state c = kConnected \<and> state c' = kDisconnecting) \<and>
     (\<exists>ms. accepted c' = accepted c @ ms) \<and> set (toLoop c') \<subseteq> insert WriteComplete (set (toLoop c)) \<and>
     count_list (effects c') CloseCallback = count_list (effects c) CloseCallback \<and>
     (fin_inv c \<longrightarrow> fin_inv c')"

lemma progress_refl [simp]: "progress c c"
  by (auto simp: progress_def)

lemma progress_trans: "progress c c1 \<Longrightarrow> progress c1 c2 \<Longrightarrow> progress c c2"
  unfolding progress_def by (elim conjE exE) (intro conjI; auto)

lemma drained:
  assumes "conn_inv c" and "\<not> isWriting (chan c)" and "\<not> down c"
  shows "wire c = accepted c"
  using assms by (auto simp: conn_inv_def)

lemma shutdownInLoop_ok:
  assumes "conn_inv c" and "state c \<noteq> kConnecting" "state c \<noteq> kConnected"
  shows "\<exists>c'. shutdownInLoop True c = Inr c' \<and> conn_inv c' \<and> progress c c' \<and>
    state c' = state c \<and> (\<not> isWriting (chan c) \<longrightarrow> fin c')"
proof (cases "isWriting (chan c)")
  case True
  then show ?thesis using assms by (simp add: shutdownInLoop_def in_loop_thread_def)
next
  case False
  let ?c = "c\<lparr>fin := True\<rparr>"
  have "progress c ?c" using assms drained [OF assms(1) False]
    by (simp add: progress_def fin_inv_def subset_insertI)
  moreover have "conn_inv ?c" using assms(1) by (simp add: conn_inv_def)
  ultimately show ?thesis using False by (simp add: shutdownInLoop_def in_loop_thread_def)
qed

lemma send_ok:
  assumes inv: "conn_inv c" and w: "write_ok net"
  shows "\<exists>c'. send net True m c = Inr c' \<and> conn_inv c' \<and> progress c c'"
proof (cases "state c = kConnected")
  case True
  with sendInLoop_ok [OF assms, of m] show ?thesis
    by (auto simp: send_def progress_def same_phase_def fin_inv_def)
next
  case False
  then show ?thesis using inv by (simp add: send_def)
qed

lemma shutdown_ok:
  assumes inv: "conn_inv c"
  shows "\<exists>c'. shutdown True c = Inr c' \<and> conn_inv c' \<and> progress c c'"
proof (cases "state c = kConnected")
  case True
  let ?c = "c\<lparr>state := kDisconnecting\<rparr>"
  have "conn_inv ?c" using inv by (simp add: conn_inv_def)
  moreover have "progress c ?c" using True by (auto simp: progress_def fin_inv_def)
  ultimately show ?thesis
    using shutdownInLoop_ok [of ?c] progress_trans True by (auto simp: shutdown_def)
next
  case False
  then show ?thesis using inv by (simp add: shutdown_def)
qed

lemma user_step_ok:
  assumes inv: "conn_inv c" and w: "write_ok net"
  shows "\<exists>c'. user_step net u c = Inr c' \<and> conn_inv c' \<and> progress c c'"
proof (cases u)
  case (RetrieveInput n)
  have wf: "wf_buffer (inputBuffer c)" using inv by (simp add: conn_inv_def)
  have "min n (readableBytes (inputBuffer c)) \<le> length (readable (inputBuffer c))"
    using wf by (simp add: readableBytes_wf)
  from retrieve_ok [OF wf this] obtain b where
    b: "retrieve (min n (readableBytes (inputBuffer c))) (inputBuffer c) = Inr b" "wf_buffer b" by blast
  have "progress c (c\<lparr>inputBuffer := b\<rparr>)" by (auto simp: progress_def fin_inv_def)
  moreover have "conn_inv (c\<lparr>inputBuffer := b\<rparr>)" using inv b(2) by (simp add: conn_inv_def)
  ultimately show ?thesis using RetrieveInput b(1) by simp
qed (use send_ok [OF assms] shutdown_ok [OF inv] in auto)

lemma call_user_ok:
  assumes inv: "conn_inv c" and w: "write_ok net"
  shows "\<exists>c'. call_user net ucode kind c = Inr c' \<and> conn_inv c' \<and> progress c c'"
  unfolding call_user_def
proof (rule for_each_invariant [where P = "\<lambda>s. conn_inv s \<and> progress c s"])
  let ?c = "c\<lparr>effects := effects c @ [UserCallback kind (connected c)]\<rparr>"
  show "conn_inv ?c \<and> progress c ?c" using inv by (simp add: conn_inv_def progress_def fin_inv_def subset_insertI)
  fix u s
  assume "conn_inv s \<and> progress c s"
  then show "\<exists>s'. user_step net u s = Inr s' \<and> conn_inv s' \<and> progress c s'"
    using user_step_ok [OF _ w, of s u] progress_trans by blast
qed

subsection \<open>Handlers\<close>

lemma events_new: "\<not> isWriting ch \<Longrightarrow> \<not> isWriting (enableReading ch)"
  by simp

lemma connectEstablished_ok:
  assumes inv: "conn_inv c" and w: "write_ok net" and st: "state c = kConnecting" and "\<not> fin c"
  shows "\<exists>c'. connectEstablished net ucode True c = Inr c' \<and> conn_inv c' \<and>
    (state c' = kConnected \<or> state c' = kDisconnecting) \<and> down c' = down c \<and> fin_inv c' \<and>
    set (toLoop c') \<subseteq> insert WriteComplete (set (toLoop c)) \<and>
    count_list (effects c') CloseCallback = count_list (effects c) CloseCallback"
proof -
  let ?c = "update_chan enableReading (c\<lparr>state := kConnected\<rparr>)"
  have i: "conn_inv ?c" using inv by (simp add: conn_inv_def update_chan_def)
  have "fin_inv ?c" using assms(4) by (simp add: fin_inv_def update_chan_def)
  with call_user_ok [OF i w, of ucode ConnectionCallback] st show ?thesis
    by (auto simp: connectEstablished_def in_loop_thread_def connected_def progress_def update_chan_def)
qed

text \<open>Once the phase is past \<open>kConnected\<close>, user code can change only the input buffer.\<close>

definition quiet :: "tcp_connection \<Rightarrow> tcp_connection \<Rightarrow> bool" where
  "quiet c c' \<longleftrightarrow> (\<exists>b es. c' = c\<lparr>inputBuffer := b, effects := effects c @ es\<rparr> \<and>
     (\<forall>e \<in> set es. \<exists>kind u. e = UserCallback kind u))"

lemma user_step_quiet:
  assumes inv: "conn_inv c" and st: "state c \<noteq> kConnected"
  shows "\<exists>c'. user_step net u c = Inr c' \<and> conn_inv c' \<and> quiet c c'"
proof (cases u)
  case (RetrieveInput n)
  have wf: "wf_buffer (inputBuffer c)" using inv by (simp add: conn_inv_def)
  have "min n (readableBytes (inputBuffer c)) \<le> length (readable (inputBuffer c))"
    using wf by (simp add: readableBytes_wf)
  from retrieve_ok [OF wf this] obtain b where
    b: "retrieve (min n (readableBytes (inputBuffer c))) (inputBuffer c) = Inr b" "wf_buffer b" by blast
  have "quiet c (c\<lparr>inputBuffer := b\<rparr>)" unfolding quiet_def by (intro exI [of _ b] exI [of _ "[]"]) simp
  moreover have "conn_inv (c\<lparr>inputBuffer := b\<rparr>)" using inv b(2) by (simp add: conn_inv_def)
  ultimately show ?thesis using RetrieveInput b(1) by simp
next
  case (Send m)
  have "quiet c c" unfolding quiet_def by (intro exI [of _ "inputBuffer c"] exI [of _ "[]"]) simp
  then show ?thesis using Send inv st by (simp add: send_def)
next
  case Shutdown
  have "quiet c c" unfolding quiet_def by (intro exI [of _ "inputBuffer c"] exI [of _ "[]"]) simp
  then show ?thesis using Shutdown inv st by (simp add: shutdown_def)
qed

lemma quiet_trans: "quiet c c1 \<Longrightarrow> quiet c1 c2 \<Longrightarrow> quiet c c2"
  unfolding quiet_def by fastforce

lemma call_user_quiet:
  assumes inv: "conn_inv c" and st: "state c \<noteq> kConnected"
  shows "\<exists>c'. call_user net ucode kind c = Inr c' \<and> conn_inv c' \<and> quiet c c'"
  unfolding call_user_def
proof (rule for_each_invariant [where P = "\<lambda>s. conn_inv s \<and> quiet c s"])
  let ?c = "c\<lparr>effects := effects c @ [UserCallback kind (connected c)]\<rparr>"
  have "quiet c ?c" unfolding quiet_def
    by (intro exI [of _ "inputBuffer c"] exI [of _ "[UserCallback kind (connected c)]"]) simp
  then show "conn_inv ?c \<and> quiet c ?c" using inv by (simp add: conn_inv_def)
  fix u s
  assume s: "conn_inv s \<and> quiet c s"
  then have "state s \<noteq> kConnected" using st by (auto simp: quiet_def)
  with s show "\<exists>s'. user_step net u s = Inr s' \<and> conn_inv s' \<and> quiet c s'"
    using user_step_quiet [of s net u] quiet_trans by blast
qed

lemma quiet_fields:
  assumes "quiet c c'"
  shows "state c' = state c" "chan c' = chan c" "outputBuffer c' = outputBuffer c" "toLoop c' = toLoop c"
    "wire c' = wire c" "fin c' = fin c" "down c' = down c" "accepted c' = accepted c"
    "count_list (effects c') CloseCallback = count_list (effects c) CloseCallback"
  using assms by (auto simp: quiet_def count_list_0_iff)

lemma connectDestroyed_ok:
  assumes inv: "conn_inv c" and st: "state c = kConnected \<or> state c = kDisconnecting"
  shows "\<exists>c'. connectDestroyed net ucode True c = Inr c' \<and> conn_inv c' \<and> state c' = kDisconnected \<and>
    down c' \<and> toLoop c' = toLoop c \<and> count_list (effects c') CloseCallback = count_list (effects c) CloseCallback"
proof -
  let ?c = "update_chan disableAll (c\<lparr>state := kDisconnected, down := True\<rparr>)"
  have i: "conn_inv ?c" using inv by (simp add: conn_inv_def update_chan_def)
  have "state ?c \<noteq> kConnected" by (simp add: update_chan_def)
  from call_user_quiet [OF i this, of net ucode ConnectionCallback] obtain c2 where
    c2: "call_user net ucode ConnectionCallback ?c = Inr c2" "conn_inv c2" "quiet ?c c2" by blast
  then show ?thesis using st quiet_fields [OF c2(3)]
    by (simp add: connectDestroyed_def in_loop_thread_def conn_inv_def update_chan_def)
qed

lemma handleClose_ok:
  assumes inv: "conn_inv c" and st: "state c = kConnected \<or> state c = kDisconnecting"
  shows "\<exists>c'. handleClose True c = Inr c' \<and> conn_inv c' \<and> state c' = state c \<and> down c' \<and>
    toLoop c' = toLoop c \<and> accepted c' = accepted c \<and> \<not> isWriting (chan c') \<and>
    count_list (effects c') CloseCallback = Suc (count_list (effects c) CloseCallback) \<and>
    (fin_inv c \<longrightarrow> fin_inv c')"
  using assms by (auto simp: handleClose_def in_loop_thread_def conn_inv_def update_chan_def fin_inv_def)

lemma handleWrite_ok:
  assumes inv: "conn_inv c" and w: "write_ok net"
  shows "\<exists>c'. handleWrite net True c = Inr c' \<and> conn_inv c' \<and> progress c c' \<and> state c' = state c \<and>
    accepted c' = accepted c \<and>
    (state c = kDisconnecting \<longrightarrow> isWriting (chan c) \<longrightarrow> readable (outputBuffer c') = [] \<longrightarrow> fin c') \<and>
    (\<not> isWriting (chan c) \<longrightarrow> c' = c) \<and>
    (isWriting (chan c) \<longrightarrow> readable (outputBuffer c')
      = drop (nat (sys_write net (syscalls c) (readable (outputBuffer c)))) (readable (outputBuffer c))) \<and>
    (readable (outputBuffer c') \<noteq> [] \<longrightarrow> fin c' = fin c) \<and>
    writeCallback (chan c') = writeCallback (chan c)"
proof (cases "isWriting (chan c)")
  case False
  then show ?thesis using inv by (auto simp: handleWrite_def in_loop_thread_def)
next
  case True
  let ?ob = "outputBuffer c"
  have wf: "wf_buffer ?ob" and acc: "wire c @ readable ?ob = accepted c" and ne: "readable ?ob \<noteq> []"
    using inv True by (simp_all add: conn_inv_def)
  define n where "n = sys_write net (syscalls c) (readable ?ob)"
  have n: "-1 \<le> n" "n \<le> int (length (readable ?ob))" using w by (simp_all add: write_ok_def n_def)
  let ?c1 = "c\<lparr>syscalls := Suc (syscalls c), wire := wire c @ take (nat n) (readable ?ob)\<rparr>"
  show ?thesis
  proof (cases "0 < n")
    case False
    then have "handleWrite net True c = Inr ?c1"
      using True by (simp add: handleWrite_def in_loop_thread_def do_write_def n_def [symmetric] Let_def)
    moreover have "progress c ?c1" "conn_inv ?c1" using inv False
      by (auto simp: conn_inv_def progress_def fin_inv_def)
    ultimately show ?thesis using False True ne by (intro exI [of _ ?c1]) (simp add: n_def [symmetric])
  next
    case pos: True
    have "nat n \<le> length (readable ?ob)" using n pos by simp
    from retrieve_ok [OF wf this] obtain ob where
      ob: "retrieve (nat n) ?ob = Inr ob" "wf_buffer ob" "readable ob = drop (nat n) (readable ?ob)" by blast
    let ?c2 = "?c1\<lparr>outputBuffer := ob\<rparr>"
    show ?thesis
    proof (cases "readable ob = []")
      case False
      then have "handleWrite net True c = Inr ?c2"
        using True pos ob(1,2)
        by (simp add: handleWrite_def in_loop_thread_def do_write_def n_def [symmetric] Let_def readableBytes_eq_0)
      moreover have "progress c ?c2" "conn_inv ?c2" using inv False ob acc True
        by (auto simp: conn_inv_def progress_def fin_inv_def)
      ultimately show ?thesis using False True ob(3) by (intro exI [of _ ?c2]) (simp add: n_def [symmetric])
    next
      case empty: True
      let ?c3 = "update_chan disableWriting ?c2"
      let ?c4 = "if writeCompleteCallback c then queue_functor WriteComplete ?c3 else ?c3"
      have all: "wire c @ take (nat n) (readable ?ob) = accepted c" using ob(3) empty acc by simp
      have inv4: "conn_inv ?c4" "progress c ?c4" "state ?c4 = state c" "accepted ?c4 = accepted c"
          "\<not> isWriting (chan ?c4)" "outputBuffer ?c4 = ob" "writeCallback (chan ?c4) = writeCallback (chan c)"
        using inv ob empty all
        by (auto simp: conn_inv_def progress_def fin_inv_def update_chan_def queue_functor_def)
      have h: "handleWrite net True c = (if state ?c4 = kDisconnecting then shutdownInLoop True ?c4 else Inr ?c4)"
        using True pos ob(1,2) empty
        by (simp add: handleWrite_def in_loop_thread_def do_write_def n_def [symmetric] Let_def
            readableBytes_eq_0 update_chan_def)
      show ?thesis
      proof (cases "state c = kDisconnecting")
        case False
        then show ?thesis using h inv4 ob(3) empty True by (intro exI [of _ ?c4]) (simp add: n_def [symmetric])
      next
        case dis: True
        from shutdownInLoop_ok [OF inv4(1)] inv4 dis obtain c5 where c5:
          "shutdownInLoop True ?c4 = Inr c5" "conn_inv c5" "progress ?c4 c5" "state c5 = state c" "fin c5"
          by auto
        then have "accepted c5 = accepted c" "outputBuffer c5 = ob"
            "writeCallback (chan c5) = writeCallback (chan c)" using inv4(4-7)
          by (auto simp: shutdownInLoop_def in_loop_thread_def split: if_splits)
        then show ?thesis using h inv4(3) dis True empty ob(3) c5 progress_trans [OF inv4(2) c5(3)]
          by (intro exI [of _ c5]) (simp add: n_def [symmetric])
      qed
    qed
  qed
qed

end
