(* ===== verification/ConnectionLoop.thy ===== *)
theory ConnectionLoop
  imports TcpConnection
begin

section \<open>A connection in its loop\<close>

text \<open>
  The events the poller reports on a connection, the functors its loop runs and what other threads
  do to it, put together: an established connection is a \<open>loop_client\<close>. The masks a poll reports are
  arbitrary. With those of \<open>ordinary\<close> no assertion fails; with the others \<open>handleEvent\<close> may close
  the connection twice, and \<open>hangup_closes_twice\<close> shows what comes of it. The upper layer
  (\<open>TcpServer\<close> or \<open>TcpClient\<close>) answers the close callback by having the loop run \<open>connectDestroyed\<close>.
\<close>

subsection \<open>One event\<close>

text \<open>
  \<open>handleEvent\<close> asks for the close callback on a hangup without \<open>POLLIN\<close> and for the read callback on
  \<open>POLLIN\<close>, \<open>POLLPRI\<close> or \<open>POLLRDHUP\<close>. A mask is \<open>ordinary\<close> if it asks for at most one of the two. The others
  are hangups without \<open>POLLIN\<close> but with \<open>POLLPRI\<close>, which a reading channel asks for, or \<open>POLLRDHUP\<close>: the
  documentation of \<open>poll\<close> allows them, so a theorem that excludes them has \<open>ordinary\<close> among its
  hypotheses. The TCP of Linux does not produce them, as it reports a hangup with \<open>POLLIN\<close>.
\<close>

definition ordinary :: "event_mask \<Rightarrow> bool" where
  "ordinary revt \<longleftrightarrow> (revt AND POLLHUP \<noteq> 0 \<and> revt AND POLLIN = 0 \<longrightarrow>
     revt AND (POLLIN OR POLLPRI OR POLLRDHUP) = 0)"

text \<open>
  \<open>mid c s\<close>: what has become of an open, established connection \<open>c\<close> while an event is handled. The
  close callback was invoked once if the connection is now down, and not at all otherwise.
\<close>

definition mid :: "tcp_connection \<Rightarrow> tcp_connection \<Rightarrow> bool" where
  "mid c s \<longleftrightarrow> conn_inv s \<and> (state s = kConnected \<or> state s = kDisconnecting) \<and>
     (state c = kDisconnecting \<longrightarrow> state s = kDisconnecting) \<and>
     (fin_inv c \<longrightarrow> fin_inv s) \<and> set (toLoop s) \<subseteq> insert WriteComplete (set (toLoop c)) \<and>
     (\<exists>ms. accepted s = accepted c @ ms) \<and>
     count_list (effects s) CloseCallback = count_list (effects c) CloseCallback + (if down s then 1 else 0)"

lemma mid_progress:
  assumes "mid c s" and "conn_inv s'" and "progress s s'"
  shows "mid c s'" and "down s' = down s"
proof -
  show "down s' = down s" using assms(3) by (simp add: progress_def)
  have "set (toLoop s') \<subseteq> insert WriteComplete (set (toLoop c))"
    using assms(1,3) unfolding mid_def progress_def by blast
  moreover have "\<exists>ms. accepted s' = accepted c @ ms"
    using assms(1,3) unfolding mid_def progress_def by fastforce
  ultimately show "mid c s'" using assms unfolding mid_def progress_def by auto
qed

lemma handleClose_mid:
  assumes "mid c s" and "\<not> down s"
  shows "\<exists>s'. handleClose True s = Inr s' \<and> mid c s'"
proof -
  have "conn_inv s" "state s = kConnected \<or> state s = kDisconnecting" using assms(1) by (simp_all add: mid_def)
  from handleClose_ok [OF this] obtain s' where s': "handleClose True s = Inr s'" "conn_inv s'" "state s' = state s"
      "down s'" "toLoop s' = toLoop s" "accepted s' = accepted s" "fin_inv s \<longrightarrow> fin_inv s'"
      "count_list (effects s') CloseCallback = Suc (count_list (effects s) CloseCallback)" by blast
  then have "mid c s'" using assms by (simp add: mid_def)
  with s'(1) show ?thesis by blast
qed

lemma handleRead_mid:
  assumes m: "mid c s" and "\<not> down s" and w: "write_ok net"
  shows "\<exists>s'. handleRead net ucode s = Inr s' \<and> mid c s'"
proof -
  have inv: "conn_inv s" using m by (simp add: mid_def)
  then have wf: "wf_buffer (inputBuffer s)" by (simp add: conn_inv_def)
  let ?rv = "sys_readv net (syscalls s)"
  let ?areas = "[writableBytes (inputBuffer s), kExtraBuf]"
  have upd: "mid c (s\<lparr>inputBuffer := b, syscalls := Suc (syscalls s), received := rs\<rparr>)" if "wf_buffer b" for b rs
    using m that by (simp add: mid_def conn_inv_def fin_inv_def)
  show ?thesis
  proof (cases "?rv ?areas")
    case (ReadvError err)
    then have "readFd ?rv (inputBuffer s) = Inr (-1, Some err, inputBuffer s)"
      by (simp add: readFd_def Let_def)
    then show ?thesis using upd [OF wf] by (simp add: handleRead_def handleError_def)
  next
    case (ReadvBytes bs)
    from readFd_ok [OF wf, of ?rv, OF this] obtain b where b: "readFd ?rv (inputBuffer s) = Inr (int (length bs), None, b)"
      "wf_buffer b" by blast
    let ?s = "s\<lparr>inputBuffer := b, syscalls := Suc (syscalls s),
        received := received s @ drop (readableBytes (inputBuffer s)) (readable b)\<rparr>"
    have m': "mid c ?s" by (rule upd [OF b(2)])
    show ?thesis
    proof (cases "bs = []")
      case True
      have "\<not> down ?s" using assms(2) by simp
      from handleClose_mid [OF m' this] b True show ?thesis by (simp add: handleRead_def)
    next
      case False
      have "conn_inv ?s" using m' by (simp add: mid_def)
      from call_user_ok [OF this w, of ucode MessageCallback] b False mid_progress(1) [OF m'] show ?thesis
        by (auto simp: handleRead_def)
    qed
  qed
qed

lemma handleWrite_mid:
  assumes m: "mid c s" and w: "write_ok net"
  shows "\<exists>s'. handleWrite net True s = Inr s' \<and> mid c s' \<and> down s' = down s"
proof -
  have "conn_inv s" using m by (simp add: mid_def)
  from handleWrite_ok [OF this w] mid_progress [OF m] show ?thesis by blast
qed

text \<open>The handlers of one event: at most one of them closes the connection.\<close>

lemma handlers_mid:
  assumes m: "mid c s" and d: "\<not> down s" and w: "write_ok net" and o: "ordinary (revents ch)"
  shows "\<exists>s'. for_each (conn_handler net ucode) (event_calls ch) s = Inr s' \<and> mid c s'"
proof -
  define ec where "ec = (if revents ch AND (POLLERR OR POLLNVAL) \<noteq> 0 \<and> errorCallback ch then [ErrorCall] else [])"
  define cc where "cc = (if revents ch AND POLLHUP \<noteq> 0 \<and> revents ch AND POLLIN = 0 \<and> closeCallback ch
      then [CloseCall] else [])"
  define rc where "rc = (if revents ch AND (POLLIN OR POLLPRI OR POLLRDHUP) \<noteq> 0 \<and> readCallback ch then [ReadCall] else [])"
  define wc where "wc = (if revents ch AND POLLOUT \<noteq> 0 \<and> writeCallback ch then [WriteCall] else [])"
  have calls: "event_calls ch = ec @ cc @ rc @ wc"
    by (simp add: event_calls_def ec_def cc_def rc_def wc_def)
  have e: "for_each (conn_handler net ucode) ec s = Inr s"
    by (simp add: ec_def handleError_def)
  have one: "cc = [] \<or> rc = []" using o by (auto simp: cc_def rc_def ordinary_def)
  obtain s1 where s1: "for_each (conn_handler net ucode) (cc @ rc) s = Inr s1" "mid c s1"
  proof (cases "cc = []")
    case True
    show ?thesis
    proof (cases "rc = []")
      case False
      then have "rc = [ReadCall]" by (auto simp: rc_def split: if_splits)
      with True handleRead_mid [OF m d w, of ucode] that show ?thesis by auto
    qed (use True m that in simp)
  next
    case False
    then have "cc = [CloseCall]" "rc = []" using one by (auto simp: cc_def split: if_splits)
    with handleClose_mid [OF m d] that show ?thesis by auto
  qed
  have "\<exists>s'. for_each (conn_handler net ucode) wc s1 = Inr s' \<and> mid c s'"
    using handleWrite_mid [OF s1(2) w] s1(2) by (auto simp: wc_def)
  moreover have "event_calls ch = ec @ (cc @ rc) @ wc" using calls by simp
  ultimately show ?thesis using e s1(1) by (simp only: for_each_append and_then.simps)
qed

lemma mid_chan: "isWriting ch = isWriting (chan s) \<Longrightarrow> mid c (s\<lparr>chan := ch\<rparr>) = mid c s"
  by (simp add: mid_def conn_inv_def fin_inv_def)

lemma conn_event_ok:
  assumes inv: "conn_inv c" and st: "state c = kConnected \<or> state c = kDisconnecting" and d: "\<not> down c"
    and w: "write_ok net" and o: "ordinary revt"
  shows "\<exists>c'. conn_event net ucode revt c = Inr c' \<and> mid c c'"
proof -
  let ?ch = "set_revents revt (chan c)"
  let ?s = "c\<lparr>chan := ?ch\<lparr>eventHanding := True\<rparr>\<rparr>"
  have "mid c c" using inv st d by (auto simp: mid_def)
  then have m: "mid c ?s" by (simp add: mid_chan)
  have "ordinary (revents ?ch)" using o by (simp add: set_revents_def)
  from handlers_mid [OF m _ w this] d obtain s' where
    s': "for_each (conn_handler net ucode) (event_calls ?ch) ?s = Inr s'" "mid c s'" by auto
  then show ?thesis by (simp add: conn_event_def handleEvent_def mid_chan)
qed


subsection \<open>The connection as a client of the loop\<close>

text \<open>
  What a piece of code queued becomes calls on the loop; each close callback becomes a queued
  \<open>connectDestroyed\<close> of the upper layer. The poller reports no event before the connection is
  established and none once its channel is disabled; which masks it reports in between is open.
\<close>

definition settle ::
  "tcp_connection \<Rightarrow> tcp_connection result \<Rightarrow> (tcp_connection \<times> conn_functor call list) result" where
  "settle c r = and_then r (\<lambda>c'. Inr (c'\<lparr>toLoop := []\<rparr>, map QueueCall (toLoop c' @
     replicate (count_list (effects c') CloseCallback - count_list (effects c) CloseCallback) ConnectDestroyed)))"

definition run_conn ::
  "net \<Rightarrow> user_code \<Rightarrow> conn_functor \<Rightarrow> tcp_connection \<Rightarrow> (tcp_connection \<times> conn_functor call list) result" where
  "run_conn net ucode f c = settle c (run_functor net ucode f c)"

definition reported :: "event_mask \<Rightarrow> tcp_connection \<Rightarrow> bool" where
  "reported revt c \<longleftrightarrow> (state c = kConnected \<or> state c = kDisconnecting) \<and> \<not> down c"

definition handle_conn ::
  "net \<Rightarrow> user_code \<Rightarrow> event_mask \<Rightarrow> tcp_connection \<Rightarrow> (tcp_connection \<times> conn_functor call list) result" where
  "handle_conn net ucode revt c =
     (if reported revt c then settle c (conn_event net ucode revt c) else Inr (c, []))"

text \<open>
  \<open>send\<close> and \<open>shutdown\<close> called in another thread. \<open>send\<close> has seen \<open>kConnected\<close> when it queues, and since
  then the loop's thread may have taken the connection to any later phase. \<open>shutdown\<close> also sets
  \<open>state_\<close>, which no lock protects; its test and its assignment are one step here.
\<close>

inductive post_conn :: "tcp_connection \<Rightarrow> conn_functor \<Rightarrow> tcp_connection \<Rightarrow> bool" where
  post_send: "state c \<noteq> kConnecting \<Longrightarrow> post_conn c (SendInLoop m) c"
| post_shutdown: "state c = kConnected \<Longrightarrow> post_conn c ShutdownInLoop (c\<lparr>state := kDisconnecting\<rparr>)"

inductive_cases post_connE: "post_conn c f c'"

text \<open>\<open>connectDestroyed\<close> is pending exactly between the close callback and its run.\<close>

definition client_inv :: "net \<Rightarrow> conn_functor list \<Rightarrow> tcp_connection \<Rightarrow> bool" where
  "client_inv net fs c \<longleftrightarrow> write_ok net \<and> conn_inv c \<and> toLoop c = [] \<and>
     (state c = kConnecting \<longrightarrow> fs = [ConnectEstablished] \<and> \<not> fin c \<and> \<not> down c) \<and>
     (state c \<noteq> kConnecting \<longrightarrow> ConnectEstablished \<notin> set fs) \<and>
     (state c = kConnected \<longrightarrow> ShutdownInLoop \<notin> set fs) \<and>
     (state c = kDisconnected \<longrightarrow> down c) \<and>
     count_list fs ConnectDestroyed = (if down c \<and> state c \<noteq> kDisconnected then 1 else 0)"

lemma queued_by_QueueCall [simp]: "queued_by (map QueueCall fs) = fs"
  by (induction fs) auto

lemma only_WriteComplete:
  assumes "set fs \<subseteq> {WriteComplete}"
  shows "ConnectEstablished \<notin> set fs" "ShutdownInLoop \<notin> set fs" "count_list fs ConnectDestroyed = 0"
  using assms by (auto simp: count_list_0_iff)

lemma count_list_replicate_same [simp]: "count_list (replicate n x) x = n"
  by (induction n) auto

lemma settle_keeps:
  assumes I: "client_inv net (f # fs) c" and r: "r = Inr c'" and inv: "conn_inv c'"
    and st: "state c \<noteq> kConnecting" "state c' = state c \<or> state c = kConnected \<and> state c' = kDisconnecting"
    and d: "down c' = down c" and t: "set (toLoop c') \<subseteq> insert WriteComplete (set (toLoop c))"
    and e: "count_list (effects c') CloseCallback = count_list (effects c) CloseCallback"
    and f: "f \<noteq> ConnectDestroyed" "f = ShutdownInLoop \<Longrightarrow> state c' \<noteq> kConnected"
  shows "returns_or {} (\<lambda>(s, cs). client_inv net (fs @ queued_by cs) s) (settle c r)"
proof -
  have t': "set (toLoop c') \<subseteq> {WriteComplete}" using t I by (simp add: client_inv_def)
  have "conn_inv (c'\<lparr>toLoop := []\<rparr>)" using inv by (simp add: conn_inv_def)
  then show ?thesis
    using I r st d e f only_WriteComplete [OF t']
    by (auto simp: settle_def client_inv_def)
qed

lemma run_conn_ok:
  assumes I: "client_inv net (f # fs) c"
  shows "returns_or {} (\<lambda>(s, cs). client_inv net (fs @ queued_by cs) s) (run_conn net ucode f c)"
proof -
  have w: "write_ok net" and inv: "conn_inv c" and tl: "toLoop c = []" using I by (simp_all add: client_inv_def)
  show ?thesis
  proof (cases "state c = kConnecting")
    case True
    then have f: "f = ConnectEstablished" "fs = []" and "\<not> fin c" "\<not> down c" using I by (simp_all add: client_inv_def)
    from connectEstablished_ok [OF inv w True \<open>\<not> fin c\<close>] obtain c' where
      c': "connectEstablished net ucode True c = Inr c'" "conn_inv c'"
        "state c' = kConnected \<or> state c' = kDisconnecting" "down c' = down c"
        "set (toLoop c') \<subseteq> {WriteComplete}"
        "count_list (effects c') CloseCallback = count_list (effects c) CloseCallback" using tl by auto
    have "conn_inv (c'\<lparr>toLoop := []\<rparr>)" using c'(2) by (simp add: conn_inv_def)
    then show ?thesis using c' f w \<open>\<not> down c\<close> only_WriteComplete [OF c'(5)]
      by (auto simp: run_conn_def settle_def client_inv_def)
  next
    case False
    show ?thesis
    proof (cases f)
      case (SendInLoop m)
      from sendInLoop_ok [OF inv w, of m] obtain c' where "sendInLoop net True m c = Inr c'" "conn_inv c'"
        "same_phase c c'" "set (toLoop c') \<subseteq> insert WriteComplete (set (toLoop c))"
        "count_list (effects c') CloseCallback = count_list (effects c) CloseCallback" by blast
      then show ?thesis using SendInLoop False unfolding run_conn_def
        by (intro settle_keeps [OF I, of _ c']) (simp_all add: same_phase_def)
    next
      case ShutdownInLoop
      then have st: "state c \<noteq> kConnected" using I by (auto simp: client_inv_def)
      from shutdownInLoop_ok [OF inv False st] obtain c' where "shutdownInLoop True c = Inr c'" "conn_inv c'"
        "progress c c'" "state c' = state c" by blast
      then show ?thesis using ShutdownInLoop False st unfolding run_conn_def
        by (intro settle_keeps [OF I, of _ c']) (simp_all add: progress_def)
    next
      case WriteComplete
      from call_user_ok [OF inv w] obtain c' where "call_user net ucode WriteCompleteCallback c = Inr c'"
        "conn_inv c'" "progress c c'" by blast
      then show ?thesis using WriteComplete False unfolding run_conn_def
        by (intro settle_keeps [OF I, of _ c']) (simp_all add: progress_def)
    next
      case ConnectEstablished
      then show ?thesis using I False by (simp add: client_inv_def)
    next
      case ConnectDestroyed
      then have d: "down c" "state c \<noteq> kDisconnected" "count_list fs ConnectDestroyed = 0"
        using I by (auto simp: client_inv_def split: if_splits)
      then have "state c = kConnected \<or> state c = kDisconnecting" using False by (cases "state c") simp_all
      from connectDestroyed_ok [OF inv this, of net ucode] obtain c' where
        c': "connectDestroyed net ucode True c = Inr c'" "conn_inv c'" "state c' = kDisconnected" "down c'"
          "toLoop c' = toLoop c" "count_list (effects c') CloseCallback = count_list (effects c) CloseCallback" by blast
      have "conn_inv (c'\<lparr>toLoop := []\<rparr>)" using c'(2) by (simp add: conn_inv_def)
      then show ?thesis using ConnectDestroyed c' I d(3) False tl
        by (simp add: run_conn_def settle_def client_inv_def)
    qed
  qed
qed

lemma handle_conn_ok:
  assumes o: "ordinary revt" and I: "client_inv net fs c"
  shows "returns_or {} (\<lambda>(s, cs). client_inv net (fs @ queued_by cs) s) (handle_conn net ucode revt c)"
proof (cases "reported revt c")
  case False
  then show ?thesis using I by (simp add: handle_conn_def)
next
  case True
  have w: "write_ok net" and inv: "conn_inv c" and tl: "toLoop c = []" using I by (simp_all add: client_inv_def)
  have r: "state c = kConnected \<or> state c = kDisconnecting" "\<not> down c"
    using True by (simp_all add: reported_def)
  from conn_event_ok [OF inv r(1,2) w o, of ucode] obtain c' where
    c': "conn_event net ucode revt c = Inr c'" "mid c c'" by blast
  have m: "conn_inv c'" "state c' = kConnected \<or> state c' = kDisconnecting"
      "state c = kDisconnecting \<longrightarrow> state c' = kDisconnecting" "set (toLoop c') \<subseteq> {WriteComplete}"
      "count_list (effects c') CloseCallback = count_list (effects c) CloseCallback + (if down c' then 1 else 0)"
    using c'(2) tl by (simp_all add: mid_def)
  have "conn_inv (c'\<lparr>toLoop := []\<rparr>)" using m(1) by (simp add: conn_inv_def)
  moreover have st: "state c \<noteq> kConnecting" "state c \<noteq> kDisconnected" "state c' \<noteq> kConnecting"
      "state c' \<noteq> kDisconnected" "state c' = kConnected \<longrightarrow> state c = kConnected"
    using r(1) m(2,3) by auto
  moreover have "ConnectEstablished \<notin> set fs" "state c = kConnected \<longrightarrow> ShutdownInLoop \<notin> set fs"
      "count_list fs ConnectDestroyed = 0" using I st(1,2) r(2) by (simp_all add: client_inv_def)
  ultimately show ?thesis using True c'(1) m(5) w only_WriteComplete [OF m(4)]
    by (cases "down c'") (simp_all add: handle_conn_def settle_def client_inv_def)
qed

lemma post_conn_ok:
  assumes I: "client_inv net fs c" and p: "post_conn c f c'"
  shows "client_inv net (fs @ [f]) c'"
  using p
proof (rule post_connE)
  fix m
  assume "f = SendInLoop m" "c' = c" "state c \<noteq> kConnecting"
  then show ?thesis using I by (auto simp: client_inv_def)
next
  assume "f = ShutdownInLoop" "c' = c\<lparr>state := kDisconnecting\<rparr>" "state c = kConnected"
  then show ?thesis using I by (auto simp: client_inv_def conn_inv_def)
qed

interpretation conn: loop_client ordinary "client_inv net" "{}" "run_conn net ucode" "handle_conn net ucode" post_conn
  for net ucode
proof
  show "returns_or {} (\<lambda>(s, cs). client_inv net (fs @ queued_by cs) s) (run_conn net ucode f c)"
    if "client_inv net (f # fs) c" for f fs c by (rule run_conn_ok [OF that])
  show "returns_or {} (\<lambda>(s, cs). client_inv net (fs @ queued_by cs) s) (handle_conn net ucode e c)"
    if "ordinary e" "client_inv net fs c" for e fs c by (rule handle_conn_ok [OF that])
  show "client_inv net (fs @ [f]) c'" if "client_inv net fs c" "post_conn c f c'" for f fs c c'
    by (rule post_conn_ok [OF that])
qed


subsection \<open>Any mask\<close>

text \<open>
  Without a promise about the masks the connection may be closed twice by one event, and so destroyed
  twice. What remains of the invariant keeps its bytes.
\<close>

definition open_inv :: "net \<Rightarrow> conn_functor list \<Rightarrow> tcp_connection \<Rightarrow> bool" where
  "open_inv net fs c \<longleftrightarrow> write_ok net \<and> conn_inv c \<and> toLoop c = [] \<and>
     (state c = kConnecting \<longrightarrow> fs = [ConnectEstablished] \<and> \<not> fin c \<and> \<not> down c) \<and>
     (state c \<noteq> kConnecting \<longrightarrow> ConnectEstablished \<notin> set fs) \<and>
     (state c = kConnected \<longrightarrow> ShutdownInLoop \<notin> set fs)"

lemma client_inv_open: "client_inv net fs c \<Longrightarrow> open_inv net fs c"
  by (auto simp: client_inv_def open_inv_def)

definition still :: "tcp_connection \<Rightarrow> tcp_connection \<Rightarrow> bool" where
  "still c s \<longleftrightarrow> conn_inv s \<and> (state s = kConnected \<or> state s = kDisconnecting) \<and>
     (state c = kDisconnecting \<longrightarrow> state s = kDisconnecting) \<and> set (toLoop s) \<subseteq> insert WriteComplete (set (toLoop c))"

lemma still_progress: "still c s \<Longrightarrow> conn_inv s' \<Longrightarrow> progress s s' \<Longrightarrow> still c s'"
  unfolding still_def progress_def by auto

lemma handler_still:
  assumes S: "still c s" and w: "write_ok net"
  shows "\<exists>s'. conn_handler net ucode e s = Inr s' \<and> still c s'"
proof (cases e)
  case CloseCall
  have "conn_inv s" "state s = kConnected \<or> state s = kDisconnecting" using S by (simp_all add: still_def)
  from handleClose_ok [OF this] CloseCall S show ?thesis by (auto simp: still_def)
next
  case WriteCall
  have "conn_inv s" using S by (simp add: still_def)
  from handleWrite_ok [OF this w] still_progress [OF S] WriteCall show ?thesis by auto
next
  case ReadCall
  have inv: "conn_inv s" using S by (simp add: still_def)
  then have wf: "wf_buffer (inputBuffer s)" by (simp add: conn_inv_def)
  let ?rv = "sys_readv net (syscalls s)"
  let ?areas = "[writableBytes (inputBuffer s), kExtraBuf]"
  have upd: "still c (s\<lparr>inputBuffer := b, syscalls := Suc (syscalls s), received := rs\<rparr>)" if "wf_buffer b" for b rs
    using S that by (simp add: still_def conn_inv_def)
  show ?thesis
  proof (cases "?rv ?areas")
    case (ReadvError err)
    then have "readFd ?rv (inputBuffer s) = Inr (-1, Some err, inputBuffer s)" by (simp add: readFd_def Let_def)
    then show ?thesis using upd [OF wf] ReadCall by (simp add: handleRead_def handleError_def)
  next
    case (ReadvBytes bs)
    from readFd_ok [OF wf, of ?rv, OF this] obtain b where
      b: "readFd ?rv (inputBuffer s) = Inr (int (length bs), None, b)" "wf_buffer b" by blast
    let ?s = "s\<lparr>inputBuffer := b, syscalls := Suc (syscalls s),
        received := received s @ drop (readableBytes (inputBuffer s)) (readable b)\<rparr>"
    have S': "still c ?s" by (rule upd [OF b(2)])
    then have inv': "conn_inv ?s" "state ?s = kConnected \<or> state ?s = kDisconnecting" by (simp_all add: still_def)
    show ?thesis
    proof (cases "bs = []")
      case True
      from handleClose_ok [OF inv'] S' b True ReadCall show ?thesis by (auto simp: handleRead_def still_def)
    next
      case False
      from call_user_ok [OF inv'(1) w, of ucode MessageCallback] still_progress [OF S'] b False ReadCall
      show ?thesis by (auto simp: handleRead_def)
    qed
  qed
qed (use S in \<open>simp add: handleError_def\<close>)

lemma conn_event_still:
  assumes "conn_inv c" and "state c = kConnected \<or> state c = kDisconnecting" and w: "write_ok net"
  shows "\<exists>c'. conn_event net ucode revt c = Inr c' \<and> still c c'"
proof -
  let ?ch = "set_revents revt (chan c)"
  let ?s = "c\<lparr>chan := ?ch\<lparr>eventHanding := True\<rparr>\<rparr>"
  have ch: "still c (s\<lparr>chan := x\<rparr>) = still c s" if "isWriting x = isWriting (chan s)" for s x
    using that by (simp add: still_def conn_inv_def)
  have "\<exists>s'. for_each (conn_handler net ucode) (event_calls ?ch) ?s = Inr s' \<and> still c s'"
  proof (rule for_each_invariant)
    show "still c ?s" using assms(1,2) by (auto simp: still_def conn_inv_def)
  qed (rule handler_still [OF _ w])
  then obtain s' where "for_each (conn_handler net ucode) (event_calls ?ch) ?s = Inr s'" "still c s'" by blast
  then show ?thesis by (simp add: conn_event_def handleEvent_def ch)
qed

abbreviation destroyed_twice :: fault where
  "destroyed_twice \<equiv> AssertionFailed ''state_ == kConnected || state_ == kDisconnecting''"

lemma settle_open:
  assumes "r = Inr c'" and "conn_inv c'" and "write_ok net" and "set (toLoop c') \<subseteq> {WriteComplete}"
    and "state c' \<noteq> kConnecting" and "ConnectEstablished \<notin> set fs"
    and "state c' = kConnected \<Longrightarrow> ShutdownInLoop \<notin> set fs"
  shows "returns_or {destroyed_twice} (\<lambda>(s, cs). open_inv net (fs @ queued_by cs) s) (settle c r)"
proof -
  have "conn_inv (c'\<lparr>toLoop := []\<rparr>)" using assms(2) by (simp add: conn_inv_def)
  then show ?thesis using assms by (auto simp: settle_def open_inv_def simp del: map_append map_replicate)
qed

lemma run_conn_open:
  assumes I: "open_inv net (f # fs) c"
  shows "returns_or {destroyed_twice} (\<lambda>(s, cs). open_inv net (fs @ queued_by cs) s) (run_conn net ucode f c)"
proof (cases "f = ConnectDestroyed")
  case True
  have inv: "conn_inv c" and w: "write_ok net" and tl: "toLoop c = []" using I by (simp_all add: open_inv_def)
  show ?thesis
  proof (cases "state c = kConnected \<or> state c = kDisconnecting")
    case True
    from connectDestroyed_ok [OF inv True, of net ucode] obtain c' where
      "connectDestroyed net ucode True c = Inr c'" "conn_inv c'" "state c' = kDisconnected" "toLoop c' = toLoop c" by blast
    then show ?thesis using I True \<open>f = ConnectDestroyed\<close> tl w unfolding run_conn_def
      by (intro settle_open [where c' = c']) (auto simp: open_inv_def)
  next
    case False
    then show ?thesis using \<open>f = ConnectDestroyed\<close>
      by (simp add: run_conn_def settle_def connectDestroyed_def in_loop_thread_def)
  qed
next
  case False
  have inv: "conn_inv c" and w: "write_ok net" and tl: "toLoop c = []" using I by (simp_all add: open_inv_def)
  show ?thesis
  proof (cases "state c = kConnecting")
    case True
    then have f: "f = ConnectEstablished" "fs = []" and "\<not> fin c" using I by (simp_all add: open_inv_def)
    from connectEstablished_ok [OF inv w True \<open>\<not> fin c\<close>, of ucode] obtain c' where
      "connectEstablished net ucode True c = Inr c'" "conn_inv c'" "state c' = kConnected \<or> state c' = kDisconnecting"
      "set (toLoop c') \<subseteq> {WriteComplete}" using tl by auto
    then show ?thesis using f w unfolding run_conn_def by (intro settle_open [where c' = c']) auto
  next
    case connecting: False
    then have ne: "f \<noteq> ConnectEstablished" and fs: "ConnectEstablished \<notin> set fs"
      and shut: "state c = kConnected \<Longrightarrow> ShutdownInLoop \<notin> set (f # fs)" using I by (auto simp: open_inv_def)
    have kept: ?thesis if "run_functor net ucode f c = Inr c'" "conn_inv c'"
        "set (toLoop c') \<subseteq> insert WriteComplete (set (toLoop c))"
        "state c' = state c \<or> state c = kConnected \<and> state c' = kDisconnecting" for c'
      unfolding run_conn_def by (rule settle_open [OF that(1,2) w]) (use that(3,4) tl fs shut connecting in auto)
    show ?thesis
    proof (cases f)
      case (SendInLoop m)
      from sendInLoop_ok [OF inv w, of m] SendInLoop kept show ?thesis by (auto simp: same_phase_def)
    next
      case ShutdownInLoop
      then have "state c \<noteq> kConnected" using shut by auto
      from shutdownInLoop_ok [OF inv connecting this] ShutdownInLoop kept show ?thesis by (auto simp: progress_def)
    next
      case WriteComplete
      from call_user_ok [OF inv w, of ucode WriteCompleteCallback] WriteComplete kept show ?thesis
        by (auto simp: progress_def)
    qed (use ne False in simp_all)
  qed
qed

lemma handle_conn_open:
  assumes I: "open_inv net fs c"
  shows "returns_or {destroyed_twice} (\<lambda>(s, cs). open_inv net (fs @ queued_by cs) s) (handle_conn net ucode revt c)"
proof (cases "reported revt c")
  case False
  then show ?thesis using I by (simp add: handle_conn_def)
next
  case True
  then have st: "state c = kConnected \<or> state c = kDisconnecting" by (simp add: reported_def)
  have w: "write_ok net" and inv: "conn_inv c" and tl: "toLoop c = []" using I by (simp_all add: open_inv_def)
  from conn_event_still [OF inv st w, of ucode revt] obtain c' where
    c': "conn_event net ucode revt c = Inr c'" "still c c'" by blast
  then have "handle_conn net ucode revt c = settle c (Inr c')" using True by (simp add: handle_conn_def)
  then show ?thesis using settle_open [of "Inr c'" c' net fs c] c'(2) I tl w st
    by (auto simp: still_def open_inv_def)
qed

lemma post_conn_open:
  assumes I: "open_inv net fs c" and "post_conn c f c'"
  shows "open_inv net (fs @ [f]) c'"
  using assms(2)
  by (rule post_connE) (use I in \<open>auto simp: open_inv_def conn_inv_def\<close>)

interpretation any: loop_client "\<lambda>revt. True" "open_inv net" "{destroyed_twice}" "run_conn net ucode"
  "handle_conn net ucode" post_conn for net ucode
  by unfold_locales (rule run_conn_open handle_conn_open post_conn_open, assumption+)+

subsection \<open>Properties\<close>


text \<open>A kernel that takes at most two bytes a call, and a connection of a loop about to establish it.\<close>

definition slow_net :: net where
  "slow_net = \<lparr>sys_write = (\<lambda>k data. min 2 (int (length data))), sys_readv = (\<lambda>k areas. ReadvBytes [])\<rparr>"

lemma write_ok_slow_net: "write_ok slow_net"
  by (simp add: write_ok_def slow_net_def)

definition greet :: user_code where
  "greet kind c = (if kind = ConnectionCallback \<and> connected c then [Send [104, 105, 33]] else [])"

definition conn_loop :: "(conn_functor, tcp_connection) event_loop" where
  "conn_loop = \<lparr>looping = False, quitting = False, callingPendingFunctors = False,
     pendingFunctors = [ConnectEstablished], counter = 1, user = new_connection 0 5 False\<rparr>"

lemma conn_loop_inv: "client_inv slow_net (pendingFunctors conn_loop) (user conn_loop)"
  using conn_inv_new [of 0 5 False] write_ok_slow_net
  by (simp add: client_inv_def conn_loop_def new_connection_def)

text \<open>
  The witness is a run of it in which the connection is established and greets its peer with three bytes,
  the kernel takes two, three bytes come in, and the third goes out when the socket is writable.
\<close>

definition talking_net :: net where
  "talking_net = \<lparr>sys_write = (\<lambda>k data. min 2 (int (length data))),
     sys_readv = (\<lambda>k areas. ReadvBytes (if k \<le> 1 then [5, 6, 7] else []))\<rparr>"

lemma write_ok_talking_net: "write_ok talking_net"
  by (simp add: write_ok_def talking_net_def)

definition talk :: "event_mask active list list" where
  "talk = [[WakeupChannel], [Component POLLIN], [Component POLLOUT]]"

lemma talk_ordinary: "as \<in> set talk \<Longrightarrow> Component revt \<in> set as \<Longrightarrow> ordinary revt"
  by (auto simp: talk_def ordinary_def poll_consts)

lemma talk_turns:
  "case turns (run_conn talking_net greet) (handle_conn talking_net greet) talk
      (conn_loop\<lparr>looping := True, quitting := False\<rparr>) of Inl e \<Rightarrow> False
    | Inr L \<Rightarrow> received (user L) = [5, 6, 7] \<and> wire (user L) = [104, 105, 33]"
  by code_simp

lemma talk_run:
  "\<exists>\<sigma>. runs_reporting ordinary (run_conn talking_net greet) (handle_conn talking_net greet) post_conn (start conn_loop) \<sigma> \<and>
    received (user (lp \<sigma>)) = [5, 6, 7] \<and> wire (user (lp \<sigma>)) = [104, 105, 33]"
proof -
  obtain \<sigma> where
    "runs_reporting ordinary (run_conn talking_net greet) (handle_conn talking_net greet) post_conn (start conn_loop) \<sigma>"
    "arrives Check (turns (run_conn talking_net greet) (handle_conn talking_net greet) talk
      (conn_loop\<lparr>looping := True, quitting := False\<rparr>)) \<sigma>"
    using polls_run [of talk ordinary] talk_ordinary by blast
  with talk_turns show ?thesis by (intro exI [of _ \<sigma>]) (auto simp: arrives_def split: sum.splits)
qed


text \<open>
  The promise about the masks is needed. A hangup with priority data, on which \<open>readv\<close> finds the end of
  the stream, closes the connection twice, and the second of the two \<open>connectDestroyed\<close> fails.
\<close>

lemma hangup_turns:
  "case turns (run_conn slow_net greet) (handle_conn slow_net greet)
      [[WakeupChannel], [Component (POLLHUP OR POLLPRI)]] (conn_loop\<lparr>looping := True, quitting := False\<rparr>) of
    Inl e \<Rightarrow> e = destroyed_twice | Inr L \<Rightarrow> False"
  by code_simp

theorem hangup_closes_twice:
  "\<exists>\<sigma>. runs_to (run_conn slow_net greet) (handle_conn slow_net greet) post_conn (start conn_loop) \<sigma> \<and>
    pc \<sigma> = Crashed destroyed_twice"
proof -
  obtain \<sigma> where
    "runs_reporting (\<lambda>e. True) (run_conn slow_net greet) (handle_conn slow_net greet) post_conn (start conn_loop) \<sigma>"
    "arrives Check (turns (run_conn slow_net greet) (handle_conn slow_net greet)
      [[WakeupChannel], [Component (POLLHUP OR POLLPRI)]] (conn_loop\<lparr>looping := True, quitting := False\<rparr>)) \<sigma>"
    using polls_run [of _ "\<lambda>e. True"] by blast
  with hangup_turns show ?thesis unfolding runs_reporting_all
    by (intro exI [of _ \<sigma>]) (auto simp: arrives_def split: sum.splits)
qed

text \<open>Events on a connection whose write side is being shut down.\<close>

fun handle_events :: "net \<Rightarrow> user_code \<Rightarrow> event_mask list \<Rightarrow> tcp_connection \<Rightarrow> tcp_connection result" where
  "handle_events net ucode [] c = Inr c"
| "handle_events net ucode (revt # revts) c =
     (if reported revt c then and_then (conn_event net ucode revt c) (handle_events net ucode revts)
      else handle_events net ucode revts c)"

definition draining :: "byte list \<Rightarrow> tcp_connection \<Rightarrow> bool" where
  "draining bs c \<longleftrightarrow> conn_inv c \<and> state c = kDisconnecting \<and> accepted c = bs \<and>
     (\<not> down c \<longrightarrow> (fin c \<longleftrightarrow> readable (outputBuffer c) = []))"


lemma handler_draining:
  assumes d: "draining bs s" and w: "write_ok net"
  shows "\<exists>s'. conn_handler net ucode e s = Inr s' \<and> draining bs s'"
proof (cases e)
  case ErrorCall
  then show ?thesis using d by (simp add: handleError_def)
next
  case CloseCall
  have "conn_inv s" "state s = kConnected \<or> state s = kDisconnecting" using d by (simp_all add: draining_def)
  from handleClose_ok [OF this] CloseCall d show ?thesis by (auto simp: draining_def)
next
  case WriteCall
  have inv: "conn_inv s" using d by (simp add: draining_def)
  from handleWrite_ok [OF inv w] obtain s' where s': "handleWrite net True s = Inr s'" "conn_inv s'"
      "progress s s'" "state s' = state s" "accepted s' = accepted s"
      "state s = kDisconnecting \<longrightarrow> isWriting (chan s) \<longrightarrow> readable (outputBuffer s') = [] \<longrightarrow> fin s'"
      "\<not> isWriting (chan s) \<longrightarrow> s' = s" "readable (outputBuffer s') \<noteq> [] \<longrightarrow> fin s' = fin s" by blast
  have "down s' = down s" using s'(3) by (simp add: progress_def)
  then have "draining bs s'"
  proof (cases "isWriting (chan s)")
    case True
    then have "readable (outputBuffer s) \<noteq> []" using inv by (simp add: conn_inv_def)
    then show ?thesis using d s' True \<open>down s' = down s\<close> by (auto simp: draining_def)
  qed (use s' d in simp)
  with s'(1) WriteCall show ?thesis by simp
next
  case ReadCall
  have inv: "conn_inv s" and st: "state s = kDisconnecting" using d by (simp_all add: draining_def)
  then have wf: "wf_buffer (inputBuffer s)" by (simp add: conn_inv_def)
  let ?rv = "sys_readv net (syscalls s)"
  let ?areas = "[writableBytes (inputBuffer s), kExtraBuf]"
  have upd: "draining bs (s\<lparr>inputBuffer := b, syscalls := Suc (syscalls s), received := rs\<rparr>)" if "wf_buffer b" for b rs
    using d that by (simp add: draining_def conn_inv_def)
  show ?thesis
  proof (cases "?rv ?areas")
    case (ReadvError err)
    then have "readFd ?rv (inputBuffer s) = Inr (-1, Some err, inputBuffer s)"
      by (simp add: readFd_def Let_def)
    then show ?thesis using upd [OF wf] ReadCall by (simp add: handleRead_def handleError_def)
  next
    case (ReadvBytes rs)
    from readFd_ok [OF wf, of ?rv, OF this] obtain b where
      b: "readFd ?rv (inputBuffer s) = Inr (int (length rs), None, b)" "wf_buffer b" by blast
    let ?s = "s\<lparr>inputBuffer := b, syscalls := Suc (syscalls s),
        received := received s @ drop (readableBytes (inputBuffer s)) (readable b)\<rparr>"
    have inv': "conn_inv ?s" "draining bs ?s" "state ?s \<noteq> kConnected"
      using upd [OF b(2)] st by (simp_all add: draining_def)
    show ?thesis
    proof (cases "rs = []")
      case True
      have "state ?s = kConnected \<or> state ?s = kDisconnecting" using st by simp
      from handleClose_ok [OF inv'(1) this] obtain s' where "handleClose True ?s = Inr s'" "conn_inv s'"
        "state s' = state ?s" "down s'" "accepted s' = accepted ?s" by blast
      then show ?thesis using b True ReadCall inv'(2) by (auto simp: handleRead_def draining_def)
    next
      case False
      from call_user_quiet [OF inv'(1,3), of net ucode MessageCallback] obtain s' where
        s': "call_user net ucode MessageCallback ?s = Inr s'" "conn_inv s'" "quiet ?s s'" by blast
      have "draining bs s'" using s'(2) quiet_fields [OF s'(3)] inv'(2) by (simp add: draining_def)
      with s'(1) b False ReadCall show ?thesis by (simp add: handleRead_def)
    qed
  qed
qed

lemma draining_chan: "isWriting ch = isWriting (chan s) \<Longrightarrow> draining bs (s\<lparr>chan := ch\<rparr>) = draining bs s"
  by (simp add: draining_def conn_inv_def)

lemma conn_event_draining:
  assumes d: "draining bs c" and w: "write_ok net"
  shows "\<exists>c'. conn_event net ucode revt c = Inr c' \<and> draining bs c'"
proof -
  let ?ch = "set_revents revt (chan c)"
  let ?s = "c\<lparr>chan := ?ch\<lparr>eventHanding := True\<rparr>\<rparr>"
  have "\<exists>s'. for_each (conn_handler net ucode) (event_calls ?ch) ?s = Inr s' \<and> draining bs s'"
  proof (rule for_each_invariant)
    show "draining bs ?s" using d by (simp add: draining_chan)
  qed (rule handler_draining [OF _ w])
  then obtain s' where "for_each (conn_handler net ucode) (event_calls ?ch) ?s = Inr s'" "draining bs s'" by blast
  then show ?thesis by (simp add: conn_event_def handleEvent_def draining_chan)
qed

lemma handle_events_draining:
  assumes "draining bs c" and w: "write_ok net"
  shows "\<exists>c'. handle_events net ucode revts c = Inr c' \<and> draining bs c'"
  using assms(1)
proof (induction revts arbitrary: c)
  case (Cons revt revts)
  from conn_event_draining [OF Cons.prems w] Cons.IH Cons.prems show ?case
    by (cases "reported revt c") (fastforce simp: and_then_Inr_iff)+
qed simp

lemma shutdown_draining:
  assumes inv: "conn_inv c" and "state c = kConnected" and "\<not> down c" and "\<not> fin c"
  shows "\<exists>c1. shutdown True c = Inr c1 \<and> draining (accepted c) c1 \<and> outputBuffer c1 = outputBuffer c \<and>
    chan c1 = chan c \<and> \<not> down c1"
  using assms by (auto simp: shutdown_def shutdownInLoop_def in_loop_thread_def draining_def conn_inv_def)

text \<open>C10: \<open>shutdown\<close> called in the loop's thread is graceful over the events of that thread:
  whatever events, of any mask, the poller reports on the connection after it, and whatever the
  callbacks called for them do, none of these callbacks gets anything more accepted for sending, and
  as long as the peer has not closed, the write side is shut down exactly when the output buffer has
  run empty, with every accepted byte on the wire. Messages that other threads gave to \<open>send\<close> before
  the shutdown and that are still queued are another matter: see \<open>queued_send_after_shutdown\<close>.\<close>

theorem graceful_shutdown:
  assumes "conn_inv c" and "state c = kConnected" and "\<not> down c" and "\<not> fin c" and "write_ok net"
  shows "\<exists>c1 c2. shutdown True c = Inr c1 \<and> handle_events net ucode revts c1 = Inr c2 \<and>
    accepted c2 = accepted c \<and>
    (\<not> down c2 \<longrightarrow> (fin c2 \<longleftrightarrow> readable (outputBuffer c2) = []) \<and> (fin c2 \<longrightarrow> wire c2 = accepted c))"
proof -
  obtain c1 where c1: "shutdown True c = Inr c1" "draining (accepted c) c1"
    using shutdown_draining [OF assms(1-4)] by blast
  obtain c2 where c2: "handle_events net ucode revts c1 = Inr c2" "draining (accepted c) c2"
    using handle_events_draining [OF c1(2) assms(5)] by blast
  then have "wire c2 = accepted c" if "\<not> down c2" "fin c2" using that by (auto simp: draining_def conn_inv_def)
  with c1(1) c2 show ?thesis by (auto simp: draining_def)
qed

text \<open>A connection with three bytes still to be written.\<close>

definition half_sent :: tcp_connection where
  "half_sent = (new_connection 0 5 False)\<lparr>state := kConnected,
     chan := enableWriting (enableReading (chan (new_connection 0 5 False))),
     outputBuffer := \<lparr>vec = [1, 2, 3], readerIndex = 0, writerIndex = 3\<rparr>, accepted := [1, 2, 3]\<rparr>"

lemma three_bytes: "wf_buffer \<lparr>vec = [1, 2, 3], readerIndex = 0, writerIndex = 3\<rparr>"
  "readable \<lparr>vec = [1, 2, 3], readerIndex = 0, writerIndex = 3\<rparr> = [1, 2, 3]"
  by (simp_all add: wf_buffer_def readable_def readableBytes_def peek_def)

lemma half_sent_ok: "conn_inv half_sent" "state half_sent = kConnected" "\<not> down half_sent" "\<not> fin half_sent"
  "writeCallback (chan half_sent)"
  by (simp_all add: half_sent_def conn_inv_def new_connection_def three_bytes)

theorem graceful_shutdown_witness:
  "\<exists>c1 c2. shutdown True half_sent = Inr c1 \<and> handle_events slow_net greet [POLLOUT, POLLOUT] c1 = Inr c2 \<and>
     accepted c2 = [1, 2, 3]"
  using graceful_shutdown [OF half_sent_ok(1-4) write_ok_slow_net, of greet "[POLLOUT, POLLOUT]"]
  by (auto simp: half_sent_def)


lemma event_calls_POLLOUT:
  "writeCallback ch \<Longrightarrow> event_calls (set_revents POLLOUT ch) = [WriteCall]"
  by (simp add: event_calls_def set_revents_def poll_consts)

lemma ordinary_POLLOUT: "ordinary POLLOUT"
  by (simp add: ordinary_def poll_consts)

lemma write_event:
  assumes d: "draining bs c" and o: "\<not> down c" and cb: "writeCallback (chan c)" and w: "write_ok net"
    and eager: "\<And>k data. data \<noteq> [] \<Longrightarrow> 0 < sys_write net k data"
  shows "\<exists>c'. conn_event net ucode POLLOUT c = Inr c' \<and> draining bs c' \<and> \<not> down c' \<and> writeCallback (chan c') \<and>
    length (readable (outputBuffer c')) \<le> length (readable (outputBuffer c)) - 1"
proof -
  let ?ch = "set_revents POLLOUT (chan c)"
  let ?s = "c\<lparr>chan := ?ch\<lparr>eventHanding := True\<rparr>\<rparr>"
  have ds: "draining bs ?s" using d by (simp add: draining_chan)
  then have inv: "conn_inv ?s" by (simp add: draining_def)
  from handleWrite_ok [OF inv w] obtain s' where s': "handleWrite net True ?s = Inr s'" "progress ?s s'"
      "\<not> isWriting (chan ?s) \<longrightarrow> s' = ?s"
      "isWriting (chan ?s) \<longrightarrow> readable (outputBuffer s')
        = drop (nat (sys_write net (syscalls ?s) (readable (outputBuffer ?s)))) (readable (outputBuffer ?s))"
      "writeCallback (chan s') = writeCallback (chan ?s)" by blast
  have dr: "draining bs s'" using handler_draining [OF ds w, of undefined WriteCall] s'(1) by simp
  have "length (readable (outputBuffer s')) \<le> length (readable (outputBuffer c)) - 1"
  proof (cases "isWriting (chan ?s)")
    case True
    then have "readable (outputBuffer ?s) \<noteq> []" using inv by (simp add: conn_inv_def)
    then have "0 < sys_write net (syscalls ?s) (readable (outputBuffer ?s))" by (rule eager)
    then show ?thesis using s'(4) True by simp
  next
    case False
    then have "readable (outputBuffer c) = []" using inv o by (auto simp: conn_inv_def)
    then show ?thesis using s'(3) False by simp
  qed
  moreover have "\<not> down s'" using s'(2) o by (simp add: progress_def)
  moreover have "writeCallback (chan s')" using s'(5) cb by (simp add: set_revents_def)
  ultimately show ?thesis using s'(1) dr event_calls_POLLOUT [OF cb]
    by (simp add: conn_event_def handleEvent_def draining_chan)
qed

lemma write_events:
  assumes w: "write_ok net" and eager: "\<And>k data. data \<noteq> [] \<Longrightarrow> 0 < sys_write net k data"
  shows "draining bs c \<Longrightarrow> \<not> down c \<Longrightarrow> writeCallback (chan c) \<Longrightarrow> length (readable (outputBuffer c)) \<le> n \<Longrightarrow>
    \<exists>c'. handle_events net ucode (replicate n POLLOUT) c = Inr c' \<and> draining bs c' \<and> \<not> down c' \<and>
      readable (outputBuffer c') = []"
proof (induction n arbitrary: c)
  case (Suc n)
  from write_event [OF Suc.prems(1-3) w eager, of ucode] obtain c1 where
    c1: "conn_event net ucode POLLOUT c = Inr c1" "draining bs c1" "\<not> down c1" "writeCallback (chan c1)"
      "length (readable (outputBuffer c1)) \<le> length (readable (outputBuffer c)) - 1" by blast
  have "length (readable (outputBuffer c1)) \<le> n" using c1(5) Suc.prems(4) by simp
  from Suc.IH [OF c1(2-4) this] c1(1) Suc.prems(1,2) show ?case
    by (simp add: reported_def draining_def)
qed simp

text \<open>Graceful shutdown completes: when the kernel takes at least one byte of every write, then after
  as many writability events as bytes were buffered the write side is shut down and every accepted
  byte is on the wire.\<close>

theorem shutdown_completes:
  assumes "conn_inv c" and "state c = kConnected" and "\<not> down c" and "\<not> fin c" and "writeCallback (chan c)"
    and "write_ok net" and "\<And>k data. data \<noteq> [] \<Longrightarrow> 0 < sys_write net k data"
  shows "\<exists>c1 c2. shutdown True c = Inr c1 \<and>
    handle_events net ucode (replicate (length (readable (outputBuffer c))) POLLOUT) c1 = Inr c2 \<and>
    fin c2 \<and> wire c2 = accepted c"
proof -
  obtain c1 where c1: "shutdown True c = Inr c1" "draining (accepted c) c1" "outputBuffer c1 = outputBuffer c"
      "chan c1 = chan c" "\<not> down c1"
    using shutdown_draining [OF assms(1-4)] by blast
  obtain c2 where c2: "handle_events net ucode (replicate (length (readable (outputBuffer c))) POLLOUT) c1 = Inr c2"
      "draining (accepted c) c2" "\<not> down c2" "readable (outputBuffer c2) = []"
    using write_events [OF assms(6,7) c1(2,5), of "length (readable (outputBuffer c))" ucode] c1(3,4) assms(5) by auto
  then have "fin c2" "wire c2 = accepted c" by (auto simp: draining_def conn_inv_def)
  with c1(1) c2(1) show ?thesis by blast
qed

theorem shutdown_completes_witness:
  "\<exists>c1 c2. shutdown True half_sent = Inr c1 \<and>
    handle_events slow_net greet (replicate (length (readable (outputBuffer half_sent))) POLLOUT) c1 = Inr c2 \<and>
    fin c2 \<and> wire c2 = accepted half_sent"
  by (rule shutdown_completes [OF half_sent_ok write_ok_slow_net]) (simp add: slow_net_def)

text \<open>The limit of that promise: a message another thread gave to \<open>send\<close> before a \<open>shutdown\<close> in the
  loop's thread is written after the write side is shut down, because \<open>sendInLoop\<close> does not look at the
  state again.\<close>

theorem queued_send_after_shutdown:
  assumes "conn_inv c" and "state c = kConnected" and "\<not> isWriting (chan c)" and "\<not> down c"
    and "write_ok net" and "m \<noteq> []"
  shows "\<exists>c1 c2 c3. send net False m c = Inr c1 \<and> SendInLoop m \<in> set (toLoop c1) \<and>
    shutdown True c1 = Inr c2 \<and> fin c2 \<and>
    run_functor net ucode (SendInLoop m) c2 = Inr c3 \<and> syscalls c3 = Suc (syscalls c2) \<and>
    accepted c3 = accepted c2 @ m"
proof -
  let ?c1 = "queue_functor (SendInLoop m) c"
  let ?c2 = "?c1\<lparr>state := kDisconnecting, fin := True\<rparr>"
  have s: "send net False m c = Inr ?c1" using assms(2) by (simp add: send_def)
  have sh: "shutdown True ?c1 = Inr ?c2"
    using assms(2,3) by (simp add: shutdown_def shutdownInLoop_def in_loop_thread_def queue_functor_def)
  have inv: "conn_inv ?c2" using assms(1) by (simp add: conn_inv_def queue_functor_def)
  from sendInLoop_ok [OF inv assms(5), of m] obtain c3 where
    c3: "sendInLoop net True m ?c2 = Inr c3" "accepted c3 = accepted ?c2 @ m" by blast
  have "readable (outputBuffer ?c2) = []" using assms(1,3,4) by (auto simp: conn_inv_def queue_functor_def)
  then have "readableBytes (outputBuffer ?c2) = 0" "\<not> isWriting (chan ?c2)"
    using inv assms(3) by (simp_all add: readableBytes_eq_0 conn_inv_def queue_functor_def)
  then have "syscalls c3 = Suc (syscalls ?c2)" using c3(1)
    by (auto simp: sendInLoop_def in_loop_thread_def do_write_def Let_def and_then_Inr_iff
        update_chan_def queue_functor_def split: if_splits)
  with s sh c3 show ?thesis by (auto simp: queue_functor_def)
qed

definition idle_connection :: tcp_connection where
  "idle_connection = (new_connection 0 5 False)\<lparr>state := kConnected\<rparr>"

lemma idle_connection_ok: "conn_inv idle_connection" "state idle_connection = kConnected"
  "\<not> isWriting (chan idle_connection)" "\<not> down idle_connection"
  using conn_inv_new [of 0 5 False]
  by (simp_all add: idle_connection_def conn_inv_def new_connection_def isWriting_bit new_channel_def)

theorem queued_send_after_shutdown_witness:
  "\<exists>c1 c2 c3. send slow_net False [7] idle_connection = Inr c1 \<and> shutdown True c1 = Inr c2 \<and> fin c2 \<and>
    run_functor slow_net greet (SendInLoop [7]) c2 = Inr c3 \<and> syscalls c3 = Suc (syscalls c2)"
proof -
  have "[7] \<noteq> ([] :: byte list)" by simp
  from queued_send_after_shutdown [OF idle_connection_ok write_ok_slow_net this, of greet] show ?thesis by blast
qed

end
