(* ===== verification/ConnectionSteps.thy ===== *)
theory ConnectionSteps
  imports TcpConnection
begin

section \<open>What every step of a connection does\<close>

text \<open>
  A contract for facts that hold of all the code a connection runs between \<open>connectEstablished\<close> and
  \<open>connectDestroyed\<close>: a relation between the states before and after that is closed under the few kinds
  of change the code is made of holds of every operation. A change is quiet that logs nothing, leaves
  mask, descriptor and callbacks of the channel alone, moves the phase at most from connected to
  disconnecting and queues at most write complete callbacks.
\<close>

lemmas conn_op_defs = in_loop_thread_def do_write_def queue_functor_def Let_def and_then_Inr_iff

locale conn_relation =
  fixes R :: "tcp_connection \<Rightarrow> tcp_connection \<Rightarrow> bool"
  assumes quiet_change: "effects c' = effects c \<Longrightarrow> events (chan c') = events (chan c) \<Longrightarrow>
      fd (chan c') = fd (chan c) \<Longrightarrow> writeCallback (chan c') = writeCallback (chan c) \<Longrightarrow>
      state c' = state c \<or> state c = kConnected \<and> state c' = kDisconnecting \<Longrightarrow>
      set (toLoop c') \<subseteq> insert WriteComplete (set (toLoop c)) \<Longrightarrow> R c c'"
    and mask_change: "fd (f (chan c)) = fd (chan c) \<Longrightarrow> writeCallback (f (chan c)) = writeCallback (chan c) \<Longrightarrow>
      R c (update_chan f c)"
    and callback_logged: "kind \<noteq> ConnectionCallback \<Longrightarrow> R c (c\<lparr>effects := effects c @ [UserCallback kind b]\<rparr>)"
    and close_logged: "R c (c\<lparr>effects := effects c @ [CloseCallback]\<rparr>)"
    and chain: "R c c1 \<Longrightarrow> R c1 c2 \<Longrightarrow> R c c2"
begin

lemma unchanged: "R c c"
  by (rule quiet_change) auto

lemma masked:
  "R c c1 \<Longrightarrow> R c (update_chan enableWriting c1)" "R c c1 \<Longrightarrow> R c (update_chan disableWriting c1)"
  "R c c1 \<Longrightarrow> R c (update_chan disableAll c1)"
  by (erule chain, rule mask_change, simp, simp)+

lemma sendInLoop_related: "sendInLoop net True m c = Inr c' \<Longrightarrow> R c c'"
  by (auto simp: sendInLoop_def conn_op_defs split: if_splits prod.splits
      intro!: masked quiet_change)

lemma shutdownInLoop_related: "shutdownInLoop True c = Inr c' \<Longrightarrow> R c c'"
  by (auto simp: shutdownInLoop_def conn_op_defs split: if_splits intro!: quiet_change)

lemma user_step_related: "user_step net u c = Inr c' \<Longrightarrow> R c c'"
proof (cases u)
  case (Send m)
  assume "user_step net u c = Inr c'"
  then show ?thesis using Send sendInLoop_related unchanged by (auto simp: send_def split: if_splits)
next
  case Shutdown
  assume "user_step net u c = Inr c'"
  then show ?thesis using Shutdown
    by (auto simp: shutdown_def shutdownInLoop_def conn_op_defs split: if_splits intro!: quiet_change)
next
  case (RetrieveInput n)
  assume "user_step net u c = Inr c'"
  then show ?thesis using RetrieveInput by (auto simp: and_then_Inr_iff intro!: quiet_change)
qed

lemma call_user_related:
  assumes "call_user net ucode kind c = Inr c'"
  shows "R (c\<lparr>effects := effects c @ [UserCallback kind (connected c)]\<rparr>) c'"
proof (rule for_each_preserves [OF _ unchanged assms [unfolded call_user_def]])
  show "R (c\<lparr>effects := effects c @ [UserCallback kind (connected c)]\<rparr>) s'"
    if "R (c\<lparr>effects := effects c @ [UserCallback kind (connected c)]\<rparr>) s" "user_step net u s = Inr s'" for u s s'
    using chain [OF that(1) user_step_related [OF that(2)]] .
qed

lemma other_callback_related: "call_user net ucode kind c = Inr c' \<Longrightarrow> kind \<noteq> ConnectionCallback \<Longrightarrow> R c c'"
  using chain [OF callback_logged call_user_related] .

lemma handleClose_related:
  assumes "handleClose True c = Inr c'"
  shows "R c c'"
proof -
  have "R c (c\<lparr>down := True\<rparr>)" by (rule quiet_change) auto
  from chain [OF masked(3) [OF this] close_logged] show ?thesis using assms
    by (auto simp: handleClose_def conn_op_defs require_def split: if_splits)
qed

lemma handleRead_related:
  assumes "handleRead net ucode c = Inr c'"
  shows "R c c'"
proof -
  obtain x where "readFd (sys_readv net (syscalls c)) (inputBuffer c) = Inr x"
    using assms by (auto simp: handleRead_def and_then_Inr_iff)
  then obtain n er ib where x: "readFd (sys_readv net (syscalls c)) (inputBuffer c) = Inr (n, er, ib)"
    by (cases x) auto
  let ?c = "c\<lparr>inputBuffer := ib, syscalls := Suc (syscalls c),
      received := received c @ drop (readableBytes (inputBuffer c)) (readable ib)\<rparr>"
  have r: "(if 0 < n then call_user net ucode MessageCallback ?c else if n = 0 then handleClose True ?c
      else handleError ?c) = Inr c'"
    using assms x by (simp add: handleRead_def Let_def)
  then have "R ?c c'" using other_callback_related [of net ucode MessageCallback ?c c'] handleClose_related [of ?c c']
      unchanged by (auto simp: handleError_def split: if_splits)
  moreover have "R c ?c" by (rule quiet_change) auto
  ultimately show ?thesis using chain by blast
qed

lemma handleWrite_related:
  assumes h: "handleWrite net True c = Inr c'"
  shows "R c c'"
proof (cases "isWriting (chan c)")
  case False
  then show ?thesis using h unchanged by (simp add: handleWrite_def in_loop_thread_def)
next
  case True
  obtain n c1 where w: "do_write net (readable (outputBuffer c)) c = (n, c1)" by (cases "do_write net (readable (outputBuffer c)) c")
  then have q1: "R c c1" by (auto simp: do_write_def Let_def intro!: quiet_change)
  show ?thesis
  proof (cases "0 < n")
    case False
    then show ?thesis using h True w q1 by (simp add: handleWrite_def in_loop_thread_def)
  next
    case pos: True
    then obtain ob where ob: "retrieve (nat n) (outputBuffer c1) = Inr ob"
      using h True w by (auto simp: handleWrite_def in_loop_thread_def and_then_Inr_iff)
    let ?c2 = "c1\<lparr>outputBuffer := ob\<rparr>"
    have q2: "R c ?c2" by (rule chain [OF q1 quiet_change]) auto
    let ?c3 = "update_chan disableWriting ?c2"
    let ?c4 = "if writeCompleteCallback ?c3 then queue_functor WriteComplete ?c3 else ?c3"
    have "R ?c3 ?c4" by (rule quiet_change) (auto simp: queue_functor_def)
    then have q4: "R c ?c4" using chain [OF masked(2) [OF q2]] by blast
    show ?thesis
    proof (cases "readableBytes ob = 0")
      case False
      then show ?thesis using h True w pos ob q2 by (simp add: handleWrite_def in_loop_thread_def Let_def)
    next
      case True
      then have "(if state ?c4 = kDisconnecting then shutdownInLoop True ?c4 else Inr ?c4) = Inr c'"
        using h \<open>isWriting (chan c)\<close> w pos ob by (simp add: handleWrite_def in_loop_thread_def Let_def)
      then have "R ?c4 c'" using shutdownInLoop_related unchanged by (metis old.sum.inject(2))
      with q4 show ?thesis using chain by blast
    qed
  qed
qed

lemma handler_related: "conn_handler net ucode e c = Inr c' \<Longrightarrow> R c c'"
  using handleRead_related handleWrite_related handleClose_related unchanged
  by (cases e) (auto simp: handleError_def)

lemma conn_event_related:
  assumes "conn_event net ucode revt c = Inr c'"
  shows "R c c'"
proof -
  let ?ch = "set_revents revt (chan c)"
  let ?s = "c\<lparr>chan := ?ch\<lparr>eventHanding := True\<rparr>\<rparr>"
  from assms obtain s' where s': "for_each (conn_handler net ucode) (event_calls ?ch) ?s = Inr s'"
    "c' = s'\<lparr>chan := (chan s')\<lparr>eventHanding := False\<rparr>\<rparr>"
    by (auto simp: conn_event_def handleEvent_def and_then_Inr_iff)
  have "R c s'"
  proof (rule for_each_preserves [OF _ _ s'(1)])
    show "R c ?s" by (rule quiet_change) (auto simp: set_revents_def)
    show "R c t'" if "R c t" "conn_handler net ucode e t = Inr t'" for e t t'
      using chain [OF that(1) handler_related [OF that(2)]] .
  qed
  moreover have "R s' c'" unfolding s'(2) by (rule quiet_change) auto
  ultimately show ?thesis using chain by blast
qed

lemma run_functor_related:
  "run_functor net ucode f c = Inr c' \<Longrightarrow> f \<noteq> ConnectEstablished \<Longrightarrow> f \<noteq> ConnectDestroyed \<Longrightarrow> R c c'"
  by (cases f) (auto dest: sendInLoop_related shutdownInLoop_related other_callback_related)

end

text \<open>The two functors that move the phase of a connection are their own changes and a user callback.\<close>

lemma connectEstablished_callback:
  assumes "run_functor net ucode ConnectEstablished c = Inr c'"
  shows "state c = kConnecting \<and>
    call_user net ucode ConnectionCallback (update_chan enableReading (c\<lparr>state := kConnected\<rparr>)) = Inr c'"
  using assms by (auto simp: connectEstablished_def in_loop_thread_def Let_def require_def split: if_splits)

lemma connectDestroyed_callback:
  assumes "run_functor net ucode ConnectDestroyed c = Inr c'"
  shows "\<exists>c2. (state c = kConnected \<or> state c = kDisconnecting) \<and>
    call_user net ucode ConnectionCallback (update_chan disableAll (c\<lparr>state := kDisconnected, down := True\<rparr>)) = Inr c2 \<and>
    c' = c2\<lparr>effects := effects c2 @ [RemoveChannel]\<rparr>"
  using assms by (auto simp: connectDestroyed_def in_loop_thread_def Let_def require_def and_then_Inr_iff split: if_splits)

end
