(* ===== verification/Sockets.thy ===== *)
theory Sockets
  imports Endian Channel
begin

section \<open>Sockets and addresses: SocketsOps, Socket, InetAddress and Acceptor\<close>

text \<open>
  The wrappers of the socket calls. Each system call is the result it returned, with the error
  number where the source reads \<open>errno\<close>; \<open>LOG_SYSFATAL\<close> and \<open>LOG_FATAL\<close> abort. Addresses hold their
  fields in network byte order. \<open>inet_ntop\<close> and \<open>inet_pton\<close> are parameters; \<open>printf\<close>'s decimal
  numbers and its truncation are modelled.
\<close>

subsection \<open>Formatting\<close>

definition digit :: "nat \<Rightarrow> char" where
  "digit d = char_of (48 + d)"

fun decimal :: "nat \<Rightarrow> string" where
  "decimal n = (if n < 10 then [digit n] else decimal (n div 10) @ [digit (n mod 10)])"

declare decimal.simps [simp del]

text \<open>\<open>snprintf\<close> into \<open>n\<close> bytes writes at most \<open>n - 1\<close> characters.\<close>

definition snprintf :: "nat \<Rightarrow> string \<Rightarrow> string" where
  "snprintf n text = take (n - 1) text"

fun undecimal :: "nat \<Rightarrow> string \<Rightarrow> nat" where
  "undecimal a [] = a"
| "undecimal a (c # cs) = undecimal (10 * a + (of_char c - 48)) cs"

lemma undecimal_snoc: "undecimal a (cs @ [c]) = 10 * undecimal a cs + (of_char c - 48)"
  by (induction cs arbitrary: a) auto

lemma of_char_digit: "d < 10 \<Longrightarrow> of_char (digit d) - 48 = d"
  by (simp add: digit_def)

lemma undecimal_decimal: "undecimal 0 (decimal n) = n"
proof (induction n rule: decimal.induct)
  case (1 n)
  show ?case
  proof (cases "n < 10")
    case True
    then show ?thesis by (subst decimal.simps) (simp add: of_char_digit)
  next
    case False
    then have "undecimal 0 (decimal n) = 10 * (n div 10) + n mod 10"
      by (subst decimal.simps) (simp add: undecimal_snoc of_char_digit 1)
    then show ?thesis by simp
  qed
qed

lemma decimal_inject: "decimal m = decimal n \<longleftrightarrow> m = n"
  by (metis undecimal_decimal)

lemma length_decimal: "n < 10 ^ k \<Longrightarrow> 0 < k \<Longrightarrow> length (decimal n) \<le> k"
proof (induction k arbitrary: n)
  case (Suc k)
  show ?case
  proof (cases "n < 10")
    case False
    then have "0 < k" using Suc.prems(1) by (cases k) auto
    moreover have "n div 10 < 10 ^ k" using Suc.prems(1) by (simp add: less_mult_imp_div_less)
    ultimately show ?thesis using False Suc.IH [of "n div 10"] by (subst decimal.simps) simp
  qed (subst decimal.simps, simp)
qed simp

subsection \<open>Addresses\<close>

record sockaddr_in =
  sin_family :: u16
  sin_port :: u16
  sin_addr :: u32

definition AF_INET :: u16 where "AF_INET = 2"

definition zero_addr :: sockaddr_in where
  "zero_addr = \<lparr>sin_family = 0, sin_port = 0, sin_addr = 0\<rparr>"

definition INADDR_ANY :: u32 where "INADDR_ANY = 0"

definition InetAddress_port :: "host_order \<Rightarrow> u16 \<Rightarrow> sockaddr_in" where
  "InetAddress_port h port = zero_addr\<lparr>sin_family := AF_INET,
     sin_addr := hostToNetwork32 h INADDR_ANY, sin_port := hostToNetwork16 h port\<rparr>"

definition fromHostPort :: "(string \<Rightarrow> u32 option) \<Rightarrow> host_order \<Rightarrow> string \<Rightarrow> u16 \<Rightarrow> sockaddr_in \<Rightarrow> sockaddr_in" where
  "fromHostPort pton h ip port addr =
     (let addr' = addr\<lparr>sin_port := hostToNetwork16 h port, sin_family := AF_INET\<rparr>
      in case pton ip of None \<Rightarrow> addr' | Some a \<Rightarrow> addr'\<lparr>sin_addr := a\<rparr>)"

definition InetAddress_ip :: "(string \<Rightarrow> u32 option) \<Rightarrow> host_order \<Rightarrow> string \<Rightarrow> u16 \<Rightarrow> sockaddr_in" where
  "InetAddress_ip pton h ip port = fromHostPort pton h ip port zero_addr"

definition sockets_toHostPort ::
  "(u32 \<Rightarrow> string option) \<Rightarrow> host_order \<Rightarrow> nat \<Rightarrow> sockaddr_in \<Rightarrow> string" where
  "sockets_toHostPort ntop h n addr =
     (let host = (case ntop (sin_addr addr) of None \<Rightarrow> ''INVALID'' | Some s \<Rightarrow> s);
          port = networkToHost16 h (sin_port addr)
      in snprintf n (host @ '':'' @ decimal (unat port)))"

definition InetAddress_toHostPort :: "(u32 \<Rightarrow> string option) \<Rightarrow> host_order \<Rightarrow> sockaddr_in \<Rightarrow> string" where
  "InetAddress_toHostPort ntop h addr = sockets_toHostPort ntop h 32 addr"

subsection \<open>System calls\<close>

definition createNonblockingOrDie :: "int \<Rightarrow> int result" where
  "createNonblockingOrDie sockfd =
     require (0 \<le> sockfd) (Fatal ''sockets::createNonblockingOrDie'') (Inr sockfd)"

definition bindOrDie :: "int \<Rightarrow> unit result" where
  "bindOrDie ret = require (0 \<le> ret) (Fatal ''sockets::bindOrDie'') (Inr ())"

definition listenOrDie :: "int \<Rightarrow> unit result" where
  "listenOrDie ret = require (0 \<le> ret) (Fatal ''sockets::listenOrDie'') (Inr ())"

definition sockets_close :: "int \<Rightarrow> unit result" where
  "sockets_close ret = require (0 \<le> ret) (Fatal ''sockets::listenOrDie'') (Inr ())"

text \<open>Error numbers of Linux.\<close>

definition EPERM :: int where "EPERM = 1"
definition EINTR :: int where "EINTR = 4"
definition EBADF :: int where "EBADF = 9"
definition EAGAIN :: int where "EAGAIN = 11"
definition ENOMEM :: int where "ENOMEM = 12"
definition EACCES :: int where "EACCES = 13"
definition EFAULT :: int where "EFAULT = 14"
definition EINVAL :: int where "EINVAL = 22"
definition ENFILE :: int where "ENFILE = 23"
definition EMFILE :: int where "EMFILE = 24"
definition EPROTO :: int where "EPROTO = 71"
definition ENOTSOCK :: int where "ENOTSOCK = 88"
definition EOPNOTSUPP :: int where "EOPNOTSUPP = 95"
definition EAFNOSUPPORT :: int where "EAFNOSUPPORT = 97"
definition EADDRINUSE :: int where "EADDRINUSE = 98"
definition EADDRNOTAVAIL :: int where "EADDRNOTAVAIL = 99"
definition ENETUNREACH :: int where "ENETUNREACH = 101"
definition ECONNABORTED :: int where "ECONNABORTED = 103"
definition ENOBUFS :: int where "ENOBUFS = 105"
definition EISCONN :: int where "EISCONN = 106"
definition ECONNREFUSED :: int where "ECONNREFUSED = 111"
definition EALREADY :: int where "EALREADY = 114"
definition EINPROGRESS :: int where "EINPROGRESS = 115"

lemmas errno_defs = EPERM_def EINTR_def EBADF_def EAGAIN_def EACCES_def EFAULT_def EMFILE_def EPROTO_def
  ENOTSOCK_def EAFNOSUPPORT_def EADDRINUSE_def EADDRNOTAVAIL_def ENETUNREACH_def ECONNABORTED_def
  EISCONN_def ECONNREFUSED_def EALREADY_def EINPROGRESS_def ENOMEM_def EINVAL_def ENFILE_def EOPNOTSUPP_def
  ENOBUFS_def

text \<open>
  \<open>accept4\<close> returned \<open>connfd\<close>: a negative result is passed on for the expected errors and fatal for all
  the others, named in the source or not.
\<close>

definition sockets_accept :: "int \<Rightarrow> int \<Rightarrow> int result" where
  "sockets_accept connfd saveError =
     (if connfd < 0 then
        if saveError \<in> {EAGAIN, ECONNABORTED, EINTR, EPROTO, EPERM, EMFILE} then Inr connfd
        else if saveError \<in> {EBADF, EFAULT, EINVAL, ENFILE, ENOBUFS, ENOMEM, ENOTSOCK, EOPNOTSUPP}
        then Inl (Fatal ''unexpected error of ::accept'')
        else Inl (Fatal ''unknown error of ::accept'')
      else Inr connfd)"

text \<open>\<open>getsockname\<close> and \<open>getpeername\<close> fill the address when they succeed.\<close>

definition getLocalAddr :: "sockaddr_in option \<Rightarrow> sockaddr_in" where
  "getLocalAddr name = (case name of None \<Rightarrow> zero_addr | Some a \<Rightarrow> a)"

definition getPeerAddr :: "sockaddr_in option \<Rightarrow> sockaddr_in" where
  "getPeerAddr name = (case name of None \<Rightarrow> zero_addr | Some a \<Rightarrow> a)"

definition getSocketError :: "int \<Rightarrow> int \<Rightarrow> int \<Rightarrow> int" where
  "getSocketError ret err optval = (if ret < 0 then err else optval)"

definition isSelfConnect :: "sockaddr_in option \<Rightarrow> sockaddr_in option \<Rightarrow> bool" where
  "isSelfConnect local peer =
     (let localaddr = getLocalAddr local; peeraddr = getPeerAddr peer
      in sin_addr localaddr = sin_addr peeraddr \<and> sin_port localaddr = sin_port peeraddr)"

subsection \<open>The class Socket\<close>

text \<open>
  A socket is its descriptor. \<open>accept\<close> sets the address of its argument, here the second result, only
  when there is a connection. The other members pass their argument to the kernel.
\<close>

definition Socket_bindAddress :: "int \<Rightarrow> unit result" where
  "Socket_bindAddress ret = bindOrDie ret"

definition Socket_listen :: "int \<Rightarrow> unit result" where
  "Socket_listen ret = listenOrDie ret"

definition Socket_accept :: "int \<Rightarrow> int \<Rightarrow> sockaddr_in \<Rightarrow> sockaddr_in \<Rightarrow> (int \<times> sockaddr_in) result" where
  "Socket_accept accepted_fd saveError addr peeraddr =
     and_then (sockets_accept accepted_fd saveError) (\<lambda>connfd.
       Inr (connfd, if 0 \<le> connfd then addr else peeraddr))"

subsection \<open>The acceptor\<close>

record acceptor =
  acceptSocket :: int
  acceptChannel :: channel
  newConnectionCallback :: bool
  listening :: bool

definition new_acceptor :: "nat \<Rightarrow> int \<Rightarrow> int \<Rightarrow> acceptor result" where
  "new_acceptor this_loop sockfd bind_ret =
     and_then (createNonblockingOrDie sockfd) (\<lambda>fd.
       and_then (Socket_bindAddress bind_ret) (\<lambda>_.
         Inr \<lparr>acceptSocket = fd, acceptChannel = (new_channel this_loop fd)\<lparr>readCallback := True\<rparr>,
           newConnectionCallback = False, listening = False\<rparr>))"

definition acceptor_listen :: "bool \<Rightarrow> int \<Rightarrow> acceptor \<Rightarrow> acceptor result" where
  "acceptor_listen in_loop ret a =
     require in_loop (Fatal ''EventLoop::abortNotInLoopThread'')
       (and_then (Socket_listen ret) (\<lambda>_.
          Inr (a\<lparr>listening := True, acceptChannel := enableReading (acceptChannel a)\<rparr>)))"

datatype accept_outcome = NewConnection int sockaddr_in | CloseConnection int | NothingAccepted

definition acceptor_handleRead :: "int \<Rightarrow> int \<Rightarrow> sockaddr_in \<Rightarrow> int \<Rightarrow> acceptor \<Rightarrow> accept_outcome result" where
  "acceptor_handleRead accepted_fd saveError peer close_ret a =
     and_then (Socket_accept accepted_fd saveError peer (zero_addr\<lparr>sin_family := AF_INET\<rparr>)) (\<lambda>(connfd, peeraddr).
       if 0 \<le> connfd then
         if newConnectionCallback a then Inr (NewConnection connfd peeraddr)
         else and_then (sockets_close close_ret) (\<lambda>_. Inr (CloseConnection connfd))
       else Inr NothingAccepted)"

subsection \<open>Facts\<close>

lemma toHostPort_short:
  assumes "\<And>a s. ntop a = Some s \<Longrightarrow> length s \<le> 15"
  shows "InetAddress_toHostPort ntop h addr
    = (case ntop (sin_addr addr) of None \<Rightarrow> ''INVALID'' | Some s \<Rightarrow> s) @ '':'' @
      decimal (unat (networkToHost16 h (sin_port addr)))"
proof -
  have "unat (networkToHost16 h (sin_port addr)) < 2 ^ 16" using unsigned_less [of "networkToHost16 h (sin_port addr)"] by simp
  then have "length (decimal (unat (networkToHost16 h (sin_port addr)))) \<le> 5"
    by (intro length_decimal) simp_all
  moreover have "length (case ntop (sin_addr addr) of None \<Rightarrow> ''INVALID'' | Some s \<Rightarrow> s) \<le> 15"
    using assms by (simp split: option.split)
  ultimately show ?thesis
    by (simp add: InetAddress_toHostPort_def sockets_toHostPort_def snprintf_def)
qed

text \<open>Only a listed error lets the server go on; every other result is a descriptor or fatal.\<close>

lemma accept_outcome_cases:
  "case acceptor_handleRead afd err peer cr a of
     Inr (NewConnection n p) \<Rightarrow> 0 \<le> afd \<and> n = afd \<and> p = peer \<and> newConnectionCallback a
   | Inr (CloseConnection n) \<Rightarrow> 0 \<le> afd \<and> n = afd \<and> \<not> newConnectionCallback a
   | Inr NothingAccepted \<Rightarrow> afd < 0 \<and> err \<in> {EAGAIN, ECONNABORTED, EINTR, EPROTO, EPERM, EMFILE}
   | Inl e \<Rightarrow> afd < 0 \<and> err \<notin> {EAGAIN, ECONNABORTED, EINTR, EPROTO, EPERM, EMFILE} \<or>
       0 \<le> afd \<and> \<not> newConnectionCallback a \<and> cr < 0"
  by (auto simp: acceptor_handleRead_def Socket_accept_def sockets_accept_def sockets_close_def require_def)

end
