(* ===== verification/TcpServer.thy ===== *)
theory TcpServer
  imports Sockets
begin

section \<open>The server and its pool of loops: TcpServer and EventLoopThreadPool\<close>

text \<open>
  A server accepts in one loop and hands its connections to the loops of a pool, in turn. Loops are
  numbers. What the server keeps of a connection is its name, its loop and its descriptor; what it
  has other loops do is listed in \<open>requests\<close>.
\<close>

subsection \<open>EventLoopThreadPool\<close>

record thread_pool =
  baseLoop :: nat
  pool_started :: bool
  numThreads :: int
  next_index :: nat
  loops :: "nat list"

definition new_thread_pool :: "nat \<Rightarrow> thread_pool" where
  "new_thread_pool base = \<lparr>baseLoop = base, pool_started = False, numThreads = 0, next_index = 0, loops = []\<rparr>"

definition setThreadNum :: "int \<Rightarrow> thread_pool \<Rightarrow> thread_pool" where
  "setThreadNum n p = p\<lparr>numThreads := n\<rparr>"

text \<open>\<open>start_loop i\<close> is the loop that the \<open>i\<close>-th thread returns from \<open>startLoop\<close>.\<close>

definition pool_start :: "(nat \<Rightarrow> nat) \<Rightarrow> bool \<Rightarrow> thread_pool \<Rightarrow> thread_pool result" where
  "pool_start start_loop in_loop p =
     require (\<not> pool_started p) (AssertionFailed ''!started_'')
    (require in_loop (Fatal ''EventLoop::abortNotInLoopThread'')
      (Inr (p\<lparr>pool_started := True, loops := loops p @ map start_loop [0..<nat (numThreads p)]\<rparr>)))"

definition getNextLoop :: "bool \<Rightarrow> thread_pool \<Rightarrow> (nat \<times> thread_pool) result" where
  "getNextLoop in_loop p =
     require in_loop (Fatal ''EventLoop::abortNotInLoopThread'')
       (if loops p \<noteq> [] then
          (let loop = loops p ! next_index p;
               n = next_index p + 1
           in Inr (loop, p\<lparr>next_index := (if length (loops p) \<le> n then 0 else n)\<rparr>))
        else Inr (baseLoop p, p))"

definition pool_wf :: "thread_pool \<Rightarrow> bool" where
  "pool_wf p \<longleftrightarrow> (loops p \<noteq> [] \<longrightarrow> next_index p < length (loops p)) \<and> (loops p = [] \<longrightarrow> next_index p = 0)"

fun next_loops :: "nat \<Rightarrow> thread_pool \<Rightarrow> (nat list \<times> thread_pool) result" where
  "next_loops 0 p = Inr ([], p)"
| "next_loops (Suc n) p =
     and_then (getNextLoop True p) (\<lambda>(l, p'). and_then (next_loops n p') (\<lambda>(ls, p''). Inr (l # ls, p'')))"

subsection \<open>TcpServer\<close>

record server_conn =
  conn_name :: string
  conn_loop :: nat
  conn_fd :: int
  conn_local :: sockaddr_in
  conn_peer :: sockaddr_in

datatype request = Listen | Establish server_conn | Remove server_conn | Destroy server_conn

record tcp_server =
  server_name :: string
  server_loop :: nat
  acceptor :: acceptor
  pool :: thread_pool
  started :: bool
  nextConnId :: nat
  connections :: "string \<Rightarrow> server_conn option"
  requests :: "request list"

definition new_server ::
  "(u32 \<Rightarrow> string option) \<Rightarrow> host_order \<Rightarrow> nat \<Rightarrow> sockaddr_in \<Rightarrow> int \<Rightarrow> int \<Rightarrow> tcp_server result" where
  "new_server ntop h loop listenAddr sockfd bind_ret =
     and_then (new_acceptor loop sockfd bind_ret) (\<lambda>a.
       Inr \<lparr>server_name = InetAddress_toHostPort ntop h listenAddr, server_loop = loop,
         acceptor = a\<lparr>newConnectionCallback := True\<rparr>, pool = new_thread_pool loop, started = False,
         nextConnId = 1, connections = Map.empty, requests = []\<rparr>)"

definition server_setThreadNum :: "int \<Rightarrow> tcp_server \<Rightarrow> tcp_server result" where
  "server_setThreadNum n s = require (0 \<le> n) (AssertionFailed ''numThreads >= 0'')
     (Inr (s\<lparr>pool := setThreadNum n (pool s)\<rparr>))"

text \<open>\<open>start\<close> listens at once in the loop's own thread and has the loop do it otherwise.\<close>

definition server_start :: "(nat \<Rightarrow> nat) \<Rightarrow> bool \<Rightarrow> int \<Rightarrow> tcp_server \<Rightarrow> tcp_server result" where
  "server_start start_loop in_loop listen_ret s =
     and_then (if \<not> started s then
         and_then (pool_start start_loop in_loop (pool s)) (\<lambda>p. Inr (s\<lparr>pool := p, started := True\<rparr>))
       else Inr s)
       (\<lambda>s1. if \<not> listening (acceptor s1) then
          if in_loop then and_then (acceptor_listen in_loop listen_ret (acceptor s1)) (\<lambda>a. Inr (s1\<lparr>acceptor := a\<rparr>))
          else Inr (s1\<lparr>requests := requests s1 @ [Listen]\<rparr>)
        else Inr s1)"

definition conn_name_of :: "tcp_server \<Rightarrow> string" where
  "conn_name_of s = server_name s @ snprintf 32 (''#'' @ decimal (nextConnId s))"

definition newConnection :: "bool \<Rightarrow> int \<Rightarrow> sockaddr_in option \<Rightarrow> sockaddr_in \<Rightarrow> tcp_server \<Rightarrow> tcp_server result" where
  "newConnection in_loop sockfd sockname peerAddr s =
     require in_loop (Fatal ''EventLoop::abortNotInLoopThread'')
      (let connName = conn_name_of s;
           s1 = s\<lparr>nextConnId := nextConnId s + 1\<rparr>;
           localAddr = getLocalAddr sockname
       in and_then (getNextLoop in_loop (pool s1)) (\<lambda>(ioLoop, p).
            let conn = \<lparr>conn_name = connName, conn_loop = ioLoop, conn_fd = sockfd, conn_local = localAddr,
                  conn_peer = peerAddr\<rparr>
            in Inr (s1\<lparr>pool := p, connections := (connections s1)(connName \<mapsto> conn),
                 requests := requests s1 @ [Establish conn]\<rparr>)))"

text \<open>The listening socket is readable: \<open>Acceptor::handleRead\<close> with the server's callback.\<close>

definition server_readable :: "int \<Rightarrow> int \<Rightarrow> sockaddr_in \<Rightarrow> sockaddr_in option \<Rightarrow> tcp_server \<Rightarrow> tcp_server result" where
  "server_readable accepted_fd saveError peer sockname s =
     and_then (acceptor_handleRead accepted_fd saveError peer 0 (acceptor s)) (\<lambda>outcome.
       case outcome of NewConnection connfd peeraddr \<Rightarrow> newConnection True connfd sockname peeraddr s
       | _ \<Rightarrow> Inr s)"

definition removeConnectionInLoop :: "bool \<Rightarrow> server_conn \<Rightarrow> tcp_server \<Rightarrow> tcp_server result" where
  "removeConnectionInLoop in_loop conn s =
     require in_loop (Fatal ''EventLoop::abortNotInLoopThread'')
    (require (connections s (conn_name conn) \<noteq> None) (AssertionFailed ''n == 1'')
      (Inr (s\<lparr>connections := (connections s)(conn_name conn := None),
         requests := requests s @ [Destroy conn]\<rparr>)))"

text \<open>\<open>removeConnection\<close>, the close callback, runs in the connection's loop and has the accepting loop
  do the removal.\<close>

definition removeConnection :: "bool \<Rightarrow> server_conn \<Rightarrow> tcp_server \<Rightarrow> tcp_server result" where
  "removeConnection in_loop conn s =
     (if in_loop then removeConnectionInLoop in_loop conn s
      else Inr (s\<lparr>requests := requests s @ [Remove conn]\<rparr>))"

subsection \<open>Facts on the pool\<close>

lemma pool_wf_start:
  "next_index p = 0 \<Longrightarrow> pool_start f True p = Inr p' \<Longrightarrow> pool_wf p'"
  by (auto simp: pool_start_def pool_wf_def)

lemma getNextLoop_ok:
  assumes "pool_wf p"
  shows "\<exists>p'. getNextLoop True p = Inr (if loops p = [] then baseLoop p else loops p ! next_index p, p') \<and>
    pool_wf p' \<and> loops p' = loops p \<and> baseLoop p' = baseLoop p \<and>
    (loops p \<noteq> [] \<longrightarrow> next_index p' = (next_index p + 1) mod length (loops p))"
proof (cases "loops p = []")
  case False
  then have n: "next_index p < length (loops p)" using assms by (simp add: pool_wf_def)
  have "(if length (loops p) \<le> next_index p + 1 then 0 else next_index p + 1) = (next_index p + 1) mod length (loops p)"
    using n by (auto simp: not_le le_less_Suc_eq mod_Suc)
  moreover have "(next_index p + 1) mod length (loops p) < length (loops p)" using False by simp
  ultimately show ?thesis using False by (simp only: getNextLoop_def require_True Let_def if_True)
      (simp add: pool_wf_def)
qed (use assms in \<open>simp add: getNextLoop_def\<close>)

lemma next_loops_ok:
  "pool_wf p \<Longrightarrow> loops p \<noteq> [] \<Longrightarrow>
    \<exists>p'. next_loops n p = Inr (map (\<lambda>i. loops p ! ((next_index p + i) mod length (loops p))) [0..<n], p') \<and>
      pool_wf p' \<and> loops p' = loops p"
proof (induction n arbitrary: p)
  case (Suc n)
  from getNextLoop_ok [OF Suc.prems(1)] Suc.prems(2) obtain p1 where
    p1: "getNextLoop True p = Inr (loops p ! next_index p, p1)" "pool_wf p1" "loops p1 = loops p"
      "next_index p1 = (next_index p + 1) mod length (loops p)" by auto
  have n: "next_index p < length (loops p)" using Suc.prems by (simp add: pool_wf_def)
  have "(\<lambda>i. loops p ! ((next_index p1 + i) mod length (loops p))) = (\<lambda>i. loops p ! ((next_index p + Suc i) mod length (loops p)))"
    unfolding p1(4) by (simp add: mod_add_left_eq)
  moreover have "loops p ! (next_index p mod length (loops p)) = loops p ! next_index p" using n by simp
  ultimately show ?case using Suc.IH [OF p1(2)] Suc.prems(2) p1
    by (auto simp: upt_conv_Cons map_Suc_upt [symmetric] o_def simp del: upt_Suc)
qed simp

subsection \<open>Facts on the connection table\<close>

text \<open>The open connections \<open>cs\<close> of a server that has accepted and removed some.\<close>

inductive serves :: "tcp_server \<Rightarrow> server_conn list \<Rightarrow> bool" where
  serves_none: "connections s = Map.empty \<Longrightarrow> nextConnId s = 1 \<Longrightarrow> pool_wf (pool s) \<Longrightarrow>
    newConnectionCallback (acceptor s) \<Longrightarrow> serves s []"
| serves_accept: "serves s cs \<Longrightarrow> nextConnId s < 2 ^ 31 \<Longrightarrow> 0 \<le> accepted_fd \<Longrightarrow>
    server_readable accepted_fd err peer sockname s = Inr s' \<Longrightarrow>
    last (requests s') = Establish c \<Longrightarrow> serves s' (c # cs)"
| serves_nothing: "serves s cs \<Longrightarrow> accepted_fd < 0 \<Longrightarrow>
    server_readable accepted_fd err peer sockname s = Inr s' \<Longrightarrow> serves s' cs"
| serves_request: "serves s cs \<Longrightarrow> removeConnection False c s = Inr s' \<Longrightarrow> serves s' cs"
| serves_close: "serves s cs \<Longrightarrow> c \<in> set cs \<Longrightarrow> removeConnection True c s = Inr s' \<Longrightarrow>
    serves s' (remove1 c cs)"

definition name_of :: "string \<Rightarrow> nat \<Rightarrow> string" where
  "name_of base i = base @ snprintf 32 (''#'' @ decimal i)"

lemma name_of_inject:
  assumes "i \<le> 2 ^ 31" and "j \<le> 2 ^ 31" and "name_of base i = name_of base j"
  shows "i = j"
proof -
  have "length (decimal k) \<le> 10" if "k \<le> 2 ^ 31" for k
    by (rule length_decimal) (use that in simp_all)
  then have "snprintf 32 (''#'' @ decimal k) = ''#'' @ decimal k"
    if "k \<le> 2 ^ 31" for k
    using \<open>\<And>k. k \<le> 2 ^ 31 \<Longrightarrow> length (decimal k) \<le> 10\<close> [OF that] by (simp add: snprintf_def)
  then show ?thesis using assms by (simp add: name_of_def decimal_inject)
qed

definition server_inv :: "server_conn list \<Rightarrow> tcp_server \<Rightarrow> bool" where
  "server_inv cs s \<longleftrightarrow> 1 \<le> nextConnId s \<and> nextConnId s \<le> 2 ^ 31 \<and> pool_wf (pool s) \<and> newConnectionCallback (acceptor s) \<and>
     (\<forall>n c. connections s n = Some c \<longleftrightarrow> c \<in> set cs \<and> conn_name c = n) \<and> distinct (map conn_name cs) \<and>
     (\<forall>c \<in> set cs. \<exists>i < nextConnId s. conn_name c = name_of (server_name s) i)"

lemma server_inv_fresh:
  assumes "server_inv cs s" and "c \<in> set cs"
  shows "conn_name c \<noteq> conn_name_of s"
proof
  assume eq: "conn_name c = conn_name_of s"
  obtain i where i: "i < nextConnId s" "conn_name c = name_of (server_name s) i"
    using assms by (auto simp: server_inv_def)
  then have "name_of (server_name s) i = name_of (server_name s) (nextConnId s)"
    using eq by (simp add: conn_name_of_def name_of_def)
  then show False using name_of_inject [of i "nextConnId s"] i(1) assms(1) by (auto simp: server_inv_def)
qed

lemma newConnection_ok:
  assumes inv: "server_inv cs s" and lt: "nextConnId s < 2 ^ 31"
  shows "\<exists>s' c. newConnection True sockfd sockname peer s = Inr s' \<and> last (requests s') = Establish c \<and> conn_fd c = sockfd \<and>
    conn_name c = conn_name_of s \<and> conn_peer c = peer \<and> server_inv (c # cs) s'"
proof -
  have "pool_wf (pool s)" using inv by (simp add: server_inv_def)
  from getNextLoop_ok [OF this] obtain l p where p: "getNextLoop True (pool s) = Inr (l, p)" "pool_wf p" by blast
  let ?c = "\<lparr>conn_name = conn_name_of s, conn_loop = l, conn_fd = sockfd, conn_local = getLocalAddr sockname, conn_peer = peer\<rparr>"
  let ?s = "s\<lparr>nextConnId := nextConnId s + 1, pool := p, connections := (connections s)(conn_name_of s \<mapsto> ?c),
    requests := requests s @ [Establish ?c]\<rparr>"
  have "\<exists>i < nextConnId s + 1. conn_name c = name_of (server_name s) i" if "c \<in> set (?c # cs)" for c
  proof (cases "c = ?c")
    case True
    then show ?thesis by (intro exI [of _ "nextConnId s"]) (simp add: conn_name_of_def name_of_def)
  next
    case False
    then have "c \<in> set cs" using that by simp
    then obtain i where "i < nextConnId s" "conn_name c = name_of (server_name s) i"
      using inv unfolding server_inv_def by blast
    then show ?thesis by (intro exI [of _ i]) simp
  qed
  moreover have "connections ?s n = Some c \<longleftrightarrow> c \<in> set (?c # cs) \<and> conn_name c = n" for n c
    using inv server_inv_fresh [OF inv] by (auto simp: server_inv_def)
  moreover have "distinct (map conn_name (?c # cs))"
    using inv server_inv_fresh [OF inv] by (force simp: server_inv_def)
  moreover have "newConnectionCallback (acceptor s)" using inv by (simp add: server_inv_def)
  ultimately have "server_inv (?c # cs) ?s" using lt p(2) unfolding server_inv_def by simp
  then show ?thesis using p(1) by (intro exI [of _ ?s] exI [of _ ?c]) (simp add: newConnection_def Let_def)
qed

lemma removeConnectionInLoop_ok:
  assumes inv: "server_inv cs s" and c: "c \<in> set cs"
  shows "\<exists>s'. removeConnectionInLoop True c s = Inr s' \<and> server_inv (remove1 c cs) s'"
proof -
  let ?s = "s\<lparr>connections := (connections s)(conn_name c := None), requests := requests s @ [Destroy c]\<rparr>"
  have d: "distinct (map conn_name cs)" and m: "\<And>n x. connections s n = Some x \<longleftrightarrow> x \<in> set cs \<and> conn_name x = n"
    using inv by (simp_all add: server_inv_def)
  then have dc: "distinct cs" by (simp add: distinct_map)
  have same: "x = c" if "x \<in> set cs" "conn_name x = conn_name c" for x
    using d that c by (auto simp: distinct_map inj_on_def)
  have "connections s (conn_name c) = Some c" using m c by blast
  then have r: "removeConnectionInLoop True c s = Inr ?s" by (simp add: removeConnectionInLoop_def)
  have "connections ?s n = Some x \<longleftrightarrow> x \<in> set (remove1 c cs) \<and> conn_name x = n" for n x
    using m [of n x] same [of x] dc by auto
  moreover have "distinct (map conn_name (remove1 c cs))" using d by (simp add: distinct_map inj_on_def)
  moreover have "\<forall>x \<in> set (remove1 c cs). \<exists>i < nextConnId ?s. conn_name x = name_of (server_name ?s) i"
    using inv dc by (simp add: server_inv_def)
  ultimately have "server_inv (remove1 c cs) ?s" using inv unfolding server_inv_def by simp
  with r show ?thesis by blast
qed

lemma server_readable_accepts:
  "newConnectionCallback (acceptor s) \<Longrightarrow> 0 \<le> accepted_fd \<Longrightarrow>
    server_readable accepted_fd err peer sockname s = newConnection True accepted_fd sockname peer s"
  by (simp add: server_readable_def acceptor_handleRead_def Socket_accept_def sockets_accept_def)

lemma server_readable_nothing:
  "accepted_fd < 0 \<Longrightarrow> server_readable accepted_fd err peer sockname s = Inr s' \<Longrightarrow> s' = s"
  by (auto simp: server_readable_def acceptor_handleRead_def Socket_accept_def sockets_accept_def split: if_splits)

lemma server_inv_requests: "server_inv cs s \<Longrightarrow> server_inv cs (s\<lparr>requests := rs\<rparr>)"
  by (simp add: server_inv_def)

lemma serves_inv: "serves s cs \<Longrightarrow> server_inv cs s"
proof (induction rule: serves.induct)
  case (serves_accept s cs accepted_fd err peer sockname s' c)
  have "newConnectionCallback (acceptor s)" using serves_accept.IH by (simp add: server_inv_def)
  then show ?case
    using newConnection_ok [OF serves_accept.IH serves_accept.hyps(2), of accepted_fd sockname peer]
      serves_accept.hyps(3,4,5) by (auto simp: server_readable_accepts)
next
  case (serves_nothing s cs accepted_fd err peer sockname s')
  then show ?case using server_readable_nothing by blast
next
  case (serves_request s cs c s')
  then show ?case using server_inv_requests by (auto simp: removeConnection_def)
next
  case (serves_close s cs c s')
  from removeConnectionInLoop_ok [OF serves_close.IH serves_close.hyps(2)] serves_close.hyps(3)
  show ?case by (auto simp: removeConnection_def)
qed (simp add: server_inv_def)


subsection \<open>Properties\<close>

text \<open>The connection table of a server is exact: after any accepts, failed accepts and removals, up to
  the range of the \<open>int\<close> counter, every open connection is found under its name and no other is,
  names never repeat, so that accepting never replaces an entry, accepting succeeds for every
  descriptor, and the assertion of the removal holds for every open connection.\<close>

theorem connection_table_exact:
  assumes "serves s cs" and "nextConnId s < 2 ^ 31"
  shows "(\<forall>n c. connections s n = Some c \<longleftrightarrow> c \<in> set cs \<and> conn_name c = n) \<and> distinct (map conn_name cs) \<and>
    connections s (conn_name_of s) = None \<and>
    (\<forall>accepted_fd \<ge> 0. \<exists>s'. server_readable accepted_fd err peer sockname s = Inr s') \<and>
    (\<forall>c \<in> set cs. \<exists>s'. removeConnection True c s = Inr s')"
proof -
  have inv: "server_inv cs s" using serves_inv [OF assms(1)] .
  have "connections s (conn_name_of s) = None"
  proof (cases "connections s (conn_name_of s)")
    case (Some c)
    then have "c \<in> set cs" "conn_name c = conn_name_of s" using inv by (auto simp: server_inv_def)
    then show ?thesis using server_inv_fresh [OF inv] by blast
  qed simp
  moreover have "\<forall>n c. connections s n = Some c \<longleftrightarrow> c \<in> set cs \<and> conn_name c = n"
    using inv unfolding server_inv_def by (elim conjE)
  moreover have "distinct (map conn_name cs)" using inv unfolding server_inv_def by (elim conjE)
  moreover have "newConnectionCallback (acceptor s)" using inv unfolding server_inv_def by (elim conjE)
  then have "\<forall>accepted_fd \<ge> 0. \<exists>s'. server_readable accepted_fd err peer sockname s = Inr s'"
    using newConnection_ok [OF inv assms(2)] by (metis server_readable_accepts)
  moreover have "\<forall>c \<in> set cs. \<exists>s'. removeConnection True c s = Inr s'"
    using removeConnectionInLoop_ok [OF inv] by (simp add: removeConnection_def) blast
  ultimately show ?thesis by (intro conjI)
qed

definition small_server :: tcp_server where
  "small_server = \<lparr>server_name = ''a:1'', server_loop = 0,
     acceptor = \<lparr>acceptSocket = 4, acceptChannel = new_channel 0 4, newConnectionCallback = True, listening = True\<rparr>,
     pool = \<lparr>baseLoop = 0, pool_started = True, numThreads = 2, next_index = 0, loops = [1, 2]\<rparr>,
     started = True, nextConnId = 1, connections = Map.empty, requests = []\<rparr>"

theorem connection_table_exact_witness:
  "\<exists>s1 c s2. server_readable 7 0 zero_addr None small_server = Inr s1 \<and> last (requests s1) = Establish c \<and>
     conn_loop c = 1 \<and> removeConnection True c s1 = Inr s2"
proof -
  have s0: "serves small_server []"
    by (rule serves_none) (simp_all add: small_server_def pool_wf_def)
  define c where "c = \<lparr>conn_name = conn_name_of small_server, conn_loop = 1, conn_fd = 7, conn_local = zero_addr,
    conn_peer = zero_addr\<rparr>"
  define s1 where "s1 = small_server\<lparr>nextConnId := 2, pool := (pool small_server)\<lparr>next_index := 1\<rparr>,
    connections := [conn_name_of small_server \<mapsto> c], requests := [Establish c]\<rparr>"
  have n: "server_readable 7 0 zero_addr None small_server = Inr s1"
    unfolding s1_def c_def
    by (simp add: server_readable_accepts newConnection_def getNextLoop_def getLocalAddr_def Let_def small_server_def)
  have l: "last (requests s1) = Establish c" by (simp add: s1_def)
  have "serves s1 [c]"
    by (rule serves_accept [OF s0 _ _ n l]) (simp_all add: small_server_def)
  moreover have "nextConnId s1 < 2 ^ 31" by (simp add: s1_def)
  ultimately have "\<exists>s2. removeConnection True c s1 = Inr s2"
    using connection_table_exact [of s1 "[c]" 0 zero_addr None] by simp
  then show ?thesis using n l by (auto simp: c_def)
qed

text \<open>The pool hands out its loops in turn: the \<open>i\<close>-th request from any state of a started pool gets
  loop \<open>next_ + i\<close> modulo the number of loops.\<close>

theorem next_loops_round_robin:
  assumes "pool_wf p" and "loops p \<noteq> []"
  shows "\<exists>p'. next_loops n p = Inr (map (\<lambda>i. loops p ! ((next_index p + i) mod length (loops p))) [0..<n], p')"
  using next_loops_ok [OF assms] by blast

theorem next_loops_round_robin_witness:
  "\<exists>p'. next_loops 5 (pool small_server) = Inr ([1, 2, 1, 2, 1], p')"
proof -
  have "pool_wf (pool small_server)" "loops (pool small_server) \<noteq> []"
    by (simp_all add: small_server_def pool_wf_def)
  note r = next_loops_round_robin [OF this, of 5]
  have "map (\<lambda>i. loops (pool small_server) ! ((next_index (pool small_server) + i) mod length (loops (pool small_server)))) [0..<5]
      = [1, 2, 1, 2, 1]"
    by code_simp
  with r show ?thesis by simp
qed

end
