(* ===== verification/ServerLoop.thy ===== *)
theory ServerLoop
  imports ConnectionLoop ConnectionSteps TcpServer "HOL-Library.Multiset"
begin

section \<open>A server with its connections\<close>

text \<open>
  \<open>TcpServer\<close> and \<open>TcpConnection\<close> put together: the accepting loop, the loops of the pool and other
  threads take turns in any order. Each connection has its own list of pending functors, the part of
  its loop's queue that is about it; \<open>removals\<close> are the \<open>removeConnectionInLoop\<close> functors in the
  accepting loop's queue. What the server asks of other loops is handed over at once: a loop that is the
  current one runs a functor of \<open>runInLoop\<close> without queueing it, which is the run in which the
  functor's turn comes next.
\<close>

subsection \<open>What the user sees of a connection\<close>

text \<open>\<open>ups\<close> are the calls of the connection callback, with what \<open>connected()\<close> returned in each.\<close>

definition up_call :: "conn_effect \<Rightarrow> bool list" where
  "up_call e = (case e of UserCallback kind b \<Rightarrow> (if kind = ConnectionCallback then [b] else []) | _ \<Rightarrow> [])"

definition ups :: "tcp_connection \<Rightarrow> bool list" where
  "ups c = concat (map up_call (effects c))"

fun ups_in :: "conn_state \<Rightarrow> bool list" where
  "ups_in kConnecting = []"
| "ups_in kConnected = [True]"
| "ups_in kDisconnecting = [True]"
| "ups_in kDisconnected = [True, False]"

text \<open>The phases in the order in which a connection goes through them, the order of the type.\<close>

fun phase :: "conn_state \<Rightarrow> nat" where
  "phase kConnecting = 0"
| "phase kConnected = 1"
| "phase kDisconnecting = 2"
| "phase kDisconnected = 3"

instantiation conn_state :: linorder
begin

definition less_eq_conn_state :: "conn_state \<Rightarrow> conn_state \<Rightarrow> bool" where
  "less_eq_conn_state s s' \<longleftrightarrow> phase s \<le> phase s'"

definition less_conn_state :: "conn_state \<Rightarrow> conn_state \<Rightarrow> bool" where
  "less_conn_state s s' \<longleftrightarrow> phase s < phase s'"

instance
proof
  show "s = s'" if "s \<le> s'" "s' \<le> s" for s s' :: conn_state
    using that by (cases s; cases s') (simp_all add: less_eq_conn_state_def)
qed (auto simp: less_eq_conn_state_def less_conn_state_def)

end

definition tame :: "tcp_connection \<Rightarrow> tcp_connection \<Rightarrow> bool" where
  "tame c c' \<longleftrightarrow> ups c' = ups c \<and> set (toLoop c') \<subseteq> insert WriteComplete (set (toLoop c)) \<and>
     (state c' = state c \<or> state c = kConnected \<and> state c' = kDisconnecting)"

lemma tame_trans: "tame c c1 \<Longrightarrow> tame c1 c2 \<Longrightarrow> tame c c2"
  unfolding tame_def by auto

interpretation calm: conn_relation tame
proof
  show "tame c c1 \<Longrightarrow> tame c1 c2 \<Longrightarrow> tame c c2" for c c1 c2 by (rule tame_trans)
qed (auto simp: tame_def ups_def up_call_def update_chan_def)

text \<open>A functor either leaves the phase to \<open>shutdown\<close>, or it is one of the two that change it.\<close>

lemma run_functor_cases:
  assumes "run_functor net ucode f c = Inr c'"
  shows "f \<noteq> ConnectEstablished \<Longrightarrow> f \<noteq> ConnectDestroyed \<Longrightarrow> tame c c'"
    and "f = ConnectEstablished \<Longrightarrow> state c = kConnecting \<and> (state c' = kConnected \<or> state c' = kDisconnecting) \<and>
      ups c' = ups c @ [True] \<and> set (toLoop c') \<subseteq> insert WriteComplete (set (toLoop c))"
    and "f = ConnectDestroyed \<Longrightarrow> (state c = kConnected \<or> state c = kDisconnecting) \<and> state c' = kDisconnected \<and>
      ups c' = ups c @ [False] \<and> set (toLoop c') \<subseteq> insert WriteComplete (set (toLoop c))"
proof -
  show "tame c c'" if "f \<noteq> ConnectEstablished" "f \<noteq> ConnectDestroyed"
    using calm.run_functor_related [OF assms that] .
next
  assume "f = ConnectEstablished"
  with connectEstablished_callback [of net ucode c c'] assms
  have c: "state c = kConnecting"
    "call_user net ucode ConnectionCallback (update_chan enableReading (c\<lparr>state := kConnected\<rparr>)) = Inr c'" by simp_all
  from calm.call_user_related [OF c(2)] c(1)
  show "state c = kConnecting \<and> (state c' = kConnected \<or> state c' = kDisconnecting) \<and>
      ups c' = ups c @ [True] \<and> set (toLoop c') \<subseteq> insert WriteComplete (set (toLoop c))"
    by (auto simp: tame_def ups_def up_call_def connected_def update_chan_def)
next
  assume "f = ConnectDestroyed"
  with connectDestroyed_callback [of net ucode c c'] assms obtain c2 where
    c: "state c = kConnected \<or> state c = kDisconnecting"
      "call_user net ucode ConnectionCallback (update_chan disableAll (c\<lparr>state := kDisconnected, down := True\<rparr>)) = Inr c2"
      "c' = c2\<lparr>effects := effects c2 @ [RemoveChannel]\<rparr>" by blast
  from calm.call_user_related [OF c(2)] c(1,3)
  show "(state c = kConnected \<or> state c = kDisconnecting) \<and>
      state c' = kDisconnected \<and> ups c' = ups c @ [False] \<and> set (toLoop c') \<subseteq> insert WriteComplete (set (toLoop c))"
    by (auto simp: tame_def ups_def up_call_def connected_def update_chan_def)
qed

lemma tame_phase: "tame c c' \<Longrightarrow> state c \<le> state c'"
  by (auto simp: tame_def less_eq_conn_state_def)

lemma run_functor_phase: "run_functor net ucode f c = Inr c' \<Longrightarrow> state c \<le> state c'"
  using run_functor_cases [of net ucode f c c'] tame_phase [of c c']
  by (cases "f = ConnectEstablished"; cases "f = ConnectDestroyed") (auto simp: less_eq_conn_state_def)

subsection \<open>The server and its connections as one state\<close>

record hosting =
  serving :: tcp_server
  hosted :: "server_conn \<Rightarrow> (conn_functor list \<times> tcp_connection) option"
  removals :: "server_conn list"

definition new_hosting :: "tcp_server \<Rightarrow> hosting" where
  "new_hosting s = \<lparr>serving = s, hosted = Map.empty, removals = []\<rparr>"

definition queue_on :: "server_conn \<Rightarrow> conn_functor \<Rightarrow> hosting \<Rightarrow> hosting" where
  "queue_on c f h = (case hosted h c of None \<Rightarrow> h | Some (fs, t) \<Rightarrow> h\<lparr>hosted := (hosted h)(c \<mapsto> (fs @ [f], t))\<rparr>)"

fun hand_over :: "bool \<Rightarrow> request \<Rightarrow> hosting \<Rightarrow> hosting" where
  "hand_over wcc Listen h = h"
| "hand_over wcc (Establish c) h =
     h\<lparr>hosted := (hosted h)(c \<mapsto> ([ConnectEstablished], new_connection (conn_loop c) (conn_fd c) wcc))\<rparr>"
| "hand_over wcc (Remove c) h = h\<lparr>removals := removals h @ [c]\<rparr>"
| "hand_over wcc (Destroy c) h = queue_on c ConnectDestroyed h"

definition with_server :: "bool \<Rightarrow> tcp_server result \<Rightarrow> hosting \<Rightarrow> hosting result" where
  "with_server wcc r h =
     and_then r (\<lambda>s. Inr (fold (hand_over wcc) (requests s) (h\<lparr>serving := s\<lparr>requests := []\<rparr>\<rparr>)))"

definition closes :: "tcp_connection \<Rightarrow> nat" where
  "closes c = count_list (effects c) CloseCallback"

text \<open>
  A connection's code returns: what it queued goes to its loop, and for each call of the close callback the
  server removes the connection, at once where both run in one loop.
\<close>

definition close_callback :: "bool \<Rightarrow> server_conn \<Rightarrow> hosting \<Rightarrow> hosting result" where
  "close_callback wcc c h =
     with_server wcc (removeConnection (conn_loop c = server_loop (serving h)) c (serving h)) h"

definition return_to ::
  "bool \<Rightarrow> server_conn \<Rightarrow> conn_functor list \<Rightarrow> tcp_connection \<Rightarrow> tcp_connection result \<Rightarrow> hosting \<Rightarrow> hosting result" where
  "return_to wcc c fs t r h = and_then r (\<lambda>t'.
     for_each (close_callback wcc) (replicate (closes t' - closes t) c)
       (h\<lparr>hosted := (hosted h)(c \<mapsto> (fs @ toLoop t', t'\<lparr>toLoop := []\<rparr>))\<rparr>))"

datatype host_event =
    Incoming int int sockaddr_in "sockaddr_in option"
  | RunRemoval
  | RunFunctor server_conn
  | Report server_conn event_mask
  | SendFrom server_conn "byte list"
  | ShutdownFrom server_conn

fun host_step ::
  "(server_conn \<Rightarrow> net) \<Rightarrow> (server_conn \<Rightarrow> user_code) \<Rightarrow> bool \<Rightarrow> host_event \<Rightarrow> hosting \<Rightarrow> hosting result" where
  "host_step nets code wcc (Incoming accepted_fd err peer sockname) h =
     with_server wcc (server_readable accepted_fd err peer sockname (serving h)) h"
| "host_step nets code wcc RunRemoval h =
     (case removals h of
        [] \<Rightarrow> Inr h
      | c # cs \<Rightarrow> with_server wcc (removeConnectionInLoop True c (serving h)) (h\<lparr>removals := cs\<rparr>))"
| "host_step nets code wcc (RunFunctor c) h =
     (case hosted h c of
        Some (f # fs, t) \<Rightarrow> return_to wcc c fs t (run_functor (nets c) (code c) f t) h
      | _ \<Rightarrow> Inr h)"
| "host_step nets code wcc (Report c revt) h =
     (case hosted h c of
        Some (fs, t) \<Rightarrow>
          if reported revt t then return_to wcc c fs t (conn_event (nets c) (code c) revt t) h else Inr h
      | None \<Rightarrow> Inr h)"
| "host_step nets code wcc (SendFrom c m) h =
     (case hosted h c of Some (fs, t) \<Rightarrow> return_to wcc c fs t (send (nets c) False m t) h | None \<Rightarrow> Inr h)"
| "host_step nets code wcc (ShutdownFrom c) h =
     (case hosted h c of Some (fs, t) \<Rightarrow> return_to wcc c fs t (shutdown False t) h | None \<Rightarrow> Inr h)"

text \<open>
  What the world may do: the counter of the names is an \<open>int\<close>, \<open>accept\<close> fails only in ways the code expects,
  and polls report on connections only masks of \<open>masks\<close>, a parameter of the runs.
\<close>

fun host_enabled :: "(event_mask \<Rightarrow> bool) \<Rightarrow> hosting \<Rightarrow> host_event \<Rightarrow> bool" where
  "host_enabled masks h (Incoming accepted_fd err peer sockname) \<longleftrightarrow> nextConnId (serving h) < 2 ^ 31 \<and>
     (0 \<le> accepted_fd \<or> err \<in> {EAGAIN, ECONNABORTED, EINTR, EPROTO, EPERM, EMFILE})"
| "host_enabled masks h (Report c revt) \<longleftrightarrow> masks revt"
| "host_enabled masks h e \<longleftrightarrow> True"

inductive host_reaches ::
  "(event_mask \<Rightarrow> bool) \<Rightarrow> (server_conn \<Rightarrow> net) \<Rightarrow> (server_conn \<Rightarrow> user_code) \<Rightarrow> bool \<Rightarrow> hosting \<Rightarrow> hosting \<Rightarrow> bool" for masks nets code wcc h0 where
  host_here: "host_reaches masks nets code wcc h0 h0"
| host_next: "host_reaches masks nets code wcc h0 h \<Longrightarrow> host_enabled masks h e \<Longrightarrow>
    host_step nets code wcc e h = Inr h' \<Longrightarrow> host_reaches masks nets code wcc h0 h'"

subsection \<open>The invariant\<close>

text \<open>
  \<open>leaving\<close> lists the connections whose removal is on its way. An accepted connection is in the table until
  its removal has run; \<open>connectDestroyed\<close> is pending or done from then on.
\<close>

definition hosted_ok :: "net \<Rightarrow> server_conn list \<Rightarrow> server_conn list \<Rightarrow> server_conn \<Rightarrow> conn_functor list \<Rightarrow> tcp_connection \<Rightarrow> bool" where
  "hosted_ok net cs leaving c fs t \<longleftrightarrow>
     client_inv net (fs @ replicate (count_list leaving c) ConnectDestroyed) t \<and> ups t = ups_in (state t) \<and>
     (c \<in> set cs \<longleftrightarrow> ConnectDestroyed \<notin> set fs \<and> state t \<noteq> kDisconnected)"

definition host_inv :: "(server_conn \<Rightarrow> net) \<Rightarrow> server_conn list \<Rightarrow> server_conn list \<Rightarrow> hosting \<Rightarrow> bool" where
  "host_inv nets cs leaving h \<longleftrightarrow> server_inv cs (serving h) \<and> requests (serving h) = [] \<and>
     (\<forall>c. hosted h c = None \<longrightarrow> c \<notin> set cs \<and> c \<notin> set (removals h @ leaving)) \<and>
     (\<forall>c fs t. hosted h c = Some (fs, t) \<longrightarrow> hosted_ok (nets c) cs (removals h @ leaving) c fs t \<and>
        (\<exists>i < nextConnId (serving h). conn_name c = name_of (server_name (serving h)) i))"

lemma client_inv_mset:
  assumes "mset fs = mset gs" and "client_inv net fs c"
  shows "client_inv net gs c"
proof -
  have "set fs = set gs" using assms(1) by (rule mset_eq_setD)
  moreover have "count_list fs x = count_list gs x" for x
    using assms(1) by (metis count_mset)
  moreover have "fs = [x] \<longleftrightarrow> gs = [x]" for x using assms(1) by (metis mset.simps(1) mset.simps(2) mset_single_iff_right)
  ultimately show ?thesis using assms(2) unfolding client_inv_def by simp
qed

lemma host_invD:
  assumes "host_inv nets cs leaving h"
  shows "server_inv cs (serving h)" "requests (serving h) = []"
    "hosted h c = Some (fs, t) \<Longrightarrow> hosted_ok (nets c) cs (removals h @ leaving) c fs t"
    "hosted h c = Some (fs, t) \<Longrightarrow> \<exists>i < nextConnId (serving h). conn_name c = name_of (server_name (serving h)) i"
    "c \<in> set cs \<Longrightarrow> hosted h c \<noteq> None" "c \<in> set (removals h @ leaving) \<Longrightarrow> hosted h c \<noteq> None"
  using assms unfolding host_inv_def by blast+

text \<open>Removing a connection that is leaving: it is in the table, and its loop is asked to destroy it.\<close>

lemma leaving_in_table:
  assumes I: "host_inv nets cs leaving h" and c: "c \<in> set (removals h @ leaving)"
  shows "\<exists>fs t. hosted h c = Some (fs, t) \<and> c \<in> set cs \<and> ConnectDestroyed \<notin> set fs \<and>
    count_list (removals h @ leaving) c = 1"
proof -
  from host_invD(6) [OF I c] obtain fs t where h: "hosted h c = Some (fs, t)" by auto
  note ok = host_invD(3) [OF I h]
  have "count_list (removals h @ leaving) c \<noteq> 0" using c by (simp only: count_list_0_iff not_not)
  moreover have "count_list (fs @ replicate (count_list (removals h @ leaving) c) ConnectDestroyed) ConnectDestroyed
      = (if down t \<and> state t \<noteq> kDisconnected then 1 else 0)"
    using ok unfolding hosted_ok_def client_inv_def by (elim conjE)
  then have "count_list fs ConnectDestroyed + count_list (removals h @ leaving) c
      = (if down t \<and> state t \<noteq> kDisconnected then 1 else 0)"
    unfolding count_list_append [of fs] count_list_replicate_same .
  ultimately have "count_list fs ConnectDestroyed = 0" "count_list (removals h @ leaving) c = 1"
      "state t \<noteq> kDisconnected" by (auto split: if_splits)
  then show ?thesis using h ok by (auto simp: hosted_ok_def count_list_0_iff)
qed

lemma remove_leaving:
  assumes I: "host_inv nets cs [c] h"
  shows "\<exists>h'. with_server wcc (removeConnectionInLoop True c (serving h)) h = Inr h' \<and>
    host_inv nets (remove1 c cs) [] h'"
proof -
  have sv: "server_inv cs (serving h)" "requests (serving h) = []" using host_invD [OF I] by blast+
  obtain fs t where h: "hosted h c = Some (fs, t)" and c: "c \<in> set cs" "ConnectDestroyed \<notin> set fs"
      "count_list (removals h @ [c]) c = 1" using leaving_in_table [OF I, of c] by auto
  from removeConnectionInLoop_ok [OF sv(1) c(1)] obtain s where
    s: "removeConnectionInLoop True c (serving h) = Inr s" "server_inv (remove1 c cs) s" by blast
  then have sf: "requests s = [Destroy c]" "nextConnId s = nextConnId (serving h)" "server_name s = server_name (serving h)"
    using sv(2) by (auto simp: removeConnectionInLoop_def require_def split: if_splits)
  let ?h = "queue_on c ConnectDestroyed (h\<lparr>serving := s\<lparr>requests := []\<rparr>\<rparr>)"
  have r: "with_server wcc (removeConnectionInLoop True c (serving h)) h = Inr ?h"
    using s(1) sf(1) by (simp add: with_server_def)
  have hc: "?h = h\<lparr>serving := s\<lparr>requests := []\<rparr>, hosted := (hosted h)(c \<mapsto> (fs @ [ConnectDestroyed], t))\<rparr>"
    using h by (simp add: queue_on_def)
  have d: "distinct cs" using sv(1) by (simp add: server_inv_def distinct_map)
  have none: "count_list (removals h) c = 0" using c(3) by simp
  have "hosted_ok (nets c) (remove1 c cs) (removals h) c (fs @ [ConnectDestroyed]) t"
    using host_invD(3) [OF I h] none d by (simp add: hosted_ok_def)
  moreover have "hosted_ok (nets x) (remove1 c cs) (removals h) x gs u"
    if "x \<noteq> c" "hosted h x = Some (gs, u)" for x gs u
    using host_invD(3) [OF I that(2)] that(1) by (simp add: hosted_ok_def)
  moreover have "x \<notin> set cs \<and> x \<notin> set (removals h)" if "hosted h x = None" for x
    using host_invD(5,6) [OF I, of x] that by auto
  ultimately have "host_inv nets (remove1 c cs) [] ?h"
    unfolding hc host_inv_def using server_inv_requests [OF s(2)] sf host_invD(4) [OF I] host_invD(4) [OF I h]
    by (auto dest: notin_set_remove1)
  with r show ?thesis by blast
qed

lemma close_callback_ok:
  assumes I: "host_inv nets cs [c] h"
  shows "\<exists>cs' h'. close_callback wcc c h = Inr h' \<and> host_inv nets cs' [] h'"
proof (cases "conn_loop c = server_loop (serving h)")
  case True
  then have "removeConnection (conn_loop c = server_loop (serving h)) c (serving h)
      = removeConnectionInLoop True c (serving h)" by (simp add: removeConnection_def)
  then show ?thesis using remove_leaving [OF I, of wcc] unfolding close_callback_def by auto
next
  case False
  have "requests (serving h) = []" using host_invD(2) [OF I] .
  then have "(serving h)\<lparr>requests := []\<rparr> = serving h" by simp
  then have "close_callback wcc c h = Inr (h\<lparr>removals := removals h @ [c]\<rparr>)"
    using False \<open>requests (serving h) = []\<close> by (simp add: close_callback_def with_server_def removeConnection_def)
  moreover have "host_inv nets cs [] (h\<lparr>removals := removals h @ [c]\<rparr>)"
    using I by (simp add: host_inv_def)
  ultimately show ?thesis by blast
qed

text \<open>
  A connection's code returned. \<open>gs\<close> is what was pending, and what is pending now is its rest \<open>fs\<close> with what
  the code queued.
\<close>

lemma return_to_ok:
  assumes I: "host_inv nets cs [] h" and h: "hosted h c = Some (gs, t)"
    and set_r: "returns_or {} (\<lambda>(t', calls). client_inv (nets c) (fs @ replicate (count_list (removals h) c) ConnectDestroyed
        @ queued_by calls) t') (settle t r)"
    and r: "\<And>t'. r = Inr t' \<Longrightarrow> ups t' = ups_in (state t') \<and> ConnectDestroyed \<notin> set (toLoop t') \<and>
        (c \<in> set cs \<longleftrightarrow> ConnectDestroyed \<notin> set fs \<and> state t' \<noteq> kDisconnected)"
  shows "\<exists>cs' h'. return_to wcc c fs t r h = Inr h' \<and> host_inv nets cs' [] h'"
proof -
  from set_r obtain t' where t': "r = Inr t'" by (cases r) (simp_all add: settle_def)
  let ?k = "closes t' - closes t"
  let ?D = "ConnectDestroyed"
  let ?t = "t'\<lparr>toLoop := []\<rparr>"
  let ?h = "h\<lparr>hosted := (hosted h)(c \<mapsto> (fs @ toLoop t', ?t))\<rparr>"
  note t'_ok = r [OF t']
  have C: "client_inv (nets c) (fs @ replicate (count_list (removals h) c) ?D @ toLoop t' @ replicate ?k ?D) ?t"
    using set_r t' by (simp add: settle_def closes_def del: map_append map_replicate)
  have C': "client_inv (nets c) ((fs @ toLoop t') @ replicate (count_list (removals h @ replicate ?k c) c) ?D) ?t"
    by (rule client_inv_mset [OF _ C]) (simp add: replicate_add)
  have "hosted_ok (nets c) cs (removals h @ replicate ?k c) c (fs @ toLoop t') ?t"
    unfolding hosted_ok_def using C' t'_ok by (auto simp: ups_def)
  moreover have "hosted_ok (nets x) cs (removals h @ replicate ?k c) x ys u"
    if "x \<noteq> c" "hosted h x = Some (ys, u)" for x ys u
  proof -
    have "count_list (replicate ?k c) x = 0" using that(1) by (simp add: count_list_0_iff)
    then show ?thesis using host_invD(3) [OF I that(2)] by (simp add: hosted_ok_def)
  qed
  ultimately have I': "host_inv nets cs (replicate ?k c) ?h"
    using I h unfolding host_inv_def by auto
  have "count_list ((fs @ toLoop t') @ replicate (count_list (removals h @ replicate ?k c) c) ?D) ?D \<le> 1"
    using C' by (simp only: client_inv_def) (simp split: if_splits)
  then have "?k \<le> 1" unfolding count_list_append count_list_replicate_same by simp
  then consider "?k = 0" | "?k = 1" by linarith
  then show ?thesis
  proof cases
    case 1
    then show ?thesis using I' t' by (auto simp: return_to_def)
  next
    case 2
    then have "host_inv nets cs [c] ?h" using I' by simp
    from close_callback_ok [OF this, of wcc] show ?thesis using 2 t' by (auto simp: return_to_def)
  qed
qed

text \<open>The cases of \<open>return_to\<close>: an event or a call leaves the phase to \<open>shutdown\<close>.\<close>

lemma tame_ups: "tame t t' \<Longrightarrow> ups t = ups_in (state t) \<Longrightarrow> ups t' = ups_in (state t')"
  by (auto simp: tame_def)

lemma tame_destroyed: "tame t t' \<Longrightarrow> state t' = kDisconnected \<longleftrightarrow> state t = kDisconnected"
  by (auto simp: tame_def)

lemma run_functor_ok:
  assumes I: "host_inv nets cs [] h" and h: "hosted h c = Some (f # fs, t)"
  shows "\<exists>cs' h'. return_to wcc c fs t (run_functor (nets c) (code c) f t) h = Inr h' \<and> host_inv nets cs' [] h'"
proof (rule return_to_ok [OF I h])
  have ok: "hosted_ok (nets c) cs (removals h) c (f # fs) t" using host_invD(3) [OF I h] by simp
  then have C: "client_inv (nets c) (f # fs @ replicate (count_list (removals h) c) ConnectDestroyed) t"
    by (simp add: hosted_ok_def)
  from run_conn_ok [OF this, of "code c"]
  show "returns_or {} (\<lambda>(t', calls). client_inv (nets c) (fs @ replicate (count_list (removals h) c) ConnectDestroyed
        @ queued_by calls) t') (settle t (run_functor (nets c) (code c) f t))"
    by (simp add: run_conn_def)
  fix t'
  assume r: "run_functor (nets c) (code c) f t = Inr t'"
  have tl: "toLoop t = []" and u: "ups t = ups_in (state t)"
    and tab: "c \<in> set cs \<longleftrightarrow> ConnectDestroyed \<notin> set (f # fs) \<and> state t \<noteq> kDisconnected"
    using ok by (simp_all add: hosted_ok_def client_inv_def)
  consider "f = ConnectEstablished" | "f = ConnectDestroyed" | "f \<noteq> ConnectEstablished" "f \<noteq> ConnectDestroyed" by blast
  then show "ups t' = ups_in (state t') \<and> ConnectDestroyed \<notin> set (toLoop t') \<and>
        (c \<in> set cs \<longleftrightarrow> ConnectDestroyed \<notin> set fs \<and> state t' \<noteq> kDisconnected)"
  proof cases
    case 1
    with run_functor_cases(2) [OF r] tl u tab show ?thesis by auto
  next
    case 2
    with run_functor_cases(3) [OF r] tl u tab show ?thesis by auto
  next
    case 3
    from run_functor_cases(1) [OF r 3] have "tame t t'" .
    with tame_ups [OF this u] tame_destroyed [OF this] tl tab 3 show ?thesis by (auto simp: tame_def)
  qed
qed

lemma event_ok:
  assumes I: "host_inv nets cs [] h" and h: "hosted h c = Some (fs, t)" and o: "ordinary revt" and "reported revt t"
  shows "\<exists>cs' h'. return_to wcc c fs t (conn_event (nets c) (code c) revt t) h = Inr h' \<and> host_inv nets cs' [] h'"
proof (rule return_to_ok [OF I h])
  have ok: "hosted_ok (nets c) cs (removals h) c fs t" using host_invD(3) [OF I h] by simp
  then have "client_inv (nets c) (fs @ replicate (count_list (removals h) c) ConnectDestroyed) t"
    by (simp add: hosted_ok_def)
  from handle_conn_ok [OF o this, of "code c"] assms(4)
  show "returns_or {} (\<lambda>(t', calls). client_inv (nets c) (fs @ replicate (count_list (removals h) c) ConnectDestroyed
        @ queued_by calls) t') (settle t (conn_event (nets c) (code c) revt t))"
    by (simp add: handle_conn_def)
  fix t'
  assume "conn_event (nets c) (code c) revt t = Inr t'"
  then have "tame t t'" by (rule calm.conn_event_related)
  with ok tame_ups [OF this] tame_destroyed [OF this]
  show "ups t' = ups_in (state t') \<and> ConnectDestroyed \<notin> set (toLoop t') \<and>
        (c \<in> set cs \<longleftrightarrow> ConnectDestroyed \<notin> set fs \<and> state t' \<noteq> kDisconnected)"
    by (auto simp: hosted_ok_def client_inv_def tame_def)
qed

text \<open>\<open>send\<close> and \<open>shutdown\<close> called in another thread only queue.\<close>

lemma outside_ok:
  assumes I: "host_inv nets cs [] h" and h: "hosted h c = Some (fs, t)"
    and r: "r = Inr t \<or> (\<exists>f t1. r = Inr (queue_functor f t1) \<and> post_conn t f t1)"
  shows "\<exists>cs' h'. return_to wcc c fs t r h = Inr h' \<and> host_inv nets cs' [] h'"
proof (rule return_to_ok [OF I h])
  have ok: "hosted_ok (nets c) cs (removals h) c fs t" using host_invD(3) [OF I h] by simp
  let ?D = "replicate (count_list (removals h) c) ConnectDestroyed"
  have C: "client_inv (nets c) (fs @ ?D) t" using ok by (simp add: hosted_ok_def)
  then have tl: "toLoop t = []" by (simp add: client_inv_def)
  have q: "settle t (Inr (queue_functor f t1)) = Inr (t1, [QueueCall f])" if "post_conn t f t1" for f t1
    using that tl by (auto simp: settle_def queue_functor_def elim!: post_connE)
  show "returns_or {} (\<lambda>(t', calls). client_inv (nets c) (fs @ ?D @ queued_by calls) t') (settle t r)"
  proof (cases "r = Inr t")
    case True
    then have "settle t r = Inr (t, [])" using tl by (simp add: settle_def)
    then show ?thesis using C by simp
  next
    case False
    then obtain f t1 where f: "r = Inr (queue_functor f t1)" "post_conn t f t1" using r by blast
    show ?thesis using post_conn_ok [OF C f(2)] unfolding f(1) q [OF f(2)] by simp
  qed
  show "ups t' = ups_in (state t') \<and> ConnectDestroyed \<notin> set (toLoop t') \<and>
        (c \<in> set cs \<longleftrightarrow> ConnectDestroyed \<notin> set fs \<and> state t' \<noteq> kDisconnected)" if "r = Inr t'" for t'
    using that r ok tl by (auto simp: hosted_ok_def queue_functor_def ups_def elim!: post_connE)
qed

lemma incoming_ok:
  assumes I: "host_inv nets cs [] h" and e: "host_enabled masks h (Incoming accepted_fd err peer sockname)"
    and w: "\<And>c. write_ok (nets c)"
  shows "\<exists>cs' h'. host_step nets code wcc (Incoming accepted_fd err peer sockname) h = Inr h' \<and> host_inv nets cs' [] h'"
proof (cases "0 \<le> accepted_fd")
  case False
  then have "server_readable accepted_fd err peer sockname (serving h) = Inr (serving h)"
    using e by (simp add: server_readable_def acceptor_handleRead_def Socket_accept_def sockets_accept_def)
  moreover have "(serving h)\<lparr>requests := []\<rparr> = serving h" using host_invD(2) [OF I] by simp
  ultimately have "host_step nets code wcc (Incoming accepted_fd err peer sockname) h = Inr h"
    using host_invD(2) [OF I] by (simp add: with_server_def)
  with I show ?thesis by blast
next
  case True
  have sv: "server_inv cs (serving h)" "requests (serving h) = []" using host_invD [OF I] by blast+
  then have cb: "newConnectionCallback (acceptor (serving h))" by (simp add: server_inv_def)
  have lt: "nextConnId (serving h) < 2 ^ 31" using e by simp
  from newConnection_ok [OF sv(1) lt, of accepted_fd sockname peer] obtain s c where
    s: "newConnection True accepted_fd sockname peer (serving h) = Inr s" "last (requests s) = Establish c"
      "conn_name c = conn_name_of (serving h)" "server_inv (c # cs) s" by blast
  then have sf: "requests s = [Establish c]" "nextConnId s = Suc (nextConnId (serving h))"
      "server_name s = server_name (serving h)"
    using sv(2) by (auto simp: newConnection_def Let_def and_then_Inr_iff)
  let ?t = "new_connection (conn_loop c) (conn_fd c) wcc"
  let ?h = "h\<lparr>serving := s\<lparr>requests := []\<rparr>, hosted := (hosted h)(c \<mapsto> ([ConnectEstablished], ?t))\<rparr>"
  have r: "host_step nets code wcc (Incoming accepted_fd err peer sockname) h = Inr ?h"
    using server_readable_accepts [OF cb True] s(1) sf(1) by (simp add: with_server_def)
  have new: "hosted h c = None"
  proof (cases "hosted h c")
    case (Some x)
    then obtain gs u where "hosted h c = Some (gs, u)" by (cases x) auto
    from host_invD(4) [OF I this] obtain i where
      i: "i < nextConnId (serving h)" "conn_name c = name_of (server_name (serving h)) i" by blast
    then have "name_of (server_name (serving h)) i = name_of (server_name (serving h)) (nextConnId (serving h))"
      using s(3) by (simp add: conn_name_of_def name_of_def)
    then have "i = nextConnId (serving h)" by (rule name_of_inject [rotated 2]) (use i(1) lt in simp_all)
    then show ?thesis using i(1) by simp
  qed simp
  then have fresh: "c \<notin> set cs" "c \<notin> set (removals h)" using host_invD(5,6) [OF I, of c] by auto
  have "hosted_ok (nets c) (c # cs) (removals h) c [ConnectEstablished] ?t"
    using fresh w [of c] conn_inv_new
    by (simp add: hosted_ok_def client_inv_def count_list_0_iff) (simp add: new_connection_def ups_def)
  moreover have "hosted_ok (nets x) (c # cs) (removals h) x gs u" if "x \<noteq> c" "hosted h x = Some (gs, u)" for x gs u
    using host_invD(3) [OF I that(2)] that(1) by (simp add: hosted_ok_def)
  moreover have "conn_name c = name_of (server_name s) (nextConnId (serving h))"
    using s(3) sf(3) by (simp add: conn_name_of_def name_of_def)
  moreover have "\<exists>i < nextConnId s. conn_name x = name_of (server_name s) i" if "hosted h x = Some (gs, u)" for x gs u
    using host_invD(4) [OF I that] sf(2,3) less_Suc_eq by auto
  moreover have "x \<notin> set cs \<and> x \<notin> set (removals h)" if "hosted h x = None" for x
    using host_invD(5,6) [OF I, of x] that by auto
  ultimately have "host_inv nets (c # cs) [] ?h"
    using server_inv_requests [OF s(4)] sf(2) unfolding host_inv_def by auto
  with r show ?thesis by blast
qed

lemma host_step_ok:
  assumes I: "host_inv nets cs [] h" and e: "host_enabled ordinary h e" and w: "\<And>c. write_ok (nets c)"
  shows "\<exists>cs' h'. host_step nets code wcc e h = Inr h' \<and> host_inv nets cs' [] h'"
proof (cases e)
  case (Incoming accepted_fd err peer sockname)
  with incoming_ok [OF I _ w] e show ?thesis by simp
next
  case RunRemoval
  show ?thesis
  proof (cases "removals h")
    case (Cons c xs)
    have "hosted_ok (nets x) cs (xs @ [c]) x gs u = hosted_ok (nets x) cs (c # xs) x gs u" for x gs u
      by (simp add: hosted_ok_def)
    then have "host_inv nets cs [c] (h\<lparr>removals := xs\<rparr>)" using I Cons by (auto simp: host_inv_def)
    from remove_leaving [OF this, of wcc] show ?thesis using RunRemoval Cons by auto
  qed (use I RunRemoval in auto)
next
  case (RunFunctor c)
  show ?thesis
  proof (cases "hosted h c")
    case (Some x)
    then obtain fs t where h: "hosted h c = Some (fs, t)" by (cases x) auto
    show ?thesis
    proof (cases fs)
      case (Cons f fs')
      then show ?thesis using run_functor_ok [OF I, of c f fs' t wcc code] RunFunctor h by simp
    qed (use RunFunctor h I in auto)
  qed (use RunFunctor I in auto)
next
  case (Report c revt)
  show ?thesis
  proof (cases "hosted h c")
    case (Some x)
    then obtain fs t where h: "hosted h c = Some (fs, t)" by (cases x) auto
    show ?thesis
    proof (cases "reported revt t")
      case True
      then show ?thesis using event_ok [OF I h _ True, of wcc code] Report h e by simp
    qed (use Report h I in auto)
  qed (use Report I in auto)
next
  case (SendFrom c m)
  show ?thesis
  proof (cases "hosted h c")
    case (Some x)
    then obtain fs t where h: "hosted h c = Some (fs, t)" by (cases x) auto
    have "send (nets c) False m t = Inr t \<or>
        (\<exists>f t1. send (nets c) False m t = Inr (queue_functor f t1) \<and> post_conn t f t1)"
      using post_send [of t m] by (cases "state t = kConnected") (auto simp: send_def)
    from outside_ok [OF I h this, of wcc] show ?thesis using SendFrom h by simp
  qed (use SendFrom I in auto)
next
  case (ShutdownFrom c)
  show ?thesis
  proof (cases "hosted h c")
    case (Some x)
    then obtain fs t where h: "hosted h c = Some (fs, t)" by (cases x) auto
    have "shutdown False t = Inr t \<or>
        (\<exists>f t1. shutdown False t = Inr (queue_functor f t1) \<and> post_conn t f t1)"
      using post_shutdown [of t] by (auto simp: shutdown_def)
    from outside_ok [OF I h this, of wcc] show ?thesis using ShutdownFrom h by simp
  qed (use ShutdownFrom I in auto)
qed

lemma host_reaches_inv:
  assumes "host_reaches ordinary nets code wcc (new_hosting s) h" and "serves s []" and "requests s = []"
    and w: "\<And>c. write_ok (nets c)"
  shows "\<exists>cs. host_inv nets cs [] h"
  using assms(1)
proof (induction rule: host_reaches.induct)
  case host_here
  have "host_inv nets [] [] (new_hosting s)"
    using serves_inv [OF assms(2)] assms(3) by (simp add: host_inv_def new_hosting_def)
  then show ?case by blast
next
  case (host_next h e h')
  then obtain cs where "host_inv nets cs [] h" by blast
  from host_step_ok [OF this host_next.hyps(2) w, of code wcc] host_next.hyps(3) show ?case by auto
qed

subsection \<open>Any mask\<close>

text \<open>
  Where polls report any masks, a connection may be closed twice by one event, and its second removal
  fails. What is left of the invariant holds as long as the server runs: \<open>gone\<close> are the connections whose
  removal is on its way, however often.
\<close>

definition hosted_any :: "net \<Rightarrow> server_conn list \<Rightarrow> server_conn list \<Rightarrow> server_conn \<Rightarrow> conn_functor list \<Rightarrow> tcp_connection \<Rightarrow> bool" where
  "hosted_any net cs gone c fs t \<longleftrightarrow> open_inv net fs t \<and> ups t = ups_in (state t) \<and>
     (c \<in> set cs \<longleftrightarrow> ConnectDestroyed \<notin> set fs \<and> state t \<noteq> kDisconnected) \<and>
     (c \<in> set gone \<longrightarrow> state t \<noteq> kConnecting)"

definition host_any :: "(server_conn \<Rightarrow> net) \<Rightarrow> server_conn list \<Rightarrow> server_conn list \<Rightarrow> hosting \<Rightarrow> bool" where
  "host_any nets cs leaving h \<longleftrightarrow> server_inv cs (serving h) \<and> requests (serving h) = [] \<and>
     (\<forall>c. hosted h c = None \<longrightarrow> c \<notin> set cs \<and> c \<notin> set (removals h @ leaving)) \<and>
     (\<forall>c fs t. hosted h c = Some (fs, t) \<longrightarrow> hosted_any (nets c) cs (removals h @ leaving) c fs t \<and>
        (\<exists>i < nextConnId (serving h). conn_name c = name_of (server_name (serving h)) i)) \<and>
     inj_on conn_name (dom (hosted h))"

lemma host_anyD:
  assumes "host_any nets cs leaving h"
  shows "server_inv cs (serving h)" "requests (serving h) = []"
    "hosted h c = Some (fs, t) \<Longrightarrow> hosted_any (nets c) cs (removals h @ leaving) c fs t"
    "hosted h c = Some (fs, t) \<Longrightarrow> \<exists>i < nextConnId (serving h). conn_name c = name_of (server_name (serving h)) i"
    "c \<in> set cs \<Longrightarrow> hosted h c \<noteq> None" "c \<in> set (removals h @ leaving) \<Longrightarrow> hosted h c \<noteq> None"
    "inj_on conn_name (dom (hosted h))"
  using assms unfolding host_any_def by blast+

lemma remove_any:
  assumes I: "host_any nets cs leaving h" and c: "c \<in> set (removals h @ leaving)"
    and r: "with_server wcc (removeConnectionInLoop True c (serving h)) h = Inr h'"
  shows "\<exists>cs'. host_any nets cs' leaving h'"
proof -
  have sv: "server_inv cs (serving h)" "requests (serving h) = []" using host_anyD [OF I] by blast+
  obtain fs t where h: "hosted h c = Some (fs, t)" using host_anyD(6) [OF I c] by auto
  obtain s where s: "removeConnectionInLoop True c (serving h) = Inr s"
    and h': "h' = fold (hand_over wcc) (requests s) (h\<lparr>serving := s\<lparr>requests := []\<rparr>\<rparr>)"
    using r by (auto simp: with_server_def and_then_Inr_iff)
  then obtain d where "connections (serving h) (conn_name c) = Some d"
    by (auto simp: removeConnectionInLoop_def require_def split: if_splits)
  then have d: "d \<in> set cs" "conn_name d = conn_name c" using sv(1) by (auto simp: server_inv_def)
  moreover have "d \<in> dom (hosted h)" "c \<in> dom (hosted h)" using host_anyD(5) [OF I d(1)] h by auto
  ultimately have c: "c \<in> set cs" using host_anyD(7) [OF I] by (metis inj_onD)
  from removeConnectionInLoop_ok [OF sv(1) this] s have s': "server_inv (remove1 c cs) s" by simp
  have sf: "requests s = [Destroy c]" "nextConnId s = nextConnId (serving h)" "server_name s = server_name (serving h)"
    using s sv(2) by (auto simp: removeConnectionInLoop_def require_def split: if_splits)
  then have hc: "h' = h\<lparr>serving := s\<lparr>requests := []\<rparr>, hosted := (hosted h)(c \<mapsto> (fs @ [ConnectDestroyed], t))\<rparr>"
    using h' h by (simp add: queue_on_def)
  have dist: "distinct cs" using sv(1) by (simp add: server_inv_def distinct_map)
  have "state t \<noteq> kConnecting" using host_anyD(3) [OF I h] assms(2) by (auto simp: hosted_any_def)
  then have "hosted_any (nets c) (remove1 c cs) (removals h @ leaving) c (fs @ [ConnectDestroyed]) t"
    using host_anyD(3) [OF I h] dist by (simp add: hosted_any_def open_inv_def)
  moreover have "hosted_any (nets x) (remove1 c cs) (removals h @ leaving) x gs u"
    if "x \<noteq> c" "hosted h x = Some (gs, u)" for x gs u
    using host_anyD(3) [OF I that(2)] that(1) by (simp add: hosted_any_def)
  moreover have "x \<notin> set cs \<and> x \<notin> set (removals h @ leaving)" if "hosted h x = None" for x
    using host_anyD(5,6) [OF I, of x] that by auto
  moreover have "dom (hosted h') = dom (hosted h)" using hc h by auto
  ultimately have "host_any nets (remove1 c cs) leaving h'"
    unfolding hc host_any_def using server_inv_requests [OF s'] sf host_anyD(4) [OF I] host_anyD(4) [OF I h] host_anyD(7) [OF I] hc
    by (auto dest: notin_set_remove1)
  then show ?thesis by blast
qed

lemma close_callback_any:
  assumes I: "host_any nets cs leaving h" and c: "c \<in> set leaving" and r: "close_callback wcc c h = Inr h'"
  shows "\<exists>cs'. host_any nets cs' leaving h'"
proof (cases "conn_loop c = server_loop (serving h)")
  case True
  then have "with_server wcc (removeConnectionInLoop True c (serving h)) h = Inr h'"
    using r by (simp add: close_callback_def removeConnection_def)
  with remove_any [OF I] c show ?thesis by auto
next
  case False
  have rq: "requests (serving h) = []" using host_anyD(2) [OF I] .
  then have e: "(serving h)\<lparr>requests := []\<rparr> = serving h" by simp
  then have "h' = h\<lparr>removals := removals h @ [c]\<rparr>"
    using r False rq by (simp add: close_callback_def with_server_def removeConnection_def e)
  moreover have "set ((removals h @ [c]) @ leaving) = set (removals h @ leaving)" using c by auto
  ultimately have "host_any nets cs leaving h'" using I by (simp add: host_any_def hosted_any_def insert_absorb)
  then show ?thesis by blast
qed

lemma host_any_fewer:
  "host_any nets cs leaving h \<Longrightarrow> set leaving' \<subseteq> set leaving \<Longrightarrow> host_any nets cs leaving' h"
  unfolding host_any_def hosted_any_def by auto

lemma open_inv_drop:
  assumes "open_inv net (fs @ replicate k ConnectDestroyed) t"
  shows "open_inv net fs t" and "0 < k \<Longrightarrow> state t \<noteq> kConnecting"
proof -
  have "k = 0" if "fs @ replicate k ConnectDestroyed = [ConnectEstablished]"
    using that by (cases k; cases fs) (auto simp: append_eq_Cons_conv)
  then show "open_inv net fs t" "0 < k \<Longrightarrow> state t \<noteq> kConnecting" using assms by (auto simp: open_inv_def)
qed

lemma return_to_any:
  assumes I: "host_any nets cs [] h" and h: "hosted h c = Some (gs, t)"
    and set_r: "returns_or X (\<lambda>(t', calls). open_inv (nets c) (fs @ queued_by calls) t') (settle t r)"
    and r: "\<And>t'. r = Inr t' \<Longrightarrow> ups t' = ups_in (state t') \<and> ConnectDestroyed \<notin> set (toLoop t') \<and>
        (c \<in> set cs \<longleftrightarrow> ConnectDestroyed \<notin> set fs \<and> state t' \<noteq> kDisconnected) \<and> (state t \<noteq> kConnecting \<longrightarrow> state t' \<noteq> kConnecting)"
    and ret: "return_to wcc c fs t r h = Inr h'"
  shows "\<exists>cs'. host_any nets cs' [] h'"
proof -
  obtain t' where t': "r = Inr t'" using ret by (auto simp: return_to_def and_then_Inr_iff)
  let ?k = "closes t' - closes t"
  let ?t = "t'\<lparr>toLoop := []\<rparr>"
  let ?h = "h\<lparr>hosted := (hosted h)(c \<mapsto> (fs @ toLoop t', ?t))\<rparr>"
  note t'_ok = r [OF t']
  have "open_inv (nets c) (fs @ toLoop t' @ replicate ?k ConnectDestroyed) ?t"
    using set_r t' by (simp add: settle_def closes_def del: map_append map_replicate)
  then have C: "open_inv (nets c) (fs @ toLoop t') ?t" and up: "0 < ?k \<Longrightarrow> state t' \<noteq> kConnecting"
    using open_inv_drop [of "nets c" "fs @ toLoop t'" ?k ?t] by simp_all
  have "hosted_any (nets c) cs (removals h @ replicate ?k c) c (fs @ toLoop t') ?t"
    unfolding hosted_any_def using C t'_ok up host_anyD(3) [OF I h] by (auto simp: ups_def hosted_any_def)
  moreover have "hosted_any (nets x) cs (removals h @ replicate ?k c) x ys u" if "x \<noteq> c" "hosted h x = Some (ys, u)" for x ys u
    using host_anyD(3) [OF I that(2)] that(1) by (auto simp: hosted_any_def)
  moreover have "dom (hosted ?h) = dom (hosted h)" using h by auto
  ultimately have I': "host_any nets cs (replicate ?k c) ?h"
    using I h unfolding host_any_def by auto
  have run: "for_each (close_callback wcc) (replicate ?k c) ?h = Inr h'" using ret t' by (simp add: return_to_def)
  have "\<exists>cs'. host_any nets cs' (replicate ?k c) h'"
  proof (rule for_each_preserves [OF _ _ run])
    show "\<exists>cs'. host_any nets cs' (replicate ?k c) s'"
      if "\<exists>cs'. host_any nets cs' (replicate ?k c) s" "x \<in> set (replicate ?k c)" "close_callback wcc x s = Inr s'" for x s s'
      using that close_callback_any by blast
  qed (use I' in blast)
  then show ?thesis using host_any_fewer [of nets _ "replicate ?k c" h' "[]"] by auto
qed

lemma run_functor_any:
  assumes I: "host_any nets cs [] h" and h: "hosted h c = Some (f # fs, t)"
    and ret: "return_to wcc c fs t (run_functor (nets c) (code c) f t) h = Inr h'"
  shows "\<exists>cs'. host_any nets cs' [] h'"
proof (rule return_to_any [OF I h _ _ ret])
  have ok: "hosted_any (nets c) cs (removals h) c (f # fs) t" using host_anyD(3) [OF I h] by simp
  then have "open_inv (nets c) (f # fs) t" by (simp add: hosted_any_def)
  from run_conn_open [OF this, of "code c"]
  show "returns_or {destroyed_twice} (\<lambda>(t', calls). open_inv (nets c) (fs @ queued_by calls) t')
      (settle t (run_functor (nets c) (code c) f t))" by (simp add: run_conn_def)
  fix t'
  assume r: "run_functor (nets c) (code c) f t = Inr t'"
  have tl: "toLoop t = []" and u: "ups t = ups_in (state t)"
    and tab: "c \<in> set cs \<longleftrightarrow> ConnectDestroyed \<notin> set (f # fs) \<and> state t \<noteq> kDisconnected"
    using ok by (simp_all add: hosted_any_def open_inv_def)
  consider "f = ConnectEstablished" | "f = ConnectDestroyed" | "f \<noteq> ConnectEstablished" "f \<noteq> ConnectDestroyed" by blast
  then show "ups t' = ups_in (state t') \<and> ConnectDestroyed \<notin> set (toLoop t') \<and>
        (c \<in> set cs \<longleftrightarrow> ConnectDestroyed \<notin> set fs \<and> state t' \<noteq> kDisconnected) \<and> (state t \<noteq> kConnecting \<longrightarrow> state t' \<noteq> kConnecting)"
  proof cases
    case 1
    with run_functor_cases(2) [OF r] tl u tab show ?thesis by auto
  next
    case 2
    with run_functor_cases(3) [OF r] tl u tab show ?thesis by auto
  next
    case 3
    from run_functor_cases(1) [OF r 3] have "tame t t'" .
    with tame_ups [OF this u] tame_destroyed [OF this] tl tab 3 show ?thesis by (auto simp: tame_def)
  qed
qed

lemma event_any:
  assumes I: "host_any nets cs [] h" and h: "hosted h c = Some (fs, t)" and rep: "reported revt t"
    and ret: "return_to wcc c fs t (conn_event (nets c) (code c) revt t) h = Inr h'"
  shows "\<exists>cs'. host_any nets cs' [] h'"
proof (rule return_to_any [OF I h _ _ ret])
  have ok: "hosted_any (nets c) cs (removals h) c fs t" using host_anyD(3) [OF I h] by simp
  then have "open_inv (nets c) fs t" by (simp add: hosted_any_def)
  from handle_conn_open [OF this, of "code c" revt] rep
  show "returns_or {destroyed_twice} (\<lambda>(t', calls). open_inv (nets c) (fs @ queued_by calls) t')
      (settle t (conn_event (nets c) (code c) revt t))" by (simp add: handle_conn_def)
  fix t'
  assume "conn_event (nets c) (code c) revt t = Inr t'"
  then have "tame t t'" by (rule calm.conn_event_related)
  with ok tame_ups [OF this] tame_destroyed [OF this]
  show "ups t' = ups_in (state t') \<and> ConnectDestroyed \<notin> set (toLoop t') \<and>
        (c \<in> set cs \<longleftrightarrow> ConnectDestroyed \<notin> set fs \<and> state t' \<noteq> kDisconnected) \<and> (state t \<noteq> kConnecting \<longrightarrow> state t' \<noteq> kConnecting)"
    by (auto simp: hosted_any_def open_inv_def tame_def)
qed

lemma outside_any:
  assumes I: "host_any nets cs [] h" and h: "hosted h c = Some (fs, t)"
    and r: "r = Inr t \<or> (\<exists>f t1. r = Inr (queue_functor f t1) \<and> post_conn t f t1)"
    and ret: "return_to wcc c fs t r h = Inr h'"
  shows "\<exists>cs'. host_any nets cs' [] h'"
proof (rule return_to_any [OF I h _ _ ret])
  have ok: "hosted_any (nets c) cs (removals h) c fs t" using host_anyD(3) [OF I h] by simp
  then have C: "open_inv (nets c) fs t" by (simp add: hosted_any_def)
  then have tl: "toLoop t = []" by (simp add: open_inv_def)
  have q: "settle t (Inr (queue_functor f t1)) = Inr (t1, [QueueCall f])" if "post_conn t f t1" for f t1
    using that tl by (auto simp: settle_def queue_functor_def elim!: post_connE)
  show "returns_or {} (\<lambda>(t', calls). open_inv (nets c) (fs @ queued_by calls) t') (settle t r)"
  proof (cases "r = Inr t")
    case True
    then have "settle t r = Inr (t, [])" using tl by (simp add: settle_def)
    then show ?thesis using C by simp
  next
    case False
    then obtain f t1 where f: "r = Inr (queue_functor f t1)" "post_conn t f t1" using r by blast
    show ?thesis using post_conn_open [OF C f(2)] unfolding f(1) q [OF f(2)] by simp
  qed
  show "ups t' = ups_in (state t') \<and> ConnectDestroyed \<notin> set (toLoop t') \<and>
        (c \<in> set cs \<longleftrightarrow> ConnectDestroyed \<notin> set fs \<and> state t' \<noteq> kDisconnected) \<and> (state t \<noteq> kConnecting \<longrightarrow> state t' \<noteq> kConnecting)"
    if "r = Inr t'" for t'
    using that r ok tl by (auto simp: hosted_any_def queue_functor_def ups_def elim!: post_connE)
qed

lemma incoming_any:
  assumes I: "host_any nets cs [] h" and e: "host_enabled masks h (Incoming accepted_fd err peer sockname)"
    and w: "\<And>c. write_ok (nets c)"
    and ret: "host_step nets code wcc (Incoming accepted_fd err peer sockname) h = Inr h'"
  shows "\<exists>cs'. host_any nets cs' [] h'"
proof (cases "0 \<le> accepted_fd")
  case False
  then have "server_readable accepted_fd err peer sockname (serving h) = Inr (serving h)"
    using e by (simp add: server_readable_def acceptor_handleRead_def Socket_accept_def sockets_accept_def)
  moreover have rq: "requests (serving h) = []" using host_anyD(2) [OF I] .
  moreover from rq have e': "(serving h)\<lparr>requests := []\<rparr> = serving h" by simp
  ultimately have "h' = h" using ret by (simp add: with_server_def e')
  with I show ?thesis by blast
next
  case True
  have sv: "server_inv cs (serving h)" "requests (serving h) = []" using host_anyD [OF I] by blast+
  then have cb: "newConnectionCallback (acceptor (serving h))" by (simp add: server_inv_def)
  have lt: "nextConnId (serving h) < 2 ^ 31" using e by simp
  from newConnection_ok [OF sv(1) lt, of accepted_fd sockname peer] obtain s c where
    s: "newConnection True accepted_fd sockname peer (serving h) = Inr s" "last (requests s) = Establish c"
      "conn_name c = conn_name_of (serving h)" "server_inv (c # cs) s" by blast
  then have sf: "requests s = [Establish c]" "nextConnId s = Suc (nextConnId (serving h))"
      "server_name s = server_name (serving h)"
    using sv(2) by (auto simp: newConnection_def Let_def and_then_Inr_iff)
  let ?t = "new_connection (conn_loop c) (conn_fd c) wcc"
  have h': "h' = h\<lparr>serving := s\<lparr>requests := []\<rparr>, hosted := (hosted h)(c \<mapsto> ([ConnectEstablished], ?t))\<rparr>"
    using server_readable_accepts [OF cb True] s(1) sf(1) ret by (simp add: with_server_def)
  have other: "conn_name x \<noteq> conn_name c" if "hosted h x = Some (gs, u)" for x gs u
  proof
    assume "conn_name x = conn_name c"
    from host_anyD(4) [OF I that] obtain i where
      i: "i < nextConnId (serving h)" "conn_name x = name_of (server_name (serving h)) i" by blast
    then have "name_of (server_name (serving h)) i = name_of (server_name (serving h)) (nextConnId (serving h))"
      using s(3) \<open>conn_name x = conn_name c\<close> by (simp add: conn_name_of_def name_of_def)
    then have "i = nextConnId (serving h)" by (rule name_of_inject [rotated 2]) (use i(1) lt in simp_all)
    then show False using i(1) by simp
  qed
  then have new: "hosted h c = None" by (cases "hosted h c") auto
  then have fresh: "c \<notin> set cs" "c \<notin> set (removals h)" using host_anyD(5,6) [OF I, of c] by auto
  have "hosted_any (nets c) (c # cs) (removals h) c [ConnectEstablished] ?t"
    using fresh w [of c] conn_inv_new
    by (simp add: hosted_any_def open_inv_def) (simp add: new_connection_def ups_def)
  moreover have "hosted_any (nets x) (c # cs) (removals h) x gs u" if "x \<noteq> c" "hosted h x = Some (gs, u)" for x gs u
    using host_anyD(3) [OF I that(2)] that(1) by (simp add: hosted_any_def)
  moreover have "conn_name c = name_of (server_name s) (nextConnId (serving h))"
    using s(3) sf(3) by (simp add: conn_name_of_def name_of_def)
  moreover have "\<exists>i < nextConnId s. conn_name x = name_of (server_name s) i" if "hosted h x = Some (gs, u)" for x gs u
    using host_anyD(4) [OF I that] sf(2,3) less_Suc_eq by auto
  moreover have "x \<notin> set cs \<and> x \<notin> set (removals h)" if "hosted h x = None" for x
    using host_anyD(5,6) [OF I, of x] that by auto
  moreover have "inj_on conn_name (dom (hosted h'))"
    using host_anyD(7) [OF I] other unfolding h' by (fastforce simp: inj_on_def dom_def)
  ultimately have "host_any nets (c # cs) [] h'"
    using server_inv_requests [OF s(4)] sf(2) unfolding host_any_def h' by auto
  then show ?thesis by blast
qed

lemma host_step_any:
  assumes I: "host_any nets cs [] h" and e: "host_enabled masks h e" and w: "\<And>c. write_ok (nets c)"
    and ret: "host_step nets code wcc e h = Inr h'"
  shows "\<exists>cs'. host_any nets cs' [] h'"
proof (cases e)
  case (Incoming accepted_fd err peer sockname)
  with incoming_any [OF I _ w] e ret show ?thesis by blast
next
  case RunRemoval
  show ?thesis
  proof (cases "removals h")
    case (Cons c xs)
    then have "host_any nets cs [c] (h\<lparr>removals := xs\<rparr>)" using I by (simp add: host_any_def hosted_any_def)
    from remove_any [OF this, of c wcc h'] RunRemoval Cons ret obtain cs' where "host_any nets cs' [c] h'" by auto
    from host_any_fewer [OF this, of "[]"] show ?thesis by auto
  qed (use I RunRemoval ret in auto)
next
  case (RunFunctor c)
  then show ?thesis using ret I run_functor_any [OF I, of c _ _ _ wcc code h']
    by (auto split: option.splits list.splits)
next
  case (Report c revt)
  then show ?thesis using ret I event_any [OF I, of c _ _ revt wcc code h']
    by (auto split: option.splits if_splits)
next
  case (SendFrom c m)
  have "send (nets c) False m t = Inr t \<or> (\<exists>f t1. send (nets c) False m t = Inr (queue_functor f t1) \<and> post_conn t f t1)" for t
    using post_send [of t m] by (cases "state t = kConnected") (auto simp: send_def)
  note outside = outside_any [OF I _ this, where wcc = wcc and h' = h']
  then show ?thesis using ret I SendFrom outside by (auto split: option.splits)
next
  case (ShutdownFrom c)
  have "shutdown False t = Inr t \<or> (\<exists>f t1. shutdown False t = Inr (queue_functor f t1) \<and> post_conn t f t1)" for t
    using post_shutdown [of t] by (auto simp: shutdown_def)
  note outside = outside_any [OF I _ this, where wcc = wcc and h' = h']
  then show ?thesis using ret I ShutdownFrom outside by (auto split: option.splits)
qed

lemma host_reaches_any:
  assumes "host_reaches masks nets code wcc (new_hosting s) h" and "serves s []" and "requests s = []"
    and w: "\<And>c. write_ok (nets c)"
  shows "\<exists>cs. host_any nets cs [] h"
  using assms(1)
proof (induction rule: host_reaches.induct)
  case host_here
  have "host_any nets [] [] (new_hosting s)"
    using serves_inv [OF assms(2)] assms(3) by (simp add: host_any_def new_hosting_def)
  then show ?case by blast
next
  case (host_next h e h')
  then obtain cs where "host_any nets cs [] h" by blast
  from host_step_any [OF this host_next.hyps(2) w host_next.hyps(3)] show ?case .
qed

subsection \<open>Properties\<close>

text \<open>C20: However accepting, events, functors, removals and calls from other threads interleave, as
  long as polls report on connections only masks of \<open>ordinary\<close>, no assertion of a server or of a
  connection fails: a connection is established in its first phase, destroyed in the second or
  third, and is in the table when it is removed.\<close>

theorem server_never_fails:
  assumes "host_reaches ordinary nets code wcc (new_hosting s) h" and "serves s []" and "requests s = []"
    and "\<And>c. write_ok (nets c)" and "host_enabled ordinary h e"
  shows "\<exists>h'. host_step nets code wcc e h = Inr h'"
proof -
  obtain cs where "host_inv nets cs [] h" using host_reaches_inv [OF assms(1-4)] by blast
  from host_step_ok [OF this assms(5,4)] show ?thesis by blast
qed

text \<open>C5: Every accepted connection lives once: the user's connection callback has seen it go up once it is
  established, and down once it is destroyed, never more; its bytes are intact; and the server's
  table holds it exactly until the removal that has its loop destroy it. This holds of whatever masks
  polls report.\<close>

theorem server_connections_live_once:
  assumes "host_reaches masks nets code wcc (new_hosting s) h" and "serves s []" and "requests s = []"
    and "\<And>c. write_ok (nets c)" and "hosted h c = Some (fs, t)"
  shows "ups t = ups_in (state t) \<and> wire t @ readable (outputBuffer t) = accepted t \<and>
    (connections (serving h) (conn_name c) = Some c \<longleftrightarrow> ConnectDestroyed \<notin> set fs \<and> state t \<noteq> kDisconnected)"
proof -
  obtain cs where I: "host_any nets cs [] h" using host_reaches_any [OF assms(1-4)] by blast
  have ok: "hosted_any (nets c) cs (removals h) c fs t" using host_anyD(3) [OF I assms(5)] by simp
  moreover have "connections (serving h) (conn_name c) = Some c \<longleftrightarrow> c \<in> set cs"
    using host_anyD(1) [OF I] by (simp add: server_inv_def)
  ultimately show ?thesis by (simp add: hosted_any_def open_inv_def conn_inv_def)
qed

text \<open>A server forgets what is gone: when nothing is pending and the peers of all connections have
  closed, the table is empty and every connection ever accepted is destroyed.\<close>

theorem idle_server_forgets:
  assumes "host_reaches ordinary nets code wcc (new_hosting s) h" and "serves s []" and "requests s = []"
    and "\<And>c. write_ok (nets c)" and "removals h = []"
    and "\<And>c fs t. hosted h c = Some (fs, t) \<Longrightarrow> fs = [] \<and> down t"
  shows "connections (serving h) = Map.empty \<and>
    (\<forall>c. \<forall>t. hosted h c = Some ([], t) \<longrightarrow> state t = kDisconnected \<and> ups t = [True, False])"
proof -
  obtain cs where I: "host_inv nets cs [] h" using host_reaches_inv [OF assms(1-4)] by blast
  have gone: "state t = kDisconnected \<and> ups t = [True, False] \<and> c \<notin> set cs" if "hosted h c = Some ([], t)" for c t
    using host_invD(3) [OF I that] assms(5) assms(6) [OF that]
    by (auto simp: hosted_ok_def client_inv_def split: if_splits)
  have "c \<notin> set cs" for c
  proof (cases "hosted h c")
    case (Some x)
    then obtain fs t where x: "hosted h c = Some (fs, t)" by (cases x) auto
    with assms(6) [OF this] gone [of c t] show ?thesis by simp
  qed (use host_invD(5) [OF I, of c] in auto)
  then have "connections (serving h) n = None" for n
    using host_invD(1) [OF I] unfolding server_inv_def by (cases "connections (serving h) n") auto
  with gone show ?thesis by auto
qed

text \<open>C36: The phase of a connection only moves forward, from connecting over connected and disconnecting to
  disconnected: no functor, event, \<open>send\<close> or \<open>shutdown\<close>, from whichever thread and in whatever state,
  takes it back.\<close>

theorem connection_phase_advances:
  assumes "run_functor net ucode f c = Inr c' \<or> conn_event net ucode revt c = Inr c' \<or>
    send net in_loop m c = Inr c' \<or> shutdown in_loop c = Inr c'"
  shows "state c \<le> state c'"
  using assms
proof (elim disjE)
  assume "send net in_loop m c = Inr c'"
  then show ?thesis by (auto simp: send_def queue_functor_def tame_def less_eq_conn_state_def split: if_splits dest!: calm.sendInLoop_related)
next
  assume "shutdown in_loop c = Inr c'"
  then show ?thesis by (auto simp: shutdown_def shutdownInLoop_def conn_op_defs less_eq_conn_state_def split: if_splits)
qed (auto dest: run_functor_phase calm.conn_event_related tame_phase)

text \<open>
  A life in a server with two other loops: a connection comes in, is established, its peer closes, it is
  removed and destroyed.
\<close>

fun host_run ::
  "(event_mask \<Rightarrow> bool) \<Rightarrow> (server_conn \<Rightarrow> net) \<Rightarrow> (server_conn \<Rightarrow> user_code) \<Rightarrow> bool \<Rightarrow> host_event list
     \<Rightarrow> hosting \<Rightarrow> hosting result" where
  "host_run masks nets code wcc [] h = Inr h"
| "host_run masks nets code wcc (e # es) h =
     require (host_enabled masks h e) (AssertionFailed ''enabled'')
       (and_then (host_step nets code wcc e h) (host_run masks nets code wcc es))"

lemma host_run_reaches:
  "host_run masks nets code wcc es h = Inr h' \<Longrightarrow> host_reaches masks nets code wcc h0 h \<Longrightarrow>
    host_reaches masks nets code wcc h0 h'"
  by (induction es arbitrary: h)
    (auto simp: require_def and_then_Inr_iff split: if_splits dest: host_next)

definition one_conn :: server_conn where
  "one_conn = \<lparr>conn_name = conn_name_of small_server, conn_loop = 1, conn_fd = 7, conn_local = zero_addr,
    conn_peer = zero_addr\<rparr>"

definition one_life :: "host_event list" where
  "one_life = [Incoming 7 0 zero_addr None, RunFunctor one_conn, Report one_conn POLLIN, RunRemoval, RunFunctor one_conn]"

definition closing_net :: "server_conn \<Rightarrow> net" where
  "closing_net c = slow_net"

definition silent :: "server_conn \<Rightarrow> user_code" where
  "silent c kind t = []"

definition gone_server :: tcp_server where
  "gone_server = small_server\<lparr>nextConnId := 2, pool := (pool small_server)\<lparr>next_index := 1\<rparr>\<rparr>"

lemma small_server_serves: "serves small_server []" "requests small_server = []" "write_ok (closing_net c)"
  using write_ok_slow_net by (auto simp: small_server_def pool_wf_def closing_net_def intro!: serves_none)

lemma life_accept:
  "host_step closing_net silent False (Incoming 7 0 zero_addr None) (new_hosting small_server) =
     Inr \<lparr>serving = gone_server\<lparr>connections := [conn_name one_conn \<mapsto> one_conn]\<rparr>,
       hosted = [one_conn \<mapsto> ([ConnectEstablished], new_connection 1 7 False)], removals = []\<rparr>"
  by (simp add: with_server_def server_readable_accepts newConnection_def getNextLoop_def getLocalAddr_def Let_def
      new_hosting_def one_conn_def small_server_def gone_server_def conn_name_of_def)

definition one_conn_after :: "nat \<Rightarrow> tcp_connection" where
  "one_conn_after n = (new_connection 1 7 False)\<lparr>state := (if n = 3 then kDisconnected else kConnected),
     chan := (let ch = enableReading (chan (new_connection 1 7 False))
        in if n = 1 then ch else if n = 2 then disableAll (set_revents POLLIN ch)
           else disableAll (disableAll (set_revents POLLIN ch))),
     effects := take (2 * n) [UpdateChannel 3, UserCallback ConnectionCallback True, UpdateChannel 0, CloseCallback,
        UpdateChannel 0, UserCallback ConnectionCallback False] @ (if n = 3 then [RemoveChannel] else []),
     syscalls := (if n = 1 then 0 else 1), down := 1 < n\<rparr>"

lemma life_establish:
  "run_functor slow_net (silent one_conn) ConnectEstablished (new_connection 1 7 False) = Inr (one_conn_after 1)"
  by code_simp

lemma life_close:
  "conn_event slow_net (silent one_conn) POLLIN (one_conn_after 1) = Inr (one_conn_after 2)"
  by code_simp

lemma life_destroy:
  "run_functor slow_net (silent one_conn) ConnectDestroyed (one_conn_after 2) = Inr (one_conn_after 3)"
  by code_simp

lemma life_facts:
  "closes (new_connection 1 7 False) = 0" "closes (one_conn_after (Suc 0)) = 0" "closes (one_conn_after 2) = Suc 0"
  "closes (one_conn_after 3) = Suc 0" "toLoop (one_conn_after n) = []" "(one_conn_after n)\<lparr>toLoop := []\<rparr> = one_conn_after n"
  "reported POLLIN (one_conn_after (Suc 0))" "down (one_conn_after 3)"
  subgoal by code_simp
  subgoal by code_simp
  subgoal by code_simp
  subgoal by code_simp
  subgoal by (simp add: one_conn_after_def new_connection_def)
  subgoal by (simp add: one_conn_after_def new_connection_def)
  subgoal by code_simp
  subgoal by code_simp
  done

lemma one_life_runs:
  assumes "masks POLLIN"
  shows "host_run masks closing_net silent False one_life (new_hosting small_server) =
     Inr \<lparr>serving = gone_server, hosted = [one_conn \<mapsto> ([], one_conn_after 3)], removals = []\<rparr>"
proof -
  have g: "requests gone_server = []" "server_loop gone_server = 0" "connections gone_server = Map.empty"
      "conn_loop one_conn = 1" "nextConnId (serving (new_hosting small_server)) = 1"
    by (simp_all add: gone_server_def small_server_def one_conn_def new_hosting_def)
  have "gone_server\<lparr>connections := Map.empty\<rparr> = gone_server" "gone_server\<lparr>connections := Map.empty, requests := []\<rparr> = gone_server"
    by (simp_all add: gone_server_def small_server_def)
  then show ?thesis using life_establish life_close life_destroy assms
    by (simp add: one_life_def life_accept closing_net_def return_to_def life_facts g
        close_callback_def with_server_def removeConnection_def removeConnectionInLoop_def queue_on_def
        del: host_step.simps(1) run_functor.simps)
qed

lemma one_life_reaches:
  "masks POLLIN \<Longrightarrow> host_reaches masks closing_net silent False (new_hosting small_server)
     \<lparr>serving = gone_server, hosted = [one_conn \<mapsto> ([], one_conn_after 3)], removals = []\<rparr>"
  by (rule host_run_reaches [OF one_life_runs host_here])

lemma one_life_ordinary:
  "host_reaches ordinary closing_net silent False (new_hosting small_server)
     \<lparr>serving = gone_server, hosted = [one_conn \<mapsto> ([], one_conn_after 3)], removals = []\<rparr>"
  by (rule one_life_reaches) (simp add: ordinary_def poll_consts)

text \<open>
  The promise about the masks is needed: a hangup with priority data, on which \<open>readv\<close> finds the end of
  the stream, closes the connection twice, and the server's second removal fails.
\<close>

definition twice_closed :: tcp_connection where
  "twice_closed = (one_conn_after 2)\<lparr>
     chan := disableAll (disableAll (set_revents (POLLHUP OR POLLPRI) (enableReading (chan (new_connection 1 7 False))))),
     effects := effects (one_conn_after 2) @ [UpdateChannel 0, CloseCallback]\<rparr>"

lemma life_hangup:
  "conn_event slow_net (silent one_conn) (POLLHUP OR POLLPRI) (one_conn_after 1) = Inr twice_closed"
  by code_simp

lemma hangup_facts: "closes twice_closed = Suc (Suc 0)" "toLoop twice_closed = []" "twice_closed\<lparr>toLoop := []\<rparr> = twice_closed"
    "reported (POLLHUP OR POLLPRI) (one_conn_after (Suc 0))"
  subgoal by code_simp
  subgoal by (simp add: twice_closed_def life_facts)
  subgoal by (simp add: twice_closed_def one_conn_after_def new_connection_def)
  subgoal by code_simp
  done

lemma hangup_runs:
  "host_run (\<lambda>revt. True) closing_net silent False
     [Incoming 7 0 zero_addr None, RunFunctor one_conn, Report one_conn (POLLHUP OR POLLPRI), RunRemoval]
     (new_hosting small_server) =
   Inr \<lparr>serving = gone_server, hosted = [one_conn \<mapsto> ([ConnectDestroyed], twice_closed)], removals = [one_conn]\<rparr>"
proof -
  have g: "requests gone_server = []" "server_loop gone_server = 0" "connections gone_server = Map.empty"
      "conn_loop one_conn = 1" "nextConnId (serving (new_hosting small_server)) = 1"
    by (simp_all add: gone_server_def small_server_def one_conn_def new_hosting_def)
  have "gone_server\<lparr>connections := Map.empty\<rparr> = gone_server" "gone_server\<lparr>connections := Map.empty, requests := []\<rparr> = gone_server"
    by (simp_all add: gone_server_def small_server_def)
  then show ?thesis using life_establish life_hangup
    by (simp add: life_accept closing_net_def return_to_def life_facts hangup_facts g
        close_callback_def with_server_def removeConnection_def removeConnectionInLoop_def queue_on_def
        del: host_step.simps(1) run_functor.simps)
qed

theorem hangup_fails_server:
  "\<exists>h. host_reaches (\<lambda>revt. True) closing_net silent False (new_hosting small_server) h \<and>
    host_step closing_net silent False RunRemoval h = Inl (AssertionFailed ''n == 1'')"
proof (intro exI conjI)
  show "host_reaches (\<lambda>revt. True) closing_net silent False (new_hosting small_server)
    \<lparr>serving = gone_server, hosted = [one_conn \<mapsto> ([ConnectDestroyed], twice_closed)], removals = [one_conn]\<rparr>"
    by (rule host_run_reaches [OF hangup_runs host_here])
  have "connections gone_server = Map.empty" by (simp add: gone_server_def small_server_def)
  then show "host_step closing_net silent False RunRemoval
    \<lparr>serving = gone_server, hosted = [one_conn \<mapsto> ([ConnectDestroyed], twice_closed)], removals = [one_conn]\<rparr>
      = Inl (AssertionFailed ''n == 1'')" by (simp add: with_server_def removeConnectionInLoop_def)
qed

theorem server_never_fails_witness:
  "\<exists>h'. host_step closing_net silent False (Incoming 8 0 zero_addr None)
     \<lparr>serving = gone_server, hosted = [one_conn \<mapsto> ([], one_conn_after 3)], removals = []\<rparr> = Inr h'"
  by (rule server_never_fails [OF one_life_ordinary small_server_serves]) (simp add: gone_server_def)

theorem server_connections_live_once_witness:
  "ups (one_conn_after 3) = [True, False] \<and> connections gone_server (conn_name one_conn) \<noteq> Some one_conn"
proof -
  have "hosted \<lparr>serving = gone_server, hosted = [one_conn \<mapsto> ([], one_conn_after 3)], removals = []\<rparr> one_conn
      = Some ([], one_conn_after 3)" by simp
  moreover have "state (one_conn_after 3) = kDisconnected" by (simp add: one_conn_after_def)
  ultimately show ?thesis using server_connections_live_once [OF one_life_ordinary small_server_serves] by fastforce
qed

theorem idle_server_forgets_witness:
  "connections gone_server = Map.empty \<and> state (one_conn_after 3) = kDisconnected"
proof -
  let ?h = "\<lparr>serving = gone_server, hosted = [one_conn \<mapsto> ([], one_conn_after 3)], removals = []\<rparr>"
  have "fs = [] \<and> down t" if "hosted ?h c = Some (fs, t)" for c fs t
    using that life_facts(8) by (simp split: if_splits)
  moreover have "removals ?h = []" by simp
  ultimately have "connections (serving ?h) = Map.empty \<and>
      (\<forall>c. \<forall>t. hosted ?h c = Some ([], t) \<longrightarrow> state t = kDisconnected \<and> ups t = [True, False])"
    by (rule idle_server_forgets [OF one_life_ordinary small_server_serves, rotated 1])
  then show ?thesis by simp
qed

theorem connection_phase_advances_witness:
  "state (new_connection 1 7 False) \<le> state (one_conn_after 1)"
  using connection_phase_advances [OF disjI1 [OF life_establish]] .

end
