(* ===== verification/ConnectionPoller.thy ===== *)
theory ConnectionPoller
  imports ConnectionLoop ConnectionSteps
begin

section \<open>A connection and its poller\<close>

text \<open>
  What a connection asks of the poller through its channel, carried out on the poller of its loop, which
  other channels use as well: the assertions of \<open>EventLoop::updateChannel\<close>, \<open>EventLoop::removeChannel\<close>
  and the poller hold, and the poller watches the descriptor with the mask the connection wants from
  \<open>connectEstablished\<close> to \<open>connectDestroyed\<close>. The channel exists twice here, in the connection and in the
  poller's memory at \<open>p\<close>: the mask of the first is copied with each update, the index belongs to the
  second.
\<close>

subsection \<open>Carrying the requests out\<close>

definition poller_effect :: "nat \<Rightarrow> ptr \<Rightarrow> conn_effect \<Rightarrow> poller \<Rightarrow> poller result" where
  "poller_effect this_loop p e s =
     (case e of
        UpdateChannel m \<Rightarrow> deref s p (\<lambda>ch. loop_updateChannel this_loop True p (put_channel p (ch\<lparr>events := m\<rparr>) s))
      | RemoveChannel \<Rightarrow> loop_removeChannel this_loop True p s
      | _ \<Rightarrow> Inr s)"

definition mask_after :: "event_mask \<Rightarrow> conn_effect list \<Rightarrow> event_mask" where
  "mask_after m es = foldl (\<lambda>m e. case e of UpdateChannel k \<Rightarrow> k | _ \<Rightarrow> m) m es"

definition updates :: "conn_effect list \<Rightarrow> bool" where
  "updates es \<longleftrightarrow> (\<exists>m. UpdateChannel m \<in> set es)"

text \<open>\<open>grows\<close>: the code has logged some more, no removal among it, and the last mask logged is the
  channel's.\<close>

definition grows :: "tcp_connection \<Rightarrow> tcp_connection \<Rightarrow> bool" where
  "grows c c' \<longleftrightarrow> fd (chan c') = fd (chan c) \<and>
     (state c' = state c \<or> state c = kConnected \<and> state c' = kDisconnecting) \<and>
     (\<exists>es. effects c' = effects c @ es \<and> RemoveChannel \<notin> set es \<and> events (chan c') = mask_after (events (chan c)) es)"

lemma mask_after_append: "mask_after m (es @ es') = mask_after (mask_after m es) es'"
  by (simp add: mask_after_def)

lemma mask_after_simps [simp]:
  "mask_after m [] = m" "mask_after m [UpdateChannel k] = k" "mask_after m [CloseCallback] = m"
  "mask_after m [UserCallback kind b] = m" "mask_after m (UpdateChannel k # es) = mask_after k es"
  "mask_after m (UserCallback kind b # es) = mask_after m es" "mask_after m (CloseCallback # es) = mask_after m es"
  by (simp_all add: mask_after_def)

lemma updates_simps [simp]:
  "\<not> updates []" "updates (UpdateChannel k # es)" "updates (UserCallback kind b # es) = updates es"
  "updates (CloseCallback # es) = updates es" "updates (es @ es') \<longleftrightarrow> updates es \<or> updates es'"
  by (auto simp: updates_def)

lemma grows_trans:
  assumes "grows c c1" and "grows c1 c2"
  shows "grows c c2"
proof -
  obtain es es' where "effects c1 = effects c @ es" "RemoveChannel \<notin> set es"
      "events (chan c1) = mask_after (events (chan c)) es"
    and "effects c2 = effects c1 @ es'" "RemoveChannel \<notin> set es'" "events (chan c2) = mask_after (events (chan c1)) es'"
    using assms unfolding grows_def by blast
  then have "effects c2 = effects c @ es @ es' \<and> RemoveChannel \<notin> set (es @ es') \<and>
      events (chan c2) = mask_after (events (chan c)) (es @ es')"
    by (simp add: mask_after_append)
  moreover have "fd (chan c2) = fd (chan c)" "state c2 = state c \<or> state c = kConnected \<and> state c2 = kDisconnecting"
    using assms unfolding grows_def by auto
  ultimately show ?thesis unfolding grows_def by blast
qed

interpretation growing: conn_relation grows
proof
  show "grows c c1 \<Longrightarrow> grows c1 c2 \<Longrightarrow> grows c c2" for c c1 c2 by (rule grows_trans)
  show "grows c (update_chan f c)" if "fd (f (chan c)) = fd (chan c)" for f c
    using that by (simp add: grows_def update_chan_def)
qed (simp_all add: grows_def)

subsection \<open>One channel among others\<close>

text \<open>
  \<open>watched known m\<close>: the channel at \<open>p\<close> for the descriptor \<open>f\<close> is in the poller exactly if it is \<open>known\<close>,
  with the mask \<open>m\<close>; if not it has never been there.
\<close>

definition watched :: "nat \<Rightarrow> ptr \<Rightarrow> int \<Rightarrow> bool \<Rightarrow> event_mask \<Rightarrow> poller \<Rightarrow> bool" where
  "watched this_loop p f known m s \<longleftrightarrow> poller_inv s \<and> 0 \<le> f \<and>
     (\<exists>ch. store s p = Some ch \<and> fd ch = f \<and> owner ch = this_loop \<and> events ch = m \<and>
        (if known then channels s f = Some p else index ch < 0 \<and> channels s f = None))"

lemma update_watched:
  assumes "watched this_loop p f known m s"
  shows "\<exists>s'. poller_effect this_loop p (UpdateChannel k) s = Inr s' \<and> watched this_loop p f True k s' \<and>
    (\<forall>g. g \<noteq> f \<longrightarrow> channels s' g = channels s g) \<and> (\<forall>q. q \<noteq> p \<longrightarrow> store s' q = store s q)"
proof -
  obtain ch where ch: "poller_inv s" "0 \<le> f" "store s p = Some ch" "fd ch = f" "owner ch = this_loop"
    "if known then channels s f = Some p else index ch < 0 \<and> channels s f = None"
    using assms by (auto simp: watched_def)
  let ?ch = "ch\<lparr>events := k\<rparr>"
  let ?s = "put_channel p ?ch s"
  have s: "poller_inv ?s" "store ?s p = Some ?ch" "channels ?s = channels s"
    using poller_inv_put_channel [OF ch(1,3), of ?ch] by (simp_all add: put_channel_def)
  have step: "poller_effect this_loop p (UpdateChannel k) s = updateChannel True p ?s"
    using ch(3,5) s(2) by (simp add: poller_effect_def deref_def loop_updateChannel_def)
  show ?thesis
  proof (cases known)
    case True
    with updateChannel_change [OF s(1,2)] s(3) ch step show ?thesis by (fastforce simp: watched_def put_channel_def)
  next
    case False
    with updateChannel_add [OF s(1,2)] s(3) ch step show ?thesis by (fastforce simp: watched_def put_channel_def set_index_def)
  qed
qed

lemma effects_watched:
  assumes "watched this_loop p f known m s" and "RemoveChannel \<notin> set es"
  shows "\<exists>s'. for_each (poller_effect this_loop p) es s = Inr s' \<and>
    watched this_loop p f (known \<or> updates es) (mask_after m es) s'"
  using assms
proof (induction es arbitrary: s known m)
  case (Cons e es)
  show ?case
  proof (cases e)
    case (UpdateChannel k)
    from update_watched [OF Cons.prems(1), of k] obtain s1 where
      s1: "poller_effect this_loop p (UpdateChannel k) s = Inr s1" "watched this_loop p f True k s1" by blast
    from Cons.IH [OF s1(2)] Cons.prems(2) s1(1) UpdateChannel show ?thesis by auto
  next
    case CloseCallback
    with Cons.IH [OF Cons.prems(1)] Cons.prems(2) show ?thesis by (simp add: poller_effect_def)
  next
    case (UserCallback kind b)
    with Cons.IH [OF Cons.prems(1)] Cons.prems(2) show ?thesis by (simp add: poller_effect_def)
  qed (use Cons.prems in simp)
qed simp

text \<open>A removed channel keeps the index it had.\<close>

definition left_behind :: "nat \<Rightarrow> ptr \<Rightarrow> int \<Rightarrow> poller \<Rightarrow> bool" where
  "left_behind this_loop p f s \<longleftrightarrow> channels s f = None \<and>
     (\<exists>ch. store s p = Some ch \<and> fd ch = f \<and> owner ch = this_loop \<and> 0 \<le> index ch)"

lemma left_behind_update:
  assumes "left_behind this_loop p f s"
  shows "poller_effect this_loop p (UpdateChannel m) s =
    Inl (AssertionFailed ''channels_.find(channel->fd()) != channels_.end()'')"
  using assms by (auto simp: left_behind_def poller_effect_def deref_def loop_updateChannel_def updateChannel_def
      assertInLoopThread_def put_channel_def)

lemma remove_watched:
  assumes "watched this_loop p f True 0 s"
  shows "\<exists>s'. poller_effect this_loop p RemoveChannel s = Inr s' \<and> poller_inv s' \<and> left_behind this_loop p f s' \<and>
    (\<forall>g. g \<noteq> f \<longrightarrow> channels s' g = channels s g) \<and>
    (\<forall>q c. q \<noteq> p \<longrightarrow> store s q = Some c \<longrightarrow> (\<exists>k. store s' q = Some (c\<lparr>index := k\<rparr>)) \<and>
       (channels s (fd c) \<noteq> Some q \<longrightarrow> store s' q = Some c))"
proof -
  obtain ch where ch: "poller_inv s" "store s p = Some ch" "fd ch = f" "owner ch = this_loop" "events ch = 0"
    "channels s (fd ch) = Some p" using assms by (auto simp: watched_def)
  have "isNoneEvent ch" using ch(5) by (simp add: isNoneEvent_def kNoneEvent_def)
  from removeChannel_ok [OF ch(1,2,6) this] registered_slot(1) [OF ch(1,2,6)] show ?thesis using ch
    by (auto simp: left_behind_def poller_effect_def loop_removeChannel_def deref_def)
qed

subsection \<open>The loop of a connection, its poller and the other channels\<close>

record watched_conn =
  pend :: "conn_functor list"
  tcp :: tcp_connection
  watcher :: poller

definition follow ::
  "nat \<Rightarrow> ptr \<Rightarrow> conn_functor list \<Rightarrow> tcp_connection result \<Rightarrow> watched_conn \<Rightarrow> watched_conn result" where
  "follow this_loop p fs r w =
     and_then (settle (tcp w) r) (\<lambda>(c, calls).
       and_then (for_each (poller_effect this_loop p) (drop (length (effects (tcp w))) (effects c)) (watcher w)) (\<lambda>s.
         Inr \<lparr>pend = fs @ queued_by calls, tcp = c, watcher = s\<rparr>))"

datatype watch_event =
    RunNext
  | Polled event_mask
  | SendCalled "byte list"
  | ShutdownCalled
  | OtherUpdates ptr event_mask
  | OtherRemoved ptr

fun watch_step :: "net \<Rightarrow> user_code \<Rightarrow> nat \<Rightarrow> ptr \<Rightarrow> watch_event \<Rightarrow> watched_conn \<Rightarrow> watched_conn result" where
  "watch_step net ucode this_loop p RunNext w =
     (case pend w of
        [] \<Rightarrow> Inr w
      | f # fs \<Rightarrow> follow this_loop p fs (run_functor net ucode f (tcp w)) w)"
| "watch_step net ucode this_loop p (Polled revt) w =
     (if reported revt (tcp w) then follow this_loop p (pend w) (conn_event net ucode revt (tcp w)) w else Inr w)"
| "watch_step net ucode this_loop p (SendCalled m) w = follow this_loop p (pend w) (send net False m (tcp w)) w"
| "watch_step net ucode this_loop p ShutdownCalled w = follow this_loop p (pend w) (shutdown False (tcp w)) w"
| "watch_step net ucode this_loop p (OtherUpdates q m) w =
     and_then (poller_effect this_loop q (UpdateChannel m) (watcher w)) (\<lambda>s. Inr (w\<lparr>watcher := s\<rparr>))"
| "watch_step net ucode this_loop p (OtherRemoved q) w =
     and_then (poller_effect this_loop q RemoveChannel (watcher w)) (\<lambda>s. Inr (w\<lparr>watcher := s\<rparr>))"

text \<open>
  Other channels of the loop have other descriptors and keep to the rules of the class: they are asked
  for by the loop that owns them, registered once and removed when they watch nothing.
\<close>

definition proper_channel :: "nat \<Rightarrow> ptr \<Rightarrow> int \<Rightarrow> bool \<Rightarrow> poller \<Rightarrow> bool" where
  "proper_channel this_loop q f known s \<longleftrightarrow>
     (case store s q of
        None \<Rightarrow> False
      | Some ch \<Rightarrow> owner ch = this_loop \<and> 0 \<le> fd ch \<and> fd ch \<noteq> f \<and>
          (if known then channels s (fd ch) = Some q else index ch < 0 \<and> channels s (fd ch) = None))"

fun watch_enabled :: "nat \<Rightarrow> ptr \<Rightarrow> watched_conn \<Rightarrow> watch_event \<Rightarrow> bool" where
  "watch_enabled this_loop p w (OtherUpdates q m) \<longleftrightarrow> q \<noteq> p \<and>
     (\<exists>known. proper_channel this_loop q (fd (chan (tcp w))) known (watcher w))"
| "watch_enabled this_loop p w (OtherRemoved q) \<longleftrightarrow> q \<noteq> p \<and>
     proper_channel this_loop q (fd (chan (tcp w))) True (watcher w) \<and>
     (case store (watcher w) q of None \<Rightarrow> False | Some ch \<Rightarrow> isNoneEvent ch)"
| "watch_enabled this_loop p w e \<longleftrightarrow> True"

text \<open>
  What the theorem about the poller's assertions asks of the world beyond that: no message that another
  thread sent is run after \<open>connectDestroyed\<close>, and polls report only masks of \<open>ordinary\<close>. The code
  ensures neither, see \<open>late_send_aborts\<close>.
\<close>

fun untroubled :: "watched_conn \<Rightarrow> watch_event \<Rightarrow> bool" where
  "untroubled w RunNext \<longleftrightarrow> (case pend w of SendInLoop m # fs \<Rightarrow> state (tcp w) \<noteq> kDisconnected | _ \<Rightarrow> True)"
| "untroubled w (Polled revt) \<longleftrightarrow> ordinary revt"
| "untroubled w e \<longleftrightarrow> True"

inductive watch_reaches ::
  "(watched_conn \<Rightarrow> watch_event \<Rightarrow> bool) \<Rightarrow> net \<Rightarrow> user_code \<Rightarrow> nat \<Rightarrow> ptr \<Rightarrow> watched_conn \<Rightarrow> watched_conn \<Rightarrow> bool"
  for world net ucode this_loop p w0 where
  watch_here: "watch_reaches world net ucode this_loop p w0 w0"
| watch_next: "watch_reaches world net ucode this_loop p w0 w \<Longrightarrow> watch_enabled this_loop p w e \<Longrightarrow> world w e \<Longrightarrow>
    watch_step net ucode this_loop p e w = Inr w' \<Longrightarrow> watch_reaches world net ucode this_loop p w0 w'"

definition channel_ok :: "nat \<Rightarrow> ptr \<Rightarrow> tcp_connection \<Rightarrow> poller \<Rightarrow> bool" where
  "channel_ok this_loop p c s \<longleftrightarrow>
     (if state c = kDisconnected then poller_inv s \<and> channels s (fd (chan c)) = None
      else watched this_loop p (fd (chan c)) (state c \<noteq> kConnecting) (events (chan c)) s)"

definition watch_inv :: "net \<Rightarrow> nat \<Rightarrow> ptr \<Rightarrow> watched_conn \<Rightarrow> bool" where
  "watch_inv net this_loop p w \<longleftrightarrow> client_inv net (pend w) (tcp w) \<and> channel_ok this_loop p (tcp w) (watcher w)"

text \<open>A step of the connection's code that keeps its pending functors in order and whose requests succeed.\<close>

lemma follow_ok:
  assumes set_r: "returns_or {} (\<lambda>(c, calls). client_inv net (fs @ queued_by calls) c) (settle (tcp w) r)"
    and r: "\<And>c. r = Inr c \<Longrightarrow> \<exists>es s. effects c = effects (tcp w) @ es \<and>
        for_each (poller_effect this_loop p) es (watcher w) = Inr s \<and> channel_ok this_loop p c s"
  shows "\<exists>w'. follow this_loop p fs r w = Inr w' \<and> watch_inv net this_loop p w'"
proof -
  from set_r obtain c where c: "r = Inr c" by (cases r) (simp_all add: settle_def)
  from r [OF c] obtain es s where es: "effects c = effects (tcp w) @ es"
    "for_each (poller_effect this_loop p) es (watcher w) = Inr s" "channel_ok this_loop p c s" by blast
  then have "channel_ok this_loop p (c\<lparr>toLoop := []\<rparr>) s" by (simp add: channel_ok_def)
  then show ?thesis using set_r c es(1,2) by (auto simp: settle_def follow_def watch_inv_def)
qed

text \<open>Code that grows, of an established connection.\<close>

lemma grows_ok:
  assumes ok: "channel_ok this_loop p c s" and g: "grows c c'" and st: "state c \<noteq> kDisconnected"
    and k: "state c \<noteq> kConnecting"
  shows "\<exists>es s'. effects c' = effects c @ es \<and> for_each (poller_effect this_loop p) es s = Inr s' \<and>
    channel_ok this_loop p c' s'"
proof -
  from g obtain es where es: "effects c' = effects c @ es" "RemoveChannel \<notin> set es"
    "events (chan c') = mask_after (events (chan c)) es" "fd (chan c') = fd (chan c)"
    "state c' = state c \<or> state c = kConnected \<and> state c' = kDisconnecting" unfolding grows_def by blast
  have "watched this_loop p (fd (chan c)) True (events (chan c)) s" using ok st k by (simp add: channel_ok_def)
  from effects_watched [OF this es(2)] obtain s' where
    "for_each (poller_effect this_loop p) es s = Inr s'"
    "watched this_loop p (fd (chan c)) True (mask_after (events (chan c)) es) s'" by auto
  moreover have "state c' \<noteq> kDisconnected" "state c' \<noteq> kConnecting" using es(5) st k by auto
  ultimately show ?thesis using es by (auto simp: channel_ok_def)
qed

lemma establish_ok:
  assumes ok: "channel_ok this_loop p c s" and r: "run_functor net ucode ConnectEstablished c = Inr c'"
  shows "\<exists>es s'. effects c' = effects c @ es \<and> for_each (poller_effect this_loop p) es s = Inr s' \<and>
    channel_ok this_loop p c' s'"
proof -
  let ?c = "update_chan enableReading (c\<lparr>state := kConnected\<rparr>)"
  let ?m = "events (enableReading (chan c))"
  from connectEstablished_callback [OF r] have c: "state c = kConnecting"
    "call_user net ucode ConnectionCallback ?c = Inr c'" by simp_all
  from growing.call_user_related [OF c(2)] obtain es where es:
    "effects c' = effects c @ UpdateChannel ?m # UserCallback ConnectionCallback (connected ?c) # es" (is "_ = _ @ ?es")
    "RemoveChannel \<notin> set es" "events (chan c') = mask_after ?m es" "fd (chan c') = fd (chan c)"
    "state c' = kConnected \<or> state c' = kDisconnecting"
    unfolding grows_def by (auto simp: update_chan_def)
  have "watched this_loop p (fd (chan c)) False (events (chan c)) s" using ok c(1) by (simp add: channel_ok_def)
  moreover have "RemoveChannel \<notin> set ?es" using es(2) by simp
  ultimately obtain s' where "for_each (poller_effect this_loop p) ?es s = Inr s'"
    "watched this_loop p (fd (chan c)) True (mask_after ?m es) s'"
    using effects_watched [of this_loop p "fd (chan c)" False "events (chan c)" s ?es] by auto
  then show ?thesis using es by (intro exI [of _ ?es] exI [of _ s']) (auto simp: channel_ok_def)
qed

lemma for_each_callbacks:
  "\<forall>e \<in> set es. \<exists>kind u. e = UserCallback kind u \<Longrightarrow> for_each (poller_effect this_loop p) es s = Inr s"
  by (induction es) (auto simp: poller_effect_def)

lemma destroy_ok:
  assumes ok: "channel_ok this_loop p c s" and r: "run_functor net ucode ConnectDestroyed c = Inr c'"
    and inv: "conn_inv c"
  shows "\<exists>es s'. effects c' = effects c @ es \<and> for_each (poller_effect this_loop p) es s = Inr s' \<and>
    channel_ok this_loop p c' s' \<and> left_behind this_loop p (fd (chan c')) s' \<and> chan c' = disableAll (chan c)"
proof -
  let ?c = "update_chan disableAll (c\<lparr>state := kDisconnected, down := True\<rparr>)"
  from connectDestroyed_callback [OF r] obtain c2 where c: "state c = kConnected \<or> state c = kDisconnecting"
    "call_user net ucode ConnectionCallback ?c = Inr c2" "c' = c2\<lparr>effects := effects c2 @ [RemoveChannel]\<rparr>" by blast
  have "conn_inv ?c" "state ?c \<noteq> kConnected" using inv by (simp_all add: conn_inv_def update_chan_def)
  from call_user_quiet [OF this, of net ucode ConnectionCallback] c(2) obtain b es where
    es: "c2 = ?c\<lparr>inputBuffer := b, effects := effects ?c @ es\<rparr>" "\<forall>e \<in> set es. \<exists>kind u. e = UserCallback kind u"
    by (auto simp: quiet_def)
  have m: "events (disableAll (chan c)) = 0" by (simp add: disableAll_def kNoneEvent_def)
  have "watched this_loop p (fd (chan c)) True (events (chan c)) s" using ok c(1) by (auto simp: channel_ok_def)
  from update_watched [OF this, of 0] obtain s1 where
    s1: "poller_effect this_loop p (UpdateChannel 0) s = Inr s1" "watched this_loop p (fd (chan c)) True 0 s1" by blast
  from remove_watched [OF s1(2)] obtain s2 where
    s2: "poller_effect this_loop p RemoveChannel s1 = Inr s2" "poller_inv s2" "left_behind this_loop p (fd (chan c)) s2" by blast
  have e: "effects c' = effects c @ UpdateChannel 0 # es @ [RemoveChannel]"
    unfolding c(3) es(1) by (simp add: update_chan_def m)
  have "for_each (poller_effect this_loop p) (UpdateChannel 0 # es @ [RemoveChannel]) s = Inr s2"
    using s1(1) s2(1) for_each_callbacks [OF es(2)] by (simp add: for_each_append)
  moreover have ch: "chan c' = disableAll (chan c)" unfolding c(3) es(1) by (simp add: update_chan_def)
  moreover have "channel_ok this_loop p c' s2"
    using s2(2,3) ch unfolding c(3) es(1) by (simp add: channel_ok_def left_behind_def update_chan_def)
  ultimately show ?thesis using e s2(3) by auto
qed

text \<open>After that only functors that ask nothing of the poller.\<close>

lemma destroyed_ok:
  assumes ok: "channel_ok this_loop p c s" and st: "state c = kDisconnected" and inv: "conn_inv c"
    and r: "run_functor net ucode f c = Inr c'" and f: "f = ShutdownInLoop \<or> f = WriteComplete"
  shows "\<exists>es s'. effects c' = effects c @ es \<and> for_each (poller_effect this_loop p) es s = Inr s' \<and>
    channel_ok this_loop p c' s'"
proof (cases "f = WriteComplete")
  case True
  have "state c \<noteq> kConnected" using st by simp
  from call_user_quiet [OF inv this, of net ucode WriteCompleteCallback] r True obtain b es where
    es: "c' = c\<lparr>inputBuffer := b, effects := effects c @ es\<rparr>" "\<forall>e \<in> set es. \<exists>kind u. e = UserCallback kind u"
    by (auto simp: quiet_def)
  then show ?thesis using for_each_callbacks [OF es(2)] ok st
    by (intro exI [of _ es] exI [of _ s]) (simp add: channel_ok_def)
next
  case False
  then have "f = ShutdownInLoop" using f by simp
  then show ?thesis using r ok st
    by (intro exI [of _ "[]"] exI [of _ s]) (auto simp: shutdownInLoop_def in_loop_thread_def channel_ok_def split: if_splits)
qed

text \<open>Another channel's update or removal.\<close>

lemma proper_watched:
  assumes "proper_channel this_loop q f known s" and "poller_inv s"
  shows "\<exists>g m. g \<noteq> f \<and> watched this_loop q g known m s"
proof -
  obtain ch where "store s q = Some ch" using assms(1) by (auto simp: proper_channel_def split: option.splits)
  then show ?thesis using assms
    by (intro exI [of _ "fd ch"] exI [of _ "events ch"]) (simp add: proper_channel_def watched_def)
qed

lemma watched_frame:
  assumes w: "watched this_loop p f known m s" and inv: "poller_inv s'" and f: "channels s' f = channels s f"
    and st: "\<And>ch. store s p = Some ch \<Longrightarrow> \<exists>k. store s' p = Some (ch\<lparr>index := k\<rparr>) \<and> (known \<or> k = index ch)"
  shows "watched this_loop p f known m s'"
proof -
  obtain ch where ch: "store s p = Some ch" "0 \<le> f" "fd ch = f" "owner ch = this_loop" "events ch = m"
    "if known then channels s f = Some p else index ch < 0 \<and> channels s f = None" using w by (auto simp: watched_def)
  from st [OF ch(1)] obtain k where "store s' p = Some (ch\<lparr>index := k\<rparr>)" "known \<or> k = index ch" by blast
  with inv f ch show ?thesis by (cases known) (auto simp: watched_def)
qed

lemma channel_ok_frame:
  assumes ok: "channel_ok this_loop p c s" and inv: "poller_inv s'"
    and f: "channels s' (fd (chan c)) = channels s (fd (chan c))"
    and st: "\<And>ch. store s p = Some ch \<Longrightarrow> \<exists>k. store s' p = Some (ch\<lparr>index := k\<rparr>) \<and>
      (channels s (fd ch) \<noteq> Some p \<longrightarrow> k = index ch)"
  shows "channel_ok this_loop p c s'"
proof (cases "state c = kDisconnected")
  case False
  then have w: "watched this_loop p (fd (chan c)) (state c \<noteq> kConnecting) (events (chan c)) s"
    using ok by (simp add: channel_ok_def)
  have "watched this_loop p (fd (chan c)) (state c \<noteq> kConnecting) (events (chan c)) s'"
    by (rule watched_frame [OF w inv f]) (use w st in \<open>fastforce simp: watched_def split: if_splits\<close>)
  with False show ?thesis by (simp add: channel_ok_def)
qed (use ok inv f in \<open>simp add: channel_ok_def\<close>)

lemma other_updates_ok:
  assumes ok: "channel_ok this_loop p c s" and q: "q \<noteq> p" "proper_channel this_loop q (fd (chan c)) known s"
  shows "\<exists>s'. poller_effect this_loop q (UpdateChannel m) s = Inr s' \<and> channel_ok this_loop p c s'"
proof -
  have inv: "poller_inv s" using ok by (auto simp: channel_ok_def watched_def split: if_splits)
  from proper_watched [OF q(2) inv] obtain g k where w: "g \<noteq> fd (chan c)" "watched this_loop q g known k s" by blast
  from update_watched [OF w(2), of m] obtain s' where
    s': "poller_effect this_loop q (UpdateChannel m) s = Inr s'" "watched this_loop q g True m s'"
      "\<forall>h. h \<noteq> g \<longrightarrow> channels s' h = channels s h" "\<forall>x. x \<noteq> q \<longrightarrow> store s' x = store s x" by blast
  have same: "ch = ch\<lparr>index := index ch\<rparr>" for ch :: channel by simp
  have "channel_ok this_loop p c s'"
  proof (rule channel_ok_frame [OF ok])
    show "poller_inv s'" using s'(2) by (simp add: watched_def)
    show "\<exists>k. store s' p = Some (ch\<lparr>index := k\<rparr>) \<and> (channels s (fd ch) \<noteq> Some p \<longrightarrow> k = index ch)"
      if "store s p = Some ch" for ch
      using that s'(4) q(1) same [of ch] by (intro exI [of _ "index ch"]) simp
  qed (use s'(3) w(1) in simp)
  with s'(1) show ?thesis by blast
qed

lemma other_removed_ok:
  assumes ok: "channel_ok this_loop p c s" and q: "q \<noteq> p" "proper_channel this_loop q (fd (chan c)) True s"
    and none: "case store s q of None \<Rightarrow> False | Some ch \<Rightarrow> isNoneEvent ch"
  shows "\<exists>s'. poller_effect this_loop q RemoveChannel s = Inr s' \<and> channel_ok this_loop p c s'"
proof -
  have inv: "poller_inv s" using ok by (auto simp: channel_ok_def watched_def split: if_splits)
  from proper_watched [OF q(2) inv] obtain g k where w: "g \<noteq> fd (chan c)" "watched this_loop q g True k s" by blast
  have "k = 0" using w(2) none by (auto simp: watched_def isNoneEvent_def kNoneEvent_def)
  from remove_watched [OF w(2) [unfolded this]] obtain s' where
    s': "poller_effect this_loop q RemoveChannel s = Inr s'" "poller_inv s'" "\<forall>h. h \<noteq> g \<longrightarrow> channels s' h = channels s h"
      "\<forall>x y. x \<noteq> q \<longrightarrow> store s x = Some y \<longrightarrow> (\<exists>k. store s' x = Some (y\<lparr>index := k\<rparr>)) \<and>
         (channels s (fd y) \<noteq> Some x \<longrightarrow> store s' x = Some y)" by blast
  have "channel_ok this_loop p c s'"
  proof (rule channel_ok_frame [OF ok s'(2)])
    show "\<exists>k. store s' p = Some (ch\<lparr>index := k\<rparr>) \<and> (channels s (fd ch) \<noteq> Some p \<longrightarrow> k = index ch)"
      if "store s p = Some ch" for ch
    proof (cases "channels s (fd ch) = Some p")
      case True
      have "p \<noteq> q" using q(1) by simp
      with s'(4) that obtain k where "store s' p = Some (ch\<lparr>index := k\<rparr>)" by blast
      with True show ?thesis by blast
    next
      case False
      moreover have "p \<noteq> q" using q(1) by simp
      ultimately have "store s' p = Some ch" using s'(4) that by blast
      then show ?thesis by (intro exI [of _ "index ch"]) simp
    qed
  qed (use s'(3) w(1) in simp)
  with s'(1) show ?thesis by blast
qed

lemma run_next_ok:
  assumes I: "watch_inv net this_loop p w" and fs: "pend w = f # fs"
    and ok: "state (tcp w) = kDisconnected \<Longrightarrow> \<nexists>m. f = SendInLoop m"
  shows "\<exists>w'. follow this_loop p fs (run_functor net ucode f (tcp w)) w = Inr w' \<and> watch_inv net this_loop p w'"
proof (rule follow_ok)
  have C: "client_inv net (f # fs) (tcp w)" using I fs by (simp add: watch_inv_def)
  have P: "channel_ok this_loop p (tcp w) (watcher w)" using I by (simp add: watch_inv_def)
  have inv: "conn_inv (tcp w)" using C by (simp add: client_inv_def)
  show "returns_or {} (\<lambda>(c, calls). client_inv net (fs @ queued_by calls) c) (settle (tcp w) (run_functor net ucode f (tcp w)))"
    using run_conn_ok [OF C, of ucode] by (simp add: run_conn_def)
  fix c
  assume r: "run_functor net ucode f (tcp w) = Inr c"
  show "\<exists>es s. effects c = effects (tcp w) @ es \<and> for_each (poller_effect this_loop p) es (watcher w) = Inr s \<and>
      channel_ok this_loop p c s"
  proof (cases "f = ConnectEstablished \<or> f = ConnectDestroyed")
    case True
    then show ?thesis using establish_ok [OF P, of net ucode c] destroy_ok [OF P _ inv, of net ucode c] r by auto
  next
    case False
    then have k: "state (tcp w) \<noteq> kConnecting" using C by (auto simp: client_inv_def)
    show ?thesis
    proof (cases "state (tcp w) = kDisconnected")
      case True
      then have "f = ShutdownInLoop \<or> f = WriteComplete" using ok False by (cases f) auto
      from destroyed_ok [OF P True inv r this] show ?thesis .
    next
      case alive: False
      have "grows (tcp w) c" using growing.run_functor_related [OF r] False by simp
      from grows_ok [OF P this alive k] show ?thesis .
    qed
  qed
qed

lemma polled_ok:
  assumes I: "watch_inv net this_loop p w" and o: "ordinary revt" and rep: "reported revt (tcp w)"
  shows "\<exists>w'. follow this_loop p (pend w) (conn_event net ucode revt (tcp w)) w = Inr w' \<and> watch_inv net this_loop p w'"
proof (rule follow_ok)
  have C: "client_inv net (pend w) (tcp w)" and P: "channel_ok this_loop p (tcp w) (watcher w)"
    using I by (simp_all add: watch_inv_def)
  show "returns_or {} (\<lambda>(c, calls). client_inv net (pend w @ queued_by calls) c) (settle (tcp w) (conn_event net ucode revt (tcp w)))"
    using handle_conn_ok [OF o C, of ucode] rep by (simp add: handle_conn_def)
  fix c
  assume "conn_event net ucode revt (tcp w) = Inr c"
  from growing.conn_event_related [OF this] show "\<exists>es s. effects c = effects (tcp w) @ es \<and>
      for_each (poller_effect this_loop p) es (watcher w) = Inr s \<and> channel_ok this_loop p c s"
    by (rule grows_ok [OF P]) (use rep in \<open>auto simp: reported_def\<close>)
qed

lemma called_ok:
  assumes I: "watch_inv net this_loop p w"
    and r: "r = Inr (tcp w) \<or> (\<exists>f c. r = Inr (queue_functor f c) \<and> post_conn (tcp w) f c)"
  shows "\<exists>w'. follow this_loop p (pend w) r w = Inr w' \<and> watch_inv net this_loop p w'"
proof -
  have C: "client_inv net (pend w) (tcp w)" and P: "channel_ok this_loop p (tcp w) (watcher w)"
    using I by (simp_all add: watch_inv_def)
  then have tl: "toLoop (tcp w) = []" by (simp add: client_inv_def)
  show ?thesis
  proof (cases "r = Inr (tcp w)")
    case True
    then have "settle (tcp w) r = Inr (tcp w, [])" using tl by (simp add: settle_def)
    then show ?thesis using C P by (simp add: follow_def watch_inv_def)
  next
    case False
    then obtain f c where f: "r = Inr (queue_functor f c)" "post_conn (tcp w) f c" using r by blast
    then have "settle (tcp w) r = Inr (c, [QueueCall f])" "effects c = effects (tcp w)"
      "channel_ok this_loop p c (watcher w)"
      using tl P by (auto simp: settle_def queue_functor_def channel_ok_def elim!: post_connE)
    then show ?thesis using post_conn_ok [OF C f(2)] by (simp add: follow_def watch_inv_def)
  qed
qed

lemma watch_step_ok:
  assumes I: "watch_inv net this_loop p w" and e: "watch_enabled this_loop p w e" and u: "untroubled w e"
  shows "\<exists>w'. watch_step net ucode this_loop p e w = Inr w' \<and> watch_inv net this_loop p w'"
proof (cases e)
  case RunNext
  show ?thesis
  proof (cases "pend w")
    case (Cons f fs)
    have "\<nexists>m. f = SendInLoop m" if "state (tcp w) = kDisconnected" using u RunNext Cons that by (auto split: conn_functor.splits)
    from run_next_ok [OF I Cons this, of ucode] show ?thesis using RunNext Cons by simp
  qed (use I RunNext in auto)
next
  case (Polled revt)
  then show ?thesis using polled_ok [OF I, of revt ucode] I u by (cases "reported revt (tcp w)") auto
next
  case (SendCalled m)
  have "send net False m (tcp w) = Inr (tcp w) \<or>
      (\<exists>f c. send net False m (tcp w) = Inr (queue_functor f c) \<and> post_conn (tcp w) f c)"
    using post_send [of "tcp w" m] by (cases "state (tcp w) = kConnected") (auto simp: send_def)
  from called_ok [OF I this] show ?thesis using SendCalled by simp
next
  case ShutdownCalled
  have "shutdown False (tcp w) = Inr (tcp w) \<or>
      (\<exists>f c. shutdown False (tcp w) = Inr (queue_functor f c) \<and> post_conn (tcp w) f c)"
    using post_shutdown [of "tcp w"] by (auto simp: shutdown_def)
  from called_ok [OF I this] show ?thesis using ShutdownCalled by simp
next
  case (OtherUpdates q m)
  have "channel_ok this_loop p (tcp w) (watcher w)" using I by (simp add: watch_inv_def)
  with other_updates_ok [of this_loop p "tcp w" "watcher w" q _ m] e OtherUpdates I show ?thesis
    by (fastforce simp: watch_inv_def)
next
  case (OtherRemoved q)
  have "channel_ok this_loop p (tcp w) (watcher w)" using I by (simp add: watch_inv_def)
  with other_removed_ok [of this_loop p "tcp w" "watcher w" q] e OtherRemoved I show ?thesis
    by (fastforce simp: watch_inv_def)
qed

lemma watch_reaches_inv:
  assumes "watch_reaches untroubled net ucode this_loop p w0 w" and "watch_inv net this_loop p w0"
  shows "watch_inv net this_loop p w"
  using assms
proof (induction rule: watch_reaches.induct)
  case (watch_next w e w')
  from watch_step_ok [OF watch_next.IH [OF watch_next.prems] watch_next.hyps(2,3), of ucode] watch_next.hyps(4)
  show ?case by auto
qed

text \<open>A connection about to be established, with its channel in the memory of a poller that runs.\<close>

definition new_watched :: "nat \<Rightarrow> int \<Rightarrow> bool \<Rightarrow> poller \<Rightarrow> watched_conn" where
  "new_watched this_loop sockfd wcc s =
     \<lparr>pend = [ConnectEstablished], tcp = new_connection this_loop sockfd wcc, watcher = s\<rparr>"

lemma new_watched_inv:
  assumes "poller_inv s" and "0 \<le> sockfd" and "channels s sockfd = None"
    and "store s p = Some (new_channel this_loop sockfd)" and "write_ok net"
  shows "watch_inv net this_loop p (new_watched this_loop sockfd wcc s)"
  using assms conn_inv_new [of this_loop sockfd wcc]
  by (simp add: watch_inv_def new_watched_def client_inv_def channel_ok_def watched_def)
    (simp add: new_connection_def new_channel_def kNoneEvent_def)

subsection \<open>Properties\<close>


definition lone_channel :: poller where
  "lone_channel = new_poller [3 \<mapsto> new_channel 0 5]"

lemma lone_channel_ok:
  "poller_inv lone_channel" "0 \<le> (5 :: int)" "channels lone_channel 5 = None"
  "store lone_channel 3 = Some (new_channel 0 5)"
  by (simp_all add: lone_channel_def) (simp_all add: new_poller_def)


text \<open>A message the kernel does not take makes the connection ask for writability.\<close>

lemma refused_send:
  assumes inv: "conn_inv c" and w: "\<not> isWriting (chan c)" and m: "m \<noteq> []" and no: "\<And>k. sys_write net k m = -1"
  shows "\<exists>c' k. sendInLoop net True m c = Inr c' \<and> effects c' = effects c @ [UpdateChannel k]"
proof -
  have wf: "wf_buffer (outputBuffer c)" using inv by (simp add: conn_inv_def)
  obtain ob where ob: "append m (outputBuffer c) = Inr ob" using append_ok [OF wf, of m] by blast
  show ?thesis
  proof (cases "readableBytes (outputBuffer c) = 0")
    case True
    then show ?thesis using w m ob no by (simp add: sendInLoop_def conn_op_defs update_chan_def)
  next
    case False
    then show ?thesis using w m ob by (simp add: sendInLoop_def conn_op_defs update_chan_def)
  qed
qed

text \<open>C37: The limit of that: a connection whose peer has closed stays connected for \<open>send\<close> until
  \<open>connectDestroyed\<close> runs; a message that another thread sends in between is run after it, and when the
  kernel does not take it at once the program aborts, because the removed channel kept its index and the
  poller no longer knows it.\<close>

theorem late_send_aborts:
  assumes "watch_reaches untroubled net ucode this_loop p (new_watched this_loop sockfd wcc s) w"
    and "poller_inv s" and "0 \<le> sockfd" and "channels s sockfd = None"
    and "store s p = Some (new_channel this_loop sockfd)" and "write_ok net"
    and "state (tcp w) = kConnected" and "pend w = [ConnectDestroyed]"
    and "m \<noteq> []" and "\<And>k. sys_write net k m = -1"
  shows "\<exists>w1 w2. watch_step net ucode this_loop p (SendCalled m) w = Inr w1 \<and>
    watch_step net ucode this_loop p RunNext w1 = Inr w2 \<and>
    watch_step net ucode this_loop p RunNext w2 =
      Inl (AssertionFailed ''channels_.find(channel->fd()) != channels_.end()'')"
proof -
  let ?c = "tcp w"
  have "watch_inv net this_loop p w"
    by (rule watch_reaches_inv [OF assms(1) new_watched_inv]) (use assms(2-6) in simp_all)
  then have C: "client_inv net (pend w) ?c" and P: "channel_ok this_loop p ?c (watcher w)"
    by (simp_all add: watch_inv_def)
  then have inv: "conn_inv ?c" and tl: "toLoop ?c = []" by (simp_all add: client_inv_def)
  let ?w1 = "\<lparr>pend = [ConnectDestroyed, SendInLoop m], tcp = ?c, watcher = watcher w\<rparr>"
  have "settle ?c (send net False m ?c) = Inr (?c, [QueueCall (SendInLoop m)])"
    using assms(7) tl by (simp add: send_def settle_def queue_functor_def)
  then have 1: "watch_step net ucode this_loop p (SendCalled m) w = Inr ?w1"
    using assms(8) by (simp add: follow_def)
  have "state ?c = kConnected \<or> state ?c = kDisconnecting" using assms(7) by simp
  from connectDestroyed_ok [OF inv this, of net ucode] obtain c2 where
    c2: "run_functor net ucode ConnectDestroyed ?c = Inr c2" "conn_inv c2" "toLoop c2 = []"
      "count_list (effects c2) CloseCallback = count_list (effects ?c) CloseCallback" using tl by auto
  from destroy_ok [OF P c2(1) inv] obtain es s2 where
    s2: "effects c2 = effects ?c @ es" "for_each (poller_effect this_loop p) es (watcher w) = Inr s2"
      "left_behind this_loop p (fd (chan c2)) s2" "chan c2 = disableAll (chan ?c)" by blast
  have "settle ?c (run_functor net ucode ConnectDestroyed ?c) = Inr (c2, [])"
    unfolding c2(1) using c2(3,4) by (simp add: settle_def)
  then have 2: "watch_step net ucode this_loop p RunNext ?w1 = Inr \<lparr>pend = [SendInLoop m], tcp = c2, watcher = s2\<rparr>"
    using s2(1,2) by (simp add: follow_def del: run_functor.simps)
  have "\<not> isWriting (chan c2)" by (simp add: s2(4))
  from refused_send [OF c2(2) this assms(9), of net, OF assms(10)] obtain c3 k where
    c3: "sendInLoop net True m c2 = Inr c3" "effects c3 = effects c2 @ [UpdateChannel k]" by blast
  have "watch_step net ucode this_loop p RunNext \<lparr>pend = [SendInLoop m], tcp = c2, watcher = s2\<rparr> =
      Inl (AssertionFailed ''channels_.find(channel->fd()) != channels_.end()'')"
    using c3 left_behind_update [OF s2(3), of k] by (simp add: follow_def settle_def)
  with 1 2 show ?thesis by blast
qed

text \<open>A peer that closes at once, to a kernel that takes nothing any more.\<close>

definition closed_net :: net where
  "closed_net = \<lparr>sys_write = (\<lambda>k data. -1), sys_readv = (\<lambda>k areas. ReadvBytes [])\<rparr>"

definition no_code :: user_code where
  "no_code kind c = []"

definition lone_watched :: "watched_conn" where
  "lone_watched = (case watch_step closed_net no_code 0 3 RunNext (new_watched 0 5 False lone_channel) of
     Inl e \<Rightarrow> new_watched 0 5 False lone_channel | Inr w \<Rightarrow> w)"

definition closed_watched :: "watched_conn" where
  "closed_watched = (case watch_step closed_net no_code 0 3 (Polled POLLIN) lone_watched of
     Inl e \<Rightarrow> lone_watched | Inr w \<Rightarrow> w)"

lemma write_ok_closed_net: "write_ok closed_net"
  by (simp add: write_ok_def closed_net_def)

lemma closed_watched_reached:
  "watch_reaches untroubled closed_net no_code 0 3 (new_watched 0 5 False lone_channel) closed_watched"
proof -
  let ?w0 = "new_watched 0 5 False lone_channel"
  have I0: "watch_inv closed_net 0 3 ?w0"
    using new_watched_inv [OF lone_channel_ok write_ok_closed_net] by blast
  have e0: "watch_enabled 0 3 ?w0 RunNext" "untroubled ?w0 RunNext" by (simp_all add: new_watched_def)
  from watch_step_ok [OF I0 this, of no_code] obtain w1 where
    w1: "watch_step closed_net no_code 0 3 RunNext ?w0 = Inr w1" "watch_inv closed_net 0 3 w1" by blast
  have l: "lone_watched = w1" unfolding lone_watched_def w1(1) by simp
  have e1: "watch_enabled 0 3 w1 (Polled POLLIN)" "untroubled w1 (Polled POLLIN)"
    by (simp_all add: ordinary_def poll_consts)
  from watch_step_ok [OF w1(2) e1, of no_code] obtain w2 where
    w2: "watch_step closed_net no_code 0 3 (Polled POLLIN) w1 = Inr w2" by blast
  have "closed_watched = w2" unfolding closed_watched_def l w2 by simp
  then show ?thesis
    using watch_next [of untroubled closed_net no_code 0 3, OF watch_next [of untroubled, OF watch_here e0 w1(1)] e1 w2] by simp
qed

lemma closed_watched_pending:
  "state (tcp closed_watched) = kConnected" "pend closed_watched = [ConnectDestroyed]"
  by code_simp+

theorem late_send_aborts_witness:
  "\<exists>w1 w2. watch_step closed_net no_code 0 3 (SendCalled [104]) closed_watched = Inr w1 \<and>
    watch_step closed_net no_code 0 3 RunNext w1 = Inr w2 \<and>
    watch_step closed_net no_code 0 3 RunNext w2 =
      Inl (AssertionFailed ''channels_.find(channel->fd()) != channels_.end()'')"
  by (rule late_send_aborts [OF closed_watched_reached lone_channel_ok write_ok_closed_net closed_watched_pending])
    (simp_all add: closed_net_def)

end
