(* ===== verification/CallTable.thy ===== *)
theory CallTable
  imports Prelude
begin

section \<open>Tables of outstanding calls\<close>

text \<open>
  A client that numbers its calls and keeps those not yet answered in a table: the contract that the
  RPC channel and the backend sessions of the balancer share. \<open>issue r\<close> stores \<open>r\<close> under the next
  number, \<open>complete k\<close> looks a number up and removes it.

  \<open>calls_view tab latest n P rq\<close> is the abstract state: \<open>n\<close> calls were issued, \<open>rq i\<close> is the \<open>i\<close>-th, those
  in \<open>P\<close> are unanswered, and the 64-bit numbers have not wrapped.
\<close>

definition calls_view :: "(u64 \<Rightarrow> 'r option) \<Rightarrow> u64 \<Rightarrow> nat \<Rightarrow> nat set \<Rightarrow> (nat \<Rightarrow> 'r) \<Rightarrow> bool" where
  "calls_view tab latest n P rq \<longleftrightarrow> unat latest = n \<and> P \<subseteq> {1..n} \<and>
     (\<forall>k. tab k = (if unat k \<in> P then Some (rq (unat k)) else None))"

lemma unat_of_nat64: "i < 2 ^ 64 \<Longrightarrow> unat (of_nat i :: u64) = i"
  by (simp add: unat_of_nat take_bit_eq_mod)

locale call_table =
  fixes issue :: "'r \<Rightarrow> 's \<Rightarrow> 's"
    and complete :: "u64 \<Rightarrow> 's \<Rightarrow> 'r option \<times> 's"
    and table :: "'s \<Rightarrow> u64 \<Rightarrow> 'r option"
    and last_id :: "'s \<Rightarrow> u64"
  assumes issue_last: "last_id (issue r s) = last_id s + 1"
    and issue_table: "table (issue r s) = (table s)(last_id s + 1 \<mapsto> r)"
    and complete_result: "fst (complete k s) = table s k"
    and complete_table: "table (snd (complete k s)) = (table s)(k := None)"
    and complete_last: "last_id (snd (complete k s)) = last_id s"
begin

lemma view_next:
  assumes "calls_view (table s) (last_id s) n P rq" and "n + 1 < 2 ^ 64"
  shows "last_id s + 1 = of_nat (n + 1)" and "unat (last_id s + 1) = n + 1"
proof -
  have "last_id s = of_nat n" using assms(1) by (auto simp: calls_view_def)
  then show *: "last_id s + 1 = of_nat (n + 1)" by simp
  show "unat (last_id s + 1) = n + 1" unfolding * by (rule unat_of_nat64) (use assms(2) in simp)
qed

lemma next_is_fresh:
  assumes "calls_view (table s) (last_id s) n P rq" and "n + 1 < 2 ^ 64"
  shows "table s (last_id s + 1) = None"
  using assms(1) view_next(2) [OF assms] by (auto simp: calls_view_def)

lemma view_issue:
  assumes v: "calls_view (table s) (last_id s) n P rq" and "n + 1 < 2 ^ 64"
  shows "calls_view (table (issue r s)) (last_id (issue r s)) (n + 1) (insert (n + 1) P) (rq(n + 1 := r))"
proof -
  note u = view_next(2) [OF assms]
  have P: "P \<subseteq> {1..n}" using v by (simp add: calls_view_def)
  have "unat k = n + 1 \<longleftrightarrow> k = last_id s + 1" for k using u by (metis word_unat_eq_iff)
  then show ?thesis using v u P by (auto simp: calls_view_def issue_last issue_table)
qed

lemma view_complete:
  assumes v: "calls_view (table s) (last_id s) n P rq" and i: "i < 2 ^ 64"
  shows "fst (complete (of_nat i) s) = (if i \<in> P then Some (rq i) else None)"
    and "calls_view (table (snd (complete (of_nat i) s))) (last_id (snd (complete (of_nat i) s))) n (P - {i}) rq"
proof -
  note u = unat_of_nat64 [OF i]
  show "fst (complete (of_nat i) s) = (if i \<in> P then Some (rq i) else None)"
    using v u by (simp add: calls_view_def complete_result)
  have "k = of_nat i \<longleftrightarrow> unat k = i" for k :: u64 using u by (metis word_unat_eq_iff)
  then show "calls_view (table (snd (complete (of_nat i) s))) (last_id (snd (complete (of_nat i) s))) n (P - {i}) rq"
    using v by (auto simp: calls_view_def complete_table complete_last)
qed

lemma view_unknown:
  assumes "calls_view (table s) (last_id s) n P rq" and "unat k \<notin> P"
  shows "fst (complete k s) = None" and "table (snd (complete k s)) = table s"
  using assms by (auto simp: calls_view_def complete_result complete_table)

end

end
