(* ===== verification/Rpc.thy ===== *)
theory Rpc
  imports CallTable "HOL-Library.Multiset"
begin

section \<open>Remote procedure calls: RpcChannel and RpcServer\<close>

text \<open>
  One \<open>RpcChannel\<close> sits at each end of a connection. \<open>CallMethod\<close> numbers a call, keeps the response
  object and the closure in \<open>outstandings_\<close> and sends a request; \<open>onRpcMessage\<close> gives a request to the
  service it names, or answers with an error code, and matches a response with its call;
  \<open>doneCallback\<close>, the closure a service gets, sends the response.

  Response objects and closures are numbers, 0 is the null pointer. \<open>outbox\<close> is what the channel has
  given to its codec, in order; \<open>working\<close> are the closures the services hold; \<open>happened\<close> is what the
  channel did with response objects and closures. Services, the descriptors of the protobuf runtime
  included, are parameters.
\<close>

datatype message_type = REQUEST | RESPONSE | ERROR

datatype rpc_error = NO_ERROR | WRONG_PROTO | NO_SERVICE | NO_METHOD | INVALID_REQUEST | INVALID_RESPONSE | TIMEOUT

record rpc_message =
  msg_type :: message_type
  msg_id :: u64
  msg_service :: "string option"
  msg_method :: "string option"
  msg_request :: "byte list option"
  msg_response :: "byte list option"
  msg_error :: "rpc_error option"

text \<open>A string field that is not set reads as the empty string.\<close>

definition field_or_empty :: "'a list option \<Rightarrow> 'a list" where
  "field_or_empty f = (case f of None \<Rightarrow> [] | Some x \<Rightarrow> x)"

text \<open>A service object: its name, its methods by name and whether bytes parse as a method's request.\<close>

record service =
  full_name :: string
  FindMethodByName :: "string \<Rightarrow> nat option"
  request_parses :: "nat \<Rightarrow> byte list \<Rightarrow> bool"

type_synonym service_map = "string \<Rightarrow> service option option"

record outstanding_call =
  out_response :: nat
  out_done :: nat

datatype closure_event = Parsed nat "byte list" | Ran nat | Freed nat

record running_call =
  run_service :: string
  run_method :: nat
  run_request :: "byte list"
  run_id :: u64

record rpc_channel =
  conn :: "nat option"
  call_id :: u64
  outstandings :: "u64 \<Rightarrow> outstanding_call option"
  services :: bool
  outbox :: "rpc_message list"
  working :: "running_call list"
  happened :: "closure_event list"

definition new_rpc_channel :: "nat option \<Rightarrow> rpc_channel" where
  "new_rpc_channel c = \<lparr>conn = c, call_id = 0, outstandings = Map.empty, services = False, outbox = [],
     working = [], happened = []\<rparr>"

definition setConnection :: "nat option \<Rightarrow> rpc_channel \<Rightarrow> rpc_channel" where
  "setConnection c ch = ch\<lparr>conn := c\<rparr>"

definition setServices :: "bool \<Rightarrow> rpc_channel \<Rightarrow> rpc_channel" where
  "setServices given ch = ch\<lparr>services := given\<rparr>"

definition codec_send :: "rpc_message \<Rightarrow> rpc_channel \<Rightarrow> rpc_channel result" where
  "codec_send message ch =
     (case conn ch of None \<Rightarrow> Inl (NullDereference ''conn_'') | Some _ \<Rightarrow> Inr (ch\<lparr>outbox := outbox ch @ [message]\<rparr>))"

subsection \<open>Calling\<close>

definition add_outstanding :: "outstanding_call \<Rightarrow> rpc_channel \<Rightarrow> rpc_channel" where
  "add_outstanding out ch =
     (let i = call_id ch + 1 in ch\<lparr>call_id := i, outstandings := (outstandings ch)(i \<mapsto> out)\<rparr>)"

definition CallMethod :: "string \<Rightarrow> string \<Rightarrow> byte list \<Rightarrow> nat \<Rightarrow> nat \<Rightarrow> rpc_channel \<Rightarrow> rpc_channel result" where
  "CallMethod service_name method_name request response closure ch =
     (let ch1 = add_outstanding \<lparr>out_response = response, out_done = closure\<rparr> ch;
          message = \<lparr>msg_type = REQUEST, msg_id = call_id ch1, msg_service = Some service_name,
            msg_method = Some method_name, msg_request = Some request, msg_response = None, msg_error = None\<rparr>
      in codec_send message ch1)"

subsection \<open>Receiving\<close>

definition take_outstanding :: "u64 \<Rightarrow> rpc_channel \<Rightarrow> outstanding_call option \<times> rpc_channel" where
  "take_outstanding i ch =
     (case outstandings ch i of
        None \<Rightarrow> (None, ch)
      | Some out \<Rightarrow> (Some out, ch\<lparr>outstandings := (outstandings ch)(i := None)\<rparr>))"

interpretation channel_calls: call_table add_outstanding take_outstanding outstandings call_id
  by unfold_locales (auto simp: add_outstanding_def take_outstanding_def Let_def split: option.splits)

definition onResponse :: "rpc_message \<Rightarrow> rpc_channel \<Rightarrow> rpc_channel result" where
  "onResponse message ch =
     require (msg_response message \<noteq> None \<or> msg_error message \<noteq> None)
       (AssertionFailed ''message.has_response() || message.has_error()'')
      (let (found, ch1) = take_outstanding (msg_id message) ch;
           out = (case found of None \<Rightarrow> \<lparr>out_response = 0, out_done = 0\<rparr> | Some out \<Rightarrow> out)
       in Inr (if out_response out \<noteq> 0 then
                 ch1\<lparr>happened := happened ch1 @
                   (case msg_response message of None \<Rightarrow> [] | Some bs \<Rightarrow> [Parsed (out_response out) bs]) @
                   (if out_done out \<noteq> 0 then [Ran (out_done out)] else []) @ [Freed (out_response out)]\<rparr>
               else ch1))"

definition onRequest :: "service_map option \<Rightarrow> rpc_message \<Rightarrow> rpc_channel \<Rightarrow> (rpc_error \<times> rpc_channel) result" where
  "onRequest svcs message ch =
     (case svcs of
        None \<Rightarrow> Inr (NO_SERVICE, ch)
      | Some m \<Rightarrow>
         (case m (field_or_empty (msg_service message)) of
            None \<Rightarrow> Inr (NO_SERVICE, ch)
          | Some None \<Rightarrow> Inl (AssertionFailed ''service != NULL'')
          | Some (Some sv) \<Rightarrow>
             (case FindMethodByName sv (field_or_empty (msg_method message)) of
                None \<Rightarrow> Inr (NO_METHOD, ch)
              | Some md \<Rightarrow>
                 if request_parses sv md (field_or_empty (msg_request message)) then
                   Inr (NO_ERROR, ch\<lparr>working := working ch @
                     [\<lparr>run_service = field_or_empty (msg_service message), run_method = md,
                       run_request = field_or_empty (msg_request message), run_id = msg_id message\<rparr>]\<rparr>)
                 else Inr (INVALID_REQUEST, ch))))"

text \<open>The argument \<open>svcs\<close> is the map the pointer \<open>services_\<close> refers to.\<close>

definition onRpcMessage :: "service_map \<Rightarrow> nat \<Rightarrow> rpc_message \<Rightarrow> rpc_channel \<Rightarrow> rpc_channel result" where
  "onRpcMessage svcs c message ch =
     require (Some c = conn ch) (AssertionFailed ''conn == conn_'')
      (case msg_type message of
         RESPONSE \<Rightarrow> onResponse message ch
       | REQUEST \<Rightarrow>
           and_then (onRequest (if services ch then Some svcs else None) message ch) (\<lambda>(error, ch1).
             if error \<noteq> NO_ERROR then
               codec_send \<lparr>msg_type = RESPONSE, msg_id = msg_id message, msg_service = None, msg_method = None,
                 msg_request = None, msg_response = None, msg_error = Some error\<rparr> ch1
             else Inr ch1)
       | ERROR \<Rightarrow> Inr ch)"

definition doneCallback :: "byte list \<Rightarrow> u64 \<Rightarrow> rpc_channel \<Rightarrow> rpc_channel result" where
  "doneCallback response i ch =
     codec_send \<lparr>msg_type = RESPONSE, msg_id = i, msg_service = None, msg_method = None, msg_request = None,
       msg_response = Some response, msg_error = None\<rparr> ch"

text \<open>A service runs the \<open>k\<close>-th closure it holds with its response.\<close>

definition finish :: "nat \<Rightarrow> byte list \<Rightarrow> rpc_channel \<Rightarrow> rpc_channel result" where
  "finish k response ch =
     (let r = working ch ! k
      in doneCallback response (run_id r) (ch\<lparr>working := take k (working ch) @ drop (Suc k) (working ch)\<rparr>))"

subsection \<open>RpcServer\<close>

text \<open>
  \<open>contexts\<close> holds the channel each connection owns, which dies with it. \<open>held\<close> are the closures in the
  hands of the services, each with the pointer to its channel; here they are moved there from the
  channel's own list.
\<close>

record rpc_server =
  service_table :: service_map
  contexts :: "nat \<Rightarrow> rpc_channel option"
  held :: "(nat \<times> running_call) list"

definition new_rpc_server :: rpc_server where
  "new_rpc_server = \<lparr>service_table = Map.empty, contexts = Map.empty, held = []\<rparr>"

definition registerService :: "service option \<Rightarrow> rpc_server \<Rightarrow> rpc_server result" where
  "registerService s srv =
     (case s of
        None \<Rightarrow> Inl (NullDereference ''service'')
      | Some sv \<Rightarrow> Inr (srv\<lparr>service_table := (service_table srv)(full_name sv \<mapsto> Some sv)\<rparr>))"

definition onConnection :: "nat \<Rightarrow> bool \<Rightarrow> rpc_server \<Rightarrow> rpc_server" where
  "onConnection c is_connected srv =
     (if is_connected then
        srv\<lparr>contexts := (contexts srv)(c \<mapsto> setServices True (new_rpc_channel (Some c)))\<rparr>
      else srv\<lparr>contexts := (contexts srv)(c := None)\<rparr>)"

definition through_channel :: "nat \<Rightarrow> (rpc_channel \<Rightarrow> rpc_channel result) \<Rightarrow> rpc_server \<Rightarrow> rpc_server result" where
  "through_channel c f srv =
     (case contexts srv c of
        None \<Rightarrow> Inl (NullDereference ''RpcChannel'')
      | Some ch \<Rightarrow> and_then (f ch) (\<lambda>ch'.
          Inr (srv\<lparr>contexts := (contexts srv)(c \<mapsto> ch'\<lparr>working := []\<rparr>),
                 held := held srv @ map (Pair c) (working ch')\<rparr>)))"

definition server_onMessage :: "nat \<Rightarrow> rpc_message \<Rightarrow> rpc_server \<Rightarrow> rpc_server result" where
  "server_onMessage c message srv = through_channel c (onRpcMessage (service_table srv) c message) srv"

definition server_done :: "nat \<Rightarrow> byte list \<Rightarrow> rpc_server \<Rightarrow> rpc_server result" where
  "server_done k response srv =
     (let (c, r) = held srv ! k
      in through_channel c (doneCallback response (run_id r)) (srv\<lparr>held := take k (held srv) @ drop (Suc k) (held srv)\<rparr>))"

subsection \<open>A caller and a callee\<close>

text \<open>
  Two channels on the ends of a connection, which delivers what each sends in order and once:
  \<open>seen_requests\<close> and \<open>seen_replies\<close> count the messages delivered. The \<open>i\<close>-th call, from 1, brings
  response object \<open>i\<close> and closure \<open>i\<close>. Services answer when they like, in any order, each request once,
  with a response that \<open>spec\<close> allows for the service, method and request bytes.
\<close>

record rpc_world =
  caller :: rpc_channel
  callee :: rpc_channel
  seen_requests :: nat
  seen_replies :: nat
  calls :: "(string \<times> string \<times> byte list) list"

datatype rpc_event = Call string string "byte list" | Serve | Finish nat "byte list" | Reply

definition new_world :: rpc_world where
  "new_world = \<lparr>caller = new_rpc_channel (Some 0), callee = setServices True (new_rpc_channel (Some 0)),
     seen_requests = 0, seen_replies = 0, calls = []\<rparr>"

fun rpc_step :: "service_map \<Rightarrow> rpc_event \<Rightarrow> rpc_world \<Rightarrow> rpc_world result" where
  "rpc_step svcs (Call s m r) w =
     (let i = length (calls w) + 1
      in and_then (CallMethod s m r i i (caller w)) (\<lambda>c. Inr (w\<lparr>caller := c, calls := calls w @ [(s, m, r)]\<rparr>)))"
| "rpc_step svcs Serve w =
     and_then (onRpcMessage svcs 0 (outbox (caller w) ! seen_requests w) (callee w)) (\<lambda>c.
       Inr (w\<lparr>callee := c, seen_requests := seen_requests w + 1\<rparr>))"
| "rpc_step svcs (Finish k bs) w = and_then (finish k bs (callee w)) (\<lambda>c. Inr (w\<lparr>callee := c\<rparr>))"
| "rpc_step svcs Reply w =
     and_then (onRpcMessage Map.empty 0 (outbox (callee w) ! seen_replies w) (caller w)) (\<lambda>c.
       Inr (w\<lparr>caller := c, seen_replies := seen_replies w + 1\<rparr>))"

type_synonym response_spec = "string \<Rightarrow> nat \<Rightarrow> byte list \<Rightarrow> byte list \<Rightarrow> bool"

fun rpc_enabled :: "response_spec \<Rightarrow> rpc_world \<Rightarrow> rpc_event \<Rightarrow> bool" where
  "rpc_enabled spec w (Call s m r) \<longleftrightarrow> length (calls w) + 1 < 2 ^ 64"
| "rpc_enabled spec w Serve \<longleftrightarrow> seen_requests w < length (outbox (caller w))"
| "rpc_enabled spec w (Finish k bs) \<longleftrightarrow> k < length (working (callee w)) \<and>
     (let r = working (callee w) ! k in spec (run_service r) (run_method r) (run_request r) bs)"
| "rpc_enabled spec w Reply \<longleftrightarrow> seen_replies w < length (outbox (callee w))"

inductive rpc_reaches :: "service_map \<Rightarrow> response_spec \<Rightarrow> rpc_world \<Rightarrow> rpc_world \<Rightarrow> bool" for svcs spec where
  rpc_here: "rpc_reaches svcs spec w w"
| rpc_next: "rpc_reaches svcs spec w w1 \<Longrightarrow> rpc_enabled spec w1 e \<Longrightarrow> rpc_step svcs e w1 = Inr w2 \<Longrightarrow>
    rpc_reaches svcs spec w w2"

text \<open>Nothing is on the way and no service is at work.\<close>

definition settled :: "rpc_world \<Rightarrow> bool" where
  "settled w \<longleftrightarrow> seen_requests w = length (outbox (caller w)) \<and> seen_replies w = length (outbox (callee w)) \<and>
     working (callee w) = []"

text \<open>What the services make of a call: the method that runs it, or the error it is answered with.\<close>

fun resolve :: "service_map \<Rightarrow> string \<times> string \<times> byte list \<Rightarrow> rpc_error + nat" where
  "resolve svcs (s, m, r) =
     (case svcs s of
        Some (Some sv) \<Rightarrow>
          (case FindMethodByName sv m of
             None \<Rightarrow> Inl NO_METHOD
           | Some md \<Rightarrow> if request_parses sv md r then Inr md else Inl INVALID_REQUEST)
      | _ \<Rightarrow> Inl NO_SERVICE)"

text \<open>A right answer: the bytes of a response to that very request, or none for an error.\<close>

fun right_answer :: "service_map \<Rightarrow> response_spec \<Rightarrow> string \<times> string \<times> byte list \<Rightarrow> byte list option \<Rightarrow> bool" where
  "right_answer svcs spec (s, m, r) (Some bs) \<longleftrightarrow> (\<exists>md. resolve svcs (s, m, r) = Inr md \<and> spec s md r bs)"
| "right_answer svcs spec (s, m, r) None \<longleftrightarrow> (\<exists>e. resolve svcs (s, m, r) = Inl e)"

text \<open>What the caller does with the response object and the closure of an answered call.\<close>

fun deliver :: "nat \<times> byte list option \<Rightarrow> closure_event list" where
  "deliver (i, Some bs) = [Parsed i bs, Ran i, Freed i]"
| "deliver (i, None) = [Ran i, Freed i]"

text \<open>
  The invariant: the calls not yet answered are split between the requests on the way, the services at
  work and the replies on the way; \<open>ans\<close> are the calls answered so far with their answers.
\<close>

definition request_of :: "nat \<Rightarrow> string \<times> string \<times> byte list \<Rightarrow> rpc_message" where
  "request_of i = (\<lambda>(s, m, r). \<lparr>msg_type = REQUEST, msg_id = of_nat i, msg_service = Some s, msg_method = Some m,
     msg_request = Some r, msg_response = None, msg_error = None\<rparr>)"

definition requests :: "(string \<times> string \<times> byte list) list \<Rightarrow> rpc_message list" where
  "requests cs = map2 request_of [1..<length cs + 1] cs"

definition good_run :: "service_map \<Rightarrow> (string \<times> string \<times> byte list) list \<Rightarrow> running_call \<Rightarrow> bool" where
  "good_run svcs cs x \<longleftrightarrow> 1 \<le> unat (run_id x) \<and> unat (run_id x) \<le> length cs \<and>
     (\<exists>m. cs ! (unat (run_id x) - 1) = (run_service x, m, run_request x) \<and>
        resolve svcs (run_service x, m, run_request x) = Inr (run_method x))"

definition good_reply :: "service_map \<Rightarrow> response_spec \<Rightarrow> (string \<times> string \<times> byte list) list \<Rightarrow> rpc_message \<Rightarrow> bool" where
  "good_reply svcs spec cs x \<longleftrightarrow> msg_type x = RESPONSE \<and> (msg_response x \<noteq> None \<or> msg_error x \<noteq> None) \<and>
     1 \<le> unat (msg_id x) \<and> unat (msg_id x) \<le> length cs \<and>
     right_answer svcs spec (cs ! (unat (msg_id x) - 1)) (msg_response x)"

definition replies :: "rpc_world \<Rightarrow> rpc_message list" where
  "replies w = drop (seen_replies w) (outbox (callee w))"

definition unanswered :: "rpc_world \<Rightarrow> nat list" where
  "unanswered w = [seen_requests w + 1..<length (calls w) + 1] @ map (\<lambda>x. unat (run_id x)) (working (callee w)) @
     map (\<lambda>x. unat (msg_id x)) (replies w)"

definition rpc_inv :: "service_map \<Rightarrow> response_spec \<Rightarrow> (nat \<times> byte list option) list \<Rightarrow> rpc_world \<Rightarrow> bool" where
  "rpc_inv svcs spec ans w \<longleftrightarrow>
     conn (caller w) = Some 0 \<and> conn (callee w) = Some 0 \<and> services (callee w) \<and>
     length (calls w) < 2 ^ 64 \<and> seen_requests w \<le> length (calls w) \<and>
     seen_replies w \<le> length (outbox (callee w)) \<and>
     outbox (caller w) = requests (calls w) \<and>
     (\<forall>x \<in> set (working (callee w)). good_run svcs (calls w) x) \<and>
     (\<forall>x \<in> set (replies w). good_reply svcs spec (calls w) x) \<and>
     calls_view (outstandings (caller w)) (call_id (caller w)) (length (calls w)) (set (unanswered w))
       (\<lambda>i. \<lparr>out_response = i, out_done = i\<rparr>) \<and>
     mset (unanswered w @ map fst ans) = mset [1..<length (calls w) + 1] \<and>
     happened (caller w) = concat (map deliver ans) \<and>
     (\<forall>(i, a) \<in> set ans. right_answer svcs spec (calls w ! (i - 1)) a)"


lemma rpc_invD:
  assumes "rpc_inv svcs spec ans w"
  shows "conn (caller w) = Some 0" "conn (callee w) = Some 0" "services (callee w)" "length (calls w) < 2 ^ 64"
    "seen_requests w \<le> length (calls w)" "seen_replies w \<le> length (outbox (callee w))"
    "outbox (caller w) = requests (calls w)"
    "\<forall>x \<in> set (working (callee w)). good_run svcs (calls w) x"
    "\<forall>x \<in> set (replies w). good_reply svcs spec (calls w) x"
    "calls_view (outstandings (caller w)) (call_id (caller w)) (length (calls w)) (set (unanswered w))
       (\<lambda>i. \<lparr>out_response = i, out_done = i\<rparr>)"
    "mset (unanswered w @ map fst ans) = mset [1..<length (calls w) + 1]"
    "happened (caller w) = concat (map deliver ans)"
    "\<forall>(i, a) \<in> set ans. right_answer svcs spec (calls w ! (i - 1)) a"
  subgoal using assms unfolding rpc_inv_def by (elim conjE)
  subgoal using assms unfolding rpc_inv_def by (elim conjE)
  subgoal using assms unfolding rpc_inv_def by (elim conjE)
  subgoal using assms unfolding rpc_inv_def by (elim conjE)
  subgoal using assms unfolding rpc_inv_def by (elim conjE)
  subgoal using assms unfolding rpc_inv_def by (elim conjE)
  subgoal using assms unfolding rpc_inv_def by (elim conjE)
  subgoal using assms unfolding rpc_inv_def by (elim conjE)
  subgoal using assms unfolding rpc_inv_def by (elim conjE)
  subgoal using assms unfolding rpc_inv_def by (elim conjE)
  subgoal using assms unfolding rpc_inv_def by (elim conjE)
  subgoal using assms unfolding rpc_inv_def by (elim conjE)
  subgoal using assms unfolding rpc_inv_def by (elim conjE)
  done

lemma rpc_inv_ids:
  assumes "rpc_inv svcs spec ans w"
  shows "distinct (unanswered w @ map fst ans)" and "set (unanswered w @ map fst ans) = {1..length (calls w)}"
proof -
  note m = rpc_invD(11) [OF assms]
  show "distinct (unanswered w @ map fst ans)" using mset_eq_imp_distinct_iff [OF m] by simp
  show "set (unanswered w @ map fst ans) = {1..length (calls w)}" using mset_eq_setD [OF m] by auto
qed

lemma requests_snoc: "requests (cs @ [c]) = requests cs @ [request_of (length cs + 1) c]"
proof -
  have "[1..<length (cs @ [c]) + 1] = [1..<length cs + 1] @ [length cs + 1]" by simp
  then show ?thesis unfolding requests_def by (simp only: zip_append length_upt map_append) simp
qed

lemma length_requests [simp]: "length (requests cs) = length cs"
  by (simp add: requests_def del: upt_Suc)

lemma nth_requests: "k < length cs \<Longrightarrow> requests cs ! k = request_of (k + 1) (cs ! k)"
  by (simp add: requests_def del: upt_Suc)

lemma good_run_later: "good_run svcs cs x \<Longrightarrow> good_run svcs (cs @ [c]) x"
  by (auto simp: good_run_def nth_append)

lemma good_reply_later: "good_reply svcs spec cs x \<Longrightarrow> good_reply svcs spec (cs @ [c]) x"
  by (auto simp: good_reply_def nth_append)

lemma rpc_inv_new: "rpc_inv svcs spec [] new_world"
  by (simp add: rpc_inv_def requests_def new_world_def new_rpc_channel_def setServices_def unanswered_def replies_def calls_view_def)

lemma call_ok:
  assumes inv: "rpc_inv svcs spec ans w" and n: "length (calls w) + 1 < 2 ^ 64"
  shows "\<exists>w'. rpc_step svcs (Call s m r) w = Inr w' \<and> rpc_inv svcs spec ans w' \<and> calls w' = calls w @ [(s, m, r)]"
proof -
  note I = rpc_invD [OF inv]
  let ?n = "length (calls w)"
  let ?i = "?n + 1"
  define c1 where "c1 = add_outstanding \<lparr>out_response = ?i, out_done = ?i\<rparr> (caller w)"
  have key: "call_id c1 = of_nat ?i"
    using channel_calls.view_next(1) [OF I(10) n] by (simp add: c1_def add_outstanding_def Let_def)
  have c1: "conn c1 = Some 0" "outbox c1 = outbox (caller w)" "happened c1 = happened (caller w)"
    using I(1) by (simp_all add: c1_def add_outstanding_def Let_def)
  define w' where "w' = w\<lparr>caller := c1\<lparr>outbox := outbox c1 @ [request_of ?i (s, m, r)]\<rparr>, calls := calls w @ [(s, m, r)]\<rparr>"
  have "CallMethod s m r ?i ?i (caller w) = Inr (c1\<lparr>outbox := outbox c1 @ [request_of ?i (s, m, r)]\<rparr>)"
    unfolding CallMethod_def c1_def [symmetric] Let_def codec_send_def key request_of_def c1(1) by simp
  then have step: "rpc_step svcs (Call s m r) w = Inr w'" by (simp add: w'_def)
  have un: "unanswered w' = [seen_requests w + 1..<?n + 1] @ [?i] @ map (\<lambda>x. unat (run_id x)) (working (callee w)) @
      map (\<lambda>x. unat (msg_id x)) (replies w)" using I(5) by (simp add: w'_def unanswered_def replies_def)
  then have sun: "set (unanswered w') = insert ?i (set (unanswered w))" by (auto simp: unanswered_def)
  have "calls_view (outstandings c1) (call_id c1) ?i (insert ?i (set (unanswered w))) (\<lambda>i. \<lparr>out_response = i, out_done = i\<rparr>)"
    using channel_calls.view_issue [OF I(10) n, of "\<lparr>out_response = ?i, out_done = ?i\<rparr>"]
    unfolding c1_def by (simp add: fun_upd_idem)
  then have "calls_view (outstandings (caller w')) (call_id (caller w')) (length (calls w')) (set (unanswered w'))
      (\<lambda>i. \<lparr>out_response = i, out_done = i\<rparr>)"
    unfolding sun by (simp add: w'_def)
  moreover have "outbox (caller w') = requests (calls w')"
    using I(7) c1(2) by (simp add: w'_def requests_snoc)
  moreover have "mset (unanswered w' @ map fst ans) = mset [1..<length (calls w') + 1]"
    using I(11) un by (simp add: w'_def unanswered_def)
  moreover have "\<forall>(i, a) \<in> set ans. right_answer svcs spec (calls w' ! (i - 1)) a"
  proof (clarify)
    fix i a assume ia: "(i, a) \<in> set ans"
    then have "i \<in> set (unanswered w @ map fst ans)" by force
    then have "1 \<le> i" "i \<le> ?n" using rpc_inv_ids(2) [OF inv] by auto
    then have "i - 1 < ?n" by simp
    then show "right_answer svcs spec (calls w' ! (i - 1)) a" using I(13) ia by (auto simp: w'_def nth_append)
  qed
  moreover have "\<forall>x \<in> set (working (callee w')). good_run svcs (calls w') x" using I(8) good_run_later by (simp add: w'_def)
  moreover have "\<forall>x \<in> set (replies w'). good_reply svcs spec (calls w') x"
    using I(9) good_reply_later by (simp add: w'_def replies_def)
  ultimately have "rpc_inv svcs spec ans w'" using I(2,3,5,6,12) c1 n unfolding rpc_inv_def by (simp add: w'_def)
  with step show ?thesis by (simp add: w'_def)
qed

lemma serve_ok:
  assumes inv: "rpc_inv svcs spec ans w" and more: "seen_requests w < length (outbox (caller w))"
    and svcs: "\<And>s. svcs s \<noteq> Some None"
  shows "\<exists>w'. rpc_step svcs Serve w = Inr w' \<and> rpc_inv svcs spec ans w'"
proof -
  note I = rpc_invD [OF inv]
  let ?k = "seen_requests w"
  have k: "?k < length (calls w)" using more I(7) by simp
  obtain s m r where c: "calls w ! ?k = (s, m, r)" by (metis prod_cases3)
  have msg: "outbox (caller w) ! ?k = request_of (?k + 1) (s, m, r)" using I(7) k c by (simp add: nth_requests)
  have id: "unat (of_nat (?k + 1) :: u64) = ?k + 1" by (rule unat_of_nat64) (use k I(4) in simp)
  have split_un: "mset (unanswered w) = {#?k + 1#} + mset [?k + 2..<length (calls w) + 1] +
      mset (map (\<lambda>x. unat (run_id x)) (working (callee w))) + mset (map (\<lambda>x. unat (msg_id x)) (replies w))"
  proof -
    have "[?k + 1..<length (calls w) + 1] = (?k + 1) # [?k + 2..<length (calls w) + 1]"
      using k by (subst upt_conv_Cons) simp_all
    then show ?thesis unfolding unanswered_def by (simp only: mset_append mset.simps append_Cons) simp
  qed
  define f where "f = (\<lambda>ch'. w\<lparr>callee := ch', seen_requests := ?k + 1\<rparr>)"
  have keep: "rpc_inv svcs spec ans (f ch')"
    if ch': "conn ch' = Some 0" "services ch'" "length (outbox (callee w)) \<le> length (outbox ch')"
      and run: "\<forall>x \<in> set (working ch'). good_run svcs (calls w) x"
      and rep: "\<forall>x \<in> set (drop (seen_replies w) (outbox ch')). good_reply svcs spec (calls w) x"
      and un: "mset (unanswered (f ch')) = mset (unanswered w)" for ch'
  proof -
    have "mset (unanswered (f ch') @ map fst ans) = mset [1..<length (calls (f ch')) + 1]"
      using I(11) un by (simp add: f_def)
    moreover have "set (unanswered (f ch')) = set (unanswered w)" using un by (rule mset_eq_setD)
    ultimately show ?thesis using I ch' run rep k unfolding rpc_inv_def by (simp add: f_def replies_def)
  qed
  show ?thesis
  proof (cases "resolve svcs (s, m, r)")
    case (Inl e)
    let ?x = "\<lparr>msg_type = RESPONSE, msg_id = of_nat (?k + 1), msg_service = None, msg_method = None,
      msg_request = None, msg_response = None, msg_error = Some e\<rparr>"
    let ?ch = "(callee w)\<lparr>outbox := outbox (callee w) @ [?x]\<rparr>"
    have q: "onRequest (Some svcs) (request_of (?k + 1) (s, m, r)) (callee w) = Inr (e, callee w)" and e: "e \<noteq> NO_ERROR"
      using Inl svcs [of s] by (auto simp: onRequest_def request_of_def field_or_empty_def split: option.splits if_splits)
    then have "onRpcMessage svcs 0 (request_of (?k + 1) (s, m, r)) (callee w) = Inr ?ch"
      using I(2,3) by (simp add: onRpcMessage_def) (simp add: request_of_def codec_send_def)
    then have step: "rpc_step svcs Serve w = Inr (f ?ch)" using msg by (simp add: f_def)
    have "good_reply svcs spec (calls w) ?x" using Inl k id c by (simp add: good_reply_def)
    then have "rpc_inv svcs spec ans (f ?ch)"
      using I(2,3,6,8,9) id by (intro keep) (auto simp: replies_def split_un, simp_all add: f_def unanswered_def replies_def)
    with step show ?thesis by blast
  next
    case (Inr md)
    let ?x = "\<lparr>run_service = s, run_method = md, run_request = r, run_id = of_nat (?k + 1)\<rparr>"
    let ?ch = "(callee w)\<lparr>working := working (callee w) @ [?x]\<rparr>"
    have q: "onRequest (Some svcs) (request_of (?k + 1) (s, m, r)) (callee w) = Inr (NO_ERROR, ?ch)"
      using Inr by (auto simp: onRequest_def request_of_def field_or_empty_def split: option.splits if_splits)
    then have "onRpcMessage svcs 0 (request_of (?k + 1) (s, m, r)) (callee w) = Inr ?ch"
      using I(2,3) by (simp add: onRpcMessage_def) (simp add: request_of_def)
    then have step: "rpc_step svcs Serve w = Inr (f ?ch)" using msg by (simp add: f_def)
    have "good_run svcs (calls w) ?x" using Inr k id c by (auto simp: good_run_def)
    then have "rpc_inv svcs spec ans (f ?ch)"
      using I(2,3,6,8,9) id by (intro keep) (auto simp: replies_def split_un, simp_all add: f_def unanswered_def replies_def)
    with step show ?thesis by blast
  qed
qed

lemma finish_ok:
  assumes inv: "rpc_inv svcs spec ans w" and k: "rpc_enabled spec w (Finish k bs)"
  shows "\<exists>w'. rpc_step svcs (Finish k bs) w = Inr w' \<and> rpc_inv svcs spec ans w'"
proof -
  note I = rpc_invD [OF inv]
  define r where "r = working (callee w) ! k"
  have r: "k < length (working (callee w))" "spec (run_service r) (run_method r) (run_request r) bs"
    using k by (simp_all add: r_def Let_def)
  let ?rest = "take k (working (callee w)) @ drop (Suc k) (working (callee w))"
  let ?x = "\<lparr>msg_type = RESPONSE, msg_id = run_id r, msg_service = None, msg_method = None,
    msg_request = None, msg_response = Some bs, msg_error = None\<rparr>"
  define w' where "w' = w\<lparr>callee := (callee w)\<lparr>working := ?rest, outbox := outbox (callee w) @ [?x]\<rparr>\<rparr>"
  have step: "rpc_step svcs (Finish k bs) w = Inr w'"
    using I(2) by (simp add: finish_def doneCallback_def codec_send_def w'_def r_def)
  have "working (callee w) = take k (working (callee w)) @ r # drop (Suc k) (working (callee w))"
    using r(1) id_take_nth_drop by (simp add: r_def)
  then have ms: "mset (working (callee w)) = {#r#} + mset ?rest" by (metis add_mset_add_single mset.simps(2) mset_append union_commute union_mset_add_mset_right)
  then have "r \<in> set (working (callee w))" by (metis multi_member_this set_mset_mset)
  then have "good_run svcs (calls w) r" using I(8) by blast
  then have "good_reply svcs spec (calls w) ?x" using r(2) by (auto simp: good_run_def good_reply_def)
  then have "\<forall>x \<in> set (replies w'). good_reply svcs spec (calls w') x" using I(6,9) by (simp add: w'_def replies_def)
  moreover have "\<forall>x \<in> set (working (callee w')). good_run svcs (calls w') x"
    using I(8) by (auto simp: w'_def dest: in_set_takeD in_set_dropD)
  moreover have un: "mset (unanswered w') = mset (unanswered w)"
  proof -
    have "image_mset (\<lambda>x. unat (run_id x)) (mset (working (callee w))) =
        add_mset (unat (run_id r)) (image_mset (\<lambda>x. unat (run_id x)) (mset ?rest))" unfolding ms by simp
    then show ?thesis using I(6) by (simp add: w'_def unanswered_def replies_def)
  qed
  moreover have "set (unanswered w') = set (unanswered w)" using un by (rule mset_eq_setD)
  ultimately have "rpc_inv svcs spec ans w'" using I unfolding rpc_inv_def by (simp add: w'_def)
  with step show ?thesis by blast
qed

lemma reply_ok:
  assumes inv: "rpc_inv svcs spec ans w" and more: "seen_replies w < length (outbox (callee w))"
  shows "\<exists>w' a. rpc_step svcs Reply w = Inr w' \<and> rpc_inv svcs spec (ans @ [a]) w'"
proof -
  note I = rpc_invD [OF inv]
  define x where "x = outbox (callee w) ! seen_replies w"
  have rs: "replies w = x # drop (Suc (seen_replies w)) (outbox (callee w))"
    using more by (simp add: replies_def x_def Cons_nth_drop_Suc)
  then have x: "good_reply svcs spec (calls w) x" using I(9) by simp
  let ?i = "unat (msg_id x)"
  have i: "1 \<le> ?i" "?i \<le> length (calls w)" "?i < 2 ^ 64" using x I(4) by (simp_all add: good_reply_def)
  have un: "mset (unanswered w) = {#?i#} + mset ([seen_requests w + 1..<length (calls w) + 1] @
      map (\<lambda>x. unat (run_id x)) (working (callee w)) @ map (\<lambda>x. unat (msg_id x)) (drop (Suc (seen_replies w)) (outbox (callee w))))"
    unfolding unanswered_def rs by simp
  have inU: "?i \<in> set (unanswered w)" using rs by (simp add: unanswered_def)
  define c1 where "c1 = snd (take_outstanding (msg_id x) (caller w))"
  have found: "take_outstanding (msg_id x) (caller w) = (Some \<lparr>out_response = ?i, out_done = ?i\<rparr>, c1)"
    using channel_calls.view_complete(1) [OF I(10) i(3)] inU by (simp add: c1_def prod_eq_iff)
  have view: "calls_view (outstandings c1) (call_id c1) (length (calls w)) (set (unanswered w) - {?i})
      (\<lambda>i. \<lparr>out_response = i, out_done = i\<rparr>)"
    using channel_calls.view_complete(2) [OF I(10) i(3)] by (simp add: c1_def)
  have c1: "conn c1 = Some 0" "outbox c1 = outbox (caller w)" "happened c1 = happened (caller w)"
    using I(1) by (simp_all add: c1_def take_outstanding_def split: option.split)
  define w' where "w' = w\<lparr>caller := c1\<lparr>happened := happened c1 @ deliver (?i, msg_response x)\<rparr>,
    seen_replies := seen_replies w + 1\<rparr>"
  have "onResponse x (caller w) = Inr (c1\<lparr>happened := happened c1 @ deliver (?i, msg_response x)\<rparr>)"
    using x i(1) unfolding onResponse_def found by (cases "msg_response x") (simp_all add: good_reply_def)
  then have step: "rpc_step svcs Reply w = Inr w'"
    using x I(1) by (simp add: onRpcMessage_def good_reply_def x_def [symmetric] w'_def)
  have un': "mset (unanswered w) = {#?i#} + mset (unanswered w')"
    unfolding un by (simp add: unanswered_def w'_def replies_def)
  then have ids: "mset (unanswered w' @ map fst (ans @ [(?i, msg_response x)])) = mset (unanswered w @ map fst ans)" by simp
  have "?i \<notin> set (unanswered w')"
  proof -
    have "distinct (unanswered w)" using rpc_inv_ids(1) [OF inv] by simp
    then have "distinct (?i # unanswered w')" using mset_eq_imp_distinct_iff [of "unanswered w" "?i # unanswered w'"] un' by simp
    then show ?thesis by simp
  qed
  moreover have "set (unanswered w) = insert ?i (set (unanswered w'))"
    using mset_eq_setD [of "unanswered w" "?i # unanswered w'"] un' by simp
  ultimately have "set (unanswered w) - {?i} = set (unanswered w')" by simp
  with view have "calls_view (outstandings (caller w')) (call_id (caller w')) (length (calls w')) (set (unanswered w'))
      (\<lambda>i. \<lparr>out_response = i, out_done = i\<rparr>)" by (simp add: w'_def)
  moreover have "\<forall>(i, a) \<in> set (ans @ [(?i, msg_response x)]). right_answer svcs spec (calls w' ! (i - 1)) a"
    using I(13) x by (auto simp: w'_def good_reply_def)
  moreover have "\<forall>x \<in> set (replies w'). good_reply svcs spec (calls w') x"
    using I(9) rs by (simp add: w'_def replies_def)
  moreover have "mset (unanswered w' @ map fst (ans @ [(?i, msg_response x)])) = mset [1..<length (calls w') + 1]"
    using I(11) unfolding ids by (simp add: w'_def)
  ultimately have "rpc_inv svcs spec (ans @ [(?i, msg_response x)]) w'"
    using I(2,3,4,5,7,8,12) c1 more unfolding rpc_inv_def by (simp add: w'_def)
  with step show ?thesis by blast
qed

lemma rpc_step_ok:
  assumes inv: "rpc_inv svcs spec ans w" and e: "rpc_enabled spec w e" and svcs: "\<And>s. svcs s \<noteq> Some None"
  shows "\<exists>w' ans'. rpc_step svcs e w = Inr w' \<and> rpc_inv svcs spec ans' w'"
proof (cases e)
  case (Call s m r)
  then show ?thesis using call_ok [OF inv] e by fastforce
next
  case Serve
  then show ?thesis using serve_ok [OF inv _ svcs] e by auto
next
  case (Finish k bs)
  then show ?thesis using finish_ok [OF inv] e by blast
next
  case Reply
  then show ?thesis using reply_ok [OF inv] e by fastforce
qed

lemma rpc_reaches_inv:
  assumes "rpc_reaches svcs spec w w'" and "rpc_inv svcs spec ans w" and "\<And>s. svcs s \<noteq> Some None"
  shows "\<exists>ans'. rpc_inv svcs spec ans' w'"
  using assms(1,2)
proof (induction rule: rpc_reaches.induct)
  case (rpc_next w w1 e w2)
  from rpc_next.IH [OF rpc_next.prems] obtain ans1 where "rpc_inv svcs spec ans1 w1" by blast
  from rpc_step_ok [OF this rpc_next.hyps(2) assms(3)] rpc_next.hyps(3) show ?case by auto
qed blast

subsection \<open>Every call gets through\<close>

definition work :: "rpc_world \<Rightarrow> nat" where
  "work w = 3 * (length (calls w) - seen_requests w) + 2 * length (working (callee w)) + length (replies w)"

lemma onRequest_adds:
  "onRequest svcs x ch = Inr (e, ch') \<Longrightarrow>
    outbox ch' = outbox ch \<and> conn ch' = conn ch \<and>
    (if e = NO_ERROR then length (working ch') = Suc (length (working ch)) else working ch' = working ch)"
  by (auto simp: onRequest_def split: option.splits if_splits)

lemma onResponse_adds:
  "onResponse x ch = Inr ch' \<Longrightarrow> outbox ch' = outbox ch \<and> working ch' = working ch"
  by (auto simp: onResponse_def take_outstanding_def Let_def split: option.splits if_splits)

lemma onRpcMessage_adds:
  assumes "onRpcMessage svcs c x ch = Inr ch'"
  shows "2 * length (working ch') + length (outbox ch') \<le> 2 * length (working ch) + length (outbox ch) + 2 \<and>
    length (outbox ch) \<le> length (outbox ch')"
proof (cases "msg_type x")
  case REQUEST
  then have "and_then (onRequest (if services ch then Some svcs else None) x ch) (\<lambda>(error, ch1).
      if error \<noteq> NO_ERROR then codec_send \<lparr>msg_type = RESPONSE, msg_id = msg_id x, msg_service = None,
        msg_method = None, msg_request = None, msg_response = None, msg_error = Some error\<rparr> ch1 else Inr ch1) = Inr ch'"
    using assms by (simp add: onRpcMessage_def)
  then obtain e ch1 where q: "onRequest (if services ch then Some svcs else None) x ch = Inr (e, ch1)"
    and r: "(if e \<noteq> NO_ERROR then codec_send \<lparr>msg_type = RESPONSE, msg_id = msg_id x, msg_service = None,
      msg_method = None, msg_request = None, msg_response = None, msg_error = Some e\<rparr> ch1 else Inr ch1) = Inr ch'"
    unfolding and_then_Inr_iff by (elim exE conjE) (auto simp only: split_paired_all prod.case)
  show ?thesis
  proof (cases "e = NO_ERROR")
    case True
    with r onRequest_adds [OF q] show ?thesis by simp
  next
    case False
    with r onRequest_adds [OF q] show ?thesis by (simp add: codec_send_def split: option.splits) auto
  qed
next
  case RESPONSE
  then show ?thesis using assms onResponse_adds [of x ch ch'] by (simp add: onRpcMessage_def)
next
  case ERROR
  then show ?thesis using assms by (simp add: onRpcMessage_def)
qed

lemma step_works:
  assumes inv: "rpc_inv svcs spec ans w" and e: "rpc_enabled spec w e" and s: "rpc_step svcs e w = Inr w'"
    and no_call: "\<nexists>s m r. e = Call s m r"
  shows "work w' < work w" and "calls w' = calls w"
proof -
  note I = rpc_invD [OF inv]
  have "work w' < work w \<and> calls w' = calls w"
  proof (cases e)
    case Serve
    then obtain c where c: "onRpcMessage svcs 0 (outbox (caller w) ! seen_requests w) (callee w) = Inr c"
        "w' = w\<lparr>callee := c, seen_requests := seen_requests w + 1\<rparr>" using s by (auto simp: and_then_Inr_iff)
    have "seen_requests w < length (calls w)" using e Serve I(7) by simp
    then show ?thesis using onRpcMessage_adds [OF c(1)] I(6) unfolding c(2) work_def replies_def by simp arith
  next
    case (Finish k bs)
    then show ?thesis using s e I(2,6)
      by (auto simp: finish_def doneCallback_def codec_send_def Let_def work_def replies_def)
  next
    case Reply
    then obtain c where c: "w' = w\<lparr>caller := c, seen_replies := seen_replies w + 1\<rparr>"
      using s by (auto simp: and_then_Inr_iff)
    show ?thesis using c e Reply by (simp add: work_def replies_def)
  qed (use no_call in blast)
  then show "work w' < work w" and "calls w' = calls w" by simp_all
qed

lemma unsettled_can_step:
  assumes inv: "rpc_inv svcs spec ans w" and un: "\<not> settled w" and spec: "\<And>s m r. \<exists>bs. spec s m r bs"
  shows "\<exists>e. rpc_enabled spec w e \<and> (\<nexists>s m r. e = Call s m r)"
proof -
  note I = rpc_invD [OF inv]
  consider "seen_requests w < length (outbox (caller w))" | "seen_replies w < length (outbox (callee w))"
    | "0 < length (working (callee w))" using un I(5,6,7) by (force simp: settled_def)
  then show ?thesis
  proof cases
    case 3
    obtain bs where "spec (run_service (working (callee w) ! 0)) (run_method (working (callee w) ! 0))
        (run_request (working (callee w) ! 0)) bs" using spec by blast
    with 3 have "rpc_enabled spec w (Finish 0 bs)" by (simp add: Let_def)
    then show ?thesis by blast
  qed (rule exI [of _ Serve], simp, rule exI [of _ Reply], simp)
qed

lemma reaches_trans: "rpc_reaches svcs spec b c \<Longrightarrow> rpc_reaches svcs spec a b \<Longrightarrow> rpc_reaches svcs spec a c"
  by (induction rule: rpc_reaches.induct) (auto intro: rpc_next)

lemma settles:
  assumes "rpc_inv svcs spec ans w" and svcs: "\<And>s. svcs s \<noteq> Some None" and spec: "\<And>s m r. \<exists>bs. spec s m r bs"
  shows "\<exists>w'. rpc_reaches svcs spec w w' \<and> settled w' \<and> calls w' = calls w"
  using assms(1)
proof (induction "work w" arbitrary: w ans rule: less_induct)
  case less
  show ?case
  proof (cases "settled w")
    case True
    then show ?thesis using rpc_here by blast
  next
    case False
    from unsettled_can_step [OF less.prems False spec] obtain e where
      e: "rpc_enabled spec w e" "\<nexists>s m r. e = Call s m r" by blast
    from rpc_step_ok [OF less.prems e(1) svcs] obtain w1 ans1 where
      w1: "rpc_step svcs e w = Inr w1" "rpc_inv svcs spec ans1 w1" by blast
    note wk = step_works [OF less.prems e(1) w1(1) e(2)]
    from less.hyps [OF wk(1) w1(2)] obtain w' where
      w': "rpc_reaches svcs spec w1 w'" "settled w'" "calls w' = calls w1" by blast
    have "rpc_reaches svcs spec w w1" using rpc_next [OF rpc_here e(1) w1(1)] .
    with w' wk(2) show ?thesis using reaches_trans by metis
  qed
qed

subsection \<open>Properties\<close>

text \<open>C16: Whatever the interleaving of calls, requests, services that answer in any order and replies, no
  step fails, each call is answered at most once, with a response to that very request or with none
  when the services reject it; its response object is filled in before its closure runs and freed
  after. When nothing is left to do every call has been answered and no call is outstanding.\<close>

theorem rpc_answers_match_calls:
  assumes "rpc_reaches svcs spec new_world w" and "\<And>s. svcs s \<noteq> Some None"
  shows "(\<exists>ans. happened (caller w) = concat (map deliver ans) \<and> distinct (map fst ans) \<and>
      (\<forall>(i, a) \<in> set ans. 1 \<le> i \<and> i \<le> length (calls w) \<and> right_answer svcs spec (calls w ! (i - 1)) a) \<and>
      (settled w \<longrightarrow> set (map fst ans) = {1..length (calls w)} \<and> outstandings (caller w) = Map.empty)) \<and>
    (\<forall>e. rpc_enabled spec w e \<longrightarrow> (\<exists>w'. rpc_step svcs e w = Inr w'))"
proof -
  from rpc_reaches_inv [OF assms(1) rpc_inv_new assms(2)] obtain ans where inv: "rpc_inv svcs spec ans w" by blast
  note I = rpc_invD [OF inv] and ids = rpc_inv_ids [OF inv]
  have range: "1 \<le> i \<and> i \<le> length (calls w)" if "(i, a) \<in> set ans" for i a
  proof -
    have "i \<in> set (unanswered w @ map fst ans)" using that by force
    then show ?thesis unfolding ids(2) by simp
  qed
  have un: "unanswered w = []" if "settled w"
    using that I(7) by (simp add: unanswered_def replies_def settled_def)
  have "settled w \<longrightarrow> set (map fst ans) = {1..length (calls w)} \<and> outstandings (caller w) = Map.empty"
  proof
    assume "settled w"
    note un = un [OF this]
    have "outstandings (caller w) = Map.empty" using I(10) un by (auto simp: calls_view_def)
    then show "set (map fst ans) = {1..length (calls w)} \<and> outstandings (caller w) = Map.empty" using ids(2) un by simp
  qed
  moreover have "\<forall>(i, a) \<in> set ans. 1 \<le> i \<and> i \<le> length (calls w) \<and> right_answer svcs spec (calls w ! (i - 1)) a"
    using range I(13) by blast
  moreover have "distinct (map fst ans)" using ids(1) by simp
  moreover have "\<forall>e. rpc_enabled spec w e \<longrightarrow> (\<exists>w'. rpc_step svcs e w = Inr w')"
    using rpc_step_ok [OF inv _ assms(2)] by blast
  ultimately show ?thesis using I(12) by blast
qed

text \<open>An echo service with one method, and a world in which two calls are on their way.\<close>

definition echo_services :: service_map where
  "echo_services = [''echo'' \<mapsto> Some \<lparr>full_name = ''echo'', FindMethodByName = (\<lambda>m. if m = ''say'' then Some 1 else None),
     request_parses = (\<lambda>_ bs. bs \<noteq> [])\<rparr>]"

lemma echo_services_nonnull: "echo_services s \<noteq> Some None"
  by (simp add: echo_services_def)

lemma echo_run:
  "\<exists>w. rpc_reaches echo_services (\<lambda>s m r bs. bs = r) new_world w \<and> settled w \<and>
     calls w = [(''echo'', ''say'', [7]), (''echo'', ''shout'', [8])]"
proof -
  let ?spec = "\<lambda>s m r bs. bs = (r :: byte list)"
  note inv0 = rpc_inv_new [of echo_services ?spec]
  have "rpc_enabled ?spec new_world (Call ''echo'' ''say'' [7])" by (simp add: new_world_def)
  moreover from call_ok [OF inv0, of "''echo''" "''say''" "[7]"] obtain w1 where
    w1: "rpc_step echo_services (Call ''echo'' ''say'' [7]) new_world = Inr w1" "rpc_inv echo_services ?spec [] w1"
      "calls w1 = [(''echo'', ''say'', [7])]" by (auto simp: new_world_def)
  ultimately have r1: "rpc_reaches echo_services ?spec new_world w1" using rpc_next [OF rpc_here] by metis
  have "rpc_enabled ?spec w1 (Call ''echo'' ''shout'' [8])" using w1(3) by simp
  moreover from call_ok [OF w1(2), of "''echo''" "''shout''" "[8]"] w1(3) obtain w2 where
    w2: "rpc_step echo_services (Call ''echo'' ''shout'' [8]) w1 = Inr w2" "rpc_inv echo_services ?spec [] w2"
      "calls w2 = [(''echo'', ''say'', [7]), (''echo'', ''shout'', [8])]" by auto
  ultimately have r2: "rpc_reaches echo_services ?spec new_world w2" using rpc_next [OF r1] by metis
  from settles [OF w2(2) echo_services_nonnull] obtain w where
    "rpc_reaches echo_services ?spec w2 w" "settled w" "calls w = calls w2" by auto
  with reaches_trans [OF this(1) r2] w2(3) show ?thesis by auto
qed

theorem rpc_answers_match_calls_witness:
  "\<exists>w ans. rpc_reaches echo_services (\<lambda>s m r bs. bs = r) new_world w \<and> length (calls w) = 2 \<and>
     happened (caller w) = concat (map deliver ans) \<and> distinct (map fst ans) \<and> set (map fst ans) = {1, 2}"
proof -
  from echo_run obtain w where w: "rpc_reaches echo_services (\<lambda>s m r bs. bs = r) new_world w" "settled w"
    "calls w = [(''echo'', ''say'', [7]), (''echo'', ''shout'', [8])]" by blast
  from rpc_answers_match_calls [OF w(1) echo_services_nonnull, THEN conjunct1] w(2,3)
  obtain ans where "happened (caller w) = concat (map deliver ans)" "distinct (map fst ans)"
    "set (map fst ans) = {1..2}" by auto
  moreover have "{1..2} = {1, 2 :: nat}" by auto
  ultimately show ?thesis using w(1,3) by (intro exI [of _ w] exI [of _ ans]) simp
qed

text \<open>Every call gets through: when the services answer every request they accept, from any state the two
  channels reach, some further deliveries and answers, and no new call, lead to a state where nothing
  is left to do, and all such runs are finite, each step leaving less work.\<close>

theorem rpc_calls_complete:
  assumes "rpc_reaches svcs spec new_world w" and "\<And>s. svcs s \<noteq> Some None" and "\<And>s m r. \<exists>bs. spec s m r bs"
  shows "(\<exists>w'. rpc_reaches svcs spec w w' \<and> settled w' \<and> calls w' = calls w) \<and>
    (\<forall>e w'. rpc_enabled spec w e \<and> (\<nexists>s m r. e = Call s m r) \<and> rpc_step svcs e w = Inr w' \<longrightarrow> work w' < work w)"
proof -
  from rpc_reaches_inv [OF assms(1) rpc_inv_new assms(2)] obtain ans where inv: "rpc_inv svcs spec ans w" by blast
  then show ?thesis using settles [OF inv assms(2,3)] step_works(1) [OF inv] by blast
qed

theorem rpc_calls_complete_witness:
  "\<exists>w'. rpc_reaches echo_services (\<lambda>s m r bs. bs = r) new_world w' \<and> settled w'"
  using rpc_calls_complete [OF rpc_here [of echo_services "\<lambda>s m r bs. bs = r" new_world] echo_services_nonnull, THEN conjunct1] by blast

text \<open>A service that answers after its connection went down runs its closure through the pointer to a
  channel that no longer exists.\<close>

theorem late_answer_uses_freed_channel:
  assumes "k < length (held srv)" and "held srv ! k = (c, r)"
  shows "server_done k response (onConnection c False srv) = Inl (NullDereference ''RpcChannel'')"
  using assms by (simp add: server_done_def onConnection_def through_channel_def)

theorem late_answer_uses_freed_channel_witness:
  "server_done 0 [1] (onConnection 3 False (new_rpc_server\<lparr>held :=
     [(3, \<lparr>run_service = ''echo'', run_method = 1, run_request = [7], run_id = 1\<rparr>)]\<rparr>)) = Inl (NullDereference ''RpcChannel'')"
  by (rule late_answer_uses_freed_channel) simp_all

end
