(* ===== verification/Balancer.thy ===== *)
theory Balancer
  imports Rpc Sockets
begin

section \<open>The load balancer: balancer.cc\<close>

text \<open>
  A balancer forwards the requests of its clients to the backends in turn. A \<open>BackendSession\<close> is the
  balancer's side of one backend: it numbers the requests anew, remembers the number and the
  connection each came with, and gives the reply the old number back. A client connection is a
  number; the weak pointer a session keeps finds it only while it is alive, which is an argument.
  \<open>to_backend\<close> and \<open>to_clients\<close> are what the session's codec was given to send. The codec class this
  file names is not part of the sources; what it sends and delivers are \<open>rpc_message\<close>s.
\<close>

record backend_request =
  origId :: u64
  clientConn :: nat

record backend_session =
  session_name :: string
  session_conn :: "nat option"
  nextId :: u64
  waiting :: "u64 \<Rightarrow> backend_request option"
  to_backend :: "rpc_message list"
  to_clients :: "(nat \<times> rpc_message) list"

definition new_session :: "string \<Rightarrow> backend_session" where
  "new_session nm = \<lparr>session_name = nm, session_conn = None, nextId = 0, waiting = Map.empty, to_backend = [],
     to_clients = []\<rparr>"

definition add_request :: "backend_request \<Rightarrow> backend_session \<Rightarrow> backend_session" where
  "add_request r b = (let i = nextId b + 1 in b\<lparr>nextId := i, waiting := (waiting b)(i \<mapsto> r)\<rparr>)"

definition take_request :: "u64 \<Rightarrow> backend_session \<Rightarrow> backend_request option \<times> backend_session" where
  "take_request i b =
     (case waiting b i of None \<Rightarrow> (None, b) | Some r \<Rightarrow> (Some r, b\<lparr>waiting := (waiting b)(i := None)\<rparr>))"

interpretation session_calls: call_table add_request take_request waiting nextId
  by unfold_locales (auto simp: add_request_def take_request_def Let_def split: option.splits)

definition session_send :: "bool \<Rightarrow> rpc_message \<Rightarrow> nat \<Rightarrow> backend_session \<Rightarrow> (bool \<times> backend_session) result" where
  "session_send in_loop msg client b =
     require in_loop (Fatal ''EventLoop::abortNotInLoopThread'')
      (if session_conn b \<noteq> None then
         require (waiting b (nextId b + 1) = None) (AssertionFailed ''outstandings_.find(id) == outstandings_.end()'')
          (let b1 = add_request \<lparr>origId = msg_id msg, clientConn = client\<rparr> b
           in Inr (True, b1\<lparr>to_backend := to_backend b1 @ [msg\<lparr>msg_id := nextId b1\<rparr>]\<rparr>))
       else Inr (False, b))"

definition session_onConnection :: "bool \<Rightarrow> nat \<Rightarrow> bool \<Rightarrow> backend_session \<Rightarrow> backend_session result" where
  "session_onConnection in_loop c is_connected b =
     require in_loop (Fatal ''EventLoop::abortNotInLoopThread'')
      (Inr (b\<lparr>session_conn := (if is_connected then Some c else None)\<rparr>))"

definition session_onRpcMessage :: "bool \<Rightarrow> (nat \<Rightarrow> bool) \<Rightarrow> rpc_message \<Rightarrow> backend_session \<Rightarrow> backend_session result" where
  "session_onRpcMessage in_loop alive msg b =
     require in_loop (Fatal ''EventLoop::abortNotInLoopThread'')
      (case take_request (msg_id msg) b of
         (None, b1) \<Rightarrow> Inr b1
       | (Some r, b1) \<Rightarrow>
           Inr (if alive (clientConn r) then
                  b1\<lparr>to_clients := to_clients b1 @ [(clientConn r, msg\<lparr>msg_id := origId r\<rparr>)]\<rparr>
                else b1))"

subsection \<open>Choosing a backend\<close>

record per_thread =
  current :: nat
  backends :: "backend_session list"

text \<open>The sessions of the \<open>cnt\<close>-th thread, one for each backend address.\<close>

definition initPerThread :: "nat \<Rightarrow> string list \<Rightarrow> per_thread" where
  "initPerThread cnt addrs =
     \<lparr>current = cnt mod length addrs,
      backends = map (\<lambda>a. new_session (snprintf 32 (a @ ''#'' @ decimal cnt))) addrs\<rparr>"

fun try_backends :: "nat \<Rightarrow> bool \<Rightarrow> rpc_message \<Rightarrow> nat \<Rightarrow> per_thread \<Rightarrow> (bool \<times> per_thread) result" where
  "try_backends 0 in_loop msg client t = Inr (False, t)"
| "try_backends (Suc n) in_loop msg client t =
     and_then (session_send in_loop msg client (backends t ! current t)) (\<lambda>(succeed, b).
       let t1 = t\<lparr>backends := (backends t)[current t := b], current := (current t + 1) mod length (backends t)\<rparr>
       in if succeed then Inr (True, t1) else try_backends n in_loop msg client t1)"

definition balancer_onRpcMessage :: "bool \<Rightarrow> rpc_message \<Rightarrow> nat \<Rightarrow> per_thread \<Rightarrow> (bool \<times> per_thread) result" where
  "balancer_onRpcMessage in_loop msg client t = try_backends (length (backends t)) in_loop msg client t"

subsection \<open>One session: requests out, replies back\<close>

datatype session_event = Forward rpc_message nat | Connection nat bool | BackendReply "nat \<Rightarrow> bool" rpc_message

fun session_step :: "session_event \<Rightarrow> backend_session \<Rightarrow> backend_session result" where
  "session_step (Forward msg client) b = and_then (session_send True msg client b) (\<lambda>(_, b1). Inr b1)"
| "session_step (Connection c up) b = session_onConnection True c up b"
| "session_step (BackendReply alive msg) b = session_onRpcMessage True alive msg b"

definition run_session :: "session_event list \<Rightarrow> backend_session \<Rightarrow> backend_session result" where
  "run_session es b = for_each session_step es b"

text \<open>
  The requests that went out, by number from 1, and the replies that matched: \<open>fw\<close> are the requests
  forwarded with their clients, \<open>ans\<close> the numbers answered, each with the reply and whether its client
  was still there.
\<close>

definition renumbered :: "(rpc_message \<times> nat) list \<Rightarrow> rpc_message list" where
  "renumbered fw = map2 (\<lambda>i (msg, client). msg\<lparr>msg_id := of_nat i\<rparr>) [1..<length fw + 1] fw"

definition returned :: "(rpc_message \<times> nat) list \<Rightarrow> nat \<times> rpc_message \<times> bool \<Rightarrow> (nat \<times> rpc_message) list" where
  "returned fw = (\<lambda>(i, reply, there). let (msg, client) = fw ! (i - 1) in
     if there then [(client, reply\<lparr>msg_id := msg_id msg\<rparr>)] else [])"

definition stored :: "(rpc_message \<times> nat) list \<Rightarrow> nat \<Rightarrow> backend_request" where
  "stored fw i = (let (msg, client) = fw ! (i - 1) in \<lparr>origId = msg_id msg, clientConn = client\<rparr>)"

definition session_inv ::
  "(rpc_message \<times> nat) list \<Rightarrow> (nat \<times> rpc_message \<times> bool) list \<Rightarrow> backend_session \<Rightarrow> bool" where
  "session_inv fw ans b \<longleftrightarrow>
     to_backend b = renumbered fw \<and> to_clients b = concat (map (returned fw) ans) \<and>
     distinct (map fst ans) \<and> set (map fst ans) \<subseteq> {1..length fw} \<and>
     (\<forall>(i, reply, there) \<in> set ans. unat (msg_id reply) = i) \<and>
     calls_view (waiting b) (nextId b) (length fw) ({1..length fw} - set (map fst ans)) (stored fw)"

text \<open>What a sequence of events should come to, from whether the backend is connected.\<close>

fun reference ::
  "session_event list \<Rightarrow> bool \<Rightarrow> (rpc_message \<times> nat) list \<Rightarrow> (nat \<times> rpc_message \<times> bool) list \<Rightarrow>
    (rpc_message \<times> nat) list \<times> (nat \<times> rpc_message \<times> bool) list" where
  "reference [] up fw ans = (fw, ans)"
| "reference (Forward msg client # es) up fw ans = reference es up (if up then fw @ [(msg, client)] else fw) ans"
| "reference (Connection c u # es) up fw ans = reference es u fw ans"
| "reference (BackendReply alive msg # es) up fw ans =
     (let i = unat (msg_id msg)
      in reference es up fw (if i \<in> {1..length fw} - set (map fst ans) then ans @ [(i, msg, alive (snd (fw ! (i - 1))))] else ans))"

lemma calls_view_cong:
  "(\<And>i. i \<in> P \<Longrightarrow> rq i = rq' i) \<Longrightarrow> calls_view tab l n P rq \<Longrightarrow> calls_view tab l n P rq'"
  by (simp add: calls_view_def)

lemma renumbered_snoc:
  "renumbered (fw @ [(msg, client)]) = renumbered fw @ [msg\<lparr>msg_id := of_nat (length fw + 1)\<rparr>]"
proof -
  have "[1..<length (fw @ [(msg, client)]) + 1] = [1..<length fw + 1] @ [length fw + 1]" by simp
  then show ?thesis unfolding renumbered_def by (simp only: zip_append length_upt map_append) simp
qed

lemma stored_later: "1 \<le> i \<Longrightarrow> i \<le> length fw \<Longrightarrow> stored (fw @ [x]) i = stored fw i"
  by (simp add: stored_def nth_append)

lemma returned_later: "1 \<le> i \<Longrightarrow> i \<le> length fw \<Longrightarrow> returned (fw @ [x]) (i, r) = returned fw (i, r)"
  by (cases i) (simp_all add: returned_def nth_append)

lemma session_send_ok:
  assumes inv: "session_inv fw ans b" and n: "length fw + 1 < 2 ^ 64" and up: "session_conn b \<noteq> None"
  shows "\<exists>b'. session_send True msg client b = Inr (True, b') \<and> session_inv (fw @ [(msg, client)]) ans b' \<and>
    session_conn b' = session_conn b"
proof -
  let ?n = "length fw" and ?x = "(msg, client)"
  have v: "calls_view (waiting b) (nextId b) ?n ({1..?n} - set (map fst ans)) (stored fw)"
    and a: "set (map fst ans) \<subseteq> {1..?n}" "to_backend b = renumbered fw" "to_clients b = concat (map (returned fw) ans)"
      "distinct (map fst ans)" "\<forall>(i, reply, there) \<in> set ans. unat (msg_id reply) = i"
    using inv unfolding session_inv_def by simp_all
  let ?r = "\<lparr>origId = msg_id msg, clientConn = client\<rparr>"
  define b1 where "b1 = add_request ?r b"
  define b' where "b' = b1\<lparr>to_backend := to_backend b1 @ [msg\<lparr>msg_id := nextId b1\<rparr>]\<rparr>"
  have b1: "to_backend b1 = to_backend b" "to_clients b1 = to_clients b" "session_conn b1 = session_conn b"
    by (simp_all add: b1_def add_request_def Let_def)
  have id: "nextId b1 = of_nat (?n + 1)"
    using session_calls.view_next(1) [OF v n] by (simp add: b1_def add_request_def Let_def)
  have "session_send True msg client b = Inr (True, b')"
    using up session_calls.next_is_fresh [OF v n] by (simp add: session_send_def b'_def b1_def [symmetric] Let_def)
  moreover have "insert (?n + 1) ({1..?n} - set (map fst ans)) = {1..?n + 1} - set (map fst ans)" using a(1) by auto
  with session_calls.view_issue [OF v n, of ?r]
  have "calls_view (waiting b') (nextId b') (?n + 1) ({1..?n + 1} - set (map fst ans)) ((stored fw)(?n + 1 := ?r))"
    by (simp add: b'_def b1_def)
  then have "calls_view (waiting b') (nextId b') (?n + 1) ({1..?n + 1} - set (map fst ans)) (stored (fw @ [?x]))"
    by (rule calls_view_cong [rotated]) (auto simp: stored_def nth_append)
  moreover have "map (returned (fw @ [?x])) ans = map (returned fw) ans"
    using a(1) returned_later by (force simp: subset_iff)
  then have "to_clients b' = concat (map (returned (fw @ [?x])) ans)" using a(3) b1(2) by (simp only:) (simp add: b'_def)
  moreover have "to_backend b' = renumbered (fw @ [?x])"
    using a(2) b1(1) id unfolding renumbered_snoc by (simp add: b'_def)
  moreover have "set (map fst ans) \<subseteq> {1..length (fw @ [?x])}" using a(1) by fastforce
  ultimately have "session_inv (fw @ [?x]) ans b'" "session_send True msg client b = Inr (True, b')"
    using a(4,5) unfolding session_inv_def by (simp_all only: length_append list.size add_0 conj_assoc) simp_all
  then show ?thesis using b1(3) by (auto simp: b'_def)
qed

lemma session_reply_ok:
  assumes inv: "session_inv fw ans b" and n: "length fw < 2 ^ 64"
  shows "\<exists>b'. session_onRpcMessage True alive msg b = Inr b' \<and> session_conn b' = session_conn b \<and>
    session_inv fw (let i = unat (msg_id msg) in
      if i \<in> {1..length fw} - set (map fst ans) then ans @ [(i, msg, alive (snd (fw ! (i - 1))))] else ans) b'"
proof -
  let ?n = "length fw" and ?i = "unat (msg_id msg)"
  have v: "calls_view (waiting b) (nextId b) ?n ({1..?n} - set (map fst ans)) (stored fw)"
    and a: "set (map fst ans) \<subseteq> {1..?n}" "to_backend b = renumbered fw" "to_clients b = concat (map (returned fw) ans)"
      "distinct (map fst ans)" "\<forall>(i, reply, there) \<in> set ans. unat (msg_id reply) = i"
    using inv unfolding session_inv_def by simp_all
  show ?thesis
  proof (cases "?i \<in> {1..?n} - set (map fst ans)")
    case False
    then have "waiting b (msg_id msg) = None" using v by (auto simp: calls_view_def)
    then show ?thesis unfolding Let_def if_not_P [OF False] using inv
      by (intro exI [of _ b]) (simp add: session_onRpcMessage_def take_request_def)
  next
    case True
    have i: "?i < 2 ^ 64" using True n by simp
    define b1 where "b1 = snd (take_request (msg_id msg) b)"
    have t: "take_request (msg_id msg) b = (Some (stored fw ?i), b1)"
      using session_calls.view_complete(1) [OF v i] True by (simp add: b1_def prod_eq_iff)
    obtain m c where mc: "fw ! (?i - 1) = (m, c)" by force
    define new where "new = (?i, msg, alive c)"
    define b' where "b' = b1\<lparr>to_clients := to_clients b1 @ returned fw new\<rparr>"
    have b1: "to_backend b1 = to_backend b" "to_clients b1 = to_clients b" "session_conn b1 = session_conn b"
      by (simp_all add: b1_def take_request_def split: option.split)
    have s: "session_onRpcMessage True alive msg b = Inr b'"
      using mc by (simp add: session_onRpcMessage_def t b'_def returned_def new_def stored_def)
    have "calls_view (waiting b1) (nextId b1) ?n ({1..?n} - set (map fst ans) - {?i}) (stored fw)"
      using session_calls.view_complete(2) [OF v i] by (simp add: b1_def)
    moreover have "{1..?n} - set (map fst ans) - {?i} = {1..?n} - set (map fst (ans @ [new]))" by (auto simp: new_def)
    ultimately have "calls_view (waiting b') (nextId b') ?n ({1..?n} - set (map fst (ans @ [new]))) (stored fw)"
      by (simp add: b'_def)
    moreover have "to_clients b' = concat (map (returned fw) (ans @ [new]))" using a(3) b1 by (simp add: b'_def)
    moreover have "distinct (map fst (ans @ [new]))" "set (map fst (ans @ [new])) \<subseteq> {1..?n}"
      using a(1,4) True by (auto simp: new_def)
    moreover have "\<forall>(i, reply, there) \<in> set (ans @ [new]). unat (msg_id reply) = i" using a(5) by (auto simp: new_def)
    moreover have "to_backend b' = renumbered fw" using a(2) b1 by (simp add: b'_def)
    ultimately have "session_inv fw (ans @ [new]) b'" unfolding session_inv_def by blast
    with s b1(3) True mc show ?thesis by (auto simp: b'_def new_def Let_def)
  qed
qed

lemma session_run:
  assumes "session_inv fw ans b" and "length fw + length es < 2 ^ 64"
  shows "\<exists>b'. run_session es b = Inr b' \<and>
    (case reference es (session_conn b \<noteq> None) fw ans of (fw', ans') \<Rightarrow> session_inv fw' ans' b')"
  using assms
proof (induction es arbitrary: fw ans b)
  case (Cons e es)
  show ?case
  proof (cases e)
    case (Forward msg client)
    show ?thesis
    proof (cases "session_conn b = None")
      case True
      then show ?thesis using Cons.IH [OF Cons.prems(1)] Cons.prems(2) Forward
        by (simp add: run_session_def session_send_def)
    next
      case False
      from session_send_ok [OF Cons.prems(1) _ False, of msg client] Cons.prems(2) obtain b1 where
        b1: "session_send True msg client b = Inr (True, b1)" "session_inv (fw @ [(msg, client)]) ans b1"
          "session_conn b1 = session_conn b" by auto
      then show ?thesis using Cons.IH [OF b1(2)] Cons.prems(2) Forward False by (simp add: run_session_def)
    qed
  next
    case (Connection c u)
    have "session_inv fw ans (b\<lparr>session_conn := if u then Some c else None\<rparr>)"
      using Cons.prems(1) by (simp add: session_inv_def)
    from Cons.IH [OF this] Cons.prems(2) Connection show ?thesis
      by (cases u) (simp_all add: run_session_def session_onConnection_def)
  next
    case (BackendReply alive msg)
    from session_reply_ok [OF Cons.prems(1), of alive msg] Cons.prems(2) obtain b1 where
      b1: "session_onRpcMessage True alive msg b = Inr b1" "session_conn b1 = session_conn b"
        "session_inv fw (let i = unat (msg_id msg) in if i \<in> {1..length fw} - set (map fst ans)
          then ans @ [(i, msg, alive (snd (fw ! (i - 1))))] else ans) b1" by auto
    then show ?thesis using Cons.IH [OF b1(3)] Cons.prems(2) BackendReply by (simp add: run_session_def Let_def)
  qed
qed (simp add: run_session_def)

lemma session_inv_new: "session_inv [] [] (new_session nm)"
  by (simp add: session_inv_def new_session_def renumbered_def calls_view_def)

lemma session_next_free:
  "session_inv fw ans b \<Longrightarrow> length fw + 1 < 2 ^ 64 \<Longrightarrow> waiting b (nextId b + 1) = None"
  using session_calls.next_is_fresh unfolding session_inv_def by blast

subsection \<open>Which backend gets a request\<close>

text \<open>The first connected backend from the current one on, in cyclic order.\<close>

definition pick :: "per_thread \<Rightarrow> nat option" where
  "pick t = find (\<lambda>i. session_conn (backends t ! i) \<noteq> None)
     (map (\<lambda>j. (current t + j) mod length (backends t)) [0..<length (backends t)])"

definition picked :: "nat \<Rightarrow> per_thread \<Rightarrow> nat option" where
  "picked n t = find (\<lambda>i. session_conn (backends t ! i) \<noteq> None)
     (map (\<lambda>j. (current t + j) mod length (backends t)) [0..<n])"

definition usable :: "backend_session \<Rightarrow> bool" where
  "usable b \<longleftrightarrow> waiting b (nextId b + 1) = None"

lemma session_usable: "session_inv fw ans b \<Longrightarrow> length fw + 1 < 2 ^ 64 \<Longrightarrow> usable b"
  by (simp add: usable_def session_next_free)

lemma session_send_cases:
  "usable b \<Longrightarrow> \<exists>b'. session_send True msg client b = Inr (session_conn b \<noteq> None, b') \<and>
     (session_conn b = None \<longrightarrow> b' = b) \<and> session_conn b' = session_conn b"
  by (auto simp: session_send_def usable_def add_request_def Let_def)

lemma picked_Suc:
  assumes "current t < length (backends t)"
  shows "picked (Suc n) t = (if session_conn (backends t ! current t) \<noteq> None then Some (current t)
     else picked n (t\<lparr>current := (current t + 1) mod length (backends t)\<rparr>))"
proof -
  let ?l = "length (backends t)"
  have "map (\<lambda>j. (current t + j) mod ?l) [0..<Suc n] =
      current t # map (\<lambda>j. ((current t + 1) mod ?l + j) mod ?l) [0..<n]"
    using assms by (simp add: upt_conv_Cons map_Suc_upt [symmetric] o_def mod_add_left_eq del: upt_Suc)
  then show ?thesis by (simp add: picked_def)
qed

lemma try_backends_ok:
  assumes "current t < length (backends t)" and "\<forall>b \<in> set (backends t). usable b"
  shows "\<exists>t'. try_backends n True msg client t = Inr (picked n t \<noteq> None, t') \<and>
    (case picked n t of
       None \<Rightarrow> backends t' = backends t \<and> current t' = (current t + n) mod length (backends t)
     | Some i \<Rightarrow> i < length (backends t) \<and> current t' = (i + 1) mod length (backends t) \<and>
         (\<exists>b'. session_send True msg client (backends t ! i) = Inr (True, b') \<and> backends t' = (backends t)[i := b']))"
  using assms
proof (induction n arbitrary: t)
  case 0
  then show ?case by (simp add: picked_def)
next
  case (Suc n)
  let ?b = "backends t ! current t"
  have "usable ?b" using Suc.prems by simp
  note c = session_send_cases [OF this, of msg client]
  then obtain b' where b': "session_send True msg client ?b = Inr (session_conn ?b \<noteq> None, b')"
    "session_conn ?b = None \<longrightarrow> b' = ?b" by (elim exE conjE) (rule that)
  show ?case
  proof (cases "session_conn ?b = None")
    case True
    define t1 where "t1 = t\<lparr>current := (current t + 1) mod length (backends t)\<rparr>"
    have t1: "current t1 = (current t + 1) mod length (backends t)" "backends t1 = backends t" by (simp_all add: t1_def)
    have tr: "try_backends (Suc n) True msg client t = try_backends n True msg client t1"
      using b' True by (simp add: Let_def t1_def)
    have pk: "picked (Suc n) t = picked n t1" using picked_Suc [OF Suc.prems(1)] True by (simp add: t1_def)
    have e: "((current t + 1) mod length (backends t) + n) mod length (backends t) =
        (current t + Suc n) mod length (backends t)" by (simp add: mod_add_left_eq)
    have c: "current t1 < length (backends t1)" using Suc.prems(1) by (cases "length (backends t)") (simp_all add: t1)
    have u: "\<forall>b \<in> set (backends t1). usable b" using Suc.prems(2) by (simp add: t1)
    from Suc.IH [OF c u] show ?thesis unfolding tr pk t1 e .
  next
    case False
    then have "picked (Suc n) t = Some (current t)" using picked_Suc [OF Suc.prems(1)] by simp
    then show ?thesis using b' False Suc.prems(1) by (simp add: Let_def)
  qed
qed

subsection \<open>Properties\<close>

text \<open>C18: A backend session implements the abstract forwarder: over any sequence of requests, connection
  changes and replies, the backend gets the requests that came while it was connected, in order,
  numbered from 1; the first reply to each number goes to the client of that request if it is still
  there, under the number the client used, and every other reply is dropped. No assertion fails.\<close>

theorem session_refines_forwarder:
  assumes "length es < 2 ^ 64"
  shows "\<exists>b. run_session es (new_session nm) = Inr b \<and>
    (case reference es False [] [] of (fw, ans) \<Rightarrow>
       to_backend b = renumbered fw \<and> to_clients b = concat (map (returned fw) ans) \<and> distinct (map fst ans) \<and>
       (\<forall>(i, reply, there) \<in> set ans. 1 \<le> i \<and> i \<le> length fw \<and> unat (msg_id reply) = i))"
proof -
  have "session_conn (new_session nm) = None" by (simp add: new_session_def)
  with session_run [OF session_inv_new, of es nm] assms obtain b where
    b: "run_session es (new_session nm) = Inr b"
      "case reference es False [] [] of (fw, ans) \<Rightarrow> session_inv fw ans b" by auto
  obtain fw ans where r: "reference es False [] [] = (fw, ans)" by force
  with b(2) have inv: "session_inv fw ans b" by simp
  then have "1 \<le> i \<and> i \<le> length fw" if "(i, reply, there) \<in> set ans" for i reply there
    using that by (fastforce simp: session_inv_def)
  moreover have "\<forall>(i, reply, there) \<in> set ans. unat (msg_id reply) = i" using inv by (simp add: session_inv_def)
  ultimately show ?thesis using b(1) inv unfolding r by (intro exI [of _ b]) (auto simp: session_inv_def)
qed

definition request_7 :: rpc_message where
  "request_7 = \<lparr>msg_type = REQUEST, msg_id = 7, msg_service = None, msg_method = None, msg_request = None,
     msg_response = None, msg_error = None\<rparr>"

text \<open>Two clients use the same number; the replies come back in the other order, one of them twice.\<close>

theorem session_refines_forwarder_witness:
  "\<exists>b. run_session [Connection 1 True, Forward request_7 10, Forward request_7 20,
      BackendReply (\<lambda>_. True) (request_7\<lparr>msg_id := 2\<rparr>), BackendReply (\<lambda>_. True) (request_7\<lparr>msg_id := 1\<rparr>),
      BackendReply (\<lambda>_. True) (request_7\<lparr>msg_id := 2\<rparr>)] (new_session ''b'') = Inr b \<and>
    to_clients b = [(20, request_7), (10, request_7)]"
proof -
  let ?es = "[Connection 1 True, Forward request_7 10, Forward request_7 20,
      BackendReply (\<lambda>_. True) (request_7\<lparr>msg_id := 2\<rparr>), BackendReply (\<lambda>_. True) (request_7\<lparr>msg_id := 1\<rparr>),
      BackendReply (\<lambda>_. True) (request_7\<lparr>msg_id := 2\<rparr>)]"
  have r: "reference ?es False [] [] = ([(request_7, 10), (request_7, 20)],
      [(2, request_7\<lparr>msg_id := 2\<rparr>, True), (1, request_7\<lparr>msg_id := 1\<rparr>, True)])"
    by (simp add: Let_def)
  have "length ?es < 2 ^ 64" by simp
  from session_refines_forwarder [OF this, of "''b''"] r obtain b where
    "run_session ?es (new_session ''b'') = Inr b" "to_clients b =
      concat (map (returned [(request_7, 10), (request_7, 20)])
        [(2, request_7\<lparr>msg_id := 2\<rparr>, True), (1, request_7\<lparr>msg_id := 1\<rparr>, True)])" by auto
  then show ?thesis by (simp add: returned_def request_7_def)
qed

text \<open>A request goes to the first connected backend in cyclic order from the one after the last that was
  tried, the next request starts after it, and a request is dropped only when no backend is
  connected.\<close>

theorem balancer_picks_next_connected:
  assumes "current t < length (backends t)" and "\<forall>b \<in> set (backends t). usable b"
  shows "\<exists>t'. balancer_onRpcMessage True msg client t = Inr (pick t \<noteq> None, t') \<and>
    (case pick t of
       None \<Rightarrow> backends t' = backends t \<and> current t' = current t \<and> (\<forall>b \<in> set (backends t). session_conn b = None)
     | Some i \<Rightarrow> i < length (backends t) \<and> current t' = (i + 1) mod length (backends t) \<and>
         (\<exists>b'. session_send True msg client (backends t ! i) = Inr (True, b') \<and> backends t' = (backends t)[i := b']))"
proof -
  let ?l = "length (backends t)"
  have p: "pick t = picked ?l t" by (simp add: pick_def picked_def)
  have all: "\<forall>b \<in> set (backends t). session_conn b = None" if "pick t = None"
  proof (rule ballI)
    fix b assume "b \<in> set (backends t)"
    then obtain i where i: "i < ?l" "b = backends t ! i" by (auto simp: in_set_conv_nth)
    let ?j = "(?l - current t + i) mod ?l"
    have "(current t + ?j) mod ?l = (current t + (?l - current t + i)) mod ?l" by (rule mod_add_right_eq)
    also have "current t + (?l - current t + i) = ?l + i" using assms(1) by simp
    finally have "(current t + ?j) mod ?l = i" using i(1) by simp
    moreover have "?j < ?l" using i(1) by (intro mod_less_divisor) linarith
    ultimately have "i \<in> set (map (\<lambda>j. (current t + j) mod ?l) [0..<?l])" by force
    then show "session_conn b = None" using that i(2) unfolding pick_def find_None_iff by blast
  qed
  have "(current t + ?l) mod ?l = current t" using assms(1) by simp
  with try_backends_ok [OF assms, of ?l msg client] all show ?thesis
    unfolding balancer_onRpcMessage_def p by (cases "picked ?l t") auto
qed

theorem balancer_picks_next_connected_witness:
  "let t = (initPerThread 1 [''a:1'', ''b:2'', ''c:3''])\<lparr>backends := [(new_session ''a'')\<lparr>session_conn := Some 1\<rparr>,
      new_session ''b'', (new_session ''c'')\<lparr>session_conn := Some 3\<rparr>]\<rparr>
   in \<exists>t'. balancer_onRpcMessage True request_7 10 t = Inr (True, t') \<and> current t' = 0 \<and>
        to_backend (backends t' ! 2) = [request_7\<lparr>msg_id := 1\<rparr>]"
proof -
  define t where "t = (initPerThread 1 [''a:1'', ''b:2'', ''c:3''])\<lparr>backends := [(new_session ''a'')\<lparr>session_conn := Some 1\<rparr>,
      new_session ''b'', (new_session ''c'')\<lparr>session_conn := Some 3\<rparr>]\<rparr>"
  have t: "current t = 1" "backends t = [(new_session ''a'')\<lparr>session_conn := Some 1\<rparr>,
      new_session ''b'', (new_session ''c'')\<lparr>session_conn := Some 3\<rparr>]" by (simp_all add: t_def initPerThread_def)
  have "current t < length (backends t)" "\<forall>b \<in> set (backends t). usable b"
    by (simp_all add: t usable_def new_session_def)
  moreover have "pick t = Some 2" by (simp add: pick_def t new_session_def upt_conv_Cons)
  ultimately obtain t' b' where t': "balancer_onRpcMessage True request_7 10 t = Inr (True, t')" "current t' = 3 mod 3"
      "session_send True request_7 10 (backends t ! 2) = Inr (True, b')" "backends t' = (backends t)[2 := b']"
    using balancer_picks_next_connected [of t request_7 10] by (auto simp: t(2))
  then have "to_backend b' = [request_7\<lparr>msg_id := 1\<rparr>]"
    by (auto simp: t session_send_def new_session_def add_request_def Let_def)
  with t' show ?thesis unfolding t_def [symmetric] Let_def by (intro exI [of _ t']) (simp add: t(2))
qed

end
