(* ===== verification/HostPort.thy ===== *)
theory HostPort
  imports Sockets
begin

section \<open>Addresses on the command line: balancer.cc and collector.cc\<close>

text \<open>
  Both programs read addresses written as host and port with a colon between. \<open>string_find\<close> is
  \<open>std::string::find\<close> of a character, \<open>atoi\<close> the C function: white space, a sign, digits up to the
  first other character; the numbers are unbounded here, out of the range of \<open>int\<close> C leaves the
  result open. The cast to \<open>uint16_t\<close> wraps.
\<close>

fun string_find :: "char \<Rightarrow> string \<Rightarrow> nat option" where
  "string_find c [] = None"
| "string_find c (x # xs) = (if x = c then Some 0 else map_option Suc (string_find c xs))"

definition is_space :: "char \<Rightarrow> bool" where
  "is_space c \<longleftrightarrow> (of_char c :: nat) = 32 \<or> (9 \<le> (of_char c :: nat) \<and> (of_char c :: nat) \<le> 13)"

definition is_digit :: "char \<Rightarrow> bool" where
  "is_digit c \<longleftrightarrow> 48 \<le> (of_char c :: nat) \<and> (of_char c :: nat) \<le> 57"

definition atoi :: "string \<Rightarrow> int" where
  "atoi s = (case dropWhile is_space s of
      [] \<Rightarrow> 0
    | c # cs \<Rightarrow>
        if c = CHR ''-'' then - int (undecimal 0 (takeWhile is_digit cs))
        else if c = CHR ''+'' then int (undecimal 0 (takeWhile is_digit cs))
        else int (undecimal 0 (takeWhile is_digit (c # cs))))"

definition split_address :: "string \<Rightarrow> (string \<times> u16) option" where
  "split_address hostport =
     (case string_find CHR '':'' hostport of
        None \<Rightarrow> None
      | Some colon \<Rightarrow> Some (take colon hostport, word_of_int (atoi (drop (colon + 1) hostport))))"

text \<open>The balancer gives up at the first argument it cannot read, with exit code 1.\<close>

fun balancer_backends ::
  "(string \<Rightarrow> u32 option) \<Rightarrow> host_order \<Rightarrow> string list \<Rightarrow> string + sockaddr_in list" where
  "balancer_backends pton h [] = Inr []"
| "balancer_backends pton h (arg # args) =
     (case split_address arg of
        None \<Rightarrow> Inl arg
      | Some (ip, port) \<Rightarrow>
          (case balancer_backends pton h args of
             Inl bad \<Rightarrow> Inl bad
           | Inr rest \<Rightarrow> Inr (InetAddress_ip pton h ip port # rest)))"

text \<open>The collector leaves it out and goes on.\<close>

fun getAddresses :: "(string \<Rightarrow> u32 option) \<Rightarrow> host_order \<Rightarrow> string list \<Rightarrow> sockaddr_in list" where
  "getAddresses pton h [] = []"
| "getAddresses pton h (arg # args) =
     (case split_address arg of
        None \<Rightarrow> getAddresses pton h args
      | Some (ip, port) \<Rightarrow> InetAddress_ip pton h ip port # getAddresses pton h args)"

subsection \<open>Facts\<close>

lemma string_find_append: "c \<notin> set xs \<Longrightarrow> string_find c (xs @ c # ys) = Some (length xs)"
  by (induction xs) auto

lemma string_find_None: "string_find c xs = None \<longleftrightarrow> c \<notin> set xs"
  by (induction xs) auto

lemma is_digit_digit: "d < 10 \<Longrightarrow> is_digit (digit d)"
  by (simp add: is_digit_def digit_def)

lemma decimal_digits: "\<forall>c \<in> set (decimal n). is_digit c"
proof (induction n rule: decimal.induct)
  case (1 n)
  show ?case by (subst decimal.simps) (use 1 in \<open>auto simp: is_digit_digit\<close>)
qed

lemma decimal_nonempty: "decimal n \<noteq> []"
  by (subst decimal.simps) simp

lemma atoi_decimal: "atoi (decimal n) = int n"
proof -
  obtain c cs where c: "decimal n = c # cs" using decimal_nonempty by (cases "decimal n") auto
  have d: "is_digit c" using decimal_digits [of n] c by simp
  then have "\<not> is_space c" "c \<noteq> CHR ''-''" "c \<noteq> CHR ''+''" by (auto simp: is_digit_def is_space_def)
  moreover have "takeWhile is_digit (c # cs) = c # cs" using decimal_digits [of n] c by (simp add: takeWhile_eq_all_conv)
  ultimately show ?thesis using undecimal_decimal [of n] c by (simp add: atoi_def)
qed

lemma split_address_printed:
  "CHR '':'' \<notin> set ip \<Longrightarrow> split_address (ip @ '':'' @ decimal (unat port)) = Some (ip, port)"
  using string_find_append [of "CHR '':''" ip "decimal (unat port)"]
  by (simp add: split_address_def atoi_decimal)

lemma getAddresses_valid:
  "balancer_backends pton h args = Inr addrs \<Longrightarrow> getAddresses pton h args = addrs"
  by (induction args arbitrary: addrs) (auto split: option.splits sum.splits)

subsection \<open>Properties\<close>

text \<open>C34: An address printed by \<open>toHostPort\<close> and read back from the command line is the same
  address, on a host of any byte order, when \<open>inet_ntop\<close> prints at most 15 characters without a
  colon, as it does for IPv4, and \<open>inet_pton\<close> reads back what it printed.\<close>

theorem address_text_roundtrip:
  assumes "sin_family a = AF_INET" and "ntop (sin_addr a) = Some ip" and "pton ip = Some (sin_addr a)"
    and "CHR '':'' \<notin> set ip" and "length ip \<le> 15"
  shows "balancer_backends pton h [InetAddress_toHostPort ntop h a] = Inr [a] \<and>
    getAddresses pton h [InetAddress_toHostPort ntop h a] = [a]"
proof -
  let ?p = "networkToHost16 h (sin_port a)"
  have "unat ?p < 2 ^ 16" using unsigned_less [of ?p] by simp
  then have "length (decimal (unat ?p)) \<le> 5" by (intro length_decimal) simp_all
  then have t: "InetAddress_toHostPort ntop h a = ip @ '':'' @ decimal (unat ?p)"
    using assms(2,5) by (simp add: InetAddress_toHostPort_def sockets_toHostPort_def snprintf_def)
  have "hostToNetwork16 h ?p = sin_port a" by (cases h) (simp_all add: hostToNetwork16_def networkToHost16_def swap_on_involution)
  then have "InetAddress_ip pton h ip ?p = a" using assms(1,3)
    by (simp add: InetAddress_ip_def fromHostPort_def zero_addr_def)
  moreover have "split_address (InetAddress_toHostPort ntop h a) = Some (ip, ?p)"
    unfolding t using assms(4) by (rule split_address_printed)
  ultimately show ?thesis by simp
qed

theorem address_text_roundtrip_witness:
  "balancer_backends (\<lambda>s. if s = ''10.0.0.1'' then Some 16777226 else None) LittleEndian
     [InetAddress_toHostPort (\<lambda>_. Some ''10.0.0.1'') LittleEndian \<lparr>sin_family = AF_INET, sin_port = 36895, sin_addr = 16777226\<rparr>]
   = Inr [\<lparr>sin_family = AF_INET, sin_port = 36895, sin_addr = 16777226\<rparr>]"
  by (rule address_text_roundtrip [where ip = "''10.0.0.1''", THEN conjunct1]) simp_all

end
