(* ===== verification/Kth.thy ===== *)
theory Kth
  imports Prelude "HOL-Library.Multiset"
begin

section \<open>The k-th smallest of distributed data: kth.h\<close>

text \<open>
  \<open>getKth\<close> finds the \<open>k\<close>-th smallest of numbers it cannot see: it guesses a value and asks \<open>search\<close> how many
  numbers are smaller and how many are the same. Numbers are 64-bit words read as two's complement;
  a sum or difference that overflows, undefined in C++ for signed operands, wraps as it does on the
  machine. The loop gives up after 100 steps, which bounds its recursion. \<open>search\<close> may fail and change
  the state of its caller.
\<close>

type_synonym i64 = "64 word"

type_synonym 's searcher = "i64 \<Rightarrow> 's \<Rightarrow> ((i64 \<times> i64) \<times> 's) result"

function kth_loop ::
  "'s searcher \<Rightarrow> i64 \<Rightarrow> i64 \<Rightarrow> i64 \<Rightarrow> i64 \<Rightarrow> nat \<Rightarrow> 's \<Rightarrow> ((i64 \<times> bool) \<times> 's) result" where
  "kth_loop search k min_v max_v guess steps s =
     (if sint min_v \<le> sint max_v then
        and_then (search guess s) (\<lambda>((smaller, same), s1).
          let steps1 = steps + 1 in
          if 100 < steps1 then Inr ((guess, False), s1)
          else if sint smaller < sint k \<and> sint k \<le> sint (smaller + same) then Inr ((guess, True), s1)
          else if sint (smaller + same) < sint k then
            (let min1 = guess + 1; guess1 = min1 + (max_v - min1) div 2
             in require (sint min1 \<le> sint guess1 \<and> sint guess1 \<le> sint max_v)
                  (AssertionFailed ''min <= guess && guess <= max'')
                  (kth_loop search k min1 max_v guess1 steps1 s1))
          else if sint k \<le> sint smaller then
            (let max1 = guess; guess1 = min_v + (max1 - min_v) div 2
             in require (sint min_v \<le> sint guess1 \<and> sint guess1 \<le> sint max1)
                  (AssertionFailed ''min <= guess && guess <= max'')
                  (kth_loop search k min_v max1 guess1 steps1 s1))
          else Inr ((guess, False), s1))
      else Inr ((guess, False), s))"
  by pat_completeness auto
termination by (relation "measure (\<lambda>(_, _, _, _, _, steps, _). 101 - steps)") auto

declare kth_loop.simps [simp del]

text \<open>The argument \<open>count\<close> of the source is not used.\<close>

definition getKth :: "'s searcher \<Rightarrow> i64 \<Rightarrow> i64 \<Rightarrow> i64 \<Rightarrow> 's \<Rightarrow> ((i64 \<times> bool) \<times> 's) result" where
  "getKth search k min_v max_v s = kth_loop search k min_v max_v max_v 0 s"

subsection \<open>Order of words and the midpoint\<close>

lemma sint_unique:
  assumes "- (2 ^ 63) \<le> y" and "y < 2 ^ 63"
  shows "sint (word_of_int y :: i64) = y"
  using assms by (simp add: sint_sbintrunc' signed_take_bit_int_eq_self)

lemma sint_bounds: "- (2 ^ 63) \<le> sint (x :: i64)" "sint x < 2 ^ 63"
  using sint_ge [of x] sint_lt [of x] by simp_all

lemma uint_diff:
  assumes "sint a \<le> sint (b :: i64)"
  shows "uint (b - a) = sint b - sint a"
proof -
  have u: "uint (word_of_int y :: i64) = y mod 2 ^ 64" for y by (simp add: uint_word_of_int take_bit_eq_mod)
  have "b - a = word_of_int (sint b - sint a)" by simp
  then have "uint (b - a) = (sint b - sint a) mod 2 ^ 64" by (simp only: u)
  then show ?thesis using assms sint_bounds [of a] sint_bounds [of b] by simp
qed

lemma sint_mid:
  assumes "sint a \<le> sint (b :: i64)"
  shows "sint (a + (b - a) div 2) = sint a + (sint b - sint a) div 2"
proof -
  have "uint ((b - a) div 2) = (sint b - sint a) div 2" by (simp add: uint_div uint_diff [OF assms])
  moreover have "a + (b - a) div 2 = word_of_int (sint a + uint ((b - a) div 2))" by simp
  ultimately have "a + (b - a) div 2 = word_of_int (sint a + (sint b - sint a) div 2)" by (simp only:)
  then show ?thesis using sint_unique [of "sint a + (sint b - sint a) div 2"] assms sint_bounds [of a] sint_bounds [of b]
    by simp
qed

lemma sint_next: "sint (a :: i64) < sint (b :: i64) \<Longrightarrow> sint (a + 1) = sint a + 1"
proof -
  assume "sint a < sint b"
  moreover have "a + 1 = word_of_int (sint a + 1)" by simp
  ultimately show ?thesis using sint_unique [of "sint a + 1"] sint_bounds [of a] sint_bounds [of b] by simp
qed

lemma sint_count: "n < 2 ^ 63 \<Longrightarrow> sint (of_nat n :: i64) = int n"
  using sint_unique [of "int n"] by simp

subsection \<open>Counting\<close>

definition smaller_in :: "i64 list \<Rightarrow> i64 \<Rightarrow> nat" where
  "smaller_in xs g = length (filter (\<lambda>x. sint x < sint g) xs)"

definition same_in :: "i64 list \<Rightarrow> i64 \<Rightarrow> nat" where
  "same_in xs g = length (filter (\<lambda>x. x = g) xs)"

definition kth_of :: "i64 list \<Rightarrow> nat \<Rightarrow> i64" where
  "kth_of xs k = sort_key sint xs ! (k - 1)"

lemma sorted_count:
  assumes "sorted (map f ys)" and "i < length ys" and P: "\<And>x y. f x \<le> f y \<Longrightarrow> P y \<Longrightarrow> P x"
  shows "i < length (filter P ys) \<longleftrightarrow> P (ys ! i)"
  using assms(1,2)
proof (induction ys arbitrary: i)
  case (Cons y ys)
  show ?case
  proof (cases "P y")
    case True
    then show ?thesis using Cons by (cases i) auto
  next
    case False
    have "f y \<le> f x" if "x \<in> set ys" for x using Cons.prems(1) that by simp
    then have none: "\<not> P x" if "x \<in> set ys" for x using P False that by blast
    then have "filter P ys = []" by simp
    moreover have "\<not> P ((y # ys) ! i)" using False none Cons.prems(2) by (cases i) auto
    ultimately show ?thesis using False by simp
  qed
qed simp

lemma filter_sort_length: "length (filter P (sort_key f xs)) = length (filter P xs)"
proof -
  have "mset (filter P (sort_key f xs)) = mset (filter P xs)" by simp
  then show ?thesis by (metis size_mset)
qed

lemma kth_counts:
  assumes "1 \<le> k" and "k \<le> length xs"
  shows "k \<le> smaller_in xs g \<longleftrightarrow> sint (kth_of xs k) < sint g"
    and "k \<le> smaller_in xs g + same_in xs g \<longleftrightarrow> sint (kth_of xs k) \<le> sint g"
proof -
  let ?ys = "sort_key sint xs"
  have i: "k - 1 < length ?ys" using assms by simp
  have s: "sorted (map sint ?ys)" by (rule sorted_sort_key)
  show "k \<le> smaller_in xs g \<longleftrightarrow> sint (kth_of xs k) < sint g"
    using sorted_count [OF s i, of "\<lambda>x. sint x < sint g"] assms(1)
    by (auto simp: smaller_in_def kth_of_def filter_sort_length)
  have "smaller_in xs g + same_in xs g = length (filter (\<lambda>x. sint x \<le> sint g) xs)"
    unfolding smaller_in_def same_in_def by (induction xs) (auto simp: order.order_iff_strict dest: signed_word_eqI)
  then show "k \<le> smaller_in xs g + same_in xs g \<longleftrightarrow> sint (kth_of xs k) \<le> sint g"
    using sorted_count [OF s i, of "\<lambda>x. sint x \<le> sint g"] assms(1)
    by (auto simp: kth_of_def filter_sort_length)
qed

lemma counts_le: "smaller_in xs g + same_in xs g \<le> length xs"
  unfolding smaller_in_def same_in_def by (induction xs) auto

lemma kth_of_in: "1 \<le> k \<Longrightarrow> k \<le> length xs \<Longrightarrow> kth_of xs k \<in> set xs"
  unfolding kth_of_def by (metis Suc_le_eq diff_less le_trans length_sort less_le_trans less_numeral_extra(1) nth_mem set_sort One_nat_def)

subsection \<open>The search finds the number\<close>

text \<open>
  What \<open>getKth\<close> needs of its argument: in the states \<open>ok\<close> the search counts in the numbers \<open>data\<close>, which do
  not change, and there are fewer than \<open>2 ^ 63\<close> of them.
\<close>

locale counting_search =
  fixes search :: "'s searcher"
    and ok :: "'s \<Rightarrow> bool"
    and data :: "'s \<Rightarrow> i64 list"
  assumes search_counts: "ok s \<Longrightarrow> \<exists>s'. search g s =
      Inr ((of_nat (smaller_in (data s) g), of_nat (same_in (data s) g)), s') \<and> ok s' \<and> data s' = data s"
    and few: "ok s \<Longrightarrow> length (data s) < 2 ^ 63"
begin

lemma kth_loop_step:
  assumes "ok s" and k: "1 \<le> k" "k \<le> length (data s)" and range: "sint min_v \<le> sint max_v" and st: "steps < 100"
  shows "\<exists>s1. ok s1 \<and> data s1 = data s \<and> kth_loop search (of_nat k) min_v max_v guess steps s =
    (if sint (kth_of (data s) k) = sint guess then Inr ((guess, True), s1)
     else if sint guess < sint (kth_of (data s) k) then
       (let guess1 = guess + 1 + (max_v - (guess + 1)) div 2
        in require (sint (guess + 1) \<le> sint guess1 \<and> sint guess1 \<le> sint max_v)
             (AssertionFailed ''min <= guess && guess <= max'')
             (kth_loop search (of_nat k) (guess + 1) max_v guess1 (steps + 1) s1))
     else
       (let guess1 = min_v + (guess - min_v) div 2
        in require (sint min_v \<le> sint guess1 \<and> sint guess1 \<le> sint guess)
             (AssertionFailed ''min <= guess && guess <= max'')
             (kth_loop search (of_nat k) min_v guess guess1 (steps + 1) s1)))"
proof -
  let ?xs = "data s" and ?a = "kth_of (data s) k"
  from search_counts [OF assms(1)] obtain s1 where s1: "search guess s =
      Inr ((of_nat (smaller_in ?xs guess), of_nat (same_in ?xs guess)), s1)" "ok s1" "data s1 = ?xs" by blast
  have n: "length ?xs < 2 ^ 63" using few [OF assms(1)] .
  have c: "sint (of_nat (smaller_in ?xs guess) :: i64) = int (smaller_in ?xs guess)"
      "sint (of_nat (smaller_in ?xs guess) + of_nat (same_in ?xs guess) :: i64) = int (smaller_in ?xs guess + same_in ?xs guess)"
      "sint (of_nat k :: i64) = int k"
    using sint_count [of "smaller_in ?xs guess"] sint_count [of "smaller_in ?xs guess + same_in ?xs guess"]
      sint_count [of k] counts_le [of ?xs guess] n k by simp_all
  have lt: "int (smaller_in ?xs guess) < int k \<longleftrightarrow> sint guess \<le> sint ?a"
    and le: "int k \<le> int (smaller_in ?xs guess + same_in ?xs guess) \<longleftrightarrow> sint ?a \<le> sint guess"
    using kth_counts [OF k, of guess] by linarith+
  then have lt': "int k \<le> int (smaller_in ?xs guess) \<longleftrightarrow> sint ?a < sint guess"
    and le': "int (smaller_in ?xs guess + same_in ?xs guess) < int k \<longleftrightarrow> sint guess < sint ?a" by linarith+
  have st': "\<not> 100 < steps + 1" using st by simp
  have "kth_loop search (of_nat k) min_v max_v guess steps s =
      (if sint guess \<le> sint ?a \<and> sint ?a \<le> sint guess then Inr ((guess, True), s1)
       else if sint guess < sint ?a then
         (let guess1 = guess + 1 + (max_v - (guess + 1)) div 2
          in require (sint (guess + 1) \<le> sint guess1 \<and> sint guess1 \<le> sint max_v)
               (AssertionFailed ''min <= guess && guess <= max'')
               (kth_loop search (of_nat k) (guess + 1) max_v guess1 (steps + 1) s1))
       else if sint ?a < sint guess then
         (let guess1 = min_v + (guess - min_v) div 2
          in require (sint min_v \<le> sint guess1 \<and> sint guess1 \<le> sint guess)
               (AssertionFailed ''min <= guess && guess <= max'')
               (kth_loop search (of_nat k) min_v guess guess1 (steps + 1) s1))
       else Inr ((guess, False), s1))"
    unfolding kth_loop.simps [of search "of_nat k" min_v max_v guess steps s] s1(1) if_P [OF range] and_then.simps
      prod.case Let_def if_not_P [OF st'] c lt le lt' le' ..
  with s1(2,3) show ?thesis by (intro exI [of _ s1]) (auto simp: Let_def)
qed

lemma kth_loop_ok:
  assumes "ok s" and "1 \<le> k" "k \<le> length (data s)"
    and "sint min_v \<le> sint (kth_of (data s) k)" "sint (kth_of (data s) k) \<le> sint max_v"
    and "guess = min_v + (max_v - min_v) div 2" and "sint max_v - sint min_v < 2 ^ w" and "steps + w < 100"
  shows "\<exists>s'. kth_loop search (of_nat k) min_v max_v guess steps s = Inr ((kth_of (data s) k, True), s') \<and>
    ok s' \<and> data s' = data s"
  using assms
proof (induction w arbitrary: min_v max_v guess steps s)
  case 0
  let ?a = "kth_of (data s) k"
  from 0 have r: "sint min_v \<le> sint max_v" and st: "steps < 100" by simp_all
  have g: "sint guess = sint min_v + (sint max_v - sint min_v) div 2" using sint_mid [OF r] 0(6) by simp
  have "sint guess = sint ?a" using 0(4,5,7) g by simp
  then have "guess = ?a" by (rule signed_word_eqI)
  with kth_loop_step [OF 0(1-3) r st, of guess] show ?case by auto
next
  case (Suc w)
  let ?a = "kth_of (data s) k"
  from Suc.prems have r: "sint min_v \<le> sint max_v" and st: "steps < 100" by simp_all
  have g: "sint guess = sint min_v + (sint max_v - sint min_v) div 2" using sint_mid [OF r] Suc.prems(6) by simp
  from kth_loop_step [OF Suc.prems(1-3) r st, of guess] obtain s1 where
    s1: "ok s1" "data s1 = data s" "kth_loop search (of_nat k) min_v max_v guess steps s =
    (if sint ?a = sint guess then Inr ((guess, True), s1)
     else if sint guess < sint ?a then
       (let guess1 = guess + 1 + (max_v - (guess + 1)) div 2
        in require (sint (guess + 1) \<le> sint guess1 \<and> sint guess1 \<le> sint max_v)
             (AssertionFailed ''min <= guess && guess <= max'')
             (kth_loop search (of_nat k) (guess + 1) max_v guess1 (steps + 1) s1))
     else
       (let guess1 = min_v + (guess - min_v) div 2
        in require (sint min_v \<le> sint guess1 \<and> sint guess1 \<le> sint guess)
             (AssertionFailed ''min <= guess && guess <= max'')
             (kth_loop search (of_nat k) min_v guess guess1 (steps + 1) s1)))" by blast
  consider "sint ?a = sint guess" | "sint guess < sint ?a" | "sint ?a < sint guess" by linarith
  then show ?case
  proof cases
    case 1
    then have "guess = ?a" by (metis signed_word_eqI)
    with s1 show ?thesis by auto
  next
    case 2
    let ?m = "guess + 1"
    have m: "sint ?m = sint guess + 1" using sint_next [OF 2] .
    have rm: "sint ?m \<le> sint max_v" using m 2 Suc.prems(5) by simp
    have g1: "sint (?m + (max_v - ?m) div 2) = sint ?m + (sint max_v - sint ?m) div 2" using sint_mid [OF rm] .
    have "sint max_v - sint ?m < 2 ^ w" using m g Suc.prems(7) by simp
    then have "\<exists>s'. kth_loop search (of_nat k) ?m max_v (?m + (max_v - ?m) div 2) (steps + 1) s1 =
        Inr ((kth_of (data s1) k, True), s') \<and> ok s' \<and> data s' = data s1"
      by (intro Suc.IH) (use s1 Suc.prems 2 m in simp_all)
    then show ?thesis using s1 2 rm unfolding s1(3) Let_def g1 by auto
  next
    case 3
    have rm: "sint min_v \<le> sint guess" using 3 Suc.prems(4) by simp
    have g1: "sint (min_v + (guess - min_v) div 2) = sint min_v + (sint guess - sint min_v) div 2" using sint_mid [OF rm] .
    have "sint guess - sint min_v < 2 ^ w" using g Suc.prems(7) by simp
    then have "\<exists>s'. kth_loop search (of_nat k) min_v guess (min_v + (guess - min_v) div 2) (steps + 1) s1 =
        Inr ((kth_of (data s1) k, True), s') \<and> ok s' \<and> data s' = data s1"
      by (intro Suc.IH) (use s1 Suc.prems 3 in simp_all)
    then show ?thesis using s1 3 rm unfolding s1(3) Let_def g1 by auto
  qed
qed

lemma getKth_ok:
  assumes "ok s" and "1 \<le> k" "k \<le> length (data s)"
    and lo: "sint min_v \<le> sint (kth_of (data s) k)" and hi: "sint (kth_of (data s) k) \<le> sint max_v"
  shows "\<exists>s'. getKth search (of_nat k) min_v max_v s = Inr ((kth_of (data s) k, True), s') \<and> ok s' \<and> data s' = data s"
proof -
  let ?a = "kth_of (data s) k"
  have r: "sint min_v \<le> sint max_v" using lo hi by simp
  from kth_loop_step [OF assms(1-3) r, of 0 max_v] obtain s1 where
    s1: "ok s1" "data s1 = data s" "kth_loop search (of_nat k) min_v max_v max_v 0 s =
    (if sint ?a = sint max_v then Inr ((max_v, True), s1)
     else if sint max_v < sint ?a then
       (let guess1 = max_v + 1 + (max_v - (max_v + 1)) div 2
        in require (sint (max_v + 1) \<le> sint guess1 \<and> sint guess1 \<le> sint max_v)
             (AssertionFailed ''min <= guess && guess <= max'')
             (kth_loop search (of_nat k) (max_v + 1) max_v guess1 (0 + 1) s1))
     else
       (let guess1 = min_v + (max_v - min_v) div 2
        in require (sint min_v \<le> sint guess1 \<and> sint guess1 \<le> sint max_v)
             (AssertionFailed ''min <= guess && guess <= max'')
             (kth_loop search (of_nat k) min_v max_v guess1 (0 + 1) s1)))" by auto
  show ?thesis
  proof (cases "sint ?a = sint max_v")
    case True
    then have "max_v = ?a" by (metis signed_word_eqI)
    with s1 show ?thesis by (auto simp: getKth_def)
  next
    case False
    have g1: "sint (min_v + (max_v - min_v) div 2) = sint min_v + (sint max_v - sint min_v) div 2" using sint_mid [OF r] .
    have w: "sint max_v - sint min_v < 2 ^ 64" using sint_bounds [of max_v] sint_bounds [of min_v] by simp
    have "\<exists>s'. kth_loop search (of_nat k) min_v max_v (min_v + (max_v - min_v) div 2) (0 + 1) s1 =
        Inr ((kth_of (data s1) k, True), s') \<and> ok s' \<and> data s' = data s1"
      by (rule kth_loop_ok [where w = 64]) (use s1 assms w in simp_all)
    then show ?thesis using s1 False hi r unfolding getKth_def s1(3) Let_def g1 by auto
  qed
qed

end

end
