(* ===== verification/Median.thy ===== *)
theory Median
  imports Kth
begin

section \<open>The median of distributed data: sorter.cc and collector.cc\<close>

text \<open>
  Each sorter holds a list of numbers in ascending order and answers how many, which is the least, the
  greatest and the sum, and how many are smaller than or equal to a guess. The collector asks all of
  them, waits on a latch until every reply has been counted, and finds the median with \<open>getKth\<close>. The
  calls go through the RPC channels, which deliver one answer to each; \<open>orders\<close> gives, for each round
  of calls, the order in which the replies arrive.

  \<open>std::lower_bound\<close> and \<open>std::upper_bound\<close> are their results on an ordered range, \<open>std::sort\<close> a sort,
  and the random numbers are a parameter. A wait that never ends is a fault.
\<close>

subsection \<open>The sorter\<close>

record query_response =
  q_count :: i64
  q_min :: i64
  q_max :: i64
  q_sum :: i64

definition sorter_Query :: "i64 list \<Rightarrow> query_response result" where
  "sorter_Query d =
     require (d \<noteq> []) (OutOfBounds ''data_[0]'')
       (Inr \<lparr>q_count = of_nat (length d), q_min = d ! 0, q_max = last d, q_sum = foldl (+) 0 d\<rparr>)"

definition lower_bound :: "i64 list \<Rightarrow> i64 \<Rightarrow> nat" where
  "lower_bound d g = length (takeWhile (\<lambda>x. sint x < sint g) d)"

definition upper_bound :: "i64 list \<Rightarrow> i64 \<Rightarrow> nat" where
  "upper_bound d g = length (takeWhile (\<lambda>x. sint x \<le> sint g) d)"

definition sorter_Search :: "i64 \<Rightarrow> i64 list \<Rightarrow> i64 \<times> i64" where
  "sorter_Search guess d =
     (let it = lower_bound d guess in (of_nat it, of_nat (upper_bound d guess) - of_nat it))"

definition generated :: "i64 \<Rightarrow> i64 \<Rightarrow> i64 \<Rightarrow> i64" where
  "generated min_v max_v random =
     (let range = max_v - min_v in if 1 < sint range then min_v + word_of_int (sint random smod sint range) else min_v)"

definition doGenerate :: "(nat \<Rightarrow> i64) \<Rightarrow> i64 \<Rightarrow> i64 \<Rightarrow> i64 \<Rightarrow> i64 list" where
  "doGenerate nrand48 cnt min_v max_v =
     sort_key sint (map (\<lambda>i. generated min_v max_v (nrand48 i)) [0..<nat (sint cnt)])"

definition new_sorter :: "(nat \<Rightarrow> i64) \<Rightarrow> i64 list" where
  "new_sorter nrand48 = doGenerate nrand48 100 0 30"

definition sorter_Generate :: "(nat \<Rightarrow> i64) \<Rightarrow> i64 \<Rightarrow> i64 \<Rightarrow> i64 \<Rightarrow> i64 list \<Rightarrow> i64 list" where
  "sorter_Generate nrand48 cnt min_v max_v d = doGenerate nrand48 cnt min_v max_v"

subsection \<open>The collector\<close>

record collector =
  sorters :: "i64 list list"
  smaller_sum :: i64
  same_sum :: i64
  latch :: "int option"
  stats :: query_response
  orders :: "nat \<Rightarrow> nat list"
  round_no :: nat

definition new_collector :: "(nat \<Rightarrow> nat list) \<Rightarrow> i64 list list \<Rightarrow> collector" where
  "new_collector os ss = \<lparr>sorters = ss, smaller_sum = 0, same_sum = 0, latch = None,
     stats = \<lparr>q_count = 0, q_min = 0, q_max = 0, q_sum = 0\<rparr>, orders = os, round_no = 0\<rparr>"

definition countDown :: "collector \<Rightarrow> collector result" where
  "countDown c = (case latch c of None \<Rightarrow> Inl (NullDereference ''latch_'') | Some n \<Rightarrow> Inr (c\<lparr>latch := Some (n - 1)\<rparr>))"

definition latch_wait :: "collector \<Rightarrow> collector result" where
  "latch_wait c =
     (case latch c of
        None \<Rightarrow> Inl (NullDereference ''latch_'')
      | Some n \<Rightarrow> require (n \<le> 0) (Fatal ''CountDownLatch::wait does not return'') (Inr c))"

definition QueryDone :: "bool \<Rightarrow> query_response \<Rightarrow> collector \<Rightarrow> collector result" where
  "QueryDone in_loop reps c =
     require in_loop (AssertionFailed ''loop_->isInLoopThread()'')
      (let r1 = (stats c)\<lparr>q_count := q_count reps + q_count (stats c), q_sum := q_sum reps + q_sum (stats c)\<rparr>;
           r2 = (if 0 < sint (q_count reps) then
                   (let r = (if sint (q_min reps) < sint (q_min r1) then r1\<lparr>q_min := q_min reps\<rparr> else r1)
                    in if sint (q_max r) < sint (q_max reps) then r\<lparr>q_max := q_max reps\<rparr> else r)
                 else r1)
       in countDown (c\<lparr>stats := r2\<rparr>))"

definition getStats :: "bool \<Rightarrow> collector \<Rightarrow> collector result" where
  "getStats in_loop c =
     require (\<not> in_loop) (AssertionFailed ''!loop_->isInLoopThread()'')
      (let c1 = c\<lparr>latch := Some (int (length (sorters c))), round_no := Suc (round_no c)\<rparr>
       in and_then (for_each (\<lambda>i s. and_then (sorter_Query (sorters c ! i)) (\<lambda>reps. QueryDone True reps s))
             (orders c (round_no c)) c1) latch_wait)"

definition SearchDone :: "bool \<Rightarrow> i64 \<times> i64 \<Rightarrow> collector \<Rightarrow> collector result" where
  "SearchDone in_loop reps c =
     require in_loop (AssertionFailed ''loop_->isInLoopThread()'')
      (countDown (c\<lparr>smaller_sum := smaller_sum c + fst reps, same_sum := same_sum c + snd reps\<rparr>))"

definition collector_search :: "bool \<Rightarrow> i64 \<Rightarrow> collector \<Rightarrow> ((i64 \<times> i64) \<times> collector) result" where
  "collector_search in_loop guess c =
     require (\<not> in_loop) (AssertionFailed ''!loop_->isInLoopThread()'')
      (let c1 = c\<lparr>smaller_sum := 0, same_sum := 0, latch := Some (int (length (sorters c))), round_no := Suc (round_no c)\<rparr>
       in and_then (and_then (for_each (\<lambda>i. SearchDone True (sorter_Search guess (sorters c ! i)))
             (orders c (round_no c)) c1) latch_wait)
            (\<lambda>c2. Inr ((smaller_sum c2, same_sum c2), c2)))"

datatype outcome = NoMedian | Median i64 | MedianNotFound

definition INT64_MAX :: i64 where "INT64_MAX = 0x7FFFFFFFFFFFFFFF"
definition INT64_MIN :: i64 where "INT64_MIN = 0x8000000000000000"

definition collector_run :: "collector \<Rightarrow> (outcome \<times> collector) result" where
  "collector_run c =
     and_then (getStats False (c\<lparr>stats := (stats c)\<lparr>q_min := INT64_MAX, q_max := INT64_MIN\<rparr>\<rparr>)) (\<lambda>c1.
       let cnt = q_count (stats c1) in
       if sint cnt \<le> 0 then Inr (NoMedian, c1)
       else
         (let k = word_of_int (sint (cnt + 1) sdiv 2)
          in and_then (getKth (collector_search False) k (q_min (stats c1)) (q_max (stats c1)) c1)
               (\<lambda>((guess, succeed), c2). Inr (if succeed then Median guess else MedianNotFound, c2))))"

subsection \<open>Facts on sorters\<close>

definition ascending_data :: "i64 list \<Rightarrow> bool" where
  "ascending_data d \<longleftrightarrow> sorted (map sint d)"

lemma takeWhile_filter_sorted:
  assumes "sorted (map f d)" and "\<And>x y. f x \<le> f y \<Longrightarrow> P y \<Longrightarrow> P x"
  shows "takeWhile P d = filter P d"
  using assms(1)
proof (induction d)
  case (Cons x d)
  have "\<not> P y" if "y \<in> set d" "\<not> P x" for y using that assms(2) [of x y] Cons.prems by auto
  then show ?case using Cons by (auto simp: filter_empty_conv)
qed simp

lemma sorter_Search_counts:
  assumes "ascending_data d"
  shows "sorter_Search g d = (of_nat (smaller_in d g), of_nat (same_in d g))"
proof -
  have s: "sorted (map sint d)" using assms by (simp add: ascending_data_def)
  have l: "lower_bound d g = smaller_in d g"
    unfolding lower_bound_def smaller_in_def by (subst takeWhile_filter_sorted [OF s]) auto
  have "upper_bound d g = length (filter (\<lambda>x. sint x \<le> sint g) d)"
    unfolding upper_bound_def by (subst takeWhile_filter_sorted [OF s]) auto
  also have "\<dots> = smaller_in d g + same_in d g"
    unfolding smaller_in_def same_in_def by (induction d) (auto simp: order.order_iff_strict dest: signed_word_eqI)
  finally show ?thesis by (simp add: sorter_Search_def l)
qed

lemma doGenerate_ascending: "ascending_data (doGenerate r cnt lo hi)"
  by (simp add: doGenerate_def ascending_data_def)

lemma length_doGenerate: "length (doGenerate r cnt lo hi) = nat (sint cnt)"
  by (simp add: doGenerate_def)

lemma generated_range:
  assumes "sint lo \<le> sint hi" and "sint hi - sint lo < 2 ^ 63" and "0 \<le> sint random"
  shows "sint lo \<le> sint (generated lo hi random) \<and> (1 < sint hi - sint lo \<longrightarrow> sint (generated lo hi random) < sint hi) \<and>
    (sint hi - sint lo \<le> 1 \<longrightarrow> generated lo hi random = lo)"
proof -
  have d: "sint (hi - lo) = sint hi - sint lo"
  proof -
    have "hi - lo = word_of_int (sint hi - sint lo)" by simp
    then show ?thesis using sint_unique [of "sint hi - sint lo"] assms(1,2) by simp
  qed
  show ?thesis
  proof (cases "1 < sint hi - sint lo")
    case True
    let ?m = "sint random mod (sint hi - sint lo)"
    have m: "0 \<le> ?m" "?m < sint hi - sint lo" using True by simp_all
    have g: "generated lo hi random = word_of_int (sint lo + ?m)"
      using True d division_of_positive(2) [of "sint random" "sint hi - sint lo"] assms(3)
      by (simp add: generated_def Let_def)
    have "sint (generated lo hi random) = sint lo + ?m"
      unfolding g using m sint_bounds [of lo] sint_bounds [of hi] by (intro sint_unique) linarith+
    then show ?thesis using m True by (intro conjI impI) linarith+
  next
    case False
    then show ?thesis using d by (simp add: generated_def Let_def)
  qed
qed

subsection \<open>Facts on the collector\<close>

definition collector_ok :: "collector \<Rightarrow> bool" where
  "collector_ok c \<longleftrightarrow> (\<forall>d \<in> set (sorters c). d \<noteq> [] \<and> ascending_data d) \<and> length (concat (sorters c)) < 2 ^ 63 \<and>
     (\<forall>r. mset (orders c r) = mset [0..<length (sorters c)])"

lemma arrivals:
  assumes "collector_ok c"
  shows "mset (map (\<lambda>i. sorters c ! i) (orders c r)) = mset (sorters c)"
    and "length (orders c r) = length (sorters c)" and "\<forall>i \<in> set (orders c r). i < length (sorters c)"
proof -
  have m: "mset (orders c r) = mset [0..<length (sorters c)]" using assms by (simp add: collector_ok_def)
  have "mset (map (\<lambda>i. sorters c ! i) (orders c r)) = image_mset (\<lambda>i. sorters c ! i) (mset (orders c r))" by simp
  also have "\<dots> = mset (map (\<lambda>i. sorters c ! i) [0..<length (sorters c)])" unfolding m by simp
  finally show "mset (map (\<lambda>i. sorters c ! i) (orders c r)) = mset (sorters c)" by (simp add: map_nth)
  show "length (orders c r) = length (sorters c)" using mset_eq_length [OF m] by simp
  show "\<forall>i \<in> set (orders c r). i < length (sorters c)" using mset_eq_setD [OF m] by simp
qed

lemma sum_list_mset_eq: "mset xs = mset ys \<Longrightarrow> sum_list (map f xs) = (sum_list (map f ys) :: 'a :: comm_monoid_add)"
  by (metis mset_map sum_mset_sum_list)

lemma counts_append [simp]:
  "smaller_in (xs @ ys) g = smaller_in xs g + smaller_in ys g" "same_in (xs @ ys) g = same_in xs g + same_in ys g"
  by (simp_all add: smaller_in_def same_in_def)

lemma smaller_in_concat: "smaller_in (concat ds) g = sum_list (map (\<lambda>d. smaller_in d g) ds)"
  unfolding smaller_in_def by (induction ds) auto

lemma same_in_concat: "same_in (concat ds) g = sum_list (map (\<lambda>d. same_in d g) ds)"
  unfolding same_in_def by (induction ds) auto

lemma for_each_SearchDone:
  "latch c = Some n \<Longrightarrow> (\<forall>d \<in> set ds. ascending_data d) \<Longrightarrow>
    for_each (\<lambda>d. SearchDone True (sorter_Search g d)) ds c =
    Inr (c\<lparr>smaller_sum := smaller_sum c + of_nat (smaller_in (concat ds) g),
      same_sum := same_sum c + of_nat (same_in (concat ds) g), latch := Some (n - int (length ds))\<rparr>)"
proof (induction ds arbitrary: c n)
  case (Cons d ds)
  let ?c = "c\<lparr>smaller_sum := smaller_sum c + of_nat (smaller_in d g),
      same_sum := same_sum c + of_nat (same_in d g), latch := Some (n - 1)\<rparr>"
  have "SearchDone True (sorter_Search g d) c = Inr ?c"
    using Cons.prems by (simp add: SearchDone_def countDown_def sorter_Search_counts)
  then show ?case using Cons.IH [of ?c "n - 1"] Cons.prems by (simp add: algebra_simps)
qed (simp add: smaller_in_def same_in_def)

lemma for_each_map: "for_each (\<lambda>i. f (h i)) xs s = for_each f (map h xs) s"
  by (induction xs arbitrary: s) (auto intro: arg_cong2 [where f = and_then])

lemma counts_arrivals:
  assumes "mset ds = mset es"
  shows "smaller_in (concat ds) g = smaller_in (concat es) g" and "same_in (concat ds) g = same_in (concat es) g"
  unfolding smaller_in_concat same_in_concat using assms by (rule sum_list_mset_eq)+

lemma collector_search_ok:
  assumes "collector_ok c"
  shows "\<exists>c'. collector_search False g c =
      Inr ((of_nat (smaller_in (concat (sorters c)) g), of_nat (same_in (concat (sorters c)) g)), c') \<and>
    collector_ok c' \<and> sorters c' = sorters c \<and> stats c' = stats c"
proof -
  define c1 where "c1 = c\<lparr>smaller_sum := 0, same_sum := 0, latch := Some (int (length (sorters c))), round_no := Suc (round_no c)\<rparr>"
  let ?ds = "map (\<lambda>i. sorters c ! i) (orders c (round_no c))"
  note ar = arrivals [OF assms, of "round_no c"]
  have asc: "\<forall>d \<in> set ?ds. ascending_data d"
    using mset_eq_setD [OF ar(1)] assms unfolding collector_ok_def by blast
  have "for_each (\<lambda>i. SearchDone True (sorter_Search g (sorters c ! i))) (orders c (round_no c)) c1
      = for_each (\<lambda>d. SearchDone True (sorter_Search g d)) ?ds c1" by (rule for_each_map)
  also have "\<dots> = Inr (c1\<lparr>smaller_sum := of_nat (smaller_in (concat (sorters c)) g),
      same_sum := of_nat (same_in (concat (sorters c)) g), latch := Some 0\<rparr>)"
    unfolding counts_arrivals [OF ar(1), of g, symmetric]
    by (subst for_each_SearchDone [of c1 "int (length (sorters c))" ?ds g, OF _ asc])
      (simp_all add: c1_def ar(2))
  finally have "collector_search False g c = Inr ((of_nat (smaller_in (concat (sorters c)) g),
      of_nat (same_in (concat (sorters c)) g)), c1\<lparr>smaller_sum := of_nat (smaller_in (concat (sorters c)) g),
      same_sum := of_nat (same_in (concat (sorters c)) g), latch := Some 0\<rparr>)"
    by (simp add: collector_search_def c1_def [symmetric] latch_wait_def)
  then show ?thesis using assms by (simp add: collector_ok_def c1_def)
qed

interpretation median: counting_search "collector_search False" "\<lambda>c. collector_ok c \<and> stats c = r"
  "\<lambda>c. concat (sorters c)" for r
proof
  show "\<exists>c'. collector_search False g c =
      Inr ((of_nat (smaller_in (concat (sorters c)) g), of_nat (same_in (concat (sorters c)) g)), c') \<and>
    (collector_ok c' \<and> stats c' = r) \<and> concat (sorters c') = concat (sorters c)"
    if "collector_ok c \<and> stats c = r" for c g
    using collector_search_ok [of c g] that by auto
  show "length (concat (sorters c)) < 2 ^ 63" if "collector_ok c \<and> stats c = r" for c
    using that by (simp add: collector_ok_def)
qed

text \<open>The statistics after the replies for the lists \<open>ds\<close> have arrived in this order.\<close>

definition merged :: "query_response \<Rightarrow> i64 list \<Rightarrow> query_response \<Rightarrow> bool" where
  "merged r0 xs r \<longleftrightarrow> q_count r = q_count r0 + of_nat (length xs) \<and> q_sum r = q_sum r0 + sum_list xs \<and>
     sint (q_min r) = Min (insert (sint (q_min r0)) (sint ` set xs)) \<and>
     sint (q_max r) = Max (insert (sint (q_max r0)) (sint ` set xs))"

lemma Min_insert_Min:
  assumes "finite A" and "finite B"
  shows "Min (insert (Min (insert a A)) B) = Min (insert a (A \<union> B) :: int set)"
proof (cases "B = {}")
  case False
  then have "Min (insert (Min (insert a A)) B) = min (Min (insert a A)) (Min B)" using assms by simp
  also have "\<dots> = Min (insert a A \<union> B)" using assms False by (subst Min_Un) simp_all
  finally show ?thesis by simp
qed simp

lemma Max_insert_Max:
  assumes "finite A" and "finite B"
  shows "Max (insert (Max (insert a A)) B) = Max (insert a (A \<union> B) :: int set)"
proof (cases "B = {}")
  case False
  then have "Max (insert (Max (insert a A)) B) = max (Max (insert a A)) (Max B)" using assms by simp
  also have "\<dots> = Max (insert a A \<union> B)" using assms False by (subst Max_Un) simp_all
  finally show ?thesis by simp
qed simp

lemma merged_append:
  assumes "merged r0 xs r1" and "merged r1 ys r2"
  shows "merged r0 (xs @ ys) r2"
  using assms unfolding merged_def
  by (simp add: image_Un Min_insert_Min Max_insert_Max)

lemma foldl_plus: "foldl (+) a d = a + sum_list d" for a :: i64
  by (induction d arbitrary: a) (simp_all add: algebra_simps)

lemma merged_Query:
  assumes "d \<noteq> []" and asc: "ascending_data d" and len: "length d < 2 ^ 63" and lt: "latch c = Some n"
  shows "\<exists>r. and_then (sorter_Query d) (\<lambda>reps. QueryDone True reps c) = Inr (c\<lparr>stats := r, latch := Some (n - 1)\<rparr>) \<and>
    merged (stats c) d r"
proof -
  have s: "sorted (map sint d)" using asc by (simp add: ascending_data_def)
  have lo: "Min (sint ` set d) = sint (d ! 0)"
  proof (rule Min_eqI)
    fix y assume "y \<in> sint ` set d"
    then obtain i where "i < length d" "y = sint (d ! i)" by (auto simp: in_set_conv_nth)
    then show "sint (d ! 0) \<le> y" using sorted_nth_mono [OF s, of 0 i] assms(1) by simp
  qed (use assms(1) in simp_all)
  have hi: "Max (sint ` set d) = sint (last d)"
  proof (rule Max_eqI)
    fix y assume "y \<in> sint ` set d"
    then obtain i where "i < length d" "y = sint (d ! i)" by (auto simp: in_set_conv_nth)
    then show "y \<le> sint (last d)" using sorted_nth_mono [OF s, of i "length d - 1"] assms(1) by (simp add: last_conv_nth)
  qed (use assms(1) in simp_all)
  have n: "0 < sint (of_nat (length d) :: i64)" using sint_count [OF len] assms(1) by simp
  have sum: "foldl (+) 0 d = sum_list d" using foldl_plus [of 0 d] by simp
  let ?S = "stats c"
  let ?r = "?S\<lparr>q_count := of_nat (length d) + q_count ?S, q_sum := sum_list d + q_sum ?S,
    q_min := (if sint (d ! 0) < sint (q_min ?S) then d ! 0 else q_min ?S),
    q_max := (if sint (q_max ?S) < sint (last d) then last d else q_max ?S)\<rparr>"
  have "merged ?S d ?r" using lo hi assms(1)
    by (simp add: merged_def Min_insert Max_insert min_def max_def)
  moreover have "and_then (sorter_Query d) (\<lambda>reps. QueryDone True reps c) = Inr (c\<lparr>stats := ?r, latch := Some (n - 1)\<rparr>)"
    using assms(1) lt n by (simp add: sorter_Query_def QueryDone_def countDown_def sum)
  ultimately show ?thesis by blast
qed

lemma for_each_Query:
  "latch c = Some n \<Longrightarrow> (\<forall>d \<in> set ds. d \<noteq> [] \<and> ascending_data d \<and> length d < 2 ^ 63) \<Longrightarrow>
    \<exists>r. for_each (\<lambda>d s. and_then (sorter_Query d) (\<lambda>reps. QueryDone True reps s)) ds c =
      Inr (c\<lparr>stats := r, latch := Some (n - int (length ds))\<rparr>) \<and> merged (stats c) (concat ds) r"
proof (induction ds arbitrary: c n)
  case Nil
  then show ?case by (intro exI [of _ "stats c"]) (simp add: merged_def)
next
  case (Cons d ds)
  from Cons.prems merged_Query [of d c n] obtain r where
    r: "and_then (sorter_Query d) (\<lambda>reps. QueryDone True reps c) = Inr (c\<lparr>stats := r, latch := Some (n - 1)\<rparr>)"
      "merged (stats c) d r" by auto
  from Cons.IH [of "c\<lparr>stats := r, latch := Some (n - 1)\<rparr>" "n - 1"] Cons.prems(2) obtain r' where
    r': "for_each (\<lambda>d s. and_then (sorter_Query d) (\<lambda>reps. QueryDone True reps s)) ds (c\<lparr>stats := r, latch := Some (n - 1)\<rparr>) =
      Inr (c\<lparr>stats := r', latch := Some (n - 1 - int (length ds))\<rparr>)" "merged r (concat ds) r'" by auto
  have "merged (stats c) (d @ concat ds) r'" using merged_append [OF r(2) r'(2)] .
  with r(1) r'(1) show ?case by (intro exI [of _ r']) (simp add: algebra_simps)
qed

lemma merged_perm:
  assumes "merged r0 xs r" and "mset xs = mset ys"
  shows "merged r0 ys r"
proof -
  have "sum_list xs = sum_list ys" using sum_list_mset_eq [OF assms(2), of "\<lambda>x. x"] by simp
  then show ?thesis using assms(1) unfolding merged_def mset_eq_length [OF assms(2)] mset_eq_setD [OF assms(2)] by simp
qed

lemma mset_concat_perm: "mset ds = mset es \<Longrightarrow> mset (concat ds) = mset (concat es)"
  unfolding mset_concat by (rule sum_list_mset_eq)

lemma length_member_concat: "d \<in> set ds \<Longrightarrow> length d \<le> length (concat ds)"
  by (induction ds) auto

lemma getStats_ok:
  assumes "collector_ok c"
  shows "\<exists>c'. getStats False c = Inr c' \<and> collector_ok c' \<and> sorters c' = sorters c \<and>
    merged (stats c) (concat (sorters c)) (stats c')"
proof -
  define c1 where "c1 = c\<lparr>latch := Some (int (length (sorters c))), round_no := Suc (round_no c)\<rparr>"
  let ?ds = "map (\<lambda>i. sorters c ! i) (orders c (round_no c))"
  let ?q = "\<lambda>d s. and_then (sorter_Query d) (\<lambda>reps. QueryDone True reps s)"
  note ar = arrivals [OF assms, of "round_no c"]
  have ds: "\<forall>d \<in> set ?ds. d \<noteq> [] \<and> ascending_data d \<and> length d < 2 ^ 63"
    unfolding mset_eq_setD [OF ar(1)] using assms length_member_concat [of _ "sorters c"]
    unfolding collector_ok_def by (blast intro: le_less_trans)
  have "latch c1 = Some (int (length (sorters c)))" by (simp add: c1_def)
  from for_each_Query [OF this ds] ar(2) obtain r where
    r: "for_each ?q ?ds c1 = Inr (c1\<lparr>stats := r, latch := Some 0\<rparr>)" "merged (stats c1) (concat ?ds) r" by auto
  have "for_each (\<lambda>i. ?q (sorters c ! i)) (orders c (round_no c)) c1 = for_each ?q ?ds c1" by (rule for_each_map)
  with r(1) have "getStats False c = Inr (c1\<lparr>stats := r, latch := Some 0\<rparr>)"
    by (simp add: getStats_def c1_def [symmetric] latch_wait_def)
  moreover have "merged (stats c) (concat (sorters c)) r"
    using merged_perm [OF r(2) mset_concat_perm [OF ar(1)]] by (simp add: c1_def)
  ultimately show ?thesis using assms by (simp add: collector_ok_def c1_def)
qed

subsection \<open>Properties\<close>

text \<open>
  The value \<open>m\<close> is the lower median of a list: its place \<open>k\<close> is half the length, rounded up, counted
  from 1.
\<close>

definition lower_median :: "i64 list \<Rightarrow> i64" where
  "lower_median xs = kth_of xs ((length xs + 1) div 2)"

lemma half_of_count:
  assumes "n < 2 ^ 63 - 1"
  shows "(word_of_int (sint (of_nat n + 1 :: i64) sdiv 2) :: i64) = of_nat ((n + 1) div 2)"
proof -
  have "sint (of_nat (n + 1) :: i64) = int (n + 1)" by (rule sint_count) (use assms in simp)
  then have "sint (of_nat n + 1 :: i64) = int (n + 1)" by (simp add: add.commute)
  moreover have "int (n + 1) sdiv 2 = int ((n + 1) div 2)" by (simp add: division_of_positive zdiv_int)
  ultimately show ?thesis by (simp only: of_int_of_nat_eq)
qed

lemma collector_run_ok:
  assumes "sorters c \<noteq> []" and "\<forall>d \<in> set (sorters c). d \<noteq> [] \<and> ascending_data d"
    and "length (concat (sorters c)) < 2 ^ 63 - 1" and "\<forall>r. mset (orders c r) = mset [0..<length (sorters c)]"
    and "q_count (stats c) = 0" and "q_sum (stats c) = 0"
  shows "\<exists>c'. collector_run c = Inr (Median (lower_median (concat (sorters c))), c') \<and>
    q_count (stats c') = of_nat (length (concat (sorters c))) \<and> q_sum (stats c') = sum_list (concat (sorters c)) \<and>
    sint (q_min (stats c')) = Min (sint ` set (concat (sorters c))) \<and>
    sint (q_max (stats c')) = Max (sint ` set (concat (sorters c)))"
proof -
  let ?xs = "concat (sorters c)" and ?k = "(length (concat (sorters c)) + 1) div 2"
  define c0 where "c0 = c\<lparr>stats := (stats c)\<lparr>q_min := INT64_MAX, q_max := INT64_MIN\<rparr>\<rparr>"
  have ok0: "collector_ok c0" "sorters c0 = sorters c" using assms(2-4) by (simp_all add: collector_ok_def c0_def)
  have ne: "?xs \<noteq> []" using assms(1,2) by (cases "sorters c") auto
  from getStats_ok [OF ok0(1)] ok0(2) obtain c1 where
    c1: "getStats False c0 = Inr c1" "collector_ok c1" "sorters c1 = sorters c" "merged (stats c0) ?xs (stats c1)" by auto
  have fin: "finite (sint ` set ?xs)" "sint ` set ?xs \<noteq> {}" using ne by simp_all
  have lim: "sint INT64_MAX = 2 ^ 63 - 1" "sint INT64_MIN = - (2 ^ 63)" by (simp_all add: INT64_MAX_def INT64_MIN_def)
  have below: "Min (sint ` set ?xs) \<le> sint INT64_MAX" "sint INT64_MIN \<le> Max (sint ` set ?xs)"
  proof -
    obtain x where x: "x \<in> set ?xs" using ne by (metis list.set_intros(1) neq_Nil_conv)
    have "Min (sint ` set ?xs) \<le> sint x" "sint x \<le> Max (sint ` set ?xs)" using x by simp_all
    then show "Min (sint ` set ?xs) \<le> sint INT64_MAX" "sint INT64_MIN \<le> Max (sint ` set ?xs)"
      using sint_bounds [of x] lim by linarith+
  qed
  have st: "q_count (stats c1) = of_nat (length ?xs)" "q_sum (stats c1) = sum_list ?xs"
      "sint (q_min (stats c1)) = Min (sint ` set ?xs)" "sint (q_max (stats c1)) = Max (sint ` set ?xs)"
    using c1(4) assms(5,6) Min_insert [OF fin] Max_insert [OF fin] below by (simp_all add: merged_def c0_def)
  have k: "1 \<le> ?k" "?k \<le> length ?xs" using ne by (cases ?xs; simp)+
  have "kth_of ?xs ?k \<in> set ?xs" using kth_of_in [OF k] .
  then have "sint (q_min (stats c1)) \<le> sint (kth_of ?xs ?k)" "sint (kth_of ?xs ?k) \<le> sint (q_max (stats c1))"
    unfolding st by simp_all
  from median.getKth_ok [of c1 "stats c1" ?k, unfolded c1(3), OF _ k this] c1(2) obtain c2 where
    c2: "getKth (collector_search False) (of_nat ?k) (q_min (stats c1)) (q_max (stats c1)) c1 =
      Inr ((kth_of ?xs ?k, True), c2)" "stats c2 = stats c1" by blast
  have cnt: "sint (of_nat (length ?xs) :: i64) = int (length ?xs)" by (rule sint_count) (use assms(3) in simp)
  have pos: "\<not> sint (of_nat (length ?xs) :: i64) \<le> 0" unfolding cnt using ne by simp
  have "collector_run c = Inr (Median (kth_of ?xs ?k), c2)"
    unfolding collector_run_def c0_def [symmetric] c1(1) and_then.simps Let_def st(1) if_not_P [OF pos]
      half_of_count [OF assms(3)] c2(1) by simp
  then show ?thesis using st unfolding lower_median_def c2(2) [symmetric] by blast
qed

text \<open>C11: Whatever the order in which replies arrive, the collector counts all of them: it finds
  the number, the sum modulo \<open>2 ^ 64\<close>, the least and the greatest of the numbers on all sorters, and
  their lower median within the 100 steps of the search; no assertion fails and no wait is for ever.
  The sorters are not empty and hold what \<open>doGenerate\<close> left, fewer than \<open>2 ^ 63 - 1\<close> numbers in all.\<close>

theorem median_is_found:
  assumes "sorters c \<noteq> []" and "\<forall>d \<in> set (sorters c). d \<noteq> [] \<and> ascending_data d"
    and "length (concat (sorters c)) < 2 ^ 63 - 1" and "\<forall>r. mset (orders c r) = mset [0..<length (sorters c)]"
    and "q_count (stats c) = 0" and "q_sum (stats c) = 0"
  shows "\<exists>c'. collector_run c = Inr (Median (lower_median (concat (sorters c))), c') \<and>
    q_count (stats c') = of_nat (length (concat (sorters c))) \<and> q_sum (stats c') = sum_list (concat (sorters c)) \<and>
    sint (q_min (stats c')) = Min (sint ` set (concat (sorters c))) \<and>
    sint (q_max (stats c')) = Max (sint ` set (concat (sorters c)))"
  using assms by (rule collector_run_ok)

text \<open>Two sorters; the replies of even rounds come back in the other order.\<close>

theorem median_is_found_witness:
  "let c = new_collector (\<lambda>r. if even r then [1, 0] else [0, 1]) [[-5, 2, 2], [0, 7]]
   in \<exists>c'. collector_run c = Inr (Median 2, c') \<and> q_sum (stats c') = 6"
proof -
  define c where "c = new_collector (\<lambda>r. if even r then [1, 0] else [0, 1]) [[-5, 2, 2], [0, 7]]"
  have f: "sorters c = [[-5, 2, 2], [0, 7]]" "q_count (stats c) = 0" "q_sum (stats c) = 0"
    by (simp_all add: c_def new_collector_def)
  have o: "\<forall>r. mset (orders c r) = mset [0..<length (sorters c)]"
    by (simp add: c_def new_collector_def upt_conv_Cons)
  have "sorters c \<noteq> []" "\<forall>d \<in> set (sorters c). d \<noteq> [] \<and> ascending_data d"
    "length (concat (sorters c)) < 2 ^ 63 - 1" by (simp_all add: f ascending_data_def)
  from median_is_found [OF this o f(2,3)] obtain c' where
    c': "collector_run c = Inr (Median (lower_median (concat (sorters c))), c')" "q_sum (stats c') = sum_list (concat (sorters c))"
    by blast
  moreover have "lower_median (concat (sorters c)) = 2" unfolding f by code_simp
  ultimately show ?thesis unfolding c_def [symmetric] Let_def by (intro exI [of _ c']) (simp add: f)
qed

text \<open>C35: \<open>doGenerate\<close> leaves the asked number of values, in ascending order, each from \<open>min\<close> up to but not
  including \<open>max\<close>, or \<open>min\<close> itself when the range has one value or none, for ranges whose size fits
  \<open>int64_t\<close> and random numbers that are not negative, as those of \<open>nrand48\<close> are.\<close>

theorem doGenerate_in_range:
  assumes "sint lo \<le> sint hi" and "sint hi - sint lo < 2 ^ 63" and "\<And>i. 0 \<le> sint (nrand48 i)"
  shows "length (doGenerate nrand48 cnt lo hi) = nat (sint cnt) \<and> ascending_data (doGenerate nrand48 cnt lo hi) \<and>
    (\<forall>x \<in> set (doGenerate nrand48 cnt lo hi). sint lo \<le> sint x \<and> (1 < sint hi - sint lo \<longrightarrow> sint x < sint hi) \<and>
       (sint hi - sint lo \<le> 1 \<longrightarrow> x = lo))"
proof -
  have "set (doGenerate nrand48 cnt lo hi) = (\<lambda>i. generated lo hi (nrand48 i)) ` {0..<nat (sint cnt)}"
    by (simp add: doGenerate_def)
  then show ?thesis using generated_range [OF assms(1,2)] assms(3) by (auto simp: length_doGenerate doGenerate_ascending)
qed

theorem doGenerate_in_range_witness:
  "length (new_sorter (\<lambda>i. of_nat (i mod 1000))) = 100 \<and>
    list_all (\<lambda>x. sint x < 30) (new_sorter (\<lambda>i. of_nat (i mod 1000)))"
proof -
  have "0 \<le> sint (of_nat (i mod 1000) :: i64)" for i
  proof -
    have "i mod 1000 < 2 ^ 63" by (rule less_trans [of _ 1000]) simp_all
    then show ?thesis using sint_count by simp
  qed
  with doGenerate_in_range [of 0 30 "\<lambda>i. of_nat (i mod 1000)" 100] show ?thesis by (simp add: new_sorter_def list_all_iff)
qed

text \<open>A sorter with no numbers, which \<open>Generate\<close> with a count of zero leaves, reads the first element of an
  empty vector when it is queried.\<close>

theorem query_of_empty_sorter_faults:
  "sorter_Query (sorter_Generate nrand48 0 lo hi d) = Inl (OutOfBounds ''data_[0]'')"
  by (simp add: sorter_Generate_def doGenerate_def sorter_Query_def)

end
