(* ===== verification/Codec.thy ===== *)
theory Codec
  imports Buffer
begin

section \<open>The protobuf codec: codec.h, codec.cc and google-inl.h\<close>

text \<open>
  \<open>ProtobufCodec\<close>: encoding of a message into a frame, parsing of a frame, and the loop of
  \<open>onMessage\<close> that cuts the input buffer into frames. The protobuf runtime and zlib's \<open>adler32\<close> are
  not part of the repository; they are the fields of the record \<open>protobuf\<close>, a parameter of every
  definition. Every read of the input goes through \<open>read_bytes\<close>, which faults out of range.

  Frame: length of the rest, length of the name with its terminator, name, a zero byte, payload,
  checksum of everything between the length and the checksum; all integers in network order.
\<close>

record ('d, 'm) protobuf =
  GetTypeName :: "'m \<Rightarrow> byte list"
  GetDescriptor :: "'m \<Rightarrow> 'd"
  IsInitialized :: "'m \<Rightarrow> bool"
  InitializationErrorString :: "'m \<Rightarrow> byte list"
  ByteSizeLong :: "'m \<Rightarrow> nat"
  SerializeToArray :: "'m \<Rightarrow> byte list"
  ParseFromArray :: "'m \<Rightarrow> byte list \<Rightarrow> bool \<times> 'm"
  FindMessageTypeByName :: "byte list \<Rightarrow> 'd option"
  GetPrototype :: "'d \<Rightarrow> 'm option"
  adler32 :: "u32 \<Rightarrow> byte list \<Rightarrow> u32"

datatype error_code =
    kNoError
  | kInvalidLength
  | kCheckSumError
  | kInvalidNameLen
  | kUnknownMessageType
  | kParseError

fun errorCodeToString :: "error_code \<Rightarrow> string" where
  "errorCodeToString kNoError = ''NoError''"
| "errorCodeToString kInvalidLength = ''InvalidLength''"
| "errorCodeToString kCheckSumError = ''CheckSumError''"
| "errorCodeToString kInvalidNameLen = ''InvalidNameLen''"
| "errorCodeToString kUnknownMessageType = ''UnknownMessageType''"
| "errorCodeToString kParseError = ''ParseError''"

definition kHeaderLen :: int where
  "kHeaderLen = 4"

definition kMinMessageLen :: int where
  "kMinMessageLen = 2 * kHeaderLen + 2"

definition kMaxMessageLen :: int where
  "kMaxMessageLen = 64 * 1024 * 1024"

lemmas codec_consts = kHeaderLen_def kMinMessageLen_def kMaxMessageLen_def

subsection \<open>Encoding\<close>

definition ByteSizeConsistencyError :: "int \<Rightarrow> int \<Rightarrow> int \<Rightarrow> fault" where
  "ByteSizeConsistencyError before after produced =
     (if before \<noteq> after
      then Fatal ''Protocol message was modified concurrently during serialization.''
      else if produced \<noteq> before
      then Fatal ''Byte size calculation and serialization were inconsistent.''
      else Fatal ''This shouldn't be called if all the sizes are equal.'')"

definition InitializationErrorMessage :: "('d, 'm) protobuf \<Rightarrow> string \<Rightarrow> 'm \<Rightarrow> string" where
  "InitializationErrorMessage pb action message =
     (let chars = map (\<lambda>b. char_of (unat b)) in
      ''Can't '' @ action @ '' message of type \"'' @ chars (GetTypeName pb message) @
      ''\" because it is missing required fields: '' @ chars (InitializationErrorString pb message))"

text \<open>
  \<open>static_cast<int32_t>\<close> of a size is the word of its low 32 bits, read as signed where it is used
  as a length.
\<close>

definition fillEmptyBuffer ::
  "host_order \<Rightarrow> ('d, 'm) protobuf \<Rightarrow> 'm \<Rightarrow> buffer \<Rightarrow> buffer result" where
  "fillEmptyBuffer h pb message buf =
     require (readableBytes buf = 0) (AssertionFailed ''buf->readableBytes() == 0'')
    (let typeName = GetTypeName pb message;
         nameLen = word_of_nat (length typeName + 1) :: u32 in
     and_then (appendInt32 h nameLen buf) (\<lambda>buf1.
     require (0 \<le> sint nameLen) (OutOfBounds ''typeName.c_str()'')
    (and_then (append (take (nat (sint nameLen)) (typeName @ [0])) buf1) (\<lambda>buf2.
     require (IsInitialized pb message) (Fatal (InitializationErrorMessage pb ''serialize'' message))
    (let byte_size = sint (word_of_nat (ByteSizeLong pb message) :: u32) in
     require (0 \<le> byte_size) (Fatal ''ensureWritableBytes'')
    (and_then (ensureWritableBytes (nat byte_size) buf2) (\<lambda>buf3.
     let produced = SerializeToArray pb message in
     require (int (length produced) = byte_size)
       (ByteSizeConsistencyError byte_size byte_size (int (length produced)))
    (let buf4 = hasWritten (nat byte_size) (buf3\<lparr>vec := copy_in (vec buf3) (beginWrite buf3) produced\<rparr>);
         checkSum = adler32 pb 1 (readable buf4) in
     and_then (appendInt32 h checkSum buf4) (\<lambda>buf5.
     require (int (readableBytes buf5) = 4 + sint nameLen + byte_size + 4)
       (AssertionFailed ''buf->readableBytes() == sizeof(nameLen) + nameLen + byte_size + sizeof(checkSum)'')
    (let len = hostToNetwork32 h (word_of_nat (readableBytes buf5)) in
     prepend (mem_bytes h 4 len) buf5))))))))))"

definition send_bytes :: "host_order \<Rightarrow> ('d, 'm) protobuf \<Rightarrow> 'm \<Rightarrow> byte list result" where
  "send_bytes h pb message =
     and_then (fillEmptyBuffer h pb message new_buffer) (\<lambda>buf. Inr (readable buf))"

subsection \<open>Parsing\<close>

definition read_bytes :: "byte list \<Rightarrow> int \<Rightarrow> int \<Rightarrow> byte list result" where
  "read_bytes mem off n =
     require (0 \<le> off \<and> 0 \<le> n \<and> off + n \<le> int (length mem)) (OutOfBounds ''codec input'')
       (Inr (take (nat n) (drop (nat off) mem)))"

definition asInt32 :: "host_order \<Rightarrow> byte list \<Rightarrow> int \<Rightarrow> u32 result" where
  "asInt32 h mem off =
     and_then (read_bytes mem off 4) (\<lambda>bs. Inr (networkToHost32 h (mem_word h bs)))"

definition createMessage :: "('d, 'm) protobuf \<Rightarrow> byte list \<Rightarrow> 'm option" where
  "createMessage pb typeName =
     (case FindMessageTypeByName pb typeName of
        None \<Rightarrow> None
      | Some descriptor \<Rightarrow> GetPrototype pb descriptor)"

text \<open>
  \<open>parse(buf, len, errorCode)\<close>: \<open>mem\<close> is the memory from \<open>buf\<close> to the end of its array. The result
  is the error code and the message pointer, which is set in the case of a parse error too.
\<close>

definition parse ::
  "host_order \<Rightarrow> ('d, 'm) protobuf \<Rightarrow> byte list \<Rightarrow> int \<Rightarrow> (error_code \<times> 'm option) result" where
  "parse h pb mem len =
     and_then (asInt32 h mem (len - kHeaderLen)) (\<lambda>expectedCheckSum.
     and_then (read_bytes mem 0 (len - kHeaderLen)) (\<lambda>summed.
     if expectedCheckSum = adler32 pb 1 summed then
       and_then (asInt32 h mem 0) (\<lambda>w.
       let nameLen = sint w in
       if 2 \<le> nameLen \<and> nameLen \<le> len - 2 * kHeaderLen then
         and_then (read_bytes mem kHeaderLen (nameLen - 1)) (\<lambda>typeName.
         case createMessage pb typeName of
           None \<Rightarrow> Inr (kUnknownMessageType, None)
         | Some message \<Rightarrow>
             and_then (read_bytes mem (kHeaderLen + nameLen) (len - 2 * kHeaderLen - nameLen)) (\<lambda>data.
             let (ok, message') = ParseFromArray pb message data in
             Inr (if ok then kNoError else kParseError, Some message')))
       else Inr (kInvalidNameLen, None))
     else Inr (kCheckSumError, None)))"

subsection \<open>Cutting the input into frames\<close>

text \<open>
  What \<open>onMessage\<close> calls, in order, and the buffer it leaves. A message is called back before its bytes are
  retrieved; its callback is given the message and not the buffer, so the model retrieves first
  and what a callback does to the connection is for the theories that run the events.
\<close>

datatype 'm codec_event = MessageCallback 'm | ErrorCallback error_code

lemma and_then_cong [fundef_cong]:
  "r = r' \<Longrightarrow> (\<And>x. r' = Inr x \<Longrightarrow> k x = k' x) \<Longrightarrow> and_then r k = and_then r' k'"
  by (cases r') auto

function onMessage ::
  "host_order \<Rightarrow> ('d, 'm) protobuf \<Rightarrow> buffer \<Rightarrow> ('m codec_event list \<times> buffer) result" where
  "onMessage h pb buf =
     (if kMinMessageLen + kHeaderLen \<le> int (readableBytes buf) then
        and_then (peekInt32 h buf) (\<lambda>w.
        let len = sint w in
        if kMaxMessageLen < len \<or> len < kMinMessageLen then Inr ([ErrorCallback kInvalidLength], buf)
        else if kHeaderLen + len \<le> int (readableBytes buf) then
          and_then (parse h pb (drop (peek buf + nat kHeaderLen) (vec buf)) len) (\<lambda>(errorcode, message).
          case message of
            Some m \<Rightarrow>
              if errorcode = kNoError then
                and_then (retrieve (nat (kHeaderLen + len)) buf) (\<lambda>buf'.
                and_then (onMessage h pb buf') (\<lambda>(evs, buf'').
                Inr (MessageCallback m # evs, buf'')))
              else Inr ([ErrorCallback errorcode], buf)
          | None \<Rightarrow> Inr ([ErrorCallback errorcode], buf))
        else Inr ([], buf))
      else Inr ([], buf))"
  by pat_completeness auto
termination
proof (relation "measure (\<lambda>(h, pb, buf). readableBytes buf)", goal_cases)
  case (2 h pb buf w len p ec msg m buf')
  then have "0 < nat (kHeaderLen + len)" by (simp add: codec_consts)
  moreover have "nat (kHeaderLen + len) \<le> readableBytes buf"
      "buf' = buf\<lparr>readerIndex := readerIndex buf + nat (kHeaderLen + len)\<rparr>"
    using 2 by (auto simp: retrieve_def)
  ultimately show ?case by (simp add: readableBytes_def size_sub_less_again)
qed simp

declare onMessage.simps [simp del]

text \<open>
  The default error callback shuts the connection down when there is one and it is connected; the
  buffer keeps the offending frame.
\<close>

definition defaultErrorCallback :: "bool option \<Rightarrow> error_code \<Rightarrow> bool" where
  "defaultErrorCallback conn_connected errorCode = (conn_connected = Some True)"

text \<open>
  The codec as the message callback of a connection: every chunk the connection reads is appended
  to its input buffer and \<open>onMessage\<close> runs once.
\<close>

fun feed ::
  "host_order \<Rightarrow> ('d, 'm) protobuf \<Rightarrow> byte list list \<Rightarrow> buffer \<Rightarrow> ('m codec_event list \<times> buffer) result"
where
  "feed h pb [] buf = Inr ([], buf)"
| "feed h pb (chunk # chunks) buf =
     and_then (append chunk buf) (\<lambda>buf1.
     and_then (onMessage h pb buf1) (\<lambda>(evs, buf2).
     and_then (feed h pb chunks buf2) (\<lambda>(evs', buf3). Inr (evs @ evs', buf3))))"

subsection \<open>The frame format and the messages it can carry\<close>

definition frame_body :: "('d, 'm) protobuf \<Rightarrow> 'm \<Rightarrow> byte list" where
  "frame_body pb m =
     be_bytes 4 (word_of_nat (length (GetTypeName pb m) + 1) :: u32) @ GetTypeName pb m @ [0] @
     SerializeToArray pb m"

definition frame :: "('d, 'm) protobuf \<Rightarrow> 'm \<Rightarrow> byte list" where
  "frame pb m =
     be_bytes 4 (word_of_nat (length (frame_body pb m) + 4) :: u32) @ frame_body pb m @
     be_bytes 4 (adler32 pb 1 (frame_body pb m))"

text \<open>
  What the protobuf runtime promises of a message that can be encoded (it is initialized, its
  computed size is the size of what it serializes to, and the frame length fits an \<open>int32_t\<close>), and
  of one that the receiver's generated pool can decode (its name is known, parsing its own
  serialization into a fresh message gives it back, and the frame is within the limit).
\<close>

definition encodable :: "('d, 'm) protobuf \<Rightarrow> 'm \<Rightarrow> bool" where
  "encodable pb m \<longleftrightarrow> IsInitialized pb m \<and> ByteSizeLong pb m = length (SerializeToArray pb m) \<and>
     length (frame_body pb m) + 4 < 2 ^ 31"

definition decodable :: "('d, 'm) protobuf \<Rightarrow> 'm \<Rightarrow> bool" where
  "decodable pb m \<longleftrightarrow> GetTypeName pb m \<noteq> [] \<and>
     int (length (frame_body pb m) + 4) \<le> kMaxMessageLen \<and>
     (case createMessage pb (GetTypeName pb m) of None \<Rightarrow> False
      | Some message \<Rightarrow> ParseFromArray pb message (SerializeToArray pb m) = (True, m))"

lemma sint_word_of_nat32: "n < 2 ^ 31 \<Longrightarrow> sint (word_of_nat n :: u32) = int n"
  by (simp add: signed_of_nat signed_take_bit_int_eq_self)

lemma length_frame_body [simp]:
  "length (frame_body pb m) = 5 + length (GetTypeName pb m) + length (SerializeToArray pb m)"
  by (simp add: frame_body_def)

lemma length_frame [simp]: "length (frame pb m) = 8 + length (frame_body pb m)"
  by (simp add: frame_def del: length_frame_body)

lemma fillEmptyBuffer_ok:
  assumes wf: "wf_buffer b" and empty: "readable b = []" and space: "4 \<le> readerIndex b"
    and enc: "encodable pb m"
  shows "\<exists>b'. fillEmptyBuffer h pb m b = Inr b' \<and> wf_buffer b' \<and> readable b' = frame pb m"
proof -
  let ?name = "GetTypeName pb m" and ?data = "SerializeToArray pb m"
  have small: "10 + length ?name + length ?data \<le> 2 ^ 31"
    using enc by (simp add: encodable_def)
  define w :: u32 where "w = word_of_nat (length ?name + 1)"
  define z :: u32 where "z = word_of_nat (ByteSizeLong pb m)"
  define c :: u32 where "c = adler32 pb 1 (frame_body pb m)"
  define l :: u32 where "l = word_of_nat (length (frame_body pb m) + 4)"
  have nl: "sint w = int (length ?name + 1)" and bs: "sint z = int (length ?data)"
    using small enc by (simp_all only: sint_word_of_nat32 encodable_def w_def z_def)
  have body: "frame_body pb m = be_bytes 4 w @ ?name @ [0] @ ?data"
    and frame: "frame pb m = be_bytes 4 l @ frame_body pb m @ be_bytes 4 c"
    by (simp_all only: frame_body_def frame_def w_def c_def l_def)
  obtain b1 where b1: "appendInt32 h w b = Inr b1" "wf_buffer b1"
      "readable b1 = be_bytes 4 w" "4 \<le> readerIndex b1"
    using append_ok [OF wf, of "be_bytes 4 w"] empty space by (auto simp: appendInt32_eq)
  obtain b2 where b2: "append (?name @ [0]) b1 = Inr b2" "wf_buffer b2"
      "readable b2 = readable b1 @ ?name @ [0]" "4 \<le> readerIndex b2"
    using append_ok [OF b1(2), of "?name @ [0]"] b1(4) by auto
  obtain b3 where b3: "ensureWritableBytes (length ?data) b2 = Inr b3" "wf_buffer b3"
      "readable b3 = readable b2" "length ?data \<le> writableBytes b3" "4 \<le> readerIndex b3"
    using ensureWritableBytes_ok [OF b2(2), of "length ?data"] b2(4) by auto
  let ?b4 = "hasWritten (length ?data) (b3\<lparr>vec := copy_in (vec b3) (beginWrite b3) ?data\<rparr>)"
  have b4: "wf_buffer ?b4" "readable ?b4 = frame_body pb m" "4 \<le> readerIndex ?b4"
    using write_then_hasWritten [OF b3(2,4)] b3(3,5) b2(3) b1(3)
    by (simp_all add: body) (simp add: hasWritten_def)
  obtain b5 where b5: "appendInt32 h c ?b4 = Inr b5" "wf_buffer b5"
      "readable b5 = frame_body pb m @ be_bytes 4 c" "4 \<le> readerIndex b5"
    using append_ok [OF b4(1), of "be_bytes 4 c"] b4(2,3) by (auto simp: appendInt32_eq)
  have rb: "readableBytes b5 = length (frame_body pb m) + 4"
    using b5(2,3) by (simp add: readableBytes_wf del: length_frame_body)
  obtain b6 where b6: "prepend (be_bytes 4 l) b5 = Inr b6" "wf_buffer b6" "readable b6 = frame pb m"
    using prepend_ok [OF b5(2), of "be_bytes 4 l"] b5(3,4) by (auto simp: frame)
  have "readableBytes b = 0" "IsInitialized pb m"
    using wf empty enc by (simp_all add: readableBytes_wf encodable_def)
  then have "fillEmptyBuffer h pb m b = Inr b6"
    unfolding fillEmptyBuffer_def Let_def w_def [symmetric] z_def [symmetric]
    using b1(1) b2(1) b3(1) b4(2) b5(1) b6(1) rb l_def c_def
    by (simp add: nl bs mem_hostToNetwork32 nat_add_distrib del: of_nat_add of_nat_Suc)
  with b6 show ?thesis by blast
qed

subsection \<open>Facts on parsing\<close>

lemma asInt32_ok: "0 \<le> off \<Longrightarrow> off + 4 \<le> int (length mem) \<Longrightarrow>
  asInt32 h mem off = Inr (be_word (take 4 (drop (nat off) mem)))"
proof -
  assume a: "0 \<le> off" "off + 4 \<le> int (length mem)"
  then have "length (take 4 (drop (nat off) mem)) = 4" by simp
  with a show ?thesis by (simp add: asInt32_def read_bytes_def networkToHost32_mem)
qed

lemma read_bytes_ok: "0 \<le> off \<Longrightarrow> 0 \<le> n \<Longrightarrow> off + n \<le> int (length mem) \<Longrightarrow>
  read_bytes mem off n = Inr (take (nat n) (drop (nat off) mem))"
  by (simp add: read_bytes_def)

lemma parse_in_range:
  assumes "4 \<le> len" and "len \<le> int (length mem)"
  shows "\<exists>ec msg. parse h pb mem len = Inr (ec, msg) \<and> (ec = kNoError \<longrightarrow> msg \<noteq> None)"
  using assms
  by (auto simp: parse_def Let_def asInt32_ok read_bytes_ok codec_consts split: option.split prod.split)

lemma parse_frame:
  assumes dec: "decodable pb m"
    and mem: "mem = frame_body pb m @ be_bytes 4 (adler32 pb 1 (frame_body pb m)) @ junk"
  shows "parse h pb mem (int (length (frame_body pb m) + 4)) = Inr (kNoError, Some m)"
proof -
  let ?name = "GetTypeName pb m" and ?data = "SerializeToArray pb m"
  have n: "length ?name \<noteq> 0" "length ?name + 1 < 2 ^ 31"
    using dec by (auto simp: decodable_def codec_consts)
  have nl: "sint (word_of_nat (length ?name + 1) :: u32) = int (length ?name + 1)"
    using n(2) by (rule sint_word_of_nat32)
  have w: "asInt32 h mem 0 = Inr (word_of_nat (length ?name + 1))"
    using be_word32_be_bytes [of "word_of_nat (length ?name + 1)"]
    by (simp add: asInt32_ok mem frame_body_def)
  have c: "asInt32 h mem (int (length (frame_body pb m) + 4) - kHeaderLen)
      = Inr (adler32 pb 1 (frame_body pb m))"
    using be_word32_be_bytes [of "adler32 pb 1 (frame_body pb m)"]
    by (simp add: asInt32_ok mem codec_consts del: length_frame_body)
  have s: "read_bytes mem 0 (int (length (frame_body pb m) + 4) - kHeaderLen) = Inr (frame_body pb m)"
    by (simp add: read_bytes_ok mem codec_consts del: length_frame_body)
  have t: "read_bytes mem kHeaderLen (int (length ?name + 1) - 1) = Inr ?name"
    by (simp add: read_bytes_ok mem codec_consts) (simp add: frame_body_def)
  have d: "read_bytes mem (kHeaderLen + int (length ?name + 1))
      (int (length (frame_body pb m) + 4) - 2 * kHeaderLen - int (length ?name + 1)) = Inr ?data"
    by (simp add: read_bytes_ok mem codec_consts nat_add_distrib) (simp add: frame_body_def)
  obtain proto where "createMessage pb ?name = Some proto" "ParseFromArray pb proto ?data = (True, m)"
    using dec by (auto simp: decodable_def split: option.splits)
  moreover have "2 \<le> int (length ?name + 1)"
    "int (length ?name + 1) \<le> int (length (frame_body pb m) + 4) - 2 * kHeaderLen"
    using n(1) by (simp_all add: codec_consts Suc_le_eq)
  ultimately show ?thesis
    unfolding parse_def by (simp only: c s w nl t d and_then.simps Let_def if_True simp_thms)
      (simp del: length_frame_body)
qed

lemma drop_peek: "wf_buffer b \<Longrightarrow> drop (peek b) (vec b) = readable b @ drop (writerIndex b) (vec b)"
  by (simp add: readable_wf peek_def wf_buffer_def) (metis append_take_drop_id drop_drop le_add_diff_inverse2)

subsection \<open>Facts on the framing loop\<close>

lemma frame_header:
  assumes "decodable pb m"
  obtains w :: u32 and N where "sint w = int N" "10 \<le> N" "N \<le> 67108864"
    "length (frame pb m) = 4 + N" "length (frame_body pb m) + 4 = N" "take 4 (frame pb m) = be_bytes 4 w"
proof (rule that)
  let ?N = "length (frame_body pb m) + 4"
  show "sint (word_of_nat ?N :: u32) = int ?N"
    by (rule sint_word_of_nat32) (use assms in \<open>simp add: decodable_def codec_consts\<close>)
  show "10 \<le> ?N" using assms by (cases "GetTypeName pb m") (auto simp: decodable_def)
  show "?N \<le> 67108864" using assms by (simp add: decodable_def codec_consts)
  show "take 4 (frame pb m) = be_bytes 4 (word_of_nat ?N :: u32)"
    by (simp add: frame_def del: length_frame_body)
qed simp_all

lemma onMessage_short:
  assumes wf: "wf_buffer b" and dec: "decodable pb m"
    and part: "readable b = take n (frame pb m)" and n: "n < length (frame pb m)"
  shows "onMessage h pb b = Inr ([], b)"
proof (cases "n < 14")
  case True
  then show ?thesis using wf part n by (simp add: onMessage.simps codec_consts readableBytes_wf)
next
  case False
  obtain w N where f: "sint (w :: u32) = int N" "10 \<le> N" "N \<le> 67108864"
      "length (frame pb m) = 4 + N" "length (frame_body pb m) + 4 = N" "take 4 (frame pb m) = be_bytes 4 w"
    by (rule frame_header [OF dec])
  have rb: "readableBytes b = n" using wf part n by (simp add: readableBytes_wf del: length_frame)
  have "peekInt32 h b = Inr w"
    using peekInt32_ok [OF wf, of h] part n False f(6) by (simp del: length_frame)
  then show ?thesis
    using f(1-4) n False by (simp add: onMessage.simps [of h pb b] rb codec_consts del: length_frame)
qed

lemma onMessage_frame:
  assumes wf: "wf_buffer b" and dec: "decodable pb m" and full: "readable b = frame pb m @ rest"
  shows "\<exists>b'. wf_buffer b' \<and> readable b' = rest \<and>
    onMessage h pb b = and_then (onMessage h pb b') (\<lambda>(evs, b''). Inr (MessageCallback m # evs, b''))"
proof -
  obtain w N where f: "sint (w :: u32) = int N" "10 \<le> N" "N \<le> 67108864"
      "length (frame pb m) = 4 + N" "length (frame_body pb m) + 4 = N" "take 4 (frame pb m) = be_bytes 4 w"
    by (rule frame_header [OF dec])
  have rb: "readableBytes b = 4 + N + length rest"
    using full f(4) wf by (simp add: readableBytes_wf del: length_frame)
  obtain b' where b': "retrieve (4 + N) b = Inr b'" "wf_buffer b'" "readable b' = rest"
    using retrieve_ok [OF wf, of "4 + N"] full f(4) by (auto simp del: length_frame)
  have pk: "peekInt32 h b = Inr w"
    using peekInt32_ok [OF wf, of h] full f(4,6) by (simp del: length_frame)
  have "drop (peek b + 4) (vec b) = drop 4 (drop (peek b) (vec b))" by (simp add: add.commute)
  also have "\<dots> = frame_body pb m @ be_bytes 4 (adler32 pb 1 (frame_body pb m)) @
      rest @ drop (writerIndex b) (vec b)"
    by (simp add: drop_peek [OF wf] full) (simp add: frame_def)
  finally have "parse h pb (drop (peek b + 4) (vec b)) (int N) = Inr (kNoError, Some m)"
    using parse_frame [OF dec] f(5) by (metis (no_types))
  then have "onMessage h pb b =
      and_then (onMessage h pb b') (\<lambda>(evs, b''). Inr (MessageCallback m # evs, b''))"
    using f(1-3) b'(1)
    by (simp add: onMessage.simps [of h pb b] rb pk codec_consts nat_add_distrib)
  with b' show ?thesis by blast
qed

lemma onMessage_frames:
  assumes "wf_buffer b" and "\<forall>m \<in> set ms. decodable pb m" and "decodable pb m'"
    and "readable b = concat (map (frame pb) ms) @ take n (frame pb m')" and "n < length (frame pb m')"
  shows "\<exists>b'. onMessage h pb b = Inr (map MessageCallback ms, b') \<and> wf_buffer b' \<and>
    readable b' = take n (frame pb m')"
  using assms
proof (induction ms arbitrary: b)
  case Nil
  then show ?case using onMessage_short [of b pb m' n h] by auto
next
  case (Cons m ms)
  have "decodable pb m" "readable b = frame pb m @ concat (map (frame pb) ms) @ take n (frame pb m')"
    using Cons.prems(2,4) by simp_all
  from onMessage_frame [OF Cons.prems(1) this] obtain c where c: "wf_buffer c"
      "readable c = concat (map (frame pb) ms) @ take n (frame pb m')"
      "onMessage h pb b = and_then (onMessage h pb c) (\<lambda>(evs, b''). Inr (MessageCallback m # evs, b''))"
    by blast
  from Cons.IH [OF c(1) _ Cons.prems(3) c(2) Cons.prems(5)] Cons.prems(2)
  obtain b' where "onMessage h pb c = Inr (map MessageCallback ms, b')" "wf_buffer b'"
      "readable b' = take n (frame pb m')" by auto
  with c(3) show ?case by simp
qed

text \<open>A front part of a stream of frames is some whole frames and a proper part of the next one.\<close>

lemma cut_frames:
  assumes "r @ s = concat fs @ t" and "length t < length g"
  shows "\<exists>j q. j \<le> length fs \<and> r = concat (take j fs) @ q \<and> q @ s = concat (drop j fs) @ t \<and>
    length q < length ((fs @ [g]) ! j)"
  using assms
proof (induction fs arbitrary: r)
  case Nil
  then have "length r \<le> length t" by (metis append_Nil concat.simps(1) le_add1 length_append)
  with Nil show ?case by auto
next
  case (Cons f fs)
  show ?case
  proof (cases "length r < length f")
    case True
    with Cons.prems show ?thesis by (intro exI [of _ 0] exI [of _ r]) simp
  next
    case False
    then obtain r' where r: "r = f @ r'"
      using Cons.prems(1) by (auto simp: append_eq_append_conv2)
    with Cons.prems have "r' @ s = concat fs @ t" by simp
    from Cons.IH [OF this Cons.prems(2)] obtain j q where "j \<le> length fs"
        "r' = concat (take j fs) @ q" "q @ s = concat (drop j fs) @ t"
        "length q < length ((fs @ [g]) ! j)" by blast
    with r show ?thesis by (intro exI [of _ "Suc j"] exI [of _ q]) simp
  qed
qed

lemma feed_frames:
  assumes "wf_buffer b" and "\<forall>m \<in> set ms. decodable pb m" and "decodable pb m'"
    and "readable b @ concat chunks = concat (map (frame pb) ms) @ take n (frame pb m')"
    and "n < length (frame pb m')" and "length (readable b) < length (frame pb (hd (ms @ [m'])))"
  shows "\<exists>b'. feed h pb chunks b = Inr (map MessageCallback ms, b') \<and> wf_buffer b' \<and>
    readable b' = take n (frame pb m')"
  using assms
proof (induction chunks arbitrary: b ms)
  case Nil
  then have "ms = []" by (cases ms) auto
  with Nil show ?case by simp
next
  case (Cons c cs)
  let ?t = "take n (frame pb m')"
  obtain b1 where b1: "append c b = Inr b1" "wf_buffer b1" "readable b1 = readable b @ c"
    using buf.put_ok [OF Cons.prems(1)] by blast
  have stream: "readable b1 @ concat cs = concat (map (frame pb) ms) @ ?t"
    using Cons.prems(4) b1(3) by simp
  have "length ?t < length (frame pb m')" using Cons.prems(5) by simp
  from cut_frames [OF stream this] obtain j q where jq: "j \<le> length ms"
      "readable b1 = concat (map (frame pb) (take j ms)) @ q"
      "q @ concat cs = concat (map (frame pb) (drop j ms)) @ ?t"
      "length q < length ((map (frame pb) ms @ [frame pb m']) ! j)"
    by (auto simp: take_map drop_map)
  define m where "m = hd (drop j ms @ [m'])"
  have m: "(map (frame pb) ms @ [frame pb m']) ! j = frame pb m"
    using jq(1) by (cases "j = length ms") (simp_all add: m_def nth_append hd_drop_conv_nth hd_append)
  have dm: "decodable pb m"
    using Cons.prems(2,3) jq(1)
    by (cases "j = length ms") (simp_all add: m_def hd_drop_conv_nth hd_append)
  have "take (length q) (q @ concat cs) = take (length q) (frame pb m)"
  proof (cases "drop j ms")
    case Nil
    then have "m = m'" "q @ concat cs = ?t" using jq(3) by (simp_all add: m_def)
    then show ?thesis
      by (metis append_eq_conv_conj length_append length_take min.cobounded2 order_trans le_add1 min_def take_take)
  next
    case (Cons x xs)
    then have "q @ concat cs = frame pb m @ concat (map (frame pb) xs) @ ?t"
      using jq(3) by (simp add: m_def)
    then show ?thesis using jq(4) by (simp add: m del: length_frame)
  qed
  then have q: "q = take (length q) (frame pb m)" by simp
  have "\<forall>x \<in> set (take j ms). decodable pb x" using Cons.prems(2) by (auto dest: in_set_takeD)
  moreover have "length q < length (frame pb m)" using jq(4) m by simp
  ultimately obtain b2 where b2: "onMessage h pb b1 = Inr (map MessageCallback (take j ms), b2)"
      "wf_buffer b2" "readable b2 = q"
    using onMessage_frames [OF b1(2) _ dm, of "take j ms" "length q" h] jq(2) q by auto
  have "\<forall>x \<in> set (drop j ms). decodable pb x" using Cons.prems(2) by (auto dest: in_set_dropD)
  from Cons.IH [OF b2(2) this Cons.prems(3) _ Cons.prems(5)] obtain b3 where
      "feed h pb cs b2 = Inr (map MessageCallback (drop j ms), b3)" "wf_buffer b3" "readable b3 = ?t"
    using b2(3) jq(3) \<open>length q < length (frame pb m)\<close> m_def by auto
  with b1 b2 show ?case by (simp flip: map_append)
qed

lemma onMessage_any_input:
  assumes "wf_buffer b"
  shows "\<exists>ms err b' n. onMessage h pb b = Inr (map MessageCallback ms @ err, b') \<and> wf_buffer b' \<and>
    readable b' = drop n (readable b) \<and>
    (err = [] \<and> (length (readable b') < 14 \<or>
        int (length (readable b')) < 4 + sint (be_word (take 4 (readable b')) :: u32)) \<or>
     (\<exists>e. e \<noteq> kNoError \<and> err = [ErrorCallback e]))"
  using assms
proof (induction h pb b rule: onMessage.induct)
  case (1 h pb b)
  let ?w = "be_word (take 4 (readable b)) :: u32"
  let ?mem = "drop (peek b + nat kHeaderLen) (vec b)"
  have rb: "readableBytes b = length (readable b)" using "1.prems" by (rule readableBytes_wf)
  show ?case
  proof (cases "14 \<le> length (readable b)")
    case False
    then have "onMessage h pb b = Inr (map MessageCallback [] @ [], b)"
      by (simp add: onMessage.simps [of h pb b] rb codec_consts)
    with False "1.prems" show ?thesis
      by (intro exI [of _ "[]"] exI [of _ b] exI [of _ 0]) simp
  next
    case True
    then have pk: "peekInt32 h b = Inr ?w" using peekInt32_ok [OF "1.prems"] by simp
    consider (bad) "kMaxMessageLen < sint ?w \<or> sint ?w < kMinMessageLen"
      | (wait) "kMinMessageLen \<le> sint ?w" "\<not> kMaxMessageLen < sint ?w"
          "int (length (readable b)) < kHeaderLen + sint ?w"
      | (full) "kMinMessageLen \<le> sint ?w" "\<not> kMaxMessageLen < sint ?w"
          "kHeaderLen + sint ?w \<le> int (length (readable b))" by linarith
    then show ?thesis
    proof cases
      case bad
      then have "onMessage h pb b = Inr (map MessageCallback [] @ [ErrorCallback kInvalidLength], b)"
        using True by (simp add: onMessage.simps [of h pb b] rb pk codec_consts)
      with "1.prems" show ?thesis
        by (intro exI [of _ "[]"] exI [of _ "[ErrorCallback kInvalidLength]"] exI [of _ b] exI [of _ 0])
          auto
    next
      case wait
      then have "onMessage h pb b = Inr (map MessageCallback [] @ [], b)"
        using True by (simp add: onMessage.simps [of h pb b] rb pk codec_consts)
      with "1.prems" wait show ?thesis
        by (intro exI [of _ "[]"] exI [of _ b] exI [of _ 0]) (simp add: codec_consts)
    next
      case full
      have "length (readable b) \<le> length (drop (peek b) (vec b))"
        by (simp add: drop_peek [OF "1.prems"])
      then have "4 \<le> sint ?w" "sint ?w \<le> int (length ?mem)"
        using full by (simp_all add: codec_consts)
      from parse_in_range [OF this, of h pb] obtain ec msg where
        ps: "parse h pb ?mem (sint ?w) = Inr (ec, msg)" "ec = kNoError \<longrightarrow> msg \<noteq> None" by blast
      show ?thesis
      proof (cases "ec = kNoError")
        case False
        then have "onMessage h pb b = Inr (map MessageCallback [] @ [ErrorCallback ec], b)"
          using True full ps(1)
          by (simp add: onMessage.simps [of h pb b] rb pk codec_consts split: option.split)
        with "1.prems" False show ?thesis
          by (intro exI [of _ "[]"] exI [of _ "[ErrorCallback ec]"] exI [of _ b] exI [of _ 0]) auto
      next
        case noerr: True
        with ps(2) obtain m where m: "msg = Some m" by auto
        let ?k = "nat (kHeaderLen + sint ?w)"
        have "?k \<le> length (readable b)" using full by simp
        then obtain c where c: "retrieve ?k b = Inr c" "wf_buffer c" "readable c = drop ?k (readable b)"
          using retrieve_ok [OF "1.prems"] by blast
        have "\<exists>ms err b' n. onMessage h pb c = Inr (map MessageCallback ms @ err, b') \<and> wf_buffer b' \<and>
          readable b' = drop n (readable c) \<and>
          (err = [] \<and> (length (readable b') < 14 \<or>
              int (length (readable b')) < 4 + sint (be_word (take 4 (readable b')) :: u32)) \<or>
           (\<exists>e. e \<noteq> kNoError \<and> err = [ErrorCallback e]))"
          by (rule "1.IH" [of ?w "sint ?w" "(ec, msg)" ec msg m c])
            (use True full ps noerr m c pk rb in \<open>auto simp: codec_consts\<close>)
        then obtain ms err b' n where ih: "onMessage h pb c = Inr (map MessageCallback ms @ err, b')"
            "wf_buffer b'" "readable b' = drop n (readable c)"
            "err = [] \<and> (length (readable b') < 14 \<or>
              int (length (readable b')) < 4 + sint (be_word (take 4 (readable b')) :: u32)) \<or>
             (\<exists>e. e \<noteq> kNoError \<and> err = [ErrorCallback e])" by blast
        have "onMessage h pb b = Inr (map MessageCallback (m # ms) @ err, b')"
          using True full ps(1) noerr m c(1) ih(1)
          by (simp add: onMessage.simps [of h pb b] rb pk codec_consts)
        moreover have "readable b' = drop (n + ?k) (readable b)" using ih(3) c(3) by simp
        ultimately show ?thesis using ih(2,4) by blast
      qed
    qed
  qed
qed

lemma send_bytes_frame: "encodable pb m \<Longrightarrow> send_bytes h pb m = Inr (frame pb m)"
  using fillEmptyBuffer_ok [of new_buffer pb m h] by (auto simp: send_bytes_def)

subsection \<open>A concrete runtime for the examples\<close>

text \<open>
  Messages are byte strings of the one type named \<open>Q\<close>; the checksum is a sum. It shows that the
  hypotheses on the runtime can hold.
\<close>

definition toy_pb :: "(unit, byte list) protobuf" where
  "toy_pb = \<lparr>GetTypeName = (\<lambda>_. [81]), GetDescriptor = (\<lambda>_. ()), IsInitialized = (\<lambda>_. True), InitializationErrorString = (\<lambda>_. []),
     ByteSizeLong = length, SerializeToArray = (\<lambda>m. m), ParseFromArray = (\<lambda>_ bs. (True, bs)),
     FindMessageTypeByName = (\<lambda>name. if name = [81] then Some () else None),
     GetPrototype = (\<lambda>_. Some []), adler32 = (\<lambda>a bs. a + sum_list (map ucast bs))\<rparr>"

lemma toy_frame_body: "frame_body toy_pb m = [0, 0, 0, 2, 81, 0] @ m"
proof -
  have "be_bytes 4 (2 :: u32) = [0, 0, 0, 2]" by code_simp
  then show ?thesis by (simp add: frame_body_def toy_pb_def)
qed

lemma toy_encodable: "length m < 1000 \<Longrightarrow> encodable toy_pb m"
  by (simp add: encodable_def) (simp add: toy_pb_def)

lemma toy_decodable: "length m < 1000 \<Longrightarrow> decodable toy_pb m"
  by (simp add: decodable_def createMessage_def codec_consts) (simp add: toy_pb_def)

subsection \<open>Properties\<close>

text \<open>C9: Sending messages and receiving their bytes is a round trip through any segmentation of the
  stream: the sender on any host puts each message into its frame, and a receiver on any host that
  reads the concatenated frames, followed by a proper part of one more frame, in chunks of any sizes
  delivers exactly the messages sent, in order, reports no error and keeps the partial frame.\<close>

theorem codec_stream_roundtrip:
  assumes "wf_buffer b" and "readable b = []"
    and "\<forall>m \<in> set ms. encodable pb m \<and> decodable pb m" and "decodable pb m'"
    and "n < length (frame pb m')"
    and "concat chunks = concat (map (frame pb) ms) @ take n (frame pb m')"
  shows "map (send_bytes h pb) ms = map (\<lambda>m. Inr (frame pb m)) ms \<and>
    (\<exists>b'. feed h' pb chunks b = Inr (map MessageCallback ms, b') \<and> wf_buffer b' \<and>
      readable b' = take n (frame pb m'))"
proof
  show "map (send_bytes h pb) ms = map (\<lambda>m. Inr (frame pb m)) ms"
    using assms(3) by (simp add: send_bytes_frame)
  show "\<exists>b'. feed h' pb chunks b = Inr (map MessageCallback ms, b') \<and> wf_buffer b' \<and>
      readable b' = take n (frame pb m')"
    by (rule feed_frames) (use assms in auto)
qed

theorem codec_stream_roundtrip_witness:
  "\<exists>b'. feed BigEndian toy_pb [[0, 0, 0], [11, 0, 0, 0, 2, 81], [0, 65, 0, 0], [0, 149, 0, 0]] new_buffer
     = Inr ([MessageCallback [65]], b') \<and> readable b' = [0, 0]"
proof -
  have img: "be_bytes 4 (11 :: u32) = [0, 0, 0, 11]" "be_bytes 4 (149 :: u32) = [0, 0, 0, 149]"
    by code_simp+
  have "frame toy_pb [65] = [0, 0, 0, 11, 0, 0, 0, 2, 81, 0, 65, 0, 0, 0, 149]"
    using img by (simp add: frame_def toy_frame_body) (simp add: toy_pb_def)
  moreover have "take 2 (frame toy_pb []) = [0, 0]"
  proof -
    have "be_bytes 4 (10 :: u32) = [0, 0, 0, 10]" by code_simp
    then show ?thesis by (simp add: frame_def toy_frame_body)
  qed
  ultimately show ?thesis
    using codec_stream_roundtrip [OF wf_new_buffer readable_new_buffer, of "[[65]]" toy_pb "[]" 2
      "[[0, 0, 0], [11, 0, 0, 0, 2, 81], [0, 65, 0, 0], [0, 149, 0, 0]]" LittleEndian BigEndian]
    by (auto simp: toy_encodable toy_decodable simp del: feed.simps)
qed

text \<open>C23: Whatever bytes a peer sends, \<open>onMessage\<close> returns without reading outside the input and
  without failing an assertion: it delivers some messages, then either waits with less than a whole
  frame left or reports exactly one error and stops, and what it leaves in the buffer is a tail of
  what was there.\<close>

theorem onMessage_survives_any_input:
  assumes "wf_buffer b"
  shows "\<exists>ms err b' n. onMessage h pb b = Inr (map MessageCallback ms @ err, b') \<and> wf_buffer b' \<and>
    readable b' = drop n (readable b) \<and>
    (err = [] \<and> (length (readable b') < 14 \<or>
        int (length (readable b')) < 4 + sint (be_word (take 4 (readable b')) :: u32)) \<or>
     (\<exists>e. e \<noteq> kNoError \<and> err = [ErrorCallback e]))"
  using assms by (rule onMessage_any_input)

theorem onMessage_survives_any_input_witness:
  "\<exists>evs b'. onMessage LittleEndian toy_pb \<lparr>vec = replicate 24 255, readerIndex = 4, writerIndex = 24\<rparr>
     = Inr (evs, b') \<and> wf_buffer b'"
  using onMessage_survives_any_input [of "\<lparr>vec = replicate 24 255, readerIndex = 4, writerIndex = 24\<rparr>"
    LittleEndian toy_pb] by (auto simp: wf_buffer_def)

text \<open>A frame whose content or checksum was altered so that the checksum no longer matches is not
  delivered: the codec reports \<open>kCheckSumError\<close> and leaves the buffer, bad frame included, as it
  is.\<close>

theorem altered_frame_rejected:
  assumes "wf_buffer b" and "decodable pb m" and "length body = length (frame_body pb m)"
    and "readable b = take 4 (frame pb m) @ body @ be_bytes 4 (c :: u32) @ rest"
    and "c \<noteq> adler32 pb 1 body"
  shows "onMessage h pb b = Inr ([ErrorCallback kCheckSumError], b)"
proof -
  obtain w N where f: "sint (w :: u32) = int N" "10 \<le> N" "N \<le> 67108864"
      "length (frame pb m) = 4 + N" "length (frame_body pb m) + 4 = N" "take 4 (frame pb m) = be_bytes 4 w"
    by (rule frame_header [OF assms(2)])
  have N: "N = length body + 4" using f(5) assms(3) by simp
  have rb: "readableBytes b = 4 + N + length rest"
    using assms(1,4) f(6) by (simp add: readableBytes_wf N)
  have pk: "peekInt32 h b = Inr w"
    using peekInt32_ok [OF assms(1), of h] assms(4) f(6) by simp
  let ?mem = "drop (peek b + 4) (vec b)"
  have "?mem = drop 4 (drop (peek b) (vec b))" by (simp add: add.commute)
  also have "\<dots> = body @ be_bytes 4 c @ rest @ drop (writerIndex b) (vec b)"
    by (simp add: drop_peek [OF assms(1)] assms(4) f(6))
  finally have mem: "?mem = body @ be_bytes 4 c @ rest @ drop (writerIndex b) (vec b)" .
  have "parse h pb ?mem (int N) = Inr (kCheckSumError, None)"
    using assms(5) by (simp add: mem parse_def N codec_consts asInt32_ok read_bytes_ok)
  then show ?thesis
    using f(1-3) by (simp add: onMessage.simps [of h pb b] rb pk codec_consts)
qed

theorem altered_frame_rejected_witness:
  "onMessage LittleEndian toy_pb
     \<lparr>vec = [0, 0, 0, 11, 0, 0, 0, 2, 81, 0, 66, 0, 0, 0, 149], readerIndex = 0, writerIndex = 15\<rparr>
   = Inr ([ErrorCallback kCheckSumError],
     \<lparr>vec = [0, 0, 0, 11, 0, 0, 0, 2, 81, 0, 66, 0, 0, 0, 149], readerIndex = 0, writerIndex = 15\<rparr>)"
proof -
  have img: "be_bytes 4 (11 :: u32) = [0, 0, 0, 11]" "be_bytes 4 (149 :: u32) = [0, 0, 0, 149]"
    by code_simp+
  show ?thesis
    by (rule altered_frame_rejected
        [of _ toy_pb "[65]" "[0, 0, 0, 2, 81, 0, 66]" 149 "[]"])
      (simp_all add: wf_buffer_def readable_def readableBytes_def peek_def toy_decodable toy_frame_body
        img frame_def, simp add: toy_pb_def)
qed

end
