(* ===== verification/Dispatcher.thy ===== *)
theory Dispatcher
  imports Prelude
begin

section \<open>Dispatching messages by type: dispatcher.h and dispatcher\_lite.h\<close>

text \<open>
  Both dispatchers keep a map from message descriptors to callbacks. \<open>ProtobufDispatcher\<close> is registered
  with a class \<open>T\<close> and casts the message down to \<open>T\<close> before it calls; \<open>ProtobufDispatcherLite\<close> is
  registered with a descriptor and passes the message on as it is. A callback is a function on the
  state of the program that can fail. The protobuf runtime is a parameter: the descriptor of a
  message, the descriptor of a class, and whether a message is an object of a class.

  The locale \<open>callback_table\<close> is what both owe to their users; it is interpreted on the registration
  and lookup of each.
\<close>

locale callback_table =
  fixes reg :: "'k \<Rightarrow> 'cb \<Rightarrow> 'd \<Rightarrow> 'd"
    and lookup :: "'d \<Rightarrow> 'k \<Rightarrow> 'cb option"
  assumes lookup_same: "lookup (reg k cb d) k = Some cb"
    and lookup_other: "k' \<noteq> k \<Longrightarrow> lookup (reg k cb d) k' = lookup d k'"
begin

lemma lookup_reg: "lookup (reg k cb d) k' = (if k' = k then Some cb else lookup d k')"
  by (simp add: lookup_same lookup_other)

lemma lookup_all:
  "lookup (fold (\<lambda>(k, cb). reg k cb) regs d) k = (case map_of (rev regs) k of None \<Rightarrow> lookup d k | Some cb \<Rightarrow> Some cb)"
proof (induction regs rule: rev_induct)
  case (snoc p regs)
  obtain k0 cb0 where "p = (k0, cb0)" by force
  with snoc.IH show ?case by (auto simp: lookup_reg)
qed simp

lemma order_of_distinct_keys:
  "k1 \<noteq> k2 \<Longrightarrow> lookup (reg k1 c1 (reg k2 c2 d)) = lookup (reg k2 c2 (reg k1 c1 d))"
  by (rule ext) (simp add: lookup_reg)

end

subsection \<open>Casting down\<close>

definition down_pointer_cast :: "('m \<Rightarrow> 'c \<Rightarrow> bool) \<Rightarrow> 'c \<Rightarrow> 'm option \<Rightarrow> 'm option result" where
  "down_pointer_cast is_a T f =
     require (case f of None \<Rightarrow> True | Some m \<Rightarrow> is_a m T)
       (AssertionFailed ''f == NULL || dynamic_cast<To *>(f.get()) != NULL'') (Inr f)"

type_synonym ('conn, 'p, 'ts, 's) callback = "'conn \<Rightarrow> 'p \<Rightarrow> 'ts \<Rightarrow> 's \<Rightarrow> 's result"

definition callbackT_onMessage ::
  "('m \<Rightarrow> 'c \<Rightarrow> bool) \<Rightarrow> 'c \<Rightarrow> ('conn, 'm, 'ts, 's) callback \<Rightarrow> ('conn, 'm option, 'ts, 's) callback" where
  "callbackT_onMessage is_a T cb conn message receiveTime s =
     and_then (down_pointer_cast is_a T message) (\<lambda>concrete.
       case concrete of
         None \<Rightarrow> Inl (AssertionFailed ''concrete != NULL'')
       | Some m \<Rightarrow> cb conn m receiveTime s)"

subsection \<open>ProtobufDispatcher\<close>

record ('d, 'c, 'conn, 'm, 'ts, 's) dispatcher =
  callbacks :: "'d \<Rightarrow> ('c \<times> ('conn, 'm, 'ts, 's) callback) option"
  defaultCallback :: "('conn, 'm option, 'ts, 's) callback"

definition new_dispatcher ::
  "('conn, 'm option, 'ts, 's) callback \<Rightarrow> ('d, 'c, 'conn, 'm, 'ts, 's) dispatcher" where
  "new_dispatcher cb = \<lparr>callbacks = Map.empty, defaultCallback = cb\<rparr>"

definition set_callback ::
  "'d \<Rightarrow> 'c \<times> ('conn, 'm, 'ts, 's) callback \<Rightarrow> ('d, 'c, 'conn, 'm, 'ts, 's) dispatcher \<Rightarrow>
    ('d, 'c, 'conn, 'm, 'ts, 's) dispatcher" where
  "set_callback d pd t = t\<lparr>callbacks := (callbacks t)(d \<mapsto> pd)\<rparr>"

definition registerMessageCallback ::
  "('c \<Rightarrow> 'd) \<Rightarrow> 'c \<Rightarrow> ('conn, 'm, 'ts, 's) callback \<Rightarrow> ('d, 'c, 'conn, 'm, 'ts, 's) dispatcher \<Rightarrow>
    ('d, 'c, 'conn, 'm, 'ts, 's) dispatcher" where
  "registerMessageCallback descriptor T cb t = set_callback (descriptor T) (T, cb) t"

definition onProtobufMessage ::
  "('m \<Rightarrow> 'd) \<Rightarrow> ('m \<Rightarrow> 'c \<Rightarrow> bool) \<Rightarrow> ('d, 'c, 'conn, 'm, 'ts, 's) dispatcher \<Rightarrow>
    ('conn, 'm option, 'ts, 's) callback" where
  "onProtobufMessage get_descriptor is_a t conn message receiveTime s =
     (case message of
        None \<Rightarrow> Inl (NullDereference ''message'')
      | Some m \<Rightarrow>
         (case callbacks t (get_descriptor m) of
            Some (T, cb) \<Rightarrow> callbackT_onMessage is_a T cb conn message receiveTime s
          | None \<Rightarrow> defaultCallback t conn message receiveTime s))"

interpretation typed: callback_table set_callback callbacks
  by unfold_locales (simp_all add: set_callback_def)

subsection \<open>ProtobufDispatcherLite\<close>

record ('d, 'conn, 'm, 'ts, 's) dispatcher_lite =
  callbacks_lite :: "'d \<Rightarrow> ('conn, 'm option, 'ts, 's) callback option"
  defaultCallback_lite :: "('conn, 'm option, 'ts, 's) callback"

definition new_dispatcher_lite ::
  "('conn, 'm option, 'ts, 's) callback \<Rightarrow> ('d, 'conn, 'm, 'ts, 's) dispatcher_lite" where
  "new_dispatcher_lite cb = \<lparr>callbacks_lite = Map.empty, defaultCallback_lite = cb\<rparr>"

definition registerMessageCallback_lite ::
  "'d \<Rightarrow> ('conn, 'm option, 'ts, 's) callback \<Rightarrow> ('d, 'conn, 'm, 'ts, 's) dispatcher_lite \<Rightarrow>
    ('d, 'conn, 'm, 'ts, 's) dispatcher_lite" where
  "registerMessageCallback_lite desc cb t = t\<lparr>callbacks_lite := (callbacks_lite t)(desc \<mapsto> cb)\<rparr>"

definition onProtobufMessage_lite ::
  "('m \<Rightarrow> 'd) \<Rightarrow> ('d, 'conn, 'm, 'ts, 's) dispatcher_lite \<Rightarrow> ('conn, 'm option, 'ts, 's) callback" where
  "onProtobufMessage_lite get_descriptor t conn message receiveTime s =
     (case message of
        None \<Rightarrow> Inl (NullDereference ''message'')
      | Some m \<Rightarrow>
         (case callbacks_lite t (get_descriptor m) of
            Some cb \<Rightarrow> cb conn message receiveTime s
          | None \<Rightarrow> defaultCallback_lite t conn message receiveTime s))"

interpretation lite: callback_table registerMessageCallback_lite callbacks_lite
  by unfold_locales (simp_all add: registerMessageCallback_lite_def)

subsection \<open>Sequences of registrations\<close>

definition register_all ::
  "('c \<Rightarrow> 'd) \<Rightarrow> ('c \<times> ('conn, 'm, 'ts, 's) callback) list \<Rightarrow> ('d, 'c, 'conn, 'm, 'ts, 's) dispatcher \<Rightarrow>
    ('d, 'c, 'conn, 'm, 'ts, 's) dispatcher" where
  "register_all descriptor regs = fold (\<lambda>(T, cb). registerMessageCallback descriptor T cb) regs"

definition register_all_lite ::
  "('d \<times> ('conn, 'm option, 'ts, 's) callback) list \<Rightarrow> ('d, 'conn, 'm, 'ts, 's) dispatcher_lite \<Rightarrow>
    ('d, 'conn, 'm, 'ts, 's) dispatcher_lite" where
  "register_all_lite regs = fold (\<lambda>(d, cb). registerMessageCallback_lite d cb) regs"

lemma new_dispatcher_simps [simp]:
  "callbacks (new_dispatcher cb) d = None" "defaultCallback (new_dispatcher cb) = cb"
  "callbacks_lite (new_dispatcher_lite cb) d = None" "defaultCallback_lite (new_dispatcher_lite cb) = cb"
  by (simp_all add: new_dispatcher_def new_dispatcher_lite_def)

lemma register_all_keys:
  "register_all descriptor regs t = fold (\<lambda>(d, pd). set_callback d pd) (map (\<lambda>p. (descriptor (fst p), p)) regs) t"
proof (induction regs arbitrary: t)
  case (Cons p regs)
  obtain T cb where "p = (T, cb)" by force
  with Cons.IH show ?case by (simp add: register_all_def registerMessageCallback_def)
qed (simp add: register_all_def)

lemma map_of_tagged:
  "map_of (map (\<lambda>p. (f (fst p), p)) xs) k = find (\<lambda>p. f (fst p) = k) xs"
  by (induction xs) auto

lemma callbacks_register_all:
  "callbacks (register_all descriptor regs (new_dispatcher cb)) d = find (\<lambda>p. descriptor (fst p) = d) (rev regs)"
  unfolding register_all_keys typed.lookup_all
  by (simp add: rev_map map_of_tagged split: option.split)

lemma defaultCallback_register_all [simp]:
  "defaultCallback (register_all descriptor regs t) = defaultCallback t"
  unfolding register_all_keys
  by (induction regs arbitrary: t) (auto simp: set_callback_def)

lemma callbacks_register_all_lite:
  "callbacks_lite (register_all_lite regs (new_dispatcher_lite cb)) d = map_of (rev regs) d"
  unfolding register_all_lite_def lite.lookup_all by (simp split: option.split)

lemma defaultCallback_register_all_lite [simp]:
  "defaultCallback_lite (register_all_lite regs t) = defaultCallback_lite t"
  unfolding register_all_lite_def
  by (induction regs arbitrary: t) (auto simp: registerMessageCallback_lite_def)

lemma map_of_wrapped:
  "map_of (map (\<lambda>(T, cb). (f T, g T cb)) xs) k = map_option (\<lambda>(T, cb). g T cb) (find (\<lambda>p. f (fst p) = k) xs)"
  by (induction xs) auto

subsection \<open>Properties\<close>

text \<open>A message reaches the callback registered last for its type, cast down to that type, and the
  default callback when there is none, and no assertion of the dispatcher fails, given that a
  message with the descriptor of a generated class is an object of that class.\<close>

theorem messages_reach_their_callback:
  assumes "\<And>T cb m. (T, cb) \<in> set regs \<Longrightarrow> get_descriptor m = descriptor T \<Longrightarrow> is_a m T"
  shows "onProtobufMessage get_descriptor is_a (register_all descriptor regs (new_dispatcher dflt)) conn (Some m) t s =
    (case find (\<lambda>p. descriptor (fst p) = get_descriptor m) (rev regs) of
       None \<Rightarrow> dflt conn (Some m) t s
     | Some (T, cb) \<Rightarrow> cb conn m t s)"
proof (cases "find (\<lambda>p. descriptor (fst p) = get_descriptor m) (rev regs)")
  case None
  then show ?thesis by (simp add: onProtobufMessage_def callbacks_register_all)
next
  case (Some p)
  obtain T cb where p: "p = (T, cb)" by force
  have "p \<in> set (rev regs)" and d: "descriptor (fst p) = get_descriptor m"
    using Some unfolding find_Some_iff by (blast intro: nth_mem)+
  then have "p \<in> set regs" by simp
  then have "is_a m T" using assms [of T cb m] p d by simp
  with Some p show ?thesis
    by (simp add: onProtobufMessage_def callbacks_register_all callbackT_onMessage_def down_pointer_cast_def)
qed

theorem messages_reach_their_callback_witness:
  "onProtobufMessage id (\<lambda>m T. m = T) (register_all id
       [(1 :: nat, \<lambda>c m t s. Inr (s @ [m])), (2, \<lambda>c m t s. Inr (s @ [20])), (1, \<lambda>c m t s. Inr (s @ [10]))]
       (new_dispatcher (\<lambda>c m t s. Inr (s @ [0])))) () (Some 1) () [] = Inr [10 :: nat]"
  by (subst messages_reach_their_callback) auto

text \<open>C33: The two dispatchers are interchangeable: registering with the light one, under the descriptor of
  each class, the cast followed by the callback gives the same outcome as the typed dispatcher on
  every message, failed casts and the null message included.\<close>

theorem typed_dispatcher_is_lite_with_casts:
  "onProtobufMessage get_descriptor is_a (register_all descriptor regs (new_dispatcher dflt)) conn message t s =
   onProtobufMessage_lite get_descriptor
     (register_all_lite (map (\<lambda>(T, cb). (descriptor T, callbackT_onMessage is_a T cb)) regs) (new_dispatcher_lite dflt))
     conn message t s"
proof (cases message)
  case (Some m)
  let ?p = "find (\<lambda>p. descriptor (fst p) = get_descriptor m) (rev regs)"
  have l: "callbacks_lite (register_all_lite (map (\<lambda>(T, cb). (descriptor T, callbackT_onMessage is_a T cb)) regs)
      (new_dispatcher_lite dflt)) (get_descriptor m) = map_option (\<lambda>(T, cb). callbackT_onMessage is_a T cb) ?p"
    unfolding callbacks_register_all_lite by (simp only: rev_map map_of_wrapped)
  show ?thesis
    by (cases ?p) (simp_all add: Some onProtobufMessage_def onProtobufMessage_lite_def callbacks_register_all l
        split: prod.split)
qed (simp add: onProtobufMessage_def onProtobufMessage_lite_def)

end
