(* ===== verification/QueryPrograms.thy ===== *)
theory QueryPrograms
  imports ConnectionLoop Codec Dispatcher
begin

section \<open>The query server and client: protobuf\_server.cc and protobuf\_client.cc\<close>

text \<open>
  Two programs in which a connection, the codec and a dispatcher work together: the codec is the
  message callback of the connection, the dispatcher the message callback of the codec, and the
  program's handlers act on the connection. Handlers are functions on the list of calls they make of
  the connection's public functions, the form in which \<open>TcpConnection\<close> takes user callbacks.
  Messages other than those of \<open>query.proto\<close> that are linked into the program are \<open>OtherMessage\<close>.
\<close>

datatype query_message =
    Query int string "string list"
  | Answer int string string "string list"
  | Empty "int option"
  | OtherMessage nat

datatype query_class = QueryClass | AnswerClass | EmptyClass | OtherClass nat

fun class_of :: "query_message \<Rightarrow> query_class" where
  "class_of (Query i q qs) = QueryClass"
| "class_of (Answer i q a ss) = AnswerClass"
| "class_of (Empty i) = EmptyClass"
| "class_of (OtherMessage n) = OtherClass n"

definition is_a :: "query_message \<Rightarrow> query_class \<Rightarrow> bool" where
  "is_a m T \<longleftrightarrow> class_of m = T"

type_synonym program_callback = "(unit, query_message option, unit, user_call list) callback"

type_synonym query_dispatcher = "(query_class, query_class, unit, query_message, unit, user_call list) dispatcher"

type_synonym query_pb = "(query_class, query_message) protobuf"

subsection \<open>The codec as the message callback of a connection\<close>

text \<open>The error callback shuts a connected connection down; \<open>shutdown\<close> itself ignores the others.\<close>

fun on_codec_event :: "query_dispatcher \<Rightarrow> query_message codec_event \<Rightarrow> user_call list \<Rightarrow> user_call list result" where
  "on_codec_event disp (codec_event.MessageCallback m) calls = onProtobufMessage class_of is_a disp () (Some m) () calls"
| "on_codec_event disp (ErrorCallback e) calls =
     Inr (calls @ (if defaultErrorCallback (Some True) e then [Shutdown] else []))"

text \<open>
  The codec's events happen as it parses; as the handlers do not look at the input buffer, what the
  codec retrieved is taken off at once.
\<close>

definition on_input :: "host_order \<Rightarrow> query_pb \<Rightarrow> query_dispatcher \<Rightarrow> buffer \<Rightarrow> user_call list result" where
  "on_input h pb disp buf =
     and_then (onMessage h pb buf) (\<lambda>(events, rest).
       and_then (for_each (on_codec_event disp) events []) (\<lambda>calls.
         Inr (RetrieveInput (readableBytes buf - readableBytes rest) # calls)))"

subsection \<open>The server\<close>

definition server_answer :: query_message where
  "server_answer = Answer 1 ''Chen Shuo'' ''blog.csdn.net/Solstice'' [''Jump!'', ''Win!'']"

definition server_onUnknownMessage :: program_callback where
  "server_onUnknownMessage conn message t calls = Inr (calls @ [Shutdown])"

definition server_onQuery ::
  "host_order \<Rightarrow> query_pb \<Rightarrow> (unit, query_message, unit, user_call list) callback" where
  "server_onQuery h pb conn message t calls =
     and_then (send_bytes h pb server_answer) (\<lambda>bytes. Inr (calls @ [Send bytes, Shutdown]))"

definition server_onAnswer :: "(unit, query_message, unit, user_call list) callback" where
  "server_onAnswer conn message t calls = Inr (calls @ [Shutdown])"

definition query_server :: "host_order \<Rightarrow> query_pb \<Rightarrow> query_dispatcher" where
  "query_server h pb =
     registerMessageCallback (\<lambda>T. T) AnswerClass server_onAnswer
       (registerMessageCallback (\<lambda>T. T) QueryClass (server_onQuery h pb) (new_dispatcher server_onUnknownMessage))"

text \<open>A server's connection callback only logs.\<close>

definition server_code :: "host_order \<Rightarrow> query_pb \<Rightarrow> user_code" where
  "server_code h pb kind c =
     (case kind of
        callback_kind.MessageCallback \<Rightarrow>
          (case on_input h pb (query_server h pb) (inputBuffer c) of Inl e \<Rightarrow> [] | Inr calls \<Rightarrow> calls)
      | _ \<Rightarrow> [])"

subsection \<open>The client\<close>

definition client_onUnknownMessage :: program_callback where
  "client_onUnknownMessage conn message t calls = Inr calls"

definition client_onAnswer :: "(unit, query_message, unit, user_call list) callback" where
  "client_onAnswer conn message t calls = Inr calls"

definition client_onEmpty :: "(unit, query_message, unit, user_call list) callback" where
  "client_onEmpty conn message t calls = Inr calls"

definition query_client :: query_dispatcher where
  "query_client =
     registerMessageCallback (\<lambda>T. T) EmptyClass client_onEmpty
       (registerMessageCallback (\<lambda>T. T) AnswerClass client_onAnswer (new_dispatcher client_onUnknownMessage))"

text \<open>The message to send by the arguments of the program, \<open>argv\<close> after its name.\<close>

definition messageToSend_of :: "string list \<Rightarrow> query_message" where
  "messageToSend_of args =
     (if 2 < length args \<and> take 1 (args ! 2) = ''e'' then Empty None
      else Query 1 ''Chen Shuo'' [''Running?''])"

text \<open>Besides what it does to the connection, the client's connection callback quits the loop when the
  connection is down.\<close>

definition client_onConnection :: "host_order \<Rightarrow> query_pb \<Rightarrow> query_message \<Rightarrow> bool \<Rightarrow> (user_call list \<times> bool) result" where
  "client_onConnection h pb messageToSend is_connected =
     (if is_connected then and_then (send_bytes h pb messageToSend) (\<lambda>bytes. Inr ([Send bytes], False))
      else Inr ([], True))"

definition client_code :: "host_order \<Rightarrow> query_pb \<Rightarrow> query_message \<Rightarrow> user_code" where
  "client_code h pb messageToSend kind c =
     (case kind of
        ConnectionCallback \<Rightarrow>
          (case client_onConnection h pb messageToSend (connected c) of Inl e \<Rightarrow> [] | Inr (calls, quits) \<Rightarrow> calls)
      | callback_kind.MessageCallback \<Rightarrow>
          (case on_input h pb query_client (inputBuffer c) of Inl e \<Rightarrow> [] | Inr calls \<Rightarrow> calls)
      | _ \<Rightarrow> [])"

subsection \<open>What the handlers ask of the connection\<close>

fun is_query :: "query_message \<Rightarrow> bool" where
  "is_query (Query i q qs) = True"
| "is_query m = False"

definition server_calls :: "query_pb \<Rightarrow> query_message \<Rightarrow> user_call list" where
  "server_calls pb m = (if is_query m then [Send (frame pb server_answer), Shutdown] else [Shutdown])"

lemma server_dispatch:
  assumes "encodable pb server_answer"
  shows "onProtobufMessage class_of is_a (query_server h pb) conn (Some m) t calls = Inr (calls @ server_calls pb m)"
  by (cases m) (simp_all add: onProtobufMessage_def query_server_def registerMessageCallback_def set_callback_def
      callbackT_onMessage_def down_pointer_cast_def is_a_def server_onQuery_def server_onAnswer_def
      server_onUnknownMessage_def server_calls_def send_bytes_frame [OF assms] new_dispatcher_def)

lemma client_dispatch:
  "onProtobufMessage class_of is_a query_client conn (Some m) t calls = Inr calls"
  by (cases m) (simp_all add: onProtobufMessage_def query_client_def registerMessageCallback_def set_callback_def
      callbackT_onMessage_def down_pointer_cast_def is_a_def client_onAnswer_def client_onEmpty_def
      client_onUnknownMessage_def new_dispatcher_def)

lemma server_events:
  assumes "encodable pb server_answer"
  shows "for_each (on_codec_event (query_server h pb)) (map codec_event.MessageCallback ms) calls =
    Inr (calls @ concat (map (server_calls pb) ms))"
  by (induction ms arbitrary: calls) (simp_all add: server_dispatch [OF assms])

lemma client_events:
  "for_each (on_codec_event query_client) (map codec_event.MessageCallback ms) calls = Inr calls"
  by (induction ms arbitrary: calls) (simp_all add: client_dispatch)

definition only_output :: "user_call list \<Rightarrow> bool" where
  "only_output calls \<longleftrightarrow> (\<forall>u \<in> set calls. \<nexists>n. u = RetrieveInput n)"

lemma refused_when_not_connected:
  "only_output calls \<Longrightarrow> state c \<noteq> kConnected \<Longrightarrow> for_each (user_step net) calls c = Inr c"
proof (induction calls)
  case (Cons u calls)
  then have "user_step net u c = Inr c" by (cases u) (auto simp: only_output_def send_def shutdown_def)
  then show ?case using Cons by (simp add: only_output_def)
qed simp

lemma only_output_server: "only_output (concat (map (server_calls pb) ms))"
  by (auto simp: only_output_def server_calls_def)

lemma sendInLoop_writeCallback:
  "sendInLoop net True m c = Inr c' \<Longrightarrow> writeCallback (chan c') = writeCallback (chan c)"
  by (auto simp: sendInLoop_def in_loop_thread_def Let_def do_write_def update_chan_def queue_functor_def
      and_then_Inr_iff split: if_splits prod.splits)

lemma shutdown_keeps_input:
  "shutdown True c = Inr c' \<Longrightarrow> inputBuffer c' = inputBuffer c"
  by (auto simp: shutdown_def shutdownInLoop_def in_loop_thread_def Let_def split: if_splits)

text \<open>After the first message the connection is shutting down, and the other messages find it so.\<close>

lemma first_message_decides:
  assumes inv: "conn_inv c" and st: "state c = kConnected" and opened: "\<not> down c" "\<not> fin c" and w: "write_ok net"
  shows "\<exists>c'. for_each (user_step net) (concat (map (server_calls pb) (m # ms))) c = Inr c' \<and>
    draining (accepted c @ (if is_query m then frame pb server_answer else [])) c' \<and> \<not> down c' \<and>
    writeCallback (chan c') = writeCallback (chan c) \<and> inputBuffer c' = inputBuffer c"
proof -
  let ?b = "if is_query m then frame pb server_answer else []"
  have "\<exists>c1. for_each (user_step net) (server_calls pb m) c = for_each (user_step net) [Shutdown] c1 \<and> conn_inv c1 \<and>
      state c1 = kConnected \<and> \<not> down c1 \<and> \<not> fin c1 \<and> accepted c1 = accepted c @ ?b \<and>
      inputBuffer c1 = inputBuffer c \<and> writeCallback (chan c1) = writeCallback (chan c)"
  proof (cases "is_query m")
    case True
    from sendInLoop_ok [OF inv w, of "frame pb server_answer"] obtain c1 where
      "sendInLoop net True (frame pb server_answer) c = Inr c1" "conn_inv c1" "same_phase c c1"
      "accepted c1 = accepted c @ frame pb server_answer" by blast
    then show ?thesis using True st opened sendInLoop_writeCallback
      by (intro exI [of _ c1]) (simp add: server_calls_def send_def same_phase_def)
  next
    case False
    then show ?thesis using inv st opened by (intro exI [of _ c]) (simp add: server_calls_def)
  qed
  then obtain c1 where c1: "for_each (user_step net) (server_calls pb m) c = for_each (user_step net) [Shutdown] c1"
    "conn_inv c1" "state c1 = kConnected" "\<not> down c1" "\<not> fin c1" "accepted c1 = accepted c @ ?b"
    "inputBuffer c1 = inputBuffer c" "writeCallback (chan c1) = writeCallback (chan c)" by blast
  from shutdown_draining [OF c1(2,3,4,5)] obtain c2 where
    c2: "shutdown True c1 = Inr c2" "draining (accepted c1) c2" "chan c2 = chan c1" "\<not> down c2" by blast
  have "for_each (user_step net) (concat (map (server_calls pb) ms)) c2 = Inr c2"
    using refused_when_not_connected [OF only_output_server] c2(2) by (simp add: draining_def)
  then show ?thesis using c1 c2 shutdown_keeps_input [OF c2(1)] by (auto simp: for_each_append)
qed

lemma on_input_frames:
  assumes "wf_buffer b" and "\<forall>m \<in> set ms. decodable pb m" and "decodable pb m'"
    and "readable b = concat (map (frame pb) ms) @ take n (frame pb m')" and "n < length (frame pb m')"
    and "\<And>calls. for_each (on_codec_event disp) (map codec_event.MessageCallback ms) calls = Inr (calls @ cs)"
  shows "\<exists>k. on_input h pb disp b = Inr (RetrieveInput k # cs) \<and> k \<le> length (readable b) \<and>
    drop k (readable b) = take n (frame pb m')"
proof -
  from onMessage_frames [OF assms(1-5)] obtain b' where
    b': "onMessage h pb b = Inr (map codec_event.MessageCallback ms, b')" "wf_buffer b'"
      "readable b' = take n (frame pb m')" by blast
  let ?k = "readableBytes b - readableBytes b'"
  have k: "?k = length (concat (map (frame pb) ms))" using assms(1,4,5) b'(2,3) by (simp add: readableBytes_wf)
  have "on_input h pb disp b = Inr (RetrieveInput ?k # cs)" using assms(6) [of "[]"] by (simp add: on_input_def b'(1))
  then show ?thesis unfolding k assms(4) by (intro exI [of _ "length (concat (map (frame pb) ms))"]) simp
qed

subsection \<open>Properties\<close>

text \<open>C21: The query server answers the first message of a connection and no other: when its input holds the
  frames of messages, and a part of one more, a query is answered with one frame of the answer, any
  other message with none, the connection is shut down, the rest is ignored, and as the socket
  becomes writable the kernel gets the whole answer before the write side is closed. The part of a
  frame stays in the input buffer.\<close>

theorem query_server_answers_first_message:
  assumes "conn_inv c" and "state c = kConnected" and "\<not> down c" and "\<not> fin c" and "writeCallback (chan c)"
    and "write_ok net" and "\<And>k data. data \<noteq> [] \<Longrightarrow> 0 < sys_write net k data"
    and "\<forall>x \<in> set (m # ms). decodable pb x" and "decodable pb m'" and "n < length (frame pb m')"
    and "readable (inputBuffer c) = concat (map (frame pb) (m # ms)) @ take n (frame pb m')"
    and "encodable pb server_answer"
  shows "\<exists>calls c1 c2. on_input h pb (query_server h pb) (inputBuffer c) = Inr calls \<and>
    call_user net (server_code h pb) callback_kind.MessageCallback c = Inr c1 \<and>
    handle_events net (server_code h pb) (replicate (length (readable (outputBuffer c1))) POLLOUT) c1 = Inr c2 \<and>
    readable (inputBuffer c1) = take n (frame pb m') \<and> fin c2 \<and>
    wire c2 = accepted c @ (if is_query m then frame pb server_answer else [])"
proof -
  let ?bs = "accepted c @ (if is_query m then frame pb server_answer else [])"
  let ?cs = "concat (map (server_calls pb) (m # ms))"
  have wf: "wf_buffer (inputBuffer c)" using assms(1) by (simp add: conn_inv_def)
  from on_input_frames [OF wf assms(8,9,11,10) server_events [OF assms(12)], of h] obtain k where
    k: "on_input h pb (query_server h pb) (inputBuffer c) = Inr (RetrieveInput k # ?cs)"
      "k \<le> length (readable (inputBuffer c))" "drop k (readable (inputBuffer c)) = take n (frame pb m')" by blast
  define c0 where "c0 = c\<lparr>effects := effects c @ [UserCallback callback_kind.MessageCallback (connected c)]\<rparr>"
  from retrieve_ok [OF wf k(2)] obtain b where
    b: "retrieve k (inputBuffer c) = Inr b" "wf_buffer b" "readable b = take n (frame pb m')" using k(3) by auto
  have "min k (readableBytes (inputBuffer c)) = k" using k(2) wf by (simp add: readableBytes_wf)
  then have step: "user_step net (RetrieveInput k) c0 = Inr (c0\<lparr>inputBuffer := b\<rparr>)" using b(1) by (simp add: c0_def)
  have c0: "conn_inv (c0\<lparr>inputBuffer := b\<rparr>)" "state (c0\<lparr>inputBuffer := b\<rparr>) = kConnected"
    "\<not> down (c0\<lparr>inputBuffer := b\<rparr>)" "\<not> fin (c0\<lparr>inputBuffer := b\<rparr>)" "accepted (c0\<lparr>inputBuffer := b\<rparr>) = accepted c"
    using assms(1-4) b(2) by (simp_all add: c0_def conn_inv_def)
  from first_message_decides [OF c0(1-4) assms(6), of pb m ms] c0(5) obtain c1 where
    c1: "for_each (user_step net) ?cs (c0\<lparr>inputBuffer := b\<rparr>) = Inr c1" "draining ?bs c1" "\<not> down c1"
      "writeCallback (chan c1) = writeCallback (chan c0)" "inputBuffer c1 = b" by auto
  have "call_user net (server_code h pb) callback_kind.MessageCallback c = Inr c1"
    using step c1(1) by (simp add: call_user_def server_code_def k(1) c0_def [symmetric] del: user_step.simps concat.simps list.map)
  moreover from write_events [OF assms(6,7) c1(2,3) _ order_refl, of "server_code h pb"] c1(4) assms(5) obtain c2 where
    c2: "handle_events net (server_code h pb) (replicate (length (readable (outputBuffer c1))) POLLOUT) c1 = Inr c2"
      "draining ?bs c2" "\<not> down c2" "readable (outputBuffer c2) = []" by (auto simp: c0_def)
  then have "fin c2" "wire c2 = ?bs" by (auto simp: draining_def conn_inv_def)
  ultimately show ?thesis using c2(1) b(3) c1(5) k(1) by blast
qed

text \<open>A runtime in which messages have no payload, and a connection that has read two queries.\<close>

definition query_runtime :: query_pb where
  "query_runtime = \<lparr>GetTypeName = (\<lambda>m. case class_of m of QueryClass \<Rightarrow> [81] | AnswerClass \<Rightarrow> [65] | EmptyClass \<Rightarrow> [69]
       | OtherClass n \<Rightarrow> [79]),
     GetDescriptor = class_of, IsInitialized = (\<lambda>_. True), InitializationErrorString = (\<lambda>_. []), ByteSizeLong = (\<lambda>_. 0), SerializeToArray = (\<lambda>_. []),
     ParseFromArray = (\<lambda>m _. (True, m)),
     FindMessageTypeByName = (\<lambda>n. if n = [81] then Some QueryClass else if n = [65] then Some AnswerClass else None),
     GetPrototype = (\<lambda>d. if d = QueryClass then Some (Query 1 [] []) else Some server_answer),
     adler32 = (\<lambda>a bs. a + sum_list (map ucast bs))\<rparr>"

definition two_queries :: tcp_connection where
  "two_queries = (let bs = frame query_runtime (Query 1 [] []) @ frame query_runtime (Query 1 [] [])
     in (new_connection 0 5 False)\<lparr>state := kConnected,
          inputBuffer := \<lparr>vec = bs, readerIndex = 0, writerIndex = length bs\<rparr>\<rparr>)"

lemma query_runtime_ok:
  "decodable query_runtime (Query 1 [] [])" "encodable query_runtime server_answer"
  by (simp_all add: decodable_def encodable_def createMessage_def frame_body_def codec_consts)
    (simp_all add: query_runtime_def server_answer_def)

theorem query_server_answers_first_message_witness:
  "\<exists>c1 c2. call_user slow_net (server_code LittleEndian query_runtime) callback_kind.MessageCallback two_queries = Inr c1 \<and>
    handle_events slow_net (server_code LittleEndian query_runtime)
      (replicate (length (readable (outputBuffer c1))) POLLOUT) c1 = Inr c2 \<and>
    fin c2 \<and> wire c2 = frame query_runtime server_answer"
proof -
  let ?q = "Query 1 [] []"
  have ib: "wf_buffer (inputBuffer two_queries)"
    "readable (inputBuffer two_queries) = concat (map (frame query_runtime) [?q, ?q]) @ take 0 (frame query_runtime ?q)"
    by (simp_all add: two_queries_def Let_def wf_buffer_def readable_def readableBytes_def peek_def)
  have rest: "state two_queries = kConnected" "\<not> down two_queries" "\<not> fin two_queries" "accepted two_queries = []"
      "writeCallback (chan two_queries)" "outputBuffer two_queries = new_buffer" "wire two_queries = []"
      "\<not> isWriting (chan two_queries)"
    by (simp_all add: two_queries_def new_connection_def Let_def isWriting_bit new_channel_def)
  then have inv: "conn_inv two_queries" using ib(1) by (simp add: conn_inv_def)
  have eager: "0 < sys_write slow_net k data" if "data \<noteq> []" for k data using that by (simp add: slow_net_def)
  have dec: "\<forall>x \<in> set [?q, ?q]. decodable query_runtime x" using query_runtime_ok by simp
  have "0 < length (frame query_runtime ?q)" by (simp add: frame_def)
  from query_server_answers_first_message [OF inv rest(1-3,5) write_ok_slow_net eager dec query_runtime_ok(1) this ib(2)
      query_runtime_ok(2), of LittleEndian] rest(4)
  show ?thesis by auto
qed

text \<open>The query client sends its message when the connection is up, and whatever frames come back it takes
  them from the input and asks nothing more of the connection.\<close>

lemma query_client_sends_once:
  assumes "wf_buffer (inputBuffer c)" and "\<forall>x \<in> set ms. decodable pb x" and "decodable pb m'"
    and "readable (inputBuffer c) = concat (map (frame pb) ms) @ take n (frame pb m')" and "n < length (frame pb m')"
    and "encodable pb messageToSend" and "state c = kConnected"
  shows "client_code h pb messageToSend ConnectionCallback c = [Send (frame pb messageToSend)] \<and>
    (\<exists>k. client_code h pb messageToSend callback_kind.MessageCallback c = [RetrieveInput k] \<and>
       drop k (readable (inputBuffer c)) = take n (frame pb m'))"
proof -
  have "for_each (on_codec_event query_client) (map codec_event.MessageCallback ms) calls = Inr (calls @ [])" for calls
    by (simp add: client_events)
  from on_input_frames [OF assms(1-5) this, of h] obtain k where
    "on_input h pb query_client (inputBuffer c) = Inr [RetrieveInput k]"
    "drop k (readable (inputBuffer c)) = take n (frame pb m')" by auto
  then show ?thesis using assms(6,7)
    by (simp add: client_code_def client_onConnection_def connected_def send_bytes_frame)
qed

end
