(* ===== verification/ConnectionView.thy ===== *)
theory ConnectionView
  imports ConnectionLoop ConnectionSteps
begin

section \<open>A connection as its user sees it\<close>

text \<open>
  The contract of \<open>TcpConnection\<close> with the code that is written on top of it. A user sees four things:
  the phase of the connection, the input not yet retrieved, what has come in so far and what has
  been sent so far. A \<open>program\<close> is user code that depends on these alone, and \<open>view_reaches\<close> is the
  abstract specification of a connection running such a program: bytes come in, callbacks are called
  in the order the phases allow, and their calls act on the lists at once, with no buffer, channel,
  poller or partial write in sight. The theory shows that a connection in its loop refines it, so
  that what is proved of a program over its view holds of every run of the program.
\<close>

record view =
  stage :: conn_state
  unread :: "byte list"
  got :: "byte list"
  given :: "byte list"

definition view_of :: "tcp_connection \<Rightarrow> view" where
  "view_of c = \<lparr>stage = state c, unread = readable (inputBuffer c), got = received c, given = accepted c\<rparr>"

type_synonym program = "callback_kind \<Rightarrow> view \<Rightarrow> user_call list"

definition code_of :: "program \<Rightarrow> user_code" where
  "code_of prog kind c = prog kind (view_of c)"

fun view_call :: "user_call \<Rightarrow> view \<Rightarrow> view" where
  "view_call (Send m) v = (if stage v = kConnected then v\<lparr>given := given v @ m\<rparr> else v)"
| "view_call Shutdown v = (if stage v = kConnected then v\<lparr>stage := kDisconnecting\<rparr> else v)"
| "view_call (RetrieveInput n) v = v\<lparr>unread := drop n (unread v)\<rparr>"

definition view_callback :: "program \<Rightarrow> callback_kind \<Rightarrow> view \<Rightarrow> view" where
  "view_callback prog kind v = fold view_call (prog kind v) v"

definition new_view :: view where
  "new_view = \<lparr>stage = kConnecting, unread = [], got = [], given = []\<rparr>"

abbreviation up :: "conn_state \<Rightarrow> bool" where
  "up st \<equiv> st = kConnected \<or> st = kDisconnecting"

inductive view_reaches :: "bool \<Rightarrow> program \<Rightarrow> view \<Rightarrow> bool" for others prog where
  created: "view_reaches others prog new_view"
| established: "view_reaches others prog v \<Longrightarrow> stage v = kConnecting \<Longrightarrow>
    view_reaches others prog (view_callback prog ConnectionCallback (v\<lparr>stage := kConnected\<rparr>))"
| arrives: "view_reaches others prog v \<Longrightarrow> up (stage v) \<Longrightarrow> bs \<noteq> [] \<Longrightarrow>
    view_reaches others prog (view_callback prog MessageCallback (v\<lparr>unread := unread v @ bs, got := got v @ bs\<rparr>))"
| completes: "view_reaches others prog v \<Longrightarrow> stage v \<noteq> kConnecting \<Longrightarrow>
    view_reaches others prog (view_callback prog WriteCompleteCallback v)"
| destroyed: "view_reaches others prog v \<Longrightarrow> up (stage v) \<Longrightarrow>
    view_reaches others prog (view_callback prog ConnectionCallback (v\<lparr>stage := kDisconnected\<rparr>))"
| other_sends: "others \<Longrightarrow> view_reaches others prog v \<Longrightarrow> stage v \<noteq> kConnecting \<Longrightarrow>
    view_reaches others prog (v\<lparr>given := given v @ m\<rparr>)"
| other_shuts_down: "others \<Longrightarrow> view_reaches others prog v \<Longrightarrow> stage v = kConnected \<Longrightarrow>
    view_reaches others prog (v\<lparr>stage := kDisconnecting\<rparr>)"

subsection \<open>Calls\<close>

definition seen :: "tcp_connection \<Rightarrow> view \<Rightarrow> bool" where
  "seen c v \<longleftrightarrow> wf_buffer (inputBuffer c) \<and> view_of c = v"

lemma seen_stage: "seen c v \<Longrightarrow> stage v = state c"
  unfolding seen_def view_of_def by (elim conjE) (drule arg_cong [where f = stage], simp)

lemma seen_frame:
  "seen c v \<Longrightarrow> state c' = state c \<Longrightarrow> inputBuffer c' = inputBuffer c \<Longrightarrow> received c' = received c \<Longrightarrow>
    accepted c' = accepted c \<Longrightarrow> seen c' v"
  by (auto simp: seen_def view_of_def)

lemma sendInLoop_view:
  assumes "sendInLoop net True m c = Inr c'"
  shows "state c' = state c \<and> inputBuffer c' = inputBuffer c \<and> received c' = received c \<and>
    accepted c' = accepted c @ m"
  using assms by (auto simp: sendInLoop_def conn_op_defs update_chan_def split: if_splits prod.splits)

lemma shutdownInLoop_view:
  "shutdownInLoop True c = Inr c' \<Longrightarrow> state c' = state c \<and> inputBuffer c' = inputBuffer c \<and>
    received c' = received c \<and> accepted c' = accepted c"
  by (auto simp: shutdownInLoop_def in_loop_thread_def split: if_splits)

lemma user_step_view:
  assumes s: "seen c v" and u: "user_step net u c = Inr c'"
  shows "seen c' (view_call u v)"
proof (cases u)
  case (Send m)
  show ?thesis
  proof (cases "state c = kConnected")
    case True
    then have "sendInLoop net True m c = Inr c'" using u Send by (simp add: send_def)
    from sendInLoop_view [OF this] show ?thesis using s True Send by (auto simp: seen_def view_of_def)
  next
    case False
    then show ?thesis using u s Send by (auto simp: send_def seen_def view_of_def)
  qed
next
  case Shutdown
  show ?thesis
  proof (cases "state c = kConnected")
    case True
    then have "shutdownInLoop True (c\<lparr>state := kDisconnecting\<rparr>) = Inr c'" using u Shutdown by (simp add: shutdown_def)
    from shutdownInLoop_view [OF this] show ?thesis using s True Shutdown by (auto simp: seen_def view_of_def)
  next
    case False
    then show ?thesis using u s Shutdown by (auto simp: shutdown_def seen_def view_of_def)
  qed
next
  case (RetrieveInput n)
  have wf: "wf_buffer (inputBuffer c)" using s by (simp add: seen_def)
  let ?n = "min n (readableBytes (inputBuffer c))"
  have n: "?n = min n (length (readable (inputBuffer c)))" using wf by (simp add: readableBytes_wf)
  then have "?n \<le> length (readable (inputBuffer c))" by simp
  from retrieve_ok [OF wf this] obtain b where
    b: "retrieve ?n (inputBuffer c) = Inr b" "wf_buffer b" "readable b = drop ?n (readable (inputBuffer c))" by blast
  have "drop ?n (readable (inputBuffer c)) = drop n (readable (inputBuffer c))" using n by (simp add: min_def)
  then show ?thesis using s u b RetrieveInput by (auto simp: seen_def view_of_def)
qed

lemma user_calls_view:
  "seen c v \<Longrightarrow> for_each (user_step net) calls c = Inr c' \<Longrightarrow> seen c' (fold view_call calls v)"
  by (induction calls arbitrary: c v) (auto simp: and_then_Inr_iff dest: user_step_view)

lemma call_user_view:
  assumes "seen c v" and "call_user net (code_of prog) kind c = Inr c'"
  shows "seen c' (view_callback prog kind v)"
proof -
  have "seen (c\<lparr>effects := effects c @ [UserCallback kind (connected c)]\<rparr>) v" by (rule seen_frame [OF assms(1)]) simp_all
  from user_calls_view [OF this] assms show ?thesis
    by (auto simp: call_user_def view_callback_def code_of_def seen_def)
qed

text \<open>Nothing of a program takes the phase back.\<close>

lemma view_call_stage: "stage (view_call u v) = stage v \<or> stage v = kConnected \<and> stage (view_call u v) = kDisconnecting"
  by (cases u) auto

lemma view_calls_stage:
  "stage (fold view_call us v) = stage v \<or> stage v = kConnected \<and> stage (fold view_call us v) = kDisconnecting"
proof (induction us arbitrary: v)
  case (Cons u us)
  from Cons [of "view_call u v"] view_call_stage [of u v] show ?case by auto
qed simp

lemma view_callback_stage:
  "stage (view_callback prog kind v) = stage v \<or>
    stage v = kConnected \<and> stage (view_callback prog kind v) = kDisconnecting"
  unfolding view_callback_def by (rule view_calls_stage)

subsection \<open>Events\<close>

definition tracks :: "bool \<Rightarrow> program \<Rightarrow> tcp_connection \<Rightarrow> bool" where
  "tracks others prog c \<longleftrightarrow> (\<exists>v. seen c v \<and> view_reaches others prog v)"

lemma tracks_frame:
  "tracks others prog c \<Longrightarrow> state c' = state c \<Longrightarrow> inputBuffer c' = inputBuffer c \<Longrightarrow> received c' = received c \<Longrightarrow>
    accepted c' = accepted c \<Longrightarrow> tracks others prog c'"
  unfolding tracks_def using seen_frame by blast

lemma tracksI: "seen c v \<Longrightarrow> view_reaches others prog v \<Longrightarrow> tracks others prog c"
  unfolding tracks_def by blast

lemma handleClose_view:
  "handleClose True c = Inr c' \<Longrightarrow> state c' = state c \<and> inputBuffer c' = inputBuffer c \<and>
    received c' = received c \<and> accepted c' = accepted c"
  by (auto simp: handleClose_def conn_op_defs update_chan_def require_def split: if_splits)

lemma handleWrite_view:
  assumes "handleWrite net True c = Inr c'"
  shows "state c' = state c \<and> inputBuffer c' = inputBuffer c \<and> received c' = received c \<and> accepted c' = accepted c"
  using assms by (auto simp: handleWrite_def conn_op_defs update_chan_def shutdownInLoop_def split: if_splits)

lemma handleRead_tracks:
  assumes t: "tracks others prog c" and st: "up (state c)" and h: "handleRead net (code_of prog) c = Inr c'"
  shows "tracks others prog c' \<and> up (state c')"
proof -
  obtain v where v: "seen c v" "view_reaches others prog v" using t by (auto simp: tracks_def)
  have stage: "stage v = state c" by (rule seen_stage [OF v(1)])
  have wf: "wf_buffer (inputBuffer c)" using v(1) by (simp add: seen_def)
  let ?rv = "sys_readv net (syscalls c)"
  let ?areas = "[writableBytes (inputBuffer c), kExtraBuf]"
  show ?thesis
  proof (cases "?rv ?areas")
    case (ReadvError err)
    then have "readFd ?rv (inputBuffer c) = Inr (-1, Some err, inputBuffer c)"
      by (simp add: readFd_def Let_def)
    then have "c' = c\<lparr>syscalls := Suc (syscalls c)\<rparr>" using h wf
      by (simp add: handleRead_def handleError_def Let_def readableBytes_wf)
    then show ?thesis using tracks_frame [OF t] st by simp
  next
    case (ReadvBytes bs)
    from readFd_ok [OF wf, of ?rv, OF this] obtain b where
      b: "readFd ?rv (inputBuffer c) = Inr (int (length bs), None, b)" "wf_buffer b"
         "readable b = readable (inputBuffer c) @ bs" by blast
    let ?c = "c\<lparr>inputBuffer := b, syscalls := Suc (syscalls c), received := received c @ bs\<rparr>"
    have r: "(if bs \<noteq> [] then call_user net (code_of prog) MessageCallback ?c else handleClose True ?c) = Inr c'"
      using h b(1,3) wf by (simp add: handleRead_def Let_def readableBytes_wf split: if_splits)
    let ?v = "v\<lparr>unread := unread v @ bs, got := got v @ bs\<rparr>"
    have s: "seen ?c ?v" using v(1) b(2,3) by (auto simp: seen_def view_of_def)
    show ?thesis
    proof (cases "bs = []")
      case True
      then have "?v = v" by simp
      then have "tracks others prog ?c" using s v(2) tracksI by metis
      moreover have "handleClose True ?c = Inr c'" using r True by simp
      from handleClose_view [OF this] st show ?thesis
        using tracks_frame [OF \<open>tracks others prog ?c\<close>] by simp
    next
      case False
      then have "call_user net (code_of prog) MessageCallback ?c = Inr c'" using r by simp
      from call_user_view [OF s this] have s': "seen c' (view_callback prog MessageCallback ?v)" .
      have "view_reaches others prog (view_callback prog MessageCallback ?v)"
        by (rule view_reaches.arrives [OF v(2)]) (use False st stage in simp_all)
      moreover have "state c' = stage (view_callback prog MessageCallback ?v)" using seen_stage [OF s'] by simp
      then have "up (state c')" using view_callback_stage [of prog MessageCallback ?v] st stage by auto
      ultimately show ?thesis using tracksI [OF s'] by simp
    qed
  qed
qed

lemma handler_tracks:
  assumes "tracks others prog c \<and> up (state c)" and "conn_handler net (code_of prog) e c = Inr c'"
  shows "tracks others prog c' \<and> up (state c')"
proof (cases e)
  case ReadCall
  then show ?thesis using handleRead_tracks [of others prog c net c'] assms by simp
next
  case WriteCall
  then have "handleWrite net True c = Inr c'" using assms(2) by simp
  from handleWrite_view [OF this] tracks_frame [of others prog c c'] assms(1) show ?thesis by simp
next
  case CloseCall
  then have "handleClose True c = Inr c'" using assms(2) by simp
  from handleClose_view [OF this] tracks_frame [of others prog c c'] assms(1) show ?thesis by simp
qed (use assms in \<open>simp add: handleError_def\<close>)

lemma conn_event_tracks:
  assumes "tracks others prog c" and "up (state c)" and "conn_event net (code_of prog) revt c = Inr c'"
  shows "tracks others prog c'"
proof -
  let ?ch = "set_revents revt (chan c)"
  let ?s = "c\<lparr>chan := ?ch\<lparr>eventHanding := True\<rparr>\<rparr>"
  from assms(3) obtain s' where s': "for_each (conn_handler net (code_of prog)) (event_calls ?ch) ?s = Inr s'"
    "c' = s'\<lparr>chan := (chan s')\<lparr>eventHanding := False\<rparr>\<rparr>"
    by (auto simp: conn_event_def handleEvent_def and_then_Inr_iff)
  have "tracks others prog s' \<and> up (state s')"
  proof (rule for_each_preserves [OF _ _ s'(1)])
    show "tracks others prog ?s \<and> up (state ?s)" using tracks_frame [OF assms(1)] assms(2) by simp
  qed (rule handler_tracks)
  then show ?thesis using tracks_frame [of others prog s' c'] s'(2) by simp
qed

subsection \<open>Functors\<close>

interpretation queues: conn_relation "\<lambda>c c'. set (toLoop c') \<subseteq> insert WriteComplete (set (toLoop c))"
  by unfold_locales (auto simp: update_chan_def)

interpretation callbacks: conn_relation "\<lambda>c c'. writeCallback (chan c') = writeCallback (chan c)"
  by unfold_locales (auto simp: update_chan_def)

lemma run_functor_writeCallback:
  assumes "run_functor net ucode f c = Inr c'"
  shows "writeCallback (chan c') = writeCallback (chan c)"
proof -
  consider (est) "f = ConnectEstablished" | (des) "f = ConnectDestroyed"
    | (mid) "f \<noteq> ConnectEstablished" "f \<noteq> ConnectDestroyed" by blast
  then show ?thesis
  proof cases
    case est
    with connectEstablished_callback assms callbacks.call_user_related show ?thesis
      by (fastforce simp: update_chan_def)
  next
    case des
    with connectDestroyed_callback assms callbacks.call_user_related show ?thesis
      by (fastforce simp: update_chan_def)
  qed (rule callbacks.run_functor_related [OF assms])
qed

definition allowed :: "bool \<Rightarrow> conn_functor \<Rightarrow> bool" where
  "allowed others f \<longleftrightarrow> others \<or> f \<in> {ConnectEstablished, WriteComplete, ConnectDestroyed}"

lemma run_functor_tracks:
  assumes t: "tracks others prog c" and r: "run_functor net (code_of prog) f c = Inr c'"
    and f: "allowed others f" and w: "f \<noteq> ConnectEstablished \<Longrightarrow> state c \<noteq> kConnecting"
  shows "tracks others prog c' \<and> set (toLoop c') \<subseteq> insert WriteComplete (set (toLoop c))"
proof -
  obtain v where v: "seen c v" "view_reaches others prog v" using t by (auto simp: tracks_def)
  have stage: "stage v = state c" by (rule seen_stage [OF v(1)])
  consider (est) "f = ConnectEstablished" | (wc) "f = WriteComplete" | (des) "f = ConnectDestroyed"
    | (send) m where "f = SendInLoop m" "others" | (shut) "f = ShutdownInLoop"
    using f by (cases f) (auto simp: allowed_def)
  then show ?thesis
  proof cases
    case est
    let ?c = "update_chan enableReading (c\<lparr>state := kConnected\<rparr>)"
    from connectEstablished_callback r est have st: "state c = kConnecting"
      and cb: "call_user net (code_of prog) ConnectionCallback ?c = Inr c'" by auto
    have s: "seen ?c (v\<lparr>stage := kConnected\<rparr>)" using v(1) by (auto simp: seen_def view_of_def update_chan_def)
    from tracksI [OF call_user_view [OF s cb] view_reaches.established [OF v(2)]] st stage
      queues.call_user_related [OF cb] show ?thesis by (simp add: update_chan_def)
  next
    case wc
    then have cb: "call_user net (code_of prog) WriteCompleteCallback c = Inr c'" using r by simp
    from tracksI [OF call_user_view [OF v(1) cb] view_reaches.completes [OF v(2)]] stage w wc
      queues.call_user_related [OF cb] show ?thesis by simp
  next
    case des
    let ?c = "update_chan disableAll (c\<lparr>state := kDisconnected, down := True\<rparr>)"
    from connectDestroyed_callback r des obtain c2 where st: "up (state c)"
      and cb: "call_user net (code_of prog) ConnectionCallback ?c = Inr c2"
      and c': "c' = c2\<lparr>effects := effects c2 @ [RemoveChannel]\<rparr>" by blast
    have s: "seen ?c (v\<lparr>stage := kDisconnected\<rparr>)" using v(1) by (auto simp: seen_def view_of_def update_chan_def)
    from tracksI [OF call_user_view [OF s cb] view_reaches.destroyed [OF v(2)]] st stage
    have "tracks others prog c2" by simp
    from tracks_frame [OF this, of c'] queues.call_user_related [OF cb] show ?thesis
      by (simp add: c' update_chan_def)
  next
    case (send m)
    then have r': "sendInLoop net True m c = Inr c'" using r by simp
    have "seen c' (v\<lparr>given := given v @ m\<rparr>)" using v(1) sendInLoop_view [OF r'] by (auto simp: seen_def view_of_def)
    from tracksI [OF this view_reaches.other_sends [OF send(2) v(2)]] stage w send(1) queues.sendInLoop_related [OF r']
    show ?thesis by simp
  next
    case shut
    then have r': "shutdownInLoop True c = Inr c'" using r by simp
    from shutdownInLoop_view [OF r'] tracks_frame [OF t] queues.shutdownInLoop_related [OF r'] show ?thesis by simp
  qed
qed

subsection \<open>A program in its loop\<close>

text \<open>\<open>others\<close> says whether other threads use the connection; if not, all it is given to do comes from its
  own loop.\<close>

definition program_inv :: "bool \<Rightarrow> net \<Rightarrow> program \<Rightarrow> conn_functor list \<Rightarrow> tcp_connection \<Rightarrow> bool" where
  "program_inv others net prog fs c \<longleftrightarrow> client_inv net fs c \<and> tracks others prog c \<and> writeCallback (chan c) \<and>
     (\<forall>f \<in> set fs. allowed others f)"

lemma settle_program:
  assumes cb: "writeCallback (chan c)" and k: "returns_or {} (\<lambda>(s, cs). client_inv net (fs @ queued_by cs) s) (settle c r)"
    and fs: "(\<forall>f \<in> set fs. allowed others f)" and tl: "toLoop c = []"
    and w: "\<And>c'. r = Inr c' \<Longrightarrow> writeCallback (chan c') = writeCallback (chan c)"
    and t: "\<And>c'. r = Inr c' \<Longrightarrow> tracks others prog c' \<and> set (toLoop c') \<subseteq> insert WriteComplete (set (toLoop c))"
  shows "returns_or {} (\<lambda>(s, cs). program_inv others net prog (fs @ queued_by cs) s) (settle c r)"
proof (cases r)
  case (Inl e)
  then show ?thesis using k by (simp add: settle_def)
next
  case (Inr c')
  have "tracks others prog (c'\<lparr>toLoop := []\<rparr>)" by (rule tracks_frame [of others prog c']) (use t [OF Inr] in simp_all)
  then show ?thesis using k fs t [OF Inr] w [OF Inr] cb tl Inr
    by (auto simp: settle_def program_inv_def allowed_def simp del: map_append map_replicate)
qed

interpretation prog: loop_client ordinary "program_inv others net prog" "{}" "run_conn net (code_of prog)" "handle_conn net (code_of prog)"
  "\<lambda>c f c'. others \<and> post_conn c f c'" for others net prog
proof
  fix f fs c
  assume I: "program_inv others net prog (f # fs) c"
  then have cb: "writeCallback (chan c)" and ci: "client_inv net (f # fs) c" and t: "tracks others prog c" and f: "allowed others f"
    and fs: "(\<forall>f \<in> set fs. allowed others f)" by (auto simp: program_inv_def)
  have w: "state c \<noteq> kConnecting" if "f \<noteq> ConnectEstablished" using ci that by (auto simp: client_inv_def)
  have tl: "toLoop c = []" using ci by (simp add: client_inv_def)
  show "returns_or {} (\<lambda>(s, cs). program_inv others net prog (fs @ queued_by cs) s) (run_conn net (code_of prog) f c)"
    unfolding run_conn_def
    by (rule settle_program [OF cb run_conn_ok [OF ci, unfolded run_conn_def] fs tl])
      (erule run_functor_writeCallback, rule run_functor_tracks [OF t _ f w])
next
  fix e fs c
  assume o: "ordinary e" and I: "program_inv others net prog fs c"
  then have cb: "writeCallback (chan c)" and ci: "client_inv net fs c" and t: "tracks others prog c"
    and fs: "(\<forall>f \<in> set fs. allowed others f)" by (auto simp: program_inv_def)
  have tl: "toLoop c = []" using ci by (simp add: client_inv_def)
  show "returns_or {} (\<lambda>(s, cs). program_inv others net prog (fs @ queued_by cs) s) (handle_conn net (code_of prog) e c)"
  proof (cases "reported e c")
    case False
    then show ?thesis using I by (simp add: handle_conn_def)
  next
    case True
    then have h: "handle_conn net (code_of prog) e c = settle c (conn_event net (code_of prog) e c)"
      by (simp add: handle_conn_def)
    have "up (state c)" using True by (simp add: reported_def)
    then show ?thesis unfolding h
      by (intro settle_program [OF cb handle_conn_ok [OF o ci, of "code_of prog", unfolded h] fs tl])
        (use conn_event_tracks [OF t] queues.conn_event_related callbacks.conn_event_related in blast)+
  qed
next
  fix fs f c c'
  assume I: "program_inv others net prog fs c" and "others \<and> post_conn c f c'"
  then have p: "post_conn c f c'" and o: "others" by simp_all
  have ci: "client_inv net fs c" using I by (simp add: program_inv_def)
  from p have "tracks others prog c'"
  proof (rule post_connE)
    assume c': "c' = c\<lparr>state := kDisconnecting\<rparr>" and st: "state c = kConnected"
    from I obtain v where v: "seen c v" "view_reaches others prog v" by (auto simp: program_inv_def tracks_def)
    have "seen c' (v\<lparr>stage := kDisconnecting\<rparr>)" using v(1) c' by (auto simp: seen_def view_of_def)
    from tracksI [OF this view_reaches.other_shuts_down [OF o v(2)]] seen_stage [OF v(1)] st show ?thesis by simp
  qed (use I in \<open>simp add: program_inv_def\<close>)
  moreover from p have "chan c' = chan c" by (rule post_connE) simp_all
  ultimately show "program_inv others net prog (fs @ [f]) c'"
    using post_conn_ok [OF ci p] o I by (simp add: program_inv_def allowed_def)
qed

lemma program_inv_new:
  assumes "write_ok net"
  shows "program_inv others net prog [ConnectEstablished] (new_connection l sockfd wcc)"
proof -
  have "seen (new_connection l sockfd wcc) new_view"
    using conn_inv_new [of l sockfd wcc] by (simp add: seen_def view_of_def new_view_def conn_inv_def new_connection_def)
  from tracksI [OF this view_reaches.created] show ?thesis
    using assms conn_inv_new [of l sockfd wcc] by (simp add: program_inv_def client_inv_def new_connection_def allowed_def)
qed

text \<open>The loop of a server that has just accepted a connection, or of a client that has just made one.\<close>

definition fresh_loop :: "tcp_connection \<Rightarrow> (conn_functor, tcp_connection) event_loop" where
  "fresh_loop c = \<lparr>looping = False, quitting = False, callingPendingFunctors = False,
     pendingFunctors = [ConnectEstablished], counter = 1, user = c\<rparr>"

lemma program_run:
  assumes "runs_reporting ordinary (run_conn net (code_of prog)) (handle_conn net (code_of prog)) (\<lambda>c f c'. others \<and> post_conn c f c')
      (start (fresh_loop (new_connection l sockfd wcc))) \<sigma>"
    and "write_ok net"
  shows "\<not> crashed (pc \<sigma>)" and "conn_inv (user (lp \<sigma>))" and "view_reaches others prog (view_of (user (lp \<sigma>)))"
    and "writeCallback (chan (user (lp \<sigma>)))"
proof -
  have "program_inv others net prog (pendingFunctors (fresh_loop (new_connection l sockfd wcc)))
      (user (fresh_loop (new_connection l sockfd wcc)))"
    using program_inv_new [OF assms(2)] by (simp add: fresh_loop_def)
  from prog.threads_ok_reachable [OF assms(1) this]
  have "\<not> crashed (pc \<sigma>)" "\<exists>fs. program_inv others net prog fs (user (lp \<sigma>))"
    by (cases "pc \<sigma>"; auto simp: threads_ok_def)+
  then show "\<not> crashed (pc \<sigma>)" "conn_inv (user (lp \<sigma>))" "view_reaches others prog (view_of (user (lp \<sigma>)))"
    "writeCallback (chan (user (lp \<sigma>)))"
    by (auto simp: program_inv_def client_inv_def tracks_def seen_def)
qed


definition polite :: program where
  "polite kind v = (if kind = ConnectionCallback \<and> stage v = kConnected then [Send [104, 105]] else [])"

text \<open>
  The witness: such a connection greets its peer with two bytes, three bytes come in, and the specification
  accounts for both.
\<close>

lemma polite_turns:
  "case turns (run_conn talking_net (code_of polite)) (handle_conn talking_net (code_of polite)) talk
      ((fresh_loop (new_connection 0 5 False))\<lparr>looping := True, quitting := False\<rparr>) of Inl e \<Rightarrow> False
    | Inr L \<Rightarrow> received (user L) = [5, 6, 7] \<and> wire (user L) = [104, 105] \<and> readable (outputBuffer (user L)) = []"
  by code_simp


subsection \<open>Emptying the output buffer\<close>

lemma flush_event:
  assumes "conn_inv c" and "up (state c)" and "\<not> down c" and cb: "writeCallback (chan c)" and w: "write_ok net"
    and eager: "\<And>k data. data \<noteq> [] \<Longrightarrow> 0 < sys_write net k data"
  shows "\<exists>c'. conn_event net ucode POLLOUT c = Inr c' \<and> conn_inv c' \<and> state c' = state c \<and> \<not> down c' \<and>
    writeCallback (chan c') \<and> accepted c' = accepted c \<and>
    length (readable (outputBuffer c')) \<le> length (readable (outputBuffer c)) - 1"
proof -
  let ?ch = "set_revents POLLOUT (chan c)"
  let ?s = "c\<lparr>chan := ?ch\<lparr>eventHanding := True\<rparr>\<rparr>"
  have inv: "conn_inv ?s" using assms(1) by (simp add: conn_inv_def)
  from handleWrite_ok [OF inv w] obtain s' where s': "handleWrite net True ?s = Inr s'" "conn_inv s'" "progress ?s s'"
      "accepted s' = accepted c" "state s' = state c" "\<not> isWriting (chan ?s) \<longrightarrow> s' = ?s"
      "isWriting (chan ?s) \<longrightarrow> readable (outputBuffer s')
        = drop (nat (sys_write net (syscalls ?s) (readable (outputBuffer ?s)))) (readable (outputBuffer ?s))"
      "writeCallback (chan s') = writeCallback (chan ?s)" by auto
  have "length (readable (outputBuffer s')) \<le> length (readable (outputBuffer c)) - 1"
  proof (cases "isWriting (chan c)")
    case True
    then have "readable (outputBuffer c) \<noteq> []" using assms(1) by (simp add: conn_inv_def)
    then have "0 < sys_write net (syscalls c) (readable (outputBuffer c))" by (rule eager)
    then show ?thesis using s'(7) True by simp
  next
    case False
    then have "readable (outputBuffer c) = []" using assms(1,3) by (auto simp: conn_inv_def)
    then show ?thesis using s'(6) False by simp
  qed
  moreover have "\<not> down s'" using s'(3) assms(3) by (simp add: progress_def)
  moreover have "writeCallback (chan s')" using s'(8) cb by (simp add: set_revents_def)
  ultimately show ?thesis using s'(1,2,4,5) event_calls_POLLOUT [OF cb]
    by (simp add: conn_event_def handleEvent_def conn_inv_def)
qed

lemma flush_events:
  assumes w: "write_ok net" and eager: "\<And>k data. data \<noteq> [] \<Longrightarrow> 0 < sys_write net k data"
  shows "conn_inv c \<Longrightarrow> up (state c) \<Longrightarrow> \<not> down c \<Longrightarrow> writeCallback (chan c) \<Longrightarrow>
    length (readable (outputBuffer c)) \<le> n \<Longrightarrow>
    \<exists>c'. handle_events net ucode (replicate n POLLOUT) c = Inr c' \<and> wire c' = accepted c"
proof (induction n arbitrary: c)
  case 0
  then show ?case by (simp add: conn_inv_def)
next
  case (Suc n)
  from flush_event [OF Suc.prems(1-4) w eager, of ucode] obtain c1 where
    c1: "conn_event net ucode POLLOUT c = Inr c1" "conn_inv c1" "state c1 = state c" "\<not> down c1"
      "writeCallback (chan c1)" "accepted c1 = accepted c"
      "length (readable (outputBuffer c1)) \<le> length (readable (outputBuffer c)) - 1" by blast
  have "length (readable (outputBuffer c1)) \<le> n" "up (state c1)" using c1(3,7) Suc.prems(2,5) by auto
  from Suc.IH [OF c1(2) this(2) c1(4,5) this(1)] c1(1,6) Suc.prems(2,3) show ?case
    by (simp add: reported_def)
qed

subsection \<open>Sending\<close>

definition sending :: "tcp_connection \<Rightarrow> bool" where
  "sending c \<longleftrightarrow> conn_inv c \<and> state c = kConnected \<and> \<not> down c \<and> \<not> fin c \<and> writeCallback (chan c)"

lemma send_sending:
  assumes "sending c" and w: "write_ok net"
  shows "\<exists>c'. send net True m c = Inr c' \<and> sending c' \<and> accepted c' = accepted c @ m"
proof -
  have inv: "conn_inv c" and st: "state c = kConnected" using assms(1) by (simp_all add: sending_def)
  from sendInLoop_ok [OF inv w, of m] obtain c1 where
    c1: "sendInLoop net True m c = Inr c1" "conn_inv c1" "same_phase c c1" "accepted c1 = accepted c @ m" by blast
  have "sending c1" using assms(1) c1(2,3) callbacks.sendInLoop_related [OF c1(1)]
    by (simp add: sending_def same_phase_def)
  with c1(1,4) st show ?thesis by (simp add: send_def)
qed

lemma send_all:
  assumes "sending c" and w: "write_ok net"
  shows "\<exists>c'. for_each (user_step net) (map Send ms) c = Inr c' \<and> sending c' \<and> accepted c' = accepted c @ concat ms"
  using assms(1)
proof (induction ms arbitrary: c)
  case (Cons m ms)
  from send_sending [OF Cons.prems w, of m] obtain c1 where
    c1: "send net True m c = Inr c1" "sending c1" "accepted c1 = accepted c @ m" by blast
  from Cons.IH [OF c1(2)] c1(1,3) show ?case by auto
qed simp

end
