(* ===== verification/MessageStream.thy ===== *)
theory MessageStream
  imports QueryPrograms ConnectionView
begin

section \<open>From one program to another\<close>

text \<open>
  The codec and the connection of a sender, the stream in between and the codec of a receiver put
  together.
\<close>

text \<open>\<open>ProtobufCodec::send\<close>: the frame of a message is given to a connection of the current loop.\<close>

definition send_message :: "host_order \<Rightarrow> ('d, 'm) protobuf \<Rightarrow> net \<Rightarrow> 'm \<Rightarrow> tcp_connection \<Rightarrow> tcp_connection result" where
  "send_message h pb net m c = and_then (send_bytes h pb m) (\<lambda>bytes. send net True bytes c)"

lemma send_messages:
  assumes "sending c" and w: "write_ok net" and "\<forall>m \<in> set ms. encodable pb m"
  shows "\<exists>c'. for_each (send_message h pb net) ms c = Inr c' \<and> sending c' \<and>
    accepted c' = accepted c @ concat (map (frame pb) ms)"
  using assms(1,3)
proof (induction ms arbitrary: c)
  case (Cons m ms)
  from send_sending [OF Cons.prems(1) w, of "frame pb m"] obtain c1 where
    c1: "send net True (frame pb m) c = Inr c1" "sending c1" "accepted c1 = accepted c @ frame pb m" by blast
  from Cons.IH [OF c1(2)] Cons.prems(2) c1 show ?case
    by (auto simp: send_message_def send_bytes_frame)
qed simp

text \<open>C2: Messages arrive, from end to end: a program that gives messages to the codec on a connection and
  then shuts the connection down gets all of them through a kernel that takes at least a byte of every
  write: after as many writability events as bytes were left the stream is complete, and a program on
  the other side, on any host, that reads the stream in chunks of any sizes is called with exactly
  these messages, in order, without an error and with no byte left over.\<close>

theorem messages_arrive:
  assumes "conn_inv c" and "state c = kConnected" and "\<not> down c" and "\<not> fin c" and "writeCallback (chan c)"
    and "accepted c = []" and "write_ok net" and "\<And>k data. data \<noteq> [] \<Longrightarrow> 0 < sys_write net k data"
    and "\<forall>m \<in> set ms. encodable pb m \<and> decodable pb m" and "ms \<noteq> []"
  shows "\<exists>c1 c2 c3. for_each (send_message h pb net) ms c = Inr c1 \<and> shutdown True c1 = Inr c2 \<and>
    handle_events net ucode (replicate (length (readable (outputBuffer c1))) POLLOUT) c2 = Inr c3 \<and> fin c3 \<and>
    (\<forall>chunks. concat chunks = wire c3 \<longrightarrow>
       (\<exists>b. feed h' pb chunks new_buffer = Inr (map codec_event.MessageCallback ms, b) \<and> readable b = []))"
proof -
  let ?bytes = "concat (map (frame pb) ms)"
  have "sending c" "\<forall>m \<in> set ms. encodable pb m" using assms by (simp_all add: sending_def)
  from send_messages [OF this(1) assms(7) this(2), of h] assms(6) obtain c1 where
    c1: "for_each (send_message h pb net) ms c = Inr c1" "sending c1" "accepted c1 = ?bytes" by auto
  then have "conn_inv c1" "state c1 = kConnected" "\<not> down c1" "\<not> fin c1" and cb: "writeCallback (chan c1)"
    by (simp_all add: sending_def)
  from shutdown_draining [OF this(1-4)] c1(3) obtain c2 where
    c2: "shutdown True c1 = Inr c2" "draining ?bytes c2" "outputBuffer c2 = outputBuffer c1" "chan c2 = chan c1"
      "\<not> down c2" by auto
  from write_events [OF assms(7,8) c2(2,5), of "length (readable (outputBuffer c1))" ucode] c2(3,4) cb obtain c3 where
    c3: "handle_events net ucode (replicate (length (readable (outputBuffer c1))) POLLOUT) c2 = Inr c3"
      "draining ?bytes c3" "\<not> down c3" "readable (outputBuffer c3) = []" by auto
  then have fin: "fin c3" "wire c3 = ?bytes" by (auto simp: draining_def conn_inv_def)
  have dec: "\<forall>m \<in> set ms. decodable pb m" and hd: "decodable pb (hd ms)" using assms(9,10) by simp_all
  have len: "0 < length (frame pb m)" for m by (simp add: frame_def)
  have "\<exists>b. feed h' pb chunks new_buffer = Inr (map codec_event.MessageCallback ms, b) \<and> readable b = []"
    if "concat chunks = wire c3" for chunks
    using feed_frames [OF wf_new_buffer dec hd, of chunks 0 h'] that fin(2) len by auto
  with c1(1) c2(1) c3(1) fin(1) show ?thesis by blast
qed

theorem messages_arrive_witness:
  "\<exists>c1 c2 c3. for_each (send_message LittleEndian toy_pb slow_net) [[65], [66, 67]] idle_connection = Inr c1 \<and>
    shutdown True c1 = Inr c2 \<and>
    handle_events slow_net greet (replicate (length (readable (outputBuffer c1))) POLLOUT) c2 = Inr c3 \<and> fin c3"
proof -
  have "writeCallback (chan idle_connection)" "\<not> fin idle_connection" "accepted idle_connection = []"
    by (simp_all add: idle_connection_def new_connection_def)
  moreover have "0 < sys_write slow_net k data" if "data \<noteq> []" for k data using that by (simp add: slow_net_def)
  moreover have "\<forall>m \<in> set [[65], [66, 67]]. encodable toy_pb m \<and> decodable toy_pb m"
    by (simp add: toy_encodable toy_decodable)
  moreover have "[[65], [66, 67]] \<noteq> ([] :: byte list list)" by simp
  ultimately show ?thesis
    using messages_arrive [where pb = toy_pb and ms = "[[65], [66, 67]]" and h = LittleEndian and ucode = greet,
        OF idle_connection_ok(1,2,4) _ _ _ write_ok_slow_net] by blast
qed

end
