(* ===== verification/Connector.thy ===== *)
theory Connector
  imports Sockets
begin

section \<open>Connecting with retries: Connector.h and Connector.cc\<close>

text \<open>
  A \<open>Connector\<close> makes non-blocking attempts to connect, one at a time, with delays that double. The
  fields up to \<open>retryDelayMs\<close> are those of the class; \<open>retryTimers\<close> are the delays of the timers
  that will call \<open>startInLoop\<close>, \<open>resets\<close> counts the queued calls of \<open>resetChannel\<close>, \<open>openFds\<close> are the
  sockets the connector owns and \<open>handedOver\<close> those it gave to the new-connection callback. Closing a
  descriptor that is not open fails, which \<open>sockets::close\<close> treats as fatal.

  The result of a system call is an argument: a pair of a new socket and the error of \<open>connect\<close>, the
  pending socket error, and whether the socket is connected to itself. \<open>EventLoop::cancel\<close> has no
  effect, since the identity \<open>runAfter\<close> returns cancels nothing (see \<open>TimerQueue\<close>).
\<close>

datatype states = kDisconnected | kConnecting | kConnected

record connector =
  wanted :: bool
  state :: states
  chan :: "channel option"
  retryDelayMs :: int
  retryTimers :: "int list"
  resets :: nat
  openFds :: "int list"
  handedOver :: "int list"

definition kMaxRetryDelayMs :: int where "kMaxRetryDelayMs = 30 * 1000"

definition kInitRetryDelayMs :: int where "kInitRetryDelayMs = 500"

definition new_connector :: connector where
  "new_connector = \<lparr>wanted = False, state = kDisconnected, chan = None, retryDelayMs = kInitRetryDelayMs,
     retryTimers = [], resets = 0, openFds = [], handedOver = []\<rparr>"

definition destroy_connector :: "connector \<Rightarrow> unit result" where
  "destroy_connector c = require (chan c = None) (AssertionFailed ''!channel_'') (Inr ())"

definition open_fd :: "int \<Rightarrow> connector \<Rightarrow> connector" where
  "open_fd sockfd c = c\<lparr>openFds := sockfd # openFds c\<rparr>"

definition close_fd :: "int \<Rightarrow> connector \<Rightarrow> connector result" where
  "close_fd sockfd c = require (sockfd \<in> set (openFds c)) (Fatal ''sockets::listenOrDie'')
     (Inr (c\<lparr>openFds := remove1 sockfd (openFds c)\<rparr>))"

definition retry :: "int \<Rightarrow> connector \<Rightarrow> connector result" where
  "retry sockfd c = and_then (close_fd sockfd c) (\<lambda>c1.
     let c2 = c1\<lparr>state := kDisconnected\<rparr> in
     Inr (if wanted c2 then
            c2\<lparr>retryTimers := retryTimers c2 @ [retryDelayMs c2],
               retryDelayMs := min (retryDelayMs c2 * 2) kMaxRetryDelayMs\<rparr>
          else c2))"

definition connecting :: "int \<Rightarrow> connector \<Rightarrow> connector result" where
  "connecting sockfd c =
     (let c1 = c\<lparr>state := kConnecting\<rparr> in
      require (chan c1 = None) (AssertionFailed ''!channel_'')
        (Inr (c1\<lparr>chan := Some (enableWriting ((new_channel 0 sockfd)\<lparr>writeCallback := True, errorCallback := True\<rparr>))\<rparr>)))"

text \<open>\<open>connect\<close> with the socket it creates and the error of the call, 0 for none.\<close>

definition connect :: "int \<times> int \<Rightarrow> connector \<Rightarrow> connector result" where
  "connect sys c =
     (let (fd0, saveError) = sys in
      and_then (createNonblockingOrDie fd0) (\<lambda>sockfd.
        let c1 = open_fd sockfd c in
        if saveError \<in> {0, EINPROGRESS, EINTR, EISCONN} then connecting sockfd c1
        else if saveError \<in> {EAGAIN, EADDRINUSE, EADDRNOTAVAIL, ECONNREFUSED, ENETUNREACH} then retry sockfd c1
        else close_fd sockfd c1))"

definition startInLoop :: "bool \<Rightarrow> int \<times> int \<Rightarrow> connector \<Rightarrow> connector result" where
  "startInLoop in_loop sys c =
     require in_loop (Fatal ''EventLoop::abortNotInLoopThread'')
    (require (state c = kDisconnected) (AssertionFailed ''state_ == kDisconnected'')
      (if wanted c then connect sys c else Inr c))"

definition start :: "int \<times> int \<Rightarrow> connector \<Rightarrow> connector result" where
  "start sys c = startInLoop True sys (c\<lparr>wanted := True\<rparr>)"

definition restart :: "bool \<Rightarrow> int \<times> int \<Rightarrow> connector \<Rightarrow> connector result" where
  "restart in_loop sys c =
     require in_loop (Fatal ''EventLoop::abortNotInLoopThread'')
       (startInLoop in_loop sys (c\<lparr>state := kDisconnected, retryDelayMs := kInitRetryDelayMs, wanted := True\<rparr>))"

definition stop :: "connector \<Rightarrow> connector" where
  "stop c = c\<lparr>wanted := False\<rparr>"

definition removeAndResetChannel :: "connector \<Rightarrow> (int \<times> connector) result" where
  "removeAndResetChannel c =
     (case chan c of
        None \<Rightarrow> Inl (NullDereference ''channel_'')
      | Some ch \<Rightarrow> Inr (fd ch, c\<lparr>chan := Some (disableAll ch), resets := Suc (resets c)\<rparr>))"

definition resetChannel :: "connector \<Rightarrow> connector" where
  "resetChannel c = c\<lparr>chan := None\<rparr>"

definition handleWrite :: "int \<Rightarrow> bool \<Rightarrow> connector \<Rightarrow> connector result" where
  "handleWrite err self c =
     (if state c = kConnecting then
        and_then (removeAndResetChannel c) (\<lambda>(sockfd, c1).
          if err \<noteq> 0 then retry sockfd c1
          else if self then retry sockfd c1
          else
            (let c2 = c1\<lparr>state := kConnected\<rparr> in
             if wanted c2 then Inr (c2\<lparr>openFds := remove1 sockfd (openFds c2), handedOver := handedOver c2 @ [sockfd]\<rparr>)
             else close_fd sockfd c2))
      else require (state c = kDisconnected) (AssertionFailed ''state_ == kDisconnected'') (Inr c))"

text \<open>The assertion of \<open>handleError\<close> assigns the state, so it never fails.\<close>

definition handleError :: "connector \<Rightarrow> connector result" where
  "handleError c =
     (let c1 = c\<lparr>state := kConnecting\<rparr> in
      and_then (removeAndResetChannel c1) (\<lambda>(sockfd, c2). retry sockfd c2))"

definition socket_event :: "event_mask \<Rightarrow> int \<Rightarrow> bool \<Rightarrow> connector \<Rightarrow> connector result" where
  "socket_event revt err self c =
     (case chan c of
        None \<Rightarrow> Inr c
      | Some ch \<Rightarrow> for_each (\<lambda>e s. case e of ErrorCall \<Rightarrow> handleError s | WriteCall \<Rightarrow> handleWrite err self s | _ \<Rightarrow> Inr s)
          (event_calls (set_revents revt ch)) c)"

subsection \<open>What the loop does to a connector\<close>

datatype event =
    Start int int
  | Restart int int
  | Stop
  | TimerFires int int
  | SocketReady event_mask int bool
  | ResetRuns

fun step :: "event \<Rightarrow> connector \<Rightarrow> connector result" where
  "step (Start sockfd err) c = start (sockfd, err) c"
| "step (Restart sockfd err) c = restart True (sockfd, err) c"
| "step Stop c = Inr (stop c)"
| "step (TimerFires sockfd err) c = startInLoop True (sockfd, err) (c\<lparr>retryTimers := tl (retryTimers c)\<rparr>)"
| "step (SocketReady revt err self) c = socket_event revt err self c"
| "step ResetRuns c = Inr (resetChannel (c\<lparr>resets := resets c - 1\<rparr>))"

text \<open>
  When an event can come, as far as the loop and the kernel go: a timer fires when it is pending, no
  sooner than the functors queued before it have run; the poller reports only a registered channel; a
  queued functor runs; and a socket can be created. The members \<open>start\<close>, \<open>restart\<close> and \<open>stop\<close> can be
  called at any time.
\<close>

fun enabled :: "connector \<Rightarrow> event \<Rightarrow> bool" where
  "enabled c (Start sockfd err) \<longleftrightarrow> 0 \<le> sockfd"
| "enabled c (Restart sockfd err) \<longleftrightarrow> 0 \<le> sockfd"
| "enabled c Stop \<longleftrightarrow> True"
| "enabled c (TimerFires sockfd err) \<longleftrightarrow>
     retryTimers c \<noteq> [] \<and> resets c = 0 \<and> 0 \<le> sockfd"
| "enabled c (SocketReady revt err self) \<longleftrightarrow> state c = kConnecting"
| "enabled c ResetRuns \<longleftrightarrow> 0 < resets c"

text \<open>
  What callers must keep to, since the class does not check it: \<open>start\<close> is called only on an idle
  connector, with no retry timer and no reset pending, and \<open>restart\<close> only once a connection was made. The
  theorems that rely on it say so; \<open>restart_after_stop_aborts\<close> shows what a \<open>start\<close> after a \<open>stop\<close> can do.
\<close>

fun careful :: "connector \<Rightarrow> event \<Rightarrow> bool" where
  "careful c (Start sockfd err) \<longleftrightarrow> state c = kDisconnected \<and> retryTimers c = [] \<and> resets c = 0"
| "careful c (Restart sockfd err) \<longleftrightarrow> state c = kConnected \<and> resets c = 0"
| "careful c e \<longleftrightarrow> True"

inductive reaches :: "(connector \<Rightarrow> event \<Rightarrow> bool) \<Rightarrow> connector \<Rightarrow> connector \<Rightarrow> bool" for callers where
  reaches_refl: "reaches callers c c"
| reaches_step: "reaches callers c c1 \<Longrightarrow> enabled c1 e \<Longrightarrow> callers c1 e \<Longrightarrow> step e c1 = Inr c2 \<Longrightarrow>
    reaches callers c c2"

definition connector_inv :: "connector \<Rightarrow> bool" where
  "connector_inv c \<longleftrightarrow>
     (case state c of
        kConnecting \<Rightarrow> resets c = 0 \<and> retryTimers c = [] \<and>
          (\<exists>ch. chan c = Some ch \<and> openFds c = [fd ch] \<and> writeCallback ch \<and> errorCallback ch)
      | kDisconnected \<Rightarrow> openFds c = [] \<and> length (retryTimers c) \<le> 1
      | kConnected \<Rightarrow> openFds c = [] \<and> retryTimers c = []) \<and>
     (state c \<noteq> kConnecting \<longrightarrow> resets c = (case chan c of None \<Rightarrow> 0 | Some _ \<Rightarrow> 1)) \<and>
     kInitRetryDelayMs \<le> retryDelayMs c \<and> retryDelayMs c \<le> kMaxRetryDelayMs"


lemma connector_inv_wanted [simp]: "connector_inv (c\<lparr>wanted := b\<rparr>) = connector_inv c"
  by (simp add: connector_inv_def cong: states.case_cong)

lemma connector_inv_new: "connector_inv new_connector"
  by (simp add: connector_inv_def new_connector_def kInitRetryDelayMs_def kMaxRetryDelayMs_def)

text \<open>An attempt made in the idle state.\<close>

lemma retry_ok:
  assumes "openFds c = [sockfd]" and "retryTimers c = []"
    and "kInitRetryDelayMs \<le> retryDelayMs c" "retryDelayMs c \<le> kMaxRetryDelayMs"
    and "resets c = (case chan c of None \<Rightarrow> 0 | Some _ \<Rightarrow> 1)"
  shows "\<exists>c'. retry sockfd c = Inr c' \<and> connector_inv c' \<and> state c' = kDisconnected \<and> handedOver c' = handedOver c \<and>
    wanted c' = wanted c"
  using assms by (simp add: retry_def close_fd_def connector_inv_def kInitRetryDelayMs_def kMaxRetryDelayMs_def Let_def)

lemma connect_ok:
  assumes "connector_inv c" and "state c = kDisconnected" and "chan c = None" and "retryTimers c = []" and "0 \<le> sockfd"
  shows "\<exists>c'. connect (sockfd, err) c = Inr c' \<and> connector_inv c'"
proof -
  have o: "openFds c = []" "resets c = 0" and d: "kInitRetryDelayMs \<le> retryDelayMs c" "retryDelayMs c \<le> kMaxRetryDelayMs"
    using assms(1-3) by (simp_all add: connector_inv_def)
  consider "err \<in> {0, EINPROGRESS, EINTR, EISCONN}"
    | "err \<notin> {0, EINPROGRESS, EINTR, EISCONN}" "err \<in> {EAGAIN, EADDRINUSE, EADDRNOTAVAIL, ECONNREFUSED, ENETUNREACH}"
    | "err \<notin> {0, EINPROGRESS, EINTR, EISCONN}" "err \<notin> {EAGAIN, EADDRINUSE, EADDRNOTAVAIL, ECONNREFUSED, ENETUNREACH}"
    by blast
  then show ?thesis
  proof cases
    case 1
    then have "connect (sockfd, err) c = connecting sockfd (open_fd sockfd c)"
      using assms(5) by (simp only: connect_def createNonblockingOrDie_def prod.case Let_def require_True and_then.simps if_True)
    then show ?thesis using assms(3,4) o d
      by (simp add: connecting_def connector_inv_def open_fd_def enableWriting_def new_channel_def)
  next
    case 2
    then have "connect (sockfd, err) c = retry sockfd (open_fd sockfd c)"
      using assms(5) by (simp only: connect_def createNonblockingOrDie_def prod.case Let_def require_True and_then.simps if_True if_False)
    then show ?thesis using retry_ok [of "open_fd sockfd c" sockfd] assms(3,4) o d by (auto simp: open_fd_def)
  next
    case 3
    then have "connect (sockfd, err) c = close_fd sockfd (open_fd sockfd c)"
      using assms(5) by (simp only: connect_def createNonblockingOrDie_def prod.case Let_def require_True and_then.simps if_False)
    then show ?thesis using assms(1-4) by (simp add: close_fd_def open_fd_def connector_inv_def)
  qed
qed

lemma startInLoop_ok:
  assumes "connector_inv c" and "state c = kDisconnected" and "resets c = 0" and "retryTimers c = []" and "0 \<le> sockfd"
  shows "\<exists>c'. startInLoop True (sockfd, err) c = Inr c' \<and> connector_inv c'"
proof -
  have "chan c = None" using assms(1-3) by (auto simp: connector_inv_def split: option.splits)
  from connect_ok [OF assms(1,2) this assms(4,5)] assms(1,2) show ?thesis by (simp add: startInLoop_def)
qed

lemma handleError_ok:
  assumes "connector_inv c" and "state c = kConnecting"
  shows "\<exists>c'. handleError c = Inr c' \<and> connector_inv c' \<and> state c' = kDisconnected"
proof -
  obtain ch where ch: "chan c = Some ch" "openFds c = [fd ch]" "resets c = 0" "retryTimers c = []"
    using assms by (auto simp: connector_inv_def)
  let ?c = "c\<lparr>state := kConnecting, chan := Some (disableAll ch), resets := 1\<rparr>"
  have "\<exists>c'. retry (fd ch) ?c = Inr c' \<and> connector_inv c' \<and> state c' = kDisconnected \<and> handedOver c' = handedOver ?c \<and>
      wanted c' = wanted ?c"
    by (rule retry_ok) (use assms(1) ch in \<open>simp_all add: connector_inv_def\<close>)
  then show ?thesis using ch by (auto simp: handleError_def removeAndResetChannel_def Let_def)
qed

lemma connector_handleWrite_ok:
  assumes "connector_inv c" and "state c = kConnecting \<or> state c = kDisconnected"
  shows "\<exists>c'. handleWrite err self c = Inr c' \<and> connector_inv c'"
proof (cases "state c = kConnecting")
  case False
  then show ?thesis using assms by (simp add: handleWrite_def)
next
  case True
  obtain ch where ch: "chan c = Some ch" "openFds c = [fd ch]" "resets c = 0" "retryTimers c = []"
    using assms(1) True by (auto simp: connector_inv_def)
  let ?c = "c\<lparr>chan := Some (disableAll ch), resets := 1\<rparr>"
  have rm: "removeAndResetChannel c = Inr (fd ch, ?c)" using ch by (simp add: removeAndResetChannel_def)
  show ?thesis
  proof (cases "err \<noteq> 0 \<or> self")
    case retrying: True
    have "\<exists>c'. retry (fd ch) ?c = Inr c' \<and> connector_inv c' \<and> state c' = kDisconnected \<and> handedOver c' = handedOver ?c \<and>
        wanted c' = wanted ?c"
      by (rule retry_ok) (use assms(1) ch in \<open>simp_all add: connector_inv_def\<close>)
    then show ?thesis using True retrying rm by (auto simp: handleWrite_def Let_def)
  next
    case False
    then show ?thesis using True rm ch assms(1)
      by (simp add: handleWrite_def close_fd_def connector_inv_def Let_def)
  qed
qed

lemma connector_event_calls:
  "set (event_calls ch) \<subseteq> {ErrorCall, CloseCall, ReadCall, WriteCall}"
  by (auto simp: event_calls_def)


lemma socket_event_ok:
  assumes "connector_inv c" and "state c = kConnecting"
  shows "\<exists>c'. socket_event revt err self c = Inr c' \<and> connector_inv c'"
proof -
  obtain ch where ch: "chan c = Some ch" using assms by (auto simp: connector_inv_def)
  let ?h = "\<lambda>e s. case e of ErrorCall \<Rightarrow> handleError s | WriteCall \<Rightarrow> handleWrite err self s | _ \<Rightarrow> Inr s"
  let ?ch = "set_revents revt ch"
  define ec where "ec = (if revents ?ch AND (POLLERR OR POLLNVAL) \<noteq> 0 \<and> errorCallback ?ch then [ErrorCall] else [])"
  define rest where "rest = (if revents ?ch AND POLLHUP \<noteq> 0 \<and> revents ?ch AND POLLIN = 0 \<and> closeCallback ?ch then [CloseCall] else []) @
      (if revents ?ch AND (POLLIN OR POLLPRI OR POLLRDHUP) \<noteq> 0 \<and> readCallback ?ch then [ReadCall] else []) @
      (if revents ?ch AND POLLOUT \<noteq> 0 \<and> writeCallback ?ch then [WriteCall] else [])"
  have calls: "event_calls ?ch = ec @ rest" by (simp add: event_calls_def ec_def rest_def)
  obtain c1 where c1: "for_each ?h ec c = Inr c1" "connector_inv c1" "state c1 = kConnecting \<or> state c1 = kDisconnected"
  proof (cases "ec = []")
    case True
    then show ?thesis using that [of c] assms by simp
  next
    case False
    then have "ec = [ErrorCall]" by (auto simp: ec_def split: if_splits)
    with handleError_ok [OF assms] that show ?thesis by auto
  qed
  have "\<exists>c'. for_each ?h rest c1 = Inr c' \<and> connector_inv c'"
  proof (cases "revents ?ch AND POLLOUT \<noteq> 0 \<and> writeCallback ?ch")
    case True
    with connector_handleWrite_ok [OF c1(2,3), of err self] show ?thesis by (auto simp: rest_def)
  next
    case False
    then have "rest = (if revents ?ch AND POLLHUP \<noteq> 0 \<and> revents ?ch AND POLLIN = 0 \<and> closeCallback ?ch then [CloseCall] else []) @
      (if revents ?ch AND (POLLIN OR POLLPRI OR POLLRDHUP) \<noteq> 0 \<and> readCallback ?ch then [ReadCall] else [])"
      unfolding rest_def by simp
    then show ?thesis using c1(2) by simp
  qed
  then show ?thesis using ch c1(1) calls by (simp add: socket_event_def for_each_append)
qed

lemma step_ok:
  assumes inv: "connector_inv c" and en: "enabled c e" "careful c e"
  shows "\<exists>c'. step e c = Inr c' \<and> connector_inv c'"
proof (cases e)
  case (Start sockfd err)
  let ?c = "c\<lparr>wanted := True\<rparr>"
  have "connector_inv ?c" using inv by simp
  from startInLoop_ok [OF this, of sockfd err] en Start show ?thesis by (simp add: start_def)
next
  case (Restart sockfd err)
  let ?c = "c\<lparr>state := kDisconnected, retryDelayMs := kInitRetryDelayMs, wanted := True\<rparr>"
  have "connector_inv ?c" "retryTimers c = []"
    using inv en Restart by (simp_all add: connector_inv_def kInitRetryDelayMs_def kMaxRetryDelayMs_def)
  with startInLoop_ok [of ?c sockfd err] en Restart show ?thesis by (simp add: restart_def)
next
  case Stop
  then show ?thesis using inv by (simp add: stop_def)
next
  case (TimerFires sockfd err)
  let ?c = "c\<lparr>retryTimers := tl (retryTimers c)\<rparr>"
  have st: "state c = kDisconnected" "length (retryTimers c) \<le> 1"
    using inv en TimerFires by (auto simp: connector_inv_def split: states.splits)
  then have "connector_inv ?c" "retryTimers ?c = []" using inv by (auto simp: connector_inv_def) (cases "retryTimers c"; simp)+
  with startInLoop_ok [of ?c sockfd err] en TimerFires st show ?thesis by simp
next
  case (SocketReady revt err self)
  with socket_event_ok [OF inv] en show ?thesis by simp
next
  case ResetRuns
  then have "state c \<noteq> kConnecting" "resets c = 1" using inv en
    by (auto simp: connector_inv_def split: states.splits option.splits)
  then show ?thesis using ResetRuns inv by (cases "state c") (simp_all add: resetChannel_def connector_inv_def)
qed

lemma reaches_inv: "reaches careful c c' \<Longrightarrow> connector_inv c \<Longrightarrow> connector_inv c'"
proof (induction rule: reaches.induct)
  case (reaches_step c c1 e c2)
  then show ?case using step_ok [of c1 e] by auto
qed

text \<open>Failed attempts in a row: the delay of the next retry.\<close>

fun backoff :: "nat \<Rightarrow> connector \<Rightarrow> connector result" where
  "backoff 0 c = Inr c"
| "backoff (Suc n) c = and_then (startInLoop True (7, ECONNREFUSED) c)
     (\<lambda>c'. backoff n (c'\<lparr>retryTimers := tl (retryTimers c')\<rparr>))"

lemma refused:
  assumes "state c = kDisconnected" "wanted c" "retryTimers c = []"
  shows "startInLoop True (7, ECONNREFUSED) c = Inr (c\<lparr>retryTimers := [retryDelayMs c],
    retryDelayMs := min (retryDelayMs c * 2) kMaxRetryDelayMs\<rparr>)"
  using assms by (simp add: startInLoop_def connect_def createNonblockingOrDie_def errno_defs retry_def
      close_fd_def open_fd_def Let_def)

lemma backoff_delay:
  "state c = kDisconnected \<Longrightarrow> wanted c \<Longrightarrow> retryTimers c = [] \<Longrightarrow>
    retryDelayMs c = min (kInitRetryDelayMs * 2 ^ m) kMaxRetryDelayMs \<Longrightarrow>
    \<exists>c'. backoff n c = Inr c' \<and> retryDelayMs c' = min (kInitRetryDelayMs * 2 ^ (m + n)) kMaxRetryDelayMs"
proof (induction n arbitrary: c m)
  case (Suc n)
  let ?c = "c\<lparr>retryDelayMs := min (retryDelayMs c * 2) kMaxRetryDelayMs, retryTimers := []\<rparr>"
  have "retryDelayMs ?c = min (kInitRetryDelayMs * 2 ^ Suc m) kMaxRetryDelayMs"
    using Suc.prems(4) by (simp add: kInitRetryDelayMs_def kMaxRetryDelayMs_def)
  from Suc.IH [OF _ _ _ this] Suc.prems show ?case by (simp add: refused)
qed simp


subsection \<open>Properties\<close>



text \<open>Retries back off: after \<open>n\<close> refused attempts in a row from a fresh start the next delay is
  \<open>500 * 2 ^ n\<close> milliseconds, but never more than 30 seconds.\<close>

theorem retry_delay_doubles:
  assumes "state c = kDisconnected" and "wanted c" and "retryTimers c = []" and "retryDelayMs c = kInitRetryDelayMs"
  shows "\<exists>c'. backoff n c = Inr c' \<and> retryDelayMs c' = min (500 * 2 ^ n) 30000"
proof -
  have "retryDelayMs c = min (kInitRetryDelayMs * 2 ^ 0) kMaxRetryDelayMs"
    using assms(4) by (simp add: kInitRetryDelayMs_def kMaxRetryDelayMs_def)
  from backoff_delay [OF assms(1-3) this, of n] show ?thesis
    by (simp add: kInitRetryDelayMs_def kMaxRetryDelayMs_def)
qed

theorem retry_delay_doubles_witness:
  "\<exists>c'. backoff 3 (new_connector\<lparr>wanted := True\<rparr>) = Inr c' \<and> retryDelayMs c' = 4000"
  using retry_delay_doubles [of "new_connector\<lparr>wanted := True\<rparr>" 3] by (simp add: new_connector_def)

text \<open>C32: \<open>stop\<close> leaves the retry timer pending, so \<open>stop\<close> and \<open>start\<close> again with a connection in progress
  abort the program: when the old timer fires, \<open>startInLoop\<close> finds the state not \<open>kDisconnected\<close>.\<close>

theorem restart_after_stop_aborts:
  assumes "connector_inv c" and "state c = kDisconnected" and "chan c = None" and "retryTimers c \<noteq> []" and "0 \<le> sockfd"
  shows "\<exists>c1. start (sockfd, EINPROGRESS) (stop c) = Inr c1 \<and> retryTimers c1 = retryTimers c \<and>
    step (TimerFires sockfd2 err) c1 = Inl (AssertionFailed ''state_ == kDisconnected'')"
  using assms
  by (simp add: start_def stop_def startInLoop_def connect_def createNonblockingOrDie_def errno_defs
      connecting_def open_fd_def Let_def)

theorem restart_after_stop_aborts_witness:
  "\<exists>c c1. step (Start 7 ECONNREFUSED) new_connector = Inr c \<and> start (8, EINPROGRESS) (stop c) = Inr c1 \<and>
     step (TimerFires 9 0) c1 = Inl (AssertionFailed ''state_ == kDisconnected'')"
proof -
  let ?c = "new_connector\<lparr>wanted := True, retryTimers := [500], retryDelayMs := 1000\<rparr>"
  have s: "step (Start 7 ECONNREFUSED) new_connector = Inr ?c"
    using refused [of "new_connector\<lparr>wanted := True\<rparr>"]
    by (simp add: start_def new_connector_def kInitRetryDelayMs_def kMaxRetryDelayMs_def)
  have "connector_inv ?c"
    by (simp add: connector_inv_def new_connector_def kInitRetryDelayMs_def kMaxRetryDelayMs_def)
  from restart_after_stop_aborts [OF this, of 8 9 0] s show ?thesis by (auto simp: new_connector_def)
qed

end
