(* ===== verification/TcpClient.thy ===== *)
theory TcpClient
  imports Connector
begin

section \<open>The client: TcpClient.h and TcpClient.cc\<close>

text \<open>
  A client has one connector and at most one connection, a number here. \<open>toConnection\<close> lists what it
  asks of connections: to be established, shut down or destroyed. The members of the connector are
  those of \<open>Connector\<close>, with the results of the system calls as arguments.
\<close>

datatype conn_request = EstablishConnection nat string int | ShutdownConnection nat | DestroyConnection nat

record tcp_client =
  connector :: connector
  retry_enabled :: bool
  connect_wanted :: bool
  nextConnId :: nat
  connection :: "nat option"
  toConnection :: "conn_request list"

definition new_client :: tcp_client where
  "new_client = \<lparr>connector = new_connector, retry_enabled = False, connect_wanted = False, nextConnId = 1,
     connection = None, toConnection = []\<rparr>"

definition enableRetry :: "tcp_client \<Rightarrow> tcp_client" where
  "enableRetry k = k\<lparr>retry_enabled := True\<rparr>"

definition client_connect :: "int \<times> int \<Rightarrow> tcp_client \<Rightarrow> tcp_client result" where
  "client_connect sys k =
     (let k1 = k\<lparr>connect_wanted := True\<rparr>
      in and_then (start sys (connector k1)) (\<lambda>c. Inr (k1\<lparr>connector := c\<rparr>)))"

definition client_disconnect :: "tcp_client \<Rightarrow> tcp_client" where
  "client_disconnect k =
     (let k1 = k\<lparr>connect_wanted := False\<rparr>
      in case connection k1 of
           None \<Rightarrow> k1
         | Some conn \<Rightarrow> k1\<lparr>toConnection := toConnection k1 @ [ShutdownConnection conn]\<rparr>)"

definition client_stop :: "tcp_client \<Rightarrow> tcp_client" where
  "client_stop k = k\<lparr>connect_wanted := False, connector := stop (connector k)\<rparr>"

definition client_newConnection ::
  "(u32 \<Rightarrow> string option) \<Rightarrow> host_order \<Rightarrow> bool \<Rightarrow> sockaddr_in option \<Rightarrow> int \<Rightarrow> nat \<Rightarrow> tcp_client \<Rightarrow> tcp_client result" where
  "client_newConnection ntop h in_loop peer sockfd conn k =
     require in_loop (Fatal ''EventLoop::abortNotInLoopThread'')
      (let peerAddr = getPeerAddr peer;
           connName = snprintf 32 ('':'' @ InetAddress_toHostPort ntop h peerAddr @ ''#'' @ decimal (nextConnId k))
       in Inr (k\<lparr>nextConnId := nextConnId k + 1, connection := Some conn,
            toConnection := toConnection k @ [EstablishConnection conn connName sockfd]\<rparr>))"

definition client_removeConnection :: "bool \<Rightarrow> int \<times> int \<Rightarrow> nat \<Rightarrow> tcp_client \<Rightarrow> tcp_client result" where
  "client_removeConnection in_loop sys conn k =
     require in_loop (Fatal ''EventLoop::abortNotInLoopThread'')
    (require (connection k = Some conn) (AssertionFailed ''connection_ == conn'')
      (let k1 = k\<lparr>connection := None, toConnection := toConnection k @ [DestroyConnection conn]\<rparr>
       in if retry_enabled k1 \<and> connect_wanted k1
          then and_then (restart True sys (connector k1)) (\<lambda>c. Inr (k1\<lparr>connector := c\<rparr>))
          else Inr k1))"

text \<open>The destructor replaces the close callback of a connection, or else stops the connector.\<close>

definition destroy_client :: "tcp_client \<Rightarrow> tcp_client" where
  "destroy_client k = (case connection k of Some _ \<Rightarrow> k | None \<Rightarrow> k\<lparr>connector := stop (connector k)\<rparr>)"

subsection \<open>A client in its loop\<close>

text \<open>
  The events of a client: those of its connector, where a socket that is ready and without error
  becomes a connection, and the loss of its connection. \<open>conn\<close> is the address of the new object.
\<close>

datatype client_event =
    ConnectorEvent Connector.event nat "sockaddr_in option"
  | ConnectionLost int int
  | Disconnect
  | StopClient

definition handed_fd :: "connector \<Rightarrow> connector \<Rightarrow> int option" where
  "handed_fd c c' = (if length (handedOver c) < length (handedOver c') then Some (last (handedOver c')) else None)"

fun client_step ::
  "(u32 \<Rightarrow> string option) \<Rightarrow> host_order \<Rightarrow> client_event \<Rightarrow> tcp_client \<Rightarrow> tcp_client result" where
  "client_step ntop h (ConnectorEvent e conn peer) k =
     and_then (step e (connector k)) (\<lambda>c.
       let k1 = k\<lparr>connector := c, connect_wanted := (case e of Start _ _ \<Rightarrow> True | _ \<Rightarrow> connect_wanted k)\<rparr>
       in case handed_fd (connector k) c of
            None \<Rightarrow> Inr k1
          | Some sockfd \<Rightarrow> client_newConnection ntop h True peer sockfd conn k1)"
| "client_step ntop h (ConnectionLost sockfd err) k =
     (case connection k of None \<Rightarrow> Inr k | Some conn \<Rightarrow> client_removeConnection True (sockfd, err) conn k)"
| "client_step ntop h Disconnect k = Inr (client_disconnect k)"
| "client_step ntop h StopClient k = Inr (client_stop k)"

text \<open>
  The connector's events come as the loop and the kernel let them; its \<open>Start\<close> is \<open>connect\<close>, and its members
  \<open>restart\<close> and \<open>stop\<close> are called only by the client. A poll comes after the functors queued before it.
  Whoever calls \<open>connect\<close> must keep to what \<open>careful\<close> says of \<open>start\<close>.
\<close>

fun client_enabled :: "tcp_client \<Rightarrow> client_event \<Rightarrow> bool" where
  "client_enabled k (ConnectorEvent e conn peer) \<longleftrightarrow>
     enabled (connector k) e \<and> (case e of Restart _ _ \<Rightarrow> False | Stop \<Rightarrow> False | _ \<Rightarrow> True)"
| "client_enabled k (ConnectionLost sockfd err) \<longleftrightarrow> connection k \<noteq> None \<and> resets (connector k) = 0 \<and> 0 \<le> sockfd"
| "client_enabled k Disconnect \<longleftrightarrow> True"
| "client_enabled k StopClient \<longleftrightarrow> True"

fun client_careful :: "tcp_client \<Rightarrow> client_event \<Rightarrow> bool" where
  "client_careful k (ConnectorEvent e conn peer) \<longleftrightarrow> careful (connector k) e"
| "client_careful k e \<longleftrightarrow> True"

inductive client_reaches ::
  "(tcp_client \<Rightarrow> client_event \<Rightarrow> bool) \<Rightarrow> (u32 \<Rightarrow> string option) \<Rightarrow> host_order \<Rightarrow> tcp_client \<Rightarrow> tcp_client \<Rightarrow> bool"
  for callers ntop h where
  client_refl: "client_reaches callers ntop h k k"
| client_more: "client_reaches callers ntop h k k1 \<Longrightarrow> client_enabled k1 e \<Longrightarrow> callers k1 e \<Longrightarrow>
    client_step ntop h e k1 = Inr k2 \<Longrightarrow> client_reaches callers ntop h k k2"

text \<open>A connection exists only while the connector is in its final state.\<close>

definition client_inv :: "tcp_client \<Rightarrow> bool" where
  "client_inv k \<longleftrightarrow> connector_inv (connector k) \<and>
     (connection k \<noteq> None \<longrightarrow> state (connector k) = kConnected)"


lemma retry_handed: "retry sockfd c = Inr c' \<Longrightarrow> handedOver c' = handedOver c"
  by (auto simp: retry_def close_fd_def and_then_Inr_iff Let_def)

lemma startInLoop_handed: "startInLoop b sys c = Inr c' \<Longrightarrow> handedOver c' = handedOver c"
  by (auto simp: startInLoop_def connect_def connecting_def open_fd_def close_fd_def and_then_Inr_iff Let_def
      createNonblockingOrDie_def dest!: retry_handed split: if_splits prod.splits)

lemma handleError_handed: "handleError c = Inr c' \<Longrightarrow> handedOver c' = handedOver c"
  by (auto simp: handleError_def removeAndResetChannel_def and_then_Inr_iff Let_def
      dest!: retry_handed split: option.splits)

lemma handleWrite_handed:
  "handleWrite err self c = Inr c' \<Longrightarrow> handedOver c' = handedOver c \<or>
    state c' = kConnected \<and> (\<exists>sockfd. handedOver c' = handedOver c @ [sockfd])"
  by (auto simp: handleWrite_def removeAndResetChannel_def close_fd_def and_then_Inr_iff Let_def
      dest!: retry_handed split: option.splits if_splits)

text \<open>\<open>handleWrite\<close> comes last among the handlers of an event.\<close>

lemma socket_event_handed:
  assumes "socket_event revt err self c = Inr c'"
  shows "handedOver c' = handedOver c \<or>
    state c' = kConnected \<and> (\<exists>sockfd. handedOver c' = handedOver c @ [sockfd])"
proof (cases "chan c")
  case (Some ch)
  let ?h = "\<lambda>e s. case e of ErrorCall \<Rightarrow> handleError s | WriteCall \<Rightarrow> handleWrite err self s | _ \<Rightarrow> Inr s"
  let ?ch = "set_revents revt ch"
  obtain pre wc where calls: "event_calls ?ch = pre @ wc" "set pre \<subseteq> {ErrorCall, CloseCall, ReadCall}" "wc = [] \<or> wc = [WriteCall]"
  proof
    show "event_calls ?ch = ((if revents ?ch AND (POLLERR OR POLLNVAL) \<noteq> 0 \<and> errorCallback ?ch then [ErrorCall] else []) @
        (if revents ?ch AND POLLHUP \<noteq> 0 \<and> revents ?ch AND POLLIN = 0 \<and> closeCallback ?ch then [CloseCall] else []) @
        (if revents ?ch AND (POLLIN OR POLLPRI OR POLLRDHUP) \<noteq> 0 \<and> readCallback ?ch then [ReadCall] else [])) @
        (if revents ?ch AND POLLOUT \<noteq> 0 \<and> writeCallback ?ch then [WriteCall] else [])"
      by (simp add: event_calls_def)
  qed auto
  obtain c1 where c1: "for_each ?h pre c = Inr c1" "for_each ?h wc c1 = Inr c'"
    using assms Some calls(1) by (auto simp: socket_event_def for_each_append and_then_Inr_iff)
  have "handedOver c1 = handedOver c"
  proof (rule for_each_preserves [where P = "\<lambda>s. handedOver s = handedOver c", OF _ refl c1(1)])
    show "handedOver s' = handedOver c" if "handedOver s = handedOver c" "x \<in> set pre" "?h x s = Inr s'" for x s s'
      using that calls(2) by (cases x) (auto dest: handleError_handed)
  qed
  then show ?thesis using c1(2) calls(3) handleWrite_handed [of err self c1 c'] by (auto simp: and_then_Inr_iff)
qed (use assms in \<open>simp add: socket_event_def\<close>)

lemma step_handed:
  assumes "step e c = Inr c'"
  shows "handedOver c' = handedOver c \<or>
    state c' = kConnected \<and> (\<exists>sockfd. handedOver c' = handedOver c @ [sockfd])"
proof (cases e)
  case (SocketReady revt err self)
  then show ?thesis using assms socket_event_handed by simp
qed (use assms in \<open>auto simp: start_def restart_def stop_def resetChannel_def dest!: startInLoop_handed\<close>)

lemma connected_events:
  assumes "state c = kConnected" and "enabled c e" and "\<forall>a b. e \<noteq> Restart a b" and "step e c = Inr c'"
  shows "state c' = kConnected \<and> handedOver c' = handedOver c"
  using assms by (cases e) (auto simp: start_def startInLoop_def stop_def resetChannel_def)

text \<open>
  A client has a connection only while its connector is in its final state, however \<open>connect\<close> is called.
\<close>

definition held_inv :: "tcp_client \<Rightarrow> bool" where
  "held_inv k \<longleftrightarrow> (connection k \<noteq> None \<longrightarrow> state (connector k) = kConnected)"

lemma held_inv_step:
  assumes inv: "held_inv k" and en: "client_enabled k e" and s: "client_step ntop h e k = Inr k'"
  shows "held_inv k'"
proof (cases e)
  case (ConnectorEvent ev conn peer)
  then have nr: "\<forall>a b. ev \<noteq> Restart a b" and cen: "enabled (connector k) ev" using en by auto
  obtain c where c: "step ev (connector k) = Inr c" using s ConnectorEvent by (auto simp: and_then_Inr_iff)
  show ?thesis
  proof (cases "handed_fd (connector k) c")
    case None
    then have "connector k' = c" "connection k' = connection k" using s c ConnectorEvent by (auto simp: Let_def)
    then show ?thesis using inv connected_events [OF _ cen nr c] by (simp add: held_inv_def)
  next
    case (Some sockfd)
    then have "handedOver c \<noteq> handedOver (connector k)" by (auto simp: handed_fd_def split: if_splits)
    then have "state c = kConnected" using step_handed [OF c] by blast
    then show ?thesis using s c ConnectorEvent Some
      by (auto simp: held_inv_def client_newConnection_def Let_def)
  qed
next
  case (ConnectionLost sockfd err)
  then have "connection k' = None" using s en
    by (auto simp: client_removeConnection_def and_then_Inr_iff Let_def split: if_splits)
  then show ?thesis by (simp add: held_inv_def)
qed (use s inv in \<open>auto simp: client_disconnect_def client_stop_def stop_def held_inv_def Let_def split: option.split\<close>)

lemma held_inv_reaches:
  "client_reaches callers ntop h k k' \<Longrightarrow> held_inv k \<Longrightarrow> held_inv k'"
  by (induction rule: client_reaches.induct) (auto dest: held_inv_step)

lemma client_step_ok:
  assumes inv: "client_inv k" and en: "client_enabled k e" and ca: "client_careful k e"
  shows "\<exists>k'. client_step ntop h e k = Inr k' \<and> client_inv k'"
proof (cases e)
  case (ConnectorEvent ev conn peer)
  then have cinv: "connector_inv (connector k)" and cen: "enabled (connector k) ev" and nr: "\<forall>a b. ev \<noteq> Restart a b"
    and cca: "careful (connector k) ev" using inv en ca by (auto simp: client_inv_def)
  from step_ok [OF cinv cen cca] obtain c where c: "step ev (connector k) = Inr c" "connector_inv c" by blast
  show ?thesis
  proof (cases "handed_fd (connector k) c")
    case None
    have "connection k \<noteq> None \<longrightarrow> state c = kConnected"
      using inv connected_events [OF _ cen nr c(1)] by (simp add: client_inv_def)
    then show ?thesis using ConnectorEvent None c by (simp add: client_inv_def Let_def)
  next
    case (Some sockfd)
    then have "handedOver c \<noteq> handedOver (connector k)" by (auto simp: handed_fd_def split: if_splits)
    then have "state c = kConnected" using step_handed [OF c(1)] by blast
    then show ?thesis using ConnectorEvent Some c by (simp add: client_inv_def client_newConnection_def Let_def)
  qed
next
  case (ConnectionLost sockfd err)
  then obtain conn where conn: "connection k = Some conn" "state (connector k) = kConnected"
    using inv en by (auto simp: client_inv_def)
  have cinv: "connector_inv (connector k)" using inv by (simp add: client_inv_def)
  have "enabled (connector k) (Restart sockfd err)" "careful (connector k) (Restart sockfd err)"
    using en ConnectionLost conn by simp_all
  from step_ok [OF cinv this] obtain c where "restart True (sockfd, err) (connector k) = Inr c" "connector_inv c" by auto
  then show ?thesis using ConnectionLost conn cinv
    by (simp add: client_removeConnection_def client_inv_def Let_def)
next
  case Disconnect
  then show ?thesis using inv by (auto simp: client_disconnect_def client_inv_def Let_def split: option.split)
next
  case StopClient
  then show ?thesis using inv by (simp add: client_stop_def stop_def client_inv_def)
qed

lemma client_reaches_inv: "client_reaches client_careful ntop h k k' \<Longrightarrow> client_inv k \<Longrightarrow> client_inv k'"
proof (induction rule: client_reaches.induct)
  case (client_more k k1 e k2)
  then show ?case using client_step_ok [of k1 e ntop h] by auto
qed

lemma client_inv_new: "client_inv new_client"
  by (simp add: client_inv_def new_client_def connector_inv_new)

subsection \<open>Properties\<close>

text \<open>A client in its loop whose \<open>connect\<close> is called only on an idle connector never fails an
  assertion and has at most one connection, whose loss makes it connect again exactly when retrying
  is enabled and \<open>disconnect\<close> or \<open>stop\<close> was not called: the lost connection is given up, and its
  destruction is queued.\<close>

theorem client_never_fails:
  assumes "client_reaches client_careful ntop h new_client k" and "client_enabled k e" and "client_careful k e"
  shows "\<exists>k'. client_step ntop h e k = Inr k' \<and> (connection k' \<noteq> None \<longrightarrow> state (connector k') = kConnected) \<and>
    (\<forall>sockfd err conn. e = ConnectionLost sockfd err \<longrightarrow> connection k = Some conn \<longrightarrow>
      connection k' = None \<and> toConnection k' = toConnection k @ [DestroyConnection conn] \<and>
      (if retry_enabled k \<and> connect_wanted k then restart True (sockfd, err) (connector k) = Inr (connector k')
       else connector k' = connector k))"
proof -
  have inv: "client_inv k" using client_reaches_inv [OF assms(1) client_inv_new] .
  from client_step_ok [OF inv assms(2,3)] obtain k' where k': "client_step ntop h e k = Inr k'" "client_inv k'" by blast
  have "connection k' = None \<and> toConnection k' = toConnection k @ [DestroyConnection conn] \<and>
      (if retry_enabled k \<and> connect_wanted k then restart True (sockfd, err) (connector k) = Inr (connector k')
       else connector k' = connector k)" if "e = ConnectionLost sockfd err" "connection k = Some conn" for sockfd err conn
    using k'(1) that by (auto simp: client_removeConnection_def and_then_Inr_iff Let_def split: if_splits)
  moreover have "connection k' \<noteq> None \<longrightarrow> state (connector k') = kConnected" using k'(2) by (simp add: client_inv_def)
  ultimately show ?thesis using k'(1) by (intro exI [of _ k'] conjI allI impI) blast+
qed

theorem client_never_fails_witness:
  "\<exists>k. client_step (\<lambda>_. None) LittleEndian (ConnectorEvent (Start 7 EINPROGRESS) 1 None) new_client = Inr k"
  using client_never_fails [OF client_refl, of "ConnectorEvent (Start 7 EINPROGRESS) 1 None" "\<lambda>_. None" LittleEndian]
  by (auto simp: new_client_def new_connector_def)

end
