(* ===== verification/RpcPrograms.thy ===== *)
theory RpcPrograms
  imports TcpClient Rpc
begin

section \<open>Programs on remote calls: the sudoku server and client, and how the collector connects\<close>

text \<open>
  \<open>server.cc\<close> and \<open>client.cc\<close>, an \<open>RpcServer\<close> with one service and an \<open>RpcClient\<close> that makes one call each
  time it is connected; and the \<open>RcpClient\<close>s of \<open>collector.cc\<close>, which \<open>Collector::connect\<close> starts and then
  waits for on a latch. The generated code of \<open>sudoku.proto\<close> is a parameter: how requests and
  responses are written and read.
\<close>

subsection \<open>The sudoku server\<close>

record sudoku_response =
  solved_field :: bool
  checkerboard :: string

record sudoku_runtime =
  write_request :: "string \<Rightarrow> byte list"
  read_request :: "byte list \<Rightarrow> string option"
  write_response :: "sudoku_response \<Rightarrow> byte list"

definition service_name :: string where "service_name = ''sudoku.SudokuService''"

definition Solve :: "string \<Rightarrow> sudoku_response" where
  "Solve request = \<lparr>solved_field = True, checkerboard = ''1234567''\<rparr>"

definition sudoku_service :: "sudoku_runtime \<Rightarrow> service" where
  "sudoku_service rt = \<lparr>full_name = service_name, FindMethodByName = (\<lambda>m. if m = ''Solve'' then Some 0 else None),
     request_parses = (\<lambda>md bs. read_request rt bs \<noteq> None)\<rparr>"

definition sudoku_server :: "sudoku_runtime \<Rightarrow> rpc_server result" where
  "sudoku_server rt = registerService (Some (sudoku_service rt)) new_rpc_server"

text \<open>A message arrives; \<open>Solve\<close> runs its closure before it returns.\<close>

definition sudoku_onMessage :: "sudoku_runtime \<Rightarrow> nat \<Rightarrow> rpc_message \<Rightarrow> rpc_server \<Rightarrow> rpc_server result" where
  "sudoku_onMessage rt c message srv =
     and_then (server_onMessage c message srv) (\<lambda>srv1.
       case held srv1 of
         [] \<Rightarrow> Inr srv1
       | (c', r) # hs \<Rightarrow>
           server_done 0 (write_response rt (Solve (case read_request rt (run_request r) of None \<Rightarrow> [] | Some q \<Rightarrow> q))) srv1)"

subsection \<open>The sudoku client\<close>

text \<open>\<open>made\<close> counts the response objects and closures made, which are numbered with it.\<close>

record sudoku_client =
  sc_client :: tcp_client
  sc_channel :: rpc_channel
  made :: nat
  solutions :: nat
  sc_quit :: bool

definition new_sudoku_client :: sudoku_client where
  "new_sudoku_client = \<lparr>sc_client = new_client, sc_channel = new_rpc_channel None, made = 0, solutions = 0, sc_quit = False\<rparr>"

definition sc_connect :: "int \<times> int \<Rightarrow> sudoku_client \<Rightarrow> sudoku_client result" where
  "sc_connect sys k = and_then (client_connect sys (sc_client k)) (\<lambda>c. Inr (k\<lparr>sc_client := c\<rparr>))"

definition sc_onConnection :: "sudoku_runtime \<Rightarrow> nat \<Rightarrow> bool \<Rightarrow> sudoku_client \<Rightarrow> sudoku_client result" where
  "sc_onConnection rt c is_connected k =
     (if is_connected then
        (let i = Suc (made k)
         in and_then (CallMethod service_name ''Solve'' (write_request rt ''001010'') i i (setConnection (Some c) (sc_channel k)))
              (\<lambda>ch. Inr (k\<lparr>sc_channel := ch, made := i\<rparr>)))
      else Inr (k\<lparr>sc_quit := True\<rparr>))"

definition sc_solved :: "sudoku_client \<Rightarrow> sudoku_client" where
  "sc_solved k = k\<lparr>solutions := Suc (solutions k), sc_client := client_disconnect (sc_client k)\<rparr>"

fun run_closure :: "closure_event \<Rightarrow> sudoku_client \<Rightarrow> sudoku_client" where
  "run_closure (Ran i) k = sc_solved k"
| "run_closure e k = k"

definition sc_onMessage :: "nat \<Rightarrow> rpc_message \<Rightarrow> sudoku_client \<Rightarrow> sudoku_client result" where
  "sc_onMessage c message k =
     and_then (onRpcMessage Map.empty c message (sc_channel k)) (\<lambda>ch.
       Inr (fold run_closure (drop (length (happened (sc_channel k))) (happened ch)) (k\<lparr>sc_channel := ch\<rparr>)))"

text \<open>Client and server on one connection, \<open>c\<close> at the client's end and \<open>d\<close> at the server's: it comes up on
  both sides, the request is delivered and then the response.\<close>

definition sudoku_run :: "sudoku_runtime \<Rightarrow> nat \<Rightarrow> nat \<Rightarrow> sudoku_client \<Rightarrow> rpc_server \<Rightarrow> (sudoku_client \<times> rpc_server) result" where
  "sudoku_run rt c d k srv =
     and_then (sc_onConnection rt c True k) (\<lambda>k1.
     and_then (sudoku_onMessage rt d (last (outbox (sc_channel k1))) (onConnection d True srv)) (\<lambda>srv1.
     and_then (case contexts srv1 d of None \<Rightarrow> Inl (NullDereference ''RpcChannel'') | Some ch \<Rightarrow> Inr (outbox ch)) (\<lambda>replies.
     and_then (for_each (sc_onMessage c) replies k1) (\<lambda>k2. Inr (k2, srv1)))))"

subsection \<open>How the collector connects\<close>

text \<open>
  \<open>Collector::connect\<close> makes a latch on its stack, starts the clients one by one and waits, while the
  loop's thread reports their connections. A client forgets the latch once it has counted. Counting down
  a latch that has gone is a fault. \<open>started\<close> are the clients started so far.
\<close>

record rcp_client =
  connectLatch :: bool
  rcp_channel :: rpc_channel

definition new_rcp_client :: rcp_client where
  "new_rcp_client = \<lparr>connectLatch = False, rcp_channel = new_rpc_channel None\<rparr>"

record connecting =
  rcp_clients :: "rcp_client list"
  started :: nat
  latch_count :: int
  latch_live :: bool

definition collector_connect :: "bool \<Rightarrow> nat \<Rightarrow> connecting result" where
  "collector_connect in_loop n = require (\<not> in_loop) (AssertionFailed ''!loop_->isInLoopThread()'')
     (Inr \<lparr>rcp_clients = replicate n new_rcp_client, started = 0, latch_count = int n, latch_live = True\<rparr>)"

definition rcp_connect :: "rcp_client \<Rightarrow> rcp_client" where
  "rcp_connect r = r\<lparr>connectLatch := True\<rparr>"

definition rcp_onConnection :: "nat \<Rightarrow> nat \<Rightarrow> bool \<Rightarrow> connecting \<Rightarrow> connecting result" where
  "rcp_onConnection i c is_connected w =
     (if is_connected then
        (let r = rcp_clients w ! i;
             r1 = r\<lparr>rcp_channel := setConnection (Some c) (rcp_channel r)\<rparr>
         in if connectLatch r1 then
              require (latch_live w) (NullDereference ''connectLatch_'')
                (Inr (w\<lparr>rcp_clients := (rcp_clients w)[i := r1\<lparr>connectLatch := False\<rparr>], latch_count := latch_count w - 1\<rparr>))
            else Inr (w\<lparr>rcp_clients := (rcp_clients w)[i := r1]\<rparr>))
      else Inr w)"

datatype connect_event = StartNext | ConnectionOf nat nat bool | WaitReturns

fun connect_step :: "connect_event \<Rightarrow> connecting \<Rightarrow> connecting result" where
  "connect_step StartNext w =
     Inr (w\<lparr>rcp_clients := (rcp_clients w)[started w := rcp_connect (rcp_clients w ! started w)], started := Suc (started w)\<rparr>)"
| "connect_step (ConnectionOf i c is_connected) w = rcp_onConnection i c is_connected w"
| "connect_step WaitReturns w = Inr (w\<lparr>latch_live := False\<rparr>)"

fun connect_enabled :: "connecting \<Rightarrow> connect_event \<Rightarrow> bool" where
  "connect_enabled w StartNext \<longleftrightarrow> started w < length (rcp_clients w)"
| "connect_enabled w (ConnectionOf i c is_connected) \<longleftrightarrow> i < started w"
| "connect_enabled w WaitReturns \<longleftrightarrow> started w = length (rcp_clients w) \<and> latch_live w \<and> latch_count w \<le> 0"

inductive connect_reaches :: "nat \<Rightarrow> connecting \<Rightarrow> bool" for n where
  connect_begins: "collector_connect False n = Inr w \<Longrightarrow> connect_reaches n w"
| connect_goes_on: "connect_reaches n w \<Longrightarrow> connect_enabled w e \<Longrightarrow> connect_step e w = Inr w' \<Longrightarrow> connect_reaches n w'"

definition waiting_for :: "rcp_client list \<Rightarrow> nat" where
  "waiting_for rs = length (filter connectLatch rs)"

definition connect_inv :: "nat \<Rightarrow> connecting \<Rightarrow> bool" where
  "connect_inv n w \<longleftrightarrow> length (rcp_clients w) = n \<and> started w \<le> n \<and>
     latch_count w = int (n - started w + waiting_for (rcp_clients w)) \<and>
     (\<not> latch_live w \<longrightarrow> started w = n \<and> latch_count w = 0) \<and>
     (\<forall>i < started w. connectLatch (rcp_clients w ! i) \<or> conn (rcp_channel (rcp_clients w ! i)) \<noteq> None) \<and>
     (\<forall>i < n. started w \<le> i \<longrightarrow> \<not> connectLatch (rcp_clients w ! i))"

lemma waiting_for_update:
  assumes "i < length rs"
  shows "waiting_for (rs[i := r]) + (if connectLatch (rs ! i) then 1 else 0) = waiting_for rs + (if connectLatch r then 1 else 0)"
  using assms
proof (induction rs arbitrary: i)
  case (Cons x xs)
  then show ?case by (cases i) (auto simp: waiting_for_def)
qed simp

lemma connect_begins_inv: "collector_connect False n = Inr w \<Longrightarrow> connect_inv n w"
  by (auto simp: collector_connect_def connect_inv_def waiting_for_def new_rcp_client_def)

lemma connect_step_ok:
  assumes I: "connect_inv n w" and e: "connect_enabled w e"
  shows "\<exists>w'. connect_step e w = Inr w' \<and> connect_inv n w'"
proof (cases e)
  case StartNext
  let ?r = "rcp_connect (rcp_clients w ! started w)"
  have s: "started w < n" "started w < length (rcp_clients w)" "\<not> connectLatch (rcp_clients w ! started w)"
    using I e StartNext by (auto simp: connect_inv_def)
  then have "waiting_for ((rcp_clients w)[started w := ?r]) = Suc (waiting_for (rcp_clients w))"
    using waiting_for_update [OF s(2), of ?r] by (simp add: rcp_connect_def)
  then show ?thesis using I s StartNext by (auto simp: connect_inv_def nth_list_update rcp_connect_def)
next
  case (ConnectionOf i c is_connected)
  let ?r = "rcp_clients w ! i"
  let ?r1 = "?r\<lparr>rcp_channel := setConnection (Some c) (rcp_channel ?r)\<rparr>"
  have i: "i < started w" "i < length (rcp_clients w)" using I e ConnectionOf by (auto simp: connect_inv_def)
  show ?thesis
  proof (cases "is_connected \<and> connectLatch ?r")
    case True
    have "waiting_for (rcp_clients w) \<noteq> 0"
      using True i(2) nth_mem [OF i(2)] by (auto simp: waiting_for_def filter_empty_conv)
    then have "latch_live w" using I by (auto simp: connect_inv_def)
    moreover have "waiting_for ((rcp_clients w)[i := ?r1\<lparr>connectLatch := False\<rparr>]) + 1 = waiting_for (rcp_clients w)"
      using waiting_for_update [OF i(2), of "?r1\<lparr>connectLatch := False\<rparr>"] True by simp
    ultimately show ?thesis using I i True ConnectionOf
      by (auto simp: connect_inv_def rcp_onConnection_def Let_def nth_list_update setConnection_def)
  next
    case False
    have "waiting_for ((rcp_clients w)[i := ?r1]) = waiting_for (rcp_clients w)"
      using waiting_for_update [OF i(2), of ?r1] by (simp split: if_splits)
    then show ?thesis using I i False ConnectionOf
      by (auto simp: connect_inv_def rcp_onConnection_def Let_def nth_list_update setConnection_def)
  qed
next
  case WaitReturns
  then show ?thesis using I e by (auto simp: connect_inv_def)
qed

lemma connect_reaches_inv: "connect_reaches n w \<Longrightarrow> connect_inv n w"
proof (induction rule: connect_reaches.induct)
  case (connect_goes_on w e w')
  from connect_step_ok [OF connect_goes_on.IH connect_goes_on.hyps(2)] connect_goes_on.hyps(3) show ?case by auto
qed (rule connect_begins_inv)

subsection \<open>Properties\<close>

text \<open>The collector connects to all of its sorters: whatever the order in which connections come up, go
  down and come up again, no step fails, in particular no client counts down a latch that is gone,
  and once \<open>Collector::connect\<close> has returned every client has a connection to call through.\<close>

theorem collector_connects_to_all:
  assumes "connect_reaches n w"
  shows "(\<forall>e. connect_enabled w e \<longrightarrow> (\<exists>w'. connect_step e w = Inr w')) \<and>
    (\<not> latch_live w \<longrightarrow> length (rcp_clients w) = n \<and> list_all (\<lambda>r. conn (rcp_channel r) \<noteq> None) (rcp_clients w))"
proof -
  note I = connect_reaches_inv [OF assms]
  have "conn (rcp_channel (rcp_clients w ! i)) \<noteq> None" if "\<not> latch_live w" "i < length (rcp_clients w)" for i
  proof -
    have "waiting_for (rcp_clients w) = 0" "i < started w" using I that by (auto simp: connect_inv_def)
    then show ?thesis using I nth_mem [OF that(2)] by (auto simp: connect_inv_def waiting_for_def filter_empty_conv)
  qed
  moreover have "length (rcp_clients w) = n" using I by (simp add: connect_inv_def)
  ultimately show ?thesis using connect_step_ok [OF I] by (auto simp: list_all_length)
qed

definition one_sorter :: connecting where
  "one_sorter = \<lparr>rcp_clients = [new_rcp_client\<lparr>rcp_channel := new_rpc_channel (Some 9)\<rparr>], started = 1,
     latch_count = 0, latch_live = False\<rparr>"

theorem collector_connects_to_all_witness:
  "list_all (\<lambda>r. conn (rcp_channel r) \<noteq> None) (rcp_clients one_sorter) \<and>
   (\<exists>w'. connect_step (ConnectionOf 0 9 True) one_sorter = Inr w')"
proof -
  let ?w0 = "\<lparr>rcp_clients = [new_rcp_client], started = 0, latch_count = 1, latch_live = True\<rparr>"
  let ?w1 = "\<lparr>rcp_clients = [rcp_connect new_rcp_client], started = 1, latch_count = 1, latch_live = True\<rparr>"
  let ?w2 = "one_sorter\<lparr>latch_live := True\<rparr>"
  have "connect_reaches 1 ?w0" by (rule connect_begins) (simp add: collector_connect_def)
  then have "connect_reaches 1 ?w1" by (rule connect_goes_on [of _ _ StartNext]) simp_all
  then have "connect_reaches 1 ?w2"
    by (rule connect_goes_on [of _ _ "ConnectionOf 0 9 True"])
      (simp_all add: rcp_onConnection_def rcp_connect_def new_rcp_client_def setConnection_def new_rpc_channel_def one_sorter_def)
  then have "connect_reaches 1 one_sorter"
    by (rule connect_goes_on [of _ _ WaitReturns]) (simp_all add: one_sorter_def)
  note r = collector_connects_to_all [OF this]
  have "connect_enabled one_sorter (ConnectionOf 0 9 True)" "\<not> latch_live one_sorter" by (simp_all add: one_sorter_def)
  with r show ?thesis by blast
qed

text \<open>The three legs of the way of a call: the client's request, the server's answer, the client's closure.\<close>

definition sudoku_request :: "sudoku_runtime \<Rightarrow> sudoku_client \<Rightarrow> rpc_message" where
  "sudoku_request rt k = \<lparr>msg_type = REQUEST, msg_id = call_id (sc_channel k) + 1, msg_service = Some service_name,
     msg_method = Some ''Solve'', msg_request = Some (write_request rt ''001010''), msg_response = None, msg_error = None\<rparr>"

definition sudoku_reply :: "sudoku_runtime \<Rightarrow> sudoku_client \<Rightarrow> rpc_message" where
  "sudoku_reply rt k = \<lparr>msg_type = RESPONSE, msg_id = call_id (sc_channel k) + 1, msg_service = None, msg_method = None,
     msg_request = None, msg_response = Some (write_response rt (Solve ''001010'')), msg_error = None\<rparr>"

lemma sudoku_asks:
  "sc_onConnection rt c True k = Inr (k\<lparr>made := Suc (made k), sc_channel := (sc_channel k)\<lparr>conn := Some c,
     call_id := call_id (sc_channel k) + 1,
     outstandings := (outstandings (sc_channel k))(call_id (sc_channel k) + 1 \<mapsto>
       \<lparr>out_response = Suc (made k), out_done = Suc (made k)\<rparr>),
     outbox := outbox (sc_channel k) @ [sudoku_request rt k]\<rparr>\<rparr>)"
  by (simp add: sc_onConnection_def CallMethod_def add_outstanding_def codec_send_def setConnection_def Let_def sudoku_request_def)

lemma sudoku_answers:
  assumes "read_request rt (write_request rt ''001010'') = Some ''001010''" and "sudoku_server rt = Inr srv"
  shows "\<exists>srv1 ch. sudoku_onMessage rt d (sudoku_request rt k) (onConnection d True srv) = Inr srv1 \<and>
    contexts srv1 d = Some ch \<and> outbox ch = [sudoku_reply rt k]"
proof -
  have svc: "service_table srv service_name = Some (Some (sudoku_service rt))" "held srv = []"
    using assms(2) by (auto simp: sudoku_server_def registerService_def new_rpc_server_def sudoku_service_def)
  show ?thesis using assms(1) svc
    by (simp add: sudoku_onMessage_def server_onMessage_def through_channel_def onConnection_def onRpcMessage_def
        onRequest_def new_rpc_channel_def setServices_def field_or_empty_def sudoku_request_def sudoku_service_def
        server_done_def doneCallback_def codec_send_def sudoku_reply_def)
qed

lemma sudoku_hears:
  assumes "conn (sc_channel k1) = Some c"
    and "outstandings (sc_channel k1) = [call_id (sc_channel k) + 1 \<mapsto> \<lparr>out_response = Suc n, out_done = Suc n\<rparr>]"
  shows "sc_onMessage c (sudoku_reply rt k) k1 = Inr (sc_solved (k1\<lparr>sc_channel := (sc_channel k1)\<lparr>outstandings := Map.empty,
     happened := happened (sc_channel k1) @ [Parsed (Suc n) (write_response rt (Solve ''001010'')), Ran (Suc n), Freed (Suc n)]\<rparr>\<rparr>))"
  using assms by (simp add: sc_onMessage_def onRpcMessage_def onResponse_def take_outstanding_def sudoku_reply_def Let_def)

text \<open>The sudoku programs, from end to end: when a connection of the client comes up, the server's service
  gets its request and answers it, the client's closure runs once, on the response object that holds
  that answer, and the client then asks its connection to shut down, once, and wants no other; no call
  is left outstanding.\<close>

theorem sudoku_is_solved:
  assumes "read_request rt (write_request rt ''001010'') = Some ''001010''"
    and "outstandings (sc_channel k) = Map.empty" and "connection (sc_client k) = Some tc"
    and "sudoku_server rt = Inr srv"
  shows "\<exists>k' srv'. sudoku_run rt c d k srv = Inr (k', srv') \<and>
    happened (sc_channel k') = happened (sc_channel k) @
      [Parsed (Suc (made k)) (write_response rt \<lparr>solved_field = True, checkerboard = ''1234567''\<rparr>),
       Ran (Suc (made k)), Freed (Suc (made k))] \<and>
    solutions k' = Suc (solutions k) \<and> outstandings (sc_channel k') = Map.empty \<and>
    toConnection (sc_client k') = toConnection (sc_client k) @ [ShutdownConnection tc] \<and>
    \<not> connect_wanted (sc_client k')"
proof -
  obtain k1 where k1: "sc_onConnection rt c True k = Inr k1" "conn (sc_channel k1) = Some c"
      "outstandings (sc_channel k1) = [call_id (sc_channel k) + 1 \<mapsto> \<lparr>out_response = Suc (made k), out_done = Suc (made k)\<rparr>]"
      "last (outbox (sc_channel k1)) = sudoku_request rt k" "happened (sc_channel k1) = happened (sc_channel k)"
      "sc_client k1 = sc_client k" "solutions k1 = solutions k"
    unfolding sudoku_asks using assms(2) by simp
  obtain srv1 ch where s: "sudoku_onMessage rt d (sudoku_request rt k) (onConnection d True srv) = Inr srv1"
      "contexts srv1 d = Some ch" "outbox ch = [sudoku_reply rt k]" using sudoku_answers [OF assms(1,4)] by blast
  show ?thesis
    by (simp add: sudoku_run_def k1 s sudoku_hears [OF k1(2,3)] sc_solved_def client_disconnect_def Let_def assms(3) Solve_def)
qed

text \<open>A runtime that writes strings as they are.\<close>

definition plain_runtime :: sudoku_runtime where
  "plain_runtime = \<lparr>write_request = map (\<lambda>c. of_nat (of_char c)), read_request = (\<lambda>bs. Some (map (\<lambda>b. char_of (unat b)) bs)),
     write_response = (\<lambda>r. map (\<lambda>c. of_nat (of_char c)) (checkerboard r))\<rparr>"

theorem sudoku_is_solved_witness:
  "\<exists>srv k' srv'. sudoku_server plain_runtime = Inr srv \<and>
    sudoku_run plain_runtime 4 7 (new_sudoku_client\<lparr>sc_client := new_client\<lparr>connection := Some 4\<rparr>\<rparr>) srv = Inr (k', srv') \<and>
    solutions k' = 1 \<and> toConnection (sc_client k') = [ShutdownConnection 4]"
proof -
  let ?k = "new_sudoku_client\<lparr>sc_client := new_client\<lparr>connection := Some 4\<rparr>\<rparr>"
  obtain srv where srv: "sudoku_server plain_runtime = Inr srv" by (simp add: sudoku_server_def registerService_def)
  have "read_request plain_runtime (write_request plain_runtime ''001010'') = Some ''001010''"
    unfolding plain_runtime_def by code_simp
  moreover have "outstandings (sc_channel ?k) = Map.empty" "connection (sc_client ?k) = Some 4"
    by (simp_all add: new_sudoku_client_def new_rpc_channel_def)
  ultimately have "\<exists>k' srv'. sudoku_run plain_runtime 4 7 ?k srv = Inr (k', srv') \<and> solutions k' = Suc (solutions ?k) \<and>
      toConnection (sc_client k') = toConnection (sc_client ?k) @ [ShutdownConnection 4]"
    using sudoku_is_solved [OF _ _ _ srv, of ?k 4 4 7] by blast
  then show ?thesis using srv by (simp add: new_sudoku_client_def new_client_def)
qed

end
