(* ===== verification/ServerPrograms.thy ===== *)
theory ServerPrograms
  imports ConnectionView TcpServer HostPort
begin

section \<open>The example servers and the example client: test8.cc to test11.cc and test13.cc\<close>

text \<open>
  Programs written on the callbacks of a connection: one that prints what comes in, an echo server,
  a server that sends two messages and shuts down, a character generator and a client that says
  hello. What their callbacks do to the connection is a \<open>program\<close>; what they print is left out.
  Their properties are invariants of the view, which hold of the connection by the refinement.
\<close>

subsection \<open>The callbacks\<close>

text \<open>\<open>retrieveAsString\<close> and \<open>retrieveAll\<close> take all that is unread.\<close>

definition take_all :: "view \<Rightarrow> user_call" where
  "take_all v = RetrieveInput (length (unread v))"

definition discard :: program where
  "discard kind v = (case kind of MessageCallback \<Rightarrow> [take_all v] | _ \<Rightarrow> [])"

definition echo :: program where
  "echo kind v = (case kind of MessageCallback \<Rightarrow> [take_all v, Send (unread v)] | _ \<Rightarrow> [])"

definition burst :: "byte list \<Rightarrow> byte list \<Rightarrow> program" where
  "burst message1 message2 kind v = (case kind of
      ConnectionCallback \<Rightarrow>
        if stage v = kConnected then
          (if message1 \<noteq> [] then [Send message1] else []) @ (if message2 \<noteq> [] then [Send message2] else []) @ [Shutdown]
        else []
    | MessageCallback \<Rightarrow> [take_all v]
    | WriteCompleteCallback \<Rightarrow> [])"

definition chargen :: "byte list \<Rightarrow> program" where
  "chargen message kind v = (case kind of
      ConnectionCallback \<Rightarrow> if stage v = kConnected then [Send message] else []
    | MessageCallback \<Rightarrow> [take_all v]
    | WriteCompleteCallback \<Rightarrow> [Send message])"

text \<open>The ninety-four lines of 72 printable characters, each starting one character later.\<close>

definition chargen_line :: "byte list" where
  "chargen_line = (let line = map of_nat [33..<127] in line @ line)"

definition chargen_message :: "byte list" where
  "chargen_message = concat (map (\<lambda>i. take 72 (drop i chargen_line) @ [10]) [0..<127 - 33])"

definition hello_message :: "byte list" where
  "hello_message = [72, 101, 108, 108, 111, 10]"

definition hello :: program where
  "hello kind v = (case kind of
      ConnectionCallback \<Rightarrow> if stage v = kConnected then [Send hello_message] else []
    | MessageCallback \<Rightarrow> [take_all v]
    | WriteCompleteCallback \<Rightarrow> [])"

subsection \<open>The main functions\<close>

text \<open>
  \<open>argv\<close> holds the program's name first. A negative length is a huge \<open>size_t\<close>, for which
  \<open>std::string::resize\<close> throws.
\<close>

definition filled_string :: "int \<Rightarrow> byte \<Rightarrow> byte list result" where
  "filled_string len b = require (0 \<le> len) (Fatal ''std::length_error'') (Inr (replicate (nat len) b))"

definition burst_messages :: "string list \<Rightarrow> (byte list \<times> byte list) result" where
  "burst_messages argv =
     (let (len1, len2) = (if 2 < length argv then (atoi (argv ! 1), atoi (argv ! 2)) else (100, 200))
      in and_then (filled_string len1 65) (\<lambda>message1.
         and_then (filled_string len2 66) (\<lambda>message2. Inr (message1, message2))))"

definition thread_arg :: "nat \<Rightarrow> string list \<Rightarrow> tcp_server \<Rightarrow> tcp_server result" where
  "thread_arg k argv s = (if k < length argv then server_setThreadNum (atoi (argv ! k)) s else Inr s)"

definition start_example ::
  "nat \<Rightarrow> (u32 \<Rightarrow> string option) \<Rightarrow> host_order \<Rightarrow> (nat \<Rightarrow> nat) \<Rightarrow> int \<Rightarrow> int \<Rightarrow> int \<Rightarrow> string list \<Rightarrow> tcp_server result" where
  "start_example k ntop h start_loop sockfd bind_ret listen_ret argv =
     and_then (new_server ntop h 0 (InetAddress_port h 9981) sockfd bind_ret) (\<lambda>s.
     and_then (thread_arg k argv s) (server_start start_loop True listen_ret))"

subsection \<open>Invariants of the views\<close>

lemmas view_simps = view_callback_def take_all_def new_view_def

lemma discard_view:
  "view_reaches False discard v \<Longrightarrow> unread v = [] \<and> given v = []"
  by (induction rule: view_reaches.induct) (auto simp: discard_def view_simps)

lemma echo_view:
  "view_reaches False echo v \<Longrightarrow> unread v = [] \<and> given v = got v \<and> stage v \<noteq> kDisconnecting \<and>
    (stage v = kConnecting \<longrightarrow> got v = [])"
  by (induction rule: view_reaches.induct) (auto simp: echo_def view_simps)

lemma burst_view:
  "view_reaches False (burst m1 m2) v \<Longrightarrow> unread v = [] \<and> stage v \<noteq> kConnected \<and>
    given v = (if stage v = kConnecting then [] else m1 @ m2)"
  by (induction rule: view_reaches.induct) (auto simp: burst_def view_simps split: if_splits)

lemma concat_replicate_append: "concat (replicate n m) @ m = concat (replicate (Suc n) m)"
  by (induction n) simp_all

lemma chargen_view:
  "view_reaches False (chargen m) v \<Longrightarrow> unread v = [] \<and> stage v \<noteq> kDisconnecting \<and>
    (if stage v = kConnecting then given v = [] else \<exists>n. given v = concat (replicate (Suc n) m))"
proof (induction rule: view_reaches.induct)
  case (completes v)
  then obtain n where n: "given v = concat (replicate (Suc n) m)" by auto
  with completes concat_replicate_append [of "Suc n" m] show ?case
    by (auto simp: chargen_def view_simps simp del: replicate_Suc)
qed (auto simp: chargen_def view_simps intro: exI [of _ 0])

lemma hello_view:
  "view_reaches False hello v \<Longrightarrow> unread v = [] \<and> stage v \<noteq> kDisconnecting \<and>
    given v = (if stage v = kConnecting then [] else hello_message)"
  by (induction rule: view_reaches.induct) (auto simp: hello_def view_simps)

subsection \<open>The text of the character generator\<close>

lemma nth_concat_blocks:
  assumes "\<forall>x \<in> set xs. length x = k" and "i < length xs" and "j < k"
  shows "concat xs ! (k * i + j) = xs ! i ! j"
  using assms
proof (induction xs arbitrary: i)
  case (Cons x xs)
  then show ?case by (cases i) (auto simp: nth_append)
qed simp

lemma length_concat_blocks: "\<forall>x \<in> set xs. length x = k \<Longrightarrow> length (concat xs) = k * length xs"
  by (induction xs) auto

lemma chargen_line_nth: "p < 188 \<Longrightarrow> chargen_line ! p = of_nat (33 + p mod 94)"
proof -
  assume p: "p < 188"
  have l: "length (map of_nat [33..<127] :: byte list) = 94" by simp
  show ?thesis
  proof (cases "p < 94")
    case True
    then show ?thesis by (simp add: chargen_line_def Let_def nth_append del: upt_rec_numeral)
  next
    case False
    then have "p mod 94 = p - 94" using p by (simp add: mod_if)
    then show ?thesis using p False by (simp add: chargen_line_def Let_def nth_append del: upt_rec_numeral)
  qed
qed

lemma chargen_message_nth:
  assumes "i < 94"
  shows "length chargen_message = 94 * 73" and "chargen_message ! (73 * i + 72) = 10"
    and "j < 72 \<Longrightarrow> chargen_message ! (73 * i + j) = of_nat (33 + (i + j) mod 94)"
proof -
  let ?lines = "map (\<lambda>i. take 72 (drop i chargen_line) @ [10]) [0..<127 - 33]"
  have len: "length chargen_line = 188" by (simp add: chargen_line_def Let_def)
  have blocks: "\<forall>x \<in> set ?lines. length x = 73" using len by auto
  show "length chargen_message = 94 * 73"
    unfolding chargen_message_def length_concat_blocks [OF blocks] by simp
  have nth: "chargen_message ! (73 * i + j) = (take 72 (drop i chargen_line) @ [10]) ! j" if "j < 73" for j
    using nth_concat_blocks [OF blocks _ that, of i] assms by (simp add: chargen_message_def)
  show "chargen_message ! (73 * i + 72) = 10" using nth [of 72] assms len by (simp add: nth_append)
  show "chargen_message ! (73 * i + j) = of_nat (33 + (i + j) mod 94)" if "j < 72"
    using nth [of j] that assms len chargen_line_nth [of "i + j"] by (simp add: nth_append)
qed

subsection \<open>Properties\<close>

lemmas alone_run = program_run [where others = False, simplified]

text \<open>The runs of the witnesses: three bytes come in, and the socket is writable once.\<close>

lemma talk_alone:
  assumes "turns (run_conn talking_net ucode) (handle_conn talking_net ucode) talk
      ((fresh_loop (new_connection 0 5 wcc))\<lparr>looping := True, quitting := False\<rparr>) = Inr L"
  shows "\<exists>\<sigma>. runs_reporting ordinary (run_conn talking_net ucode) (handle_conn talking_net ucode) (\<lambda>_ _ _. False)
      (start (fresh_loop (new_connection 0 5 wcc))) \<sigma> \<and> lp \<sigma> = L"
  using polls_run [of talk ordinary "run_conn talking_net ucode" "handle_conn talking_net ucode" "\<lambda>_ _ _. False"
      "fresh_loop (new_connection 0 5 wcc)"] talk_ordinary assms by (auto simp: arrives_def)

text \<open>C38: The echo server gives back what it gets: however its input is cut into pieces, its output
  is taken and its events and functors interleave, as long as polls report only masks of \<open>ordinary\<close>,
  it fails no assertion, leaves nothing unread, and has sent, on the wire or still in the output
  buffer, exactly the bytes it has received, in order. As long as the connection is up and the
  kernel takes at least a byte of every write, as many writability events as bytes are buffered
  bring everything received back to the sender.\<close>

theorem echo_returns_every_byte:
  assumes "runs_reporting ordinary (run_conn net (code_of echo)) (handle_conn net (code_of echo)) (\<lambda>_ _ _. False)
      (start (fresh_loop (new_connection l sockfd wcc))) \<sigma>"
    and "write_ok net"
  shows "\<not> crashed (pc \<sigma>) \<and> readable (inputBuffer (user (lp \<sigma>))) = [] \<and>
    wire (user (lp \<sigma>)) @ readable (outputBuffer (user (lp \<sigma>))) = received (user (lp \<sigma>)) \<and>
    (state (user (lp \<sigma>)) = kConnected \<and> \<not> down (user (lp \<sigma>)) \<and> (\<forall>k data. data \<noteq> [] \<longrightarrow> 0 < sys_write net k data) \<longrightarrow>
      (\<exists>c'. handle_events net (code_of echo) (replicate (length (readable (outputBuffer (user (lp \<sigma>))))) POLLOUT)
         (user (lp \<sigma>)) = Inr c' \<and> wire c' = received (user (lp \<sigma>))))"
proof -
  let ?c = "user (lp \<sigma>)"
  note r = alone_run [OF assms]
  have v: "unread (view_of ?c) = []" "given (view_of ?c) = got (view_of ?c)" using echo_view [OF r(3)] by simp_all
  then have acc: "readable (inputBuffer ?c) = []" "accepted ?c = received ?c" by (simp_all add: view_of_def)
  moreover have "wire ?c @ readable (outputBuffer ?c) = accepted ?c" using r(2) by (simp add: conn_inv_def)
  moreover have "\<exists>c'. handle_events net (code_of echo) (replicate (length (readable (outputBuffer ?c))) POLLOUT) ?c = Inr c' \<and>
      wire c' = received ?c"
    if "state ?c = kConnected" "\<not> down ?c" "\<forall>k data. data \<noteq> [] \<longrightarrow> 0 < sys_write net k data"
    using flush_events [OF assms(2) _ r(2) _ that(2) r(4) order_refl, of "code_of echo"] that(1,3) acc(2) by auto
  ultimately show ?thesis using r(1) by simp
qed

lemma echo_turns:
  "case turns (run_conn talking_net (code_of echo)) (handle_conn talking_net (code_of echo)) talk
      ((fresh_loop (new_connection 0 5 False))\<lparr>looping := True, quitting := False\<rparr>) of Inl e \<Rightarrow> False
    | Inr L \<Rightarrow> received (user L) = [5, 6, 7] \<and> wire (user L) = [5, 6, 7]"
  by code_simp

theorem echo_returns_every_byte_witness:
  "\<exists>\<sigma>. runs_reporting ordinary (run_conn talking_net (code_of echo)) (handle_conn talking_net (code_of echo))
      (\<lambda>_ _ _. False) (start (fresh_loop (new_connection 0 5 False))) \<sigma> \<and> \<not> crashed (pc \<sigma>) \<and>
    received (user (lp \<sigma>)) = [5, 6, 7] \<and> wire (user (lp \<sigma>)) = [5, 6, 7] \<and>
    readable (inputBuffer (user (lp \<sigma>))) = [] \<and> readable (outputBuffer (user (lp \<sigma>))) = []"
proof -
  obtain L where L: "turns (run_conn talking_net (code_of echo)) (handle_conn talking_net (code_of echo)) talk
      ((fresh_loop (new_connection 0 5 False))\<lparr>looping := True, quitting := False\<rparr>) = Inr L"
      "received (user L) = [5, 6, 7]" "wire (user L) = [5, 6, 7]"
    using echo_turns by (auto split: sum.splits)
  from talk_alone [OF L(1)] obtain \<sigma> where
    r: "runs_reporting ordinary (run_conn talking_net (code_of echo)) (handle_conn talking_net (code_of echo))
      (\<lambda>_ _ _. False) (start (fresh_loop (new_connection 0 5 False))) \<sigma>" "lp \<sigma> = L" by blast
  from echo_returns_every_byte [OF r(1) write_ok_talking_net] r L(2,3) show ?thesis by auto
qed

text \<open>The character generator sends its text over and over: at any time of any run what it has sent is a
  whole number of copies of the message, at least one once the connection is established; it leaves no
  input unread; and line \<open>i\<close> of the message has the printable characters from the \<open>i\<close>-th on, in a circle,
  and ends in a newline.\<close>

theorem chargen_repeats_its_text:
  assumes "runs_reporting ordinary (run_conn net (code_of (chargen chargen_message))) (handle_conn net (code_of (chargen chargen_message)))
      (\<lambda>_ _ _. False) (start (fresh_loop (new_connection l sockfd True))) \<sigma>"
    and "write_ok net"
  shows "\<not> crashed (pc \<sigma>) \<and> readable (inputBuffer (user (lp \<sigma>))) = [] \<and>
    (\<exists>n. wire (user (lp \<sigma>)) @ readable (outputBuffer (user (lp \<sigma>))) = concat (replicate n chargen_message) \<and>
       (state (user (lp \<sigma>)) \<noteq> kConnecting \<longrightarrow> 0 < n)) \<and>
    length chargen_message = 94 * 73 \<and>
    (\<forall>i < 94. chargen_message ! (73 * i + 72) = 10 \<and>
       (\<forall>j < 72. chargen_message ! (73 * i + j) = of_nat (33 + (i + j) mod 94)))"
proof -
  let ?c = "user (lp \<sigma>)"
  note r = alone_run [OF assms]
  have v: "unread (view_of ?c) = []"
    "if stage (view_of ?c) = kConnecting then given (view_of ?c) = []
     else \<exists>n. given (view_of ?c) = concat (replicate (Suc n) chargen_message)"
    using chargen_view [OF r(3)] by blast+
  have acc: "wire ?c @ readable (outputBuffer ?c) = given (view_of ?c)" using r(2) by (simp add: conn_inv_def view_of_def)
  have "\<exists>n. given (view_of ?c) = concat (replicate n chargen_message) \<and> (state ?c \<noteq> kConnecting \<longrightarrow> 0 < n)"
  proof (cases "state ?c = kConnecting")
    case True
    then show ?thesis using v(2) by (intro exI [of _ 0]) (simp add: view_of_def)
  next
    case False
    then obtain n where "given (view_of ?c) = concat (replicate (Suc n) chargen_message)"
      using v(2) by (auto simp: view_of_def)
    then show ?thesis by (intro exI [of _ "Suc n"]) simp
  qed
  moreover have "readable (inputBuffer ?c) = []" using v(1) by (simp add: view_of_def)
  ultimately show ?thesis using r(1) acc chargen_message_nth chargen_message_nth(1) [of 0] by simp
qed

theorem chargen_repeats_its_text_witness:
  "\<exists>\<sigma> n. runs_reporting ordinary (run_conn talking_net (code_of (chargen chargen_message)))
      (handle_conn talking_net (code_of (chargen chargen_message))) (\<lambda>_ _ _. False)
      (start (fresh_loop (new_connection 0 5 True))) \<sigma> \<and> \<not> crashed (pc \<sigma>) \<and>
    wire (user (lp \<sigma>)) @ readable (outputBuffer (user (lp \<sigma>))) = concat (replicate n chargen_message)"
proof -
  let ?run = "run_conn talking_net (code_of (chargen chargen_message))"
  have "runs_reporting ordinary ?run (handle_conn talking_net (code_of (chargen chargen_message))) (\<lambda>_ _ _. False)
      (start (fresh_loop (new_connection 0 5 True)))
      ((start (fresh_loop (new_connection 0 5 True)))\<lparr>lp := (fresh_loop (new_connection 0 5 True))\<lparr>looping := True,
         quitting := False\<rparr>, pc := Check\<rparr>)" by (rule enter_run)
  from chargen_repeats_its_text [OF this write_ok_talking_net] this show ?thesis by blast
qed

text \<open>What \<open>main\<close> of the two-message server makes of its arguments.\<close>

lemma burst_messages_Inr:
  assumes "burst_messages argv = Inr (m1, m2)"
  shows "\<exists>n1 n2. m1 = replicate n1 65 \<and> m2 = replicate n2 66 \<and> (length argv \<le> 2 \<longrightarrow> n1 = 100 \<and> n2 = 200)"
  using assms by (auto simp: burst_messages_def filled_string_def Let_def and_then_Inr_iff split: if_splits)

lemma burst_established:
  assumes w: "write_ok net"
  shows "\<exists>c1. connectEstablished net (code_of (burst m1 m2)) True (new_connection l sockfd False) = Inr c1 \<and>
    draining (m1 @ m2) c1 \<and> \<not> down c1 \<and> writeCallback (chan c1)"
proof -
  define ms where "ms = (if m1 \<noteq> [] then [m1] else []) @ (if m2 \<noteq> [] then [m2] else [])"
  let ?est = "update_chan enableReading ((new_connection l sockfd False)\<lparr>state := kConnected\<rparr>)"
  let ?c = "?est\<lparr>effects := effects ?est @ [UserCallback ConnectionCallback (connected ?est)]\<rparr>"
  have code: "code_of (burst m1 m2) ConnectionCallback ?est = map Send ms @ [Shutdown]"
    by (simp add: code_of_def burst_def view_of_def update_chan_def ms_def)
  have "sending ?c" using conn_inv_new [of l sockfd False]
    by (simp add: sending_def conn_inv_def update_chan_def) (simp add: new_connection_def)
  from send_all [OF this w, of ms] obtain c' where
    c': "for_each (user_step net) (map Send ms) ?c = Inr c'" "sending c'" "accepted c' = accepted ?c @ concat ms" by blast
  have acc: "accepted c' = m1 @ m2" using c'(3) by (simp add: ms_def update_chan_def new_connection_def)
  have "conn_inv c'" "state c' = kConnected" "\<not> down c'" "\<not> fin c'" "writeCallback (chan c')"
    using c'(2) by (simp_all add: sending_def)
  from shutdown_draining [OF this(1-4)] this(5) obtain c1 where
    c1: "shutdown True c' = Inr c1" "draining (m1 @ m2) c1" "\<not> down c1" "writeCallback (chan c1)" using acc by auto
  have "state (new_connection l sockfd False) = kConnecting" by (simp add: new_connection_def)
  then have "connectEstablished net (code_of (burst m1 m2)) True (new_connection l sockfd False)
      = call_user net (code_of (burst m1 m2)) ConnectionCallback ?est"
    by (simp add: connectEstablished_def in_loop_thread_def connected_def)
  also have "\<dots> = Inr c1" unfolding call_user_def code using c'(1) c1(1) by (simp add: for_each_append)
  finally show ?thesis using c1(2-4) by blast
qed

text \<open>The two-message server delivers both messages and then closes its side: established with the
  messages its arguments ask for, it has, after as many writability events as bytes were left, every
  byte of the first and then of the second message on the wire, nothing else, and the write side shut
  down, if the kernel takes at least a byte of every write; whatever events come before, the
  write side is never shut down earlier.\<close>

theorem burst_is_delivered:
  assumes "burst_messages argv = Inr (m1, m2)" and "write_ok net" and "\<And>k data. data \<noteq> [] \<Longrightarrow> 0 < sys_write net k data"
  shows "\<exists>c1 c2 n1 n2. connectEstablished net (code_of (burst m1 m2)) True (new_connection l sockfd False) = Inr c1 \<and>
    handle_events net (code_of (burst m1 m2)) (replicate (length (readable (outputBuffer c1))) POLLOUT) c1 = Inr c2 \<and>
    fin c2 \<and> wire c2 = replicate n1 65 @ replicate n2 66 \<and> (length argv \<le> 2 \<longrightarrow> n1 = 100 \<and> n2 = 200) \<and>
    (\<forall>revts. \<exists>c3. handle_events net (code_of (burst m1 m2)) revts c1 = Inr c3 \<and>
       (\<not> down c3 \<and> fin c3 \<longrightarrow> wire c3 = wire c2))"
proof -
  from burst_messages_Inr [OF assms(1)] obtain n1 n2 where
    n: "m1 = replicate n1 65" "m2 = replicate n2 66" "length argv \<le> 2 \<longrightarrow> n1 = 100 \<and> n2 = 200" by blast
  from burst_established [OF assms(2), of m1 m2 l sockfd] obtain c1 where
    c1: "connectEstablished net (code_of (burst m1 m2)) True (new_connection l sockfd False) = Inr c1"
      "draining (m1 @ m2) c1" "\<not> down c1" "writeCallback (chan c1)" by blast
  from write_events [OF assms(2,3) c1(2-4) order_refl, of "code_of (burst m1 m2)"] obtain c2 where
    c2: "handle_events net (code_of (burst m1 m2)) (replicate (length (readable (outputBuffer c1))) POLLOUT) c1 = Inr c2"
      "draining (m1 @ m2) c2" "\<not> down c2" "readable (outputBuffer c2) = []" by auto
  have whole: "wire c = m1 @ m2" if "draining (m1 @ m2) c" "\<not> down c" "fin c" for c
    using that by (auto simp: draining_def conn_inv_def)
  have "fin c2" using c2 by (simp add: draining_def)
  have "\<exists>c3. handle_events net (code_of (burst m1 m2)) revts c1 = Inr c3 \<and> (\<not> down c3 \<and> fin c3 \<longrightarrow> wire c3 = wire c2)" for revts
    using handle_events_draining [OF c1(2) assms(2), of "code_of (burst m1 m2)" revts] whole
      whole [OF c2(2,3) \<open>fin c2\<close>] by auto
  with c1(1) c2(1) \<open>fin c2\<close> whole [OF c2(2,3) \<open>fin c2\<close>] n show ?thesis by blast
qed

theorem burst_is_delivered_witness:
  "\<exists>c1 c2. connectEstablished slow_net (code_of (burst (replicate 3 65) [])) True (new_connection 0 5 False) = Inr c1 \<and>
    handle_events slow_net (code_of (burst (replicate 3 65) [])) (replicate (length (readable (outputBuffer c1))) POLLOUT) c1
      = Inr c2 \<and> fin c2"
proof -
  have "burst_messages [''test10'', ''3'', ''0''] = Inr (replicate 3 65, [])" by code_simp
  moreover have "0 < sys_write slow_net k data" if "data \<noteq> []" for k data using that by (simp add: slow_net_def)
  ultimately show ?thesis using burst_is_delivered [OF _ write_ok_slow_net] by blast
qed

text \<open>The other two: the discarding server sends nothing and keeps nothing, the client says hello once on
  every connection.\<close>

lemma discard_keeps_nothing:
  assumes "runs_reporting ordinary (run_conn net (code_of discard)) (handle_conn net (code_of discard)) (\<lambda>_ _ _. False)
      (start (fresh_loop (new_connection l sockfd wcc))) \<sigma>"
    and "write_ok net"
  shows "\<not> crashed (pc \<sigma>) \<and> readable (inputBuffer (user (lp \<sigma>))) = [] \<and> wire (user (lp \<sigma>)) = []"
  using alone_run [OF assms] discard_view [OF alone_run(3) [OF assms]] by (auto simp: view_of_def conn_inv_def)

lemma hello_is_said_once:
  assumes "runs_reporting ordinary (run_conn net (code_of hello)) (handle_conn net (code_of hello)) (\<lambda>_ _ _. False)
      (start (fresh_loop (new_connection l sockfd wcc))) \<sigma>"
    and "write_ok net"
  shows "\<not> crashed (pc \<sigma>) \<and> (state (user (lp \<sigma>)) \<noteq> kConnecting \<longrightarrow>
    wire (user (lp \<sigma>)) @ readable (outputBuffer (user (lp \<sigma>))) = hello_message)"
  using alone_run [OF assms] hello_view [OF alone_run(3) [OF assms]] by (simp add: view_of_def conn_inv_def)

text \<open>A server that starts listens in its own loop and has as many loops as its argument says; a negative
  number is an assertion failure.\<close>

lemma example_starts:
  assumes "start_example k ntop h start_loop sockfd bind_ret listen_ret argv = Inr s"
  shows "started s \<and> listening (acceptor s) \<and> connections s = Map.empty \<and>
    length (loops (pool s)) = (if k < length argv then nat (atoi (argv ! k)) else 0) \<and>
    (k < length argv \<longrightarrow> 0 \<le> atoi (argv ! k))"
proof -
  obtain s0 s1 where s0: "new_server ntop h 0 (InetAddress_port h 9981) sockfd bind_ret = Inr s0"
    and s1: "thread_arg k argv s0 = Inr s1" and s: "server_start start_loop True listen_ret s1 = Inr s"
    using assms by (auto simp: start_example_def and_then_Inr_iff)
  have "connections s0 = Map.empty" "pool s0 = new_thread_pool 0" "\<not> started s0"
    using s0 by (auto simp: new_server_def and_then_Inr_iff)
  then have "connections s1 = Map.empty" "\<not> started s1" "loops (pool s1) = []"
    "numThreads (pool s1) = (if k < length argv then atoi (argv ! k) else 0)"
    "k < length argv \<longrightarrow> 0 \<le> atoi (argv ! k)"
    using s1 by (auto simp: thread_arg_def server_setThreadNum_def setThreadNum_def new_thread_pool_def split: if_splits)
  then show ?thesis using s
    by (auto simp: server_start_def pool_start_def acceptor_listen_def and_then_Inr_iff split: if_splits)
qed

end
