(* ===== verification/CodecTest.thy ===== *)
theory CodecTest
  imports QueryPrograms
begin

section \<open>The tests of the codec: codec\_test.cc\<close>

text \<open>
  The test program of the codec, with every \<open>assert\<close> a step that can fail, and the proof that it passes
  on every host. What it prints is left out. \<open>DebugString\<close> is a function of the runtime.
\<close>

subsection \<open>Encoding and parsing a message\<close>

definition encode_and_read ::
  "host_order \<Rightarrow> query_pb \<Rightarrow> query_message \<Rightarrow> (int \<times> buffer) result" where
  "encode_and_read h pb m =
     and_then (fillEmptyBuffer h pb m new_buffer) (\<lambda>buf.
     and_then (readInt32 h buf) (\<lambda>(w, buf1).
     let len = sint w in
     require (len = sint (word_of_nat (readableBytes buf1) :: u32))
       (AssertionFailed ''len == static_cast<int32_t>(buf.readableBytes())'') (Inr (len, buf1))))"

definition parse_back ::
  "host_order \<Rightarrow> query_pb \<Rightarrow> (query_message \<Rightarrow> string) \<Rightarrow> bool \<Rightarrow> query_message \<Rightarrow> query_message option result" where
  "parse_back h pb DebugString check_code m =
     and_then (encode_and_read h pb m) (\<lambda>(len, buf).
     and_then (parse h pb (drop (peek buf) (vec buf)) len) (\<lambda>(errorCode, message).
     require (check_code \<longrightarrow> errorCode = kNoError) (AssertionFailed ''errorCode == ProtobufCodec::kNoError'')
    (case message of
       None \<Rightarrow> Inl (AssertionFailed ''message != NULL'')
     | Some m' \<Rightarrow>
         require (DebugString m' = DebugString m) (AssertionFailed ''message->DebugString() == query.DebugString()'')
           (Inr (Some m')))))"

definition cast_message :: "query_class \<Rightarrow> query_message option \<Rightarrow> unit result" where
  "cast_message T message =
     and_then (down_pointer_cast is_a T message) (\<lambda>new.
     require (new \<noteq> None) (AssertionFailed ''newQuery != NULL'') (Inr ()))"

definition testQuery :: "host_order \<Rightarrow> query_pb \<Rightarrow> (query_message \<Rightarrow> string) \<Rightarrow> unit result" where
  "testQuery h pb DebugString =
     and_then (parse_back h pb DebugString True (Query 1 ''Chen Shuo'' [''Running?''])) (cast_message QueryClass)"

definition testAnswer :: "host_order \<Rightarrow> query_pb \<Rightarrow> (query_message \<Rightarrow> string) \<Rightarrow> unit result" where
  "testAnswer h pb DebugString =
     and_then (parse_back h pb DebugString True
       (Answer 1 ''Chen Shuo'' ''blog.csdn.net/Solstice'' [''Jump!'', ''Win!''])) (cast_message AnswerClass)"

definition testEmpty :: "host_order \<Rightarrow> query_pb \<Rightarrow> (query_message \<Rightarrow> string) \<Rightarrow> unit result" where
  "testEmpty h pb DebugString =
     and_then (parse_back h pb DebugString False (Empty None)) (\<lambda>message. Inr ())"

subsection \<open>Damaged frames\<close>

text \<open>\<open>data[i] = b\<close> on a string, and \<open>c\_str\<close>, the string with its terminator.\<close>

definition set_at :: "nat \<Rightarrow> byte \<Rightarrow> byte list \<Rightarrow> byte list result" where
  "set_at i b data = require (i < length data) (OutOfBounds ''data'') (Inr (data[i := b]))"

definition c_str :: "byte list \<Rightarrow> byte list" where
  "c_str data = data @ [0]"

definition redoCheckSum :: "host_order \<Rightarrow> query_pb \<Rightarrow> int \<Rightarrow> byte list \<Rightarrow> byte list result" where
  "redoCheckSum h pb len data =
     and_then (read_bytes (c_str data) 0 (len - 4)) (\<lambda>summed.
     let checkSum = mem_bytes h 4 (hostToNetwork32 h (adler32 pb 1 summed)) in
     and_then (set_at (nat (len - 4)) (checkSum ! 0) data) (\<lambda>data.
     and_then (set_at (nat (len - 3)) (checkSum ! 1) data) (\<lambda>data.
     and_then (set_at (nat (len - 2)) (checkSum ! 2) data)
       (set_at (nat (len - 1)) (checkSum ! 3)))))"

definition expect_error ::
  "host_order \<Rightarrow> query_pb \<Rightarrow> int \<Rightarrow> error_code \<Rightarrow> byte list \<Rightarrow> unit result" where
  "expect_error h pb len expected data =
     and_then (parse h pb (c_str data) len) (\<lambda>(errorCode, message).
     require (message = None) (AssertionFailed ''message == NULL'')
    (require (errorCode = expected) (AssertionFailed ''errorCode == expected'') (Inr ())))"

definition expect_damaged ::
  "host_order \<Rightarrow> query_pb \<Rightarrow> int \<Rightarrow> nat \<Rightarrow> (byte \<Rightarrow> byte) \<Rightarrow> error_code \<Rightarrow> byte list \<Rightarrow> unit result" where
  "expect_damaged h pb len i f expected data =
     and_then (set_at i (f (data ! i)) data) (\<lambda>data.
     and_then (redoCheckSum h pb len data) (expect_error h pb len expected))"

definition testBadBuffer :: "host_order \<Rightarrow> query_pb \<Rightarrow> unit result" where
  "testBadBuffer h pb =
     and_then (encode_and_read h pb (Empty (Some 43))) (\<lambda>(len, buf).
     and_then (read_bytes (drop (peek buf) (vec buf)) 0 len) (\<lambda>data.
     and_then (expect_error h pb (len - 1) kCheckSumError data) (\<lambda>_.
     and_then (set_at (nat (len - 1)) (data ! nat (len - 1) + 1) data) (\<lambda>d.
     and_then (expect_error h pb len kCheckSumError d) (\<lambda>_.
     and_then (set_at 0 (data ! 0 + 1) data) (\<lambda>d.
     and_then (expect_error h pb len kCheckSumError d) (\<lambda>_.
     and_then (expect_damaged h pb len 3 (\<lambda>_. 0) kInvalidNameLen data) (\<lambda>_.
     and_then (expect_damaged h pb len 3 (\<lambda>_. 100) kInvalidNameLen data) (\<lambda>_.
     and_then (expect_damaged h pb len 3 (\<lambda>b. b - 1) kUnknownMessageType data) (\<lambda>_.
     and_then (expect_damaged h pb len 4 (\<lambda>_. 77) kUnknownMessageType data) (\<lambda>_.
     and_then (redoCheckSum h pb len data) (\<lambda>d.
     and_then (parse h pb (c_str d) len) (\<lambda>_. Inr ())))))))))))))"

subsection \<open>Two messages cut at every place\<close>

fun delivered :: "query_message codec_event list \<Rightarrow> nat" where
  "delivered [] = 0"
| "delivered (codec_event.MessageCallback m # evs) = Suc (delivered evs)"
| "delivered (ErrorCallback e # evs) = delivered evs"

definition cut_at :: "host_order \<Rightarrow> query_pb \<Rightarrow> byte list \<Rightarrow> nat \<Rightarrow> nat \<Rightarrow> unit \<Rightarrow> unit result" where
  "cut_at h pb all len1 len _ =
     and_then (append (take len all) new_buffer) (\<lambda>input.
     and_then (onMessage h pb input) (\<lambda>(evs, input1).
     let g_count = delivered evs;
         expected = (if len = length all then 2 else if len < len1 then 0 else 1) in
     require (g_count = expected) (AssertionFailed ''g_count == expected'')
    (and_then (append (drop len all) input1) (\<lambda>input2.
     and_then (onMessage h pb input2) (\<lambda>(evs', input3).
     require (g_count + delivered evs' = 2) (AssertionFailed ''g_count == 2'') (Inr ()))))))"

definition testOnMessage :: "host_order \<Rightarrow> query_pb \<Rightarrow> unit result" where
  "testOnMessage h pb =
     and_then (fillEmptyBuffer h pb (Query 1 ''Chen Shuo'' [''Running?'']) new_buffer) (\<lambda>buf1.
     and_then (fillEmptyBuffer h pb (Empty (Some 1982)) new_buffer) (\<lambda>buf2.
     let totalLen = readableBytes buf1 + readableBytes buf2 in
     and_then (append (readable buf1) new_buffer) (\<lambda>all1.
     and_then (append (readable buf2) all1) (\<lambda>all.
     require (readableBytes all = totalLen) (AssertionFailed ''all.readableBytes() == totalLen'')
       (for_each (cut_at h pb (readable all) (readableBytes buf1)) [0..<totalLen + 1] ())))))"

definition codec_test :: "host_order \<Rightarrow> query_pb \<Rightarrow> (query_message \<Rightarrow> string) \<Rightarrow> unit result" where
  "codec_test h pb DebugString =
     and_then (testQuery h pb DebugString) (\<lambda>_.
     and_then (testAnswer h pb DebugString) (\<lambda>_.
     and_then (testEmpty h pb DebugString) (\<lambda>_.
     and_then (testBadBuffer h pb) (\<lambda>_. testOnMessage h pb))))"

subsection \<open>The runtime the tests are built with\<close>

text \<open>
  What the documentation of zlib and of protocol buffers says of the functions the tests use: the
  checksum of RFC 1950, the full name of a message type, the encoding of an \<open>int32\<close> field with tag
  1, and that there are no types of the damaged names.
\<close>

definition rfc1950 :: "byte list \<Rightarrow> u32" where
  "rfc1950 bs = (let (a, b) = fold (\<lambda>x (a, b). ((a + uint x) mod 65521, (b + (a + uint x)) mod 65521)) bs (1, 0)
     in word_of_int (b * 65536 + a))"

definition muduo_Empty :: "byte list" where
  "muduo_Empty = [109, 117, 100, 117, 111, 46, 69, 109, 112, 116, 121]"

definition documented :: "query_pb \<Rightarrow> bool" where
  "documented pb \<longleftrightarrow>
     list_all (\<lambda>m. encodable pb m \<and> decodable pb m)
       [Query 1 ''Chen Shuo'' [''Running?''], Answer 1 ''Chen Shuo'' ''blog.csdn.net/Solstice'' [''Jump!'', ''Win!''],
        Empty None, Empty (Some 43), Empty (Some 1982)] \<and>
     GetTypeName pb (Empty (Some 43)) = muduo_Empty \<and> SerializeToArray pb (Empty (Some 43)) = [8, 43] \<and>
     FindMessageTypeByName pb (butlast muduo_Empty) = None \<and>
     FindMessageTypeByName pb (77 # tl muduo_Empty) = None \<and>
     (\<forall>bs. adler32 pb 1 bs = rfc1950 bs)"

subsection \<open>The encoding tests pass\<close>

lemma encode_and_read_ok:
  assumes "encodable pb m"
  shows "\<exists>buf. encode_and_read h pb m = Inr (int (length (frame_body pb m) + 4), buf) \<and> wf_buffer buf \<and>
    readable buf = frame_body pb m @ be_bytes 4 (adler32 pb 1 (frame_body pb m))"
proof -
  let ?N = "length (frame_body pb m) + 4"
  from fillEmptyBuffer_ok [OF wf_new_buffer readable_new_buffer _ assms, of h] obtain b where
    b: "fillEmptyBuffer h pb m new_buffer = Inr b" "wf_buffer b" "readable b = frame pb m" by auto
  have pk: "peekInt32 h b = Inr (word_of_nat ?N)"
    using peekInt32_ok [OF b(2), of h] b(3) by (simp add: frame_def del: length_frame_body)
  have "4 \<le> length (readable b)" using b(3) by simp
  from retrieve_ok [OF b(2) this] obtain c where
    c: "retrieve 4 b = Inr c" "wf_buffer c" "readable c = drop 4 (readable b)" by blast
  have rd: "readable c = frame_body pb m @ be_bytes 4 (adler32 pb 1 (frame_body pb m))"
    unfolding c(3) b(3) frame_def by (simp del: length_frame_body)
  have N: "?N < 2 ^ 31" using assms by (simp add: encodable_def)
  have "readableBytes c = ?N" using c(2) rd by (simp add: readableBytes_wf del: length_frame_body)
  then have "encode_and_read h pb m = Inr (int ?N, c)"
    using b(1) pk c(1) sint_word_of_nat32 [OF N] by (simp add: encode_and_read_def readInt32_def Let_def del: length_frame_body)
  with c(2) rd show ?thesis by blast
qed

lemma parse_back_ok:
  assumes "encodable pb m" and "decodable pb m"
  shows "parse_back h pb DebugString check_code m = Inr (Some m)"
proof -
  from encode_and_read_ok [OF assms(1), of h] obtain buf where
    buf: "encode_and_read h pb m = Inr (int (length (frame_body pb m) + 4), buf)" "wf_buffer buf"
      "readable buf = frame_body pb m @ be_bytes 4 (adler32 pb 1 (frame_body pb m))" by blast
  have "drop (peek buf) (vec buf) = frame_body pb m @ be_bytes 4 (adler32 pb 1 (frame_body pb m)) @ drop (writerIndex buf) (vec buf)"
    by (simp add: drop_peek [OF buf(2)] buf(3))
  from parse_frame [OF assms(2) this] buf(1) show ?thesis
    by (simp add: parse_back_def del: length_frame_body of_nat_add)
qed

subsection \<open>The damaged frames are recognised\<close>

text \<open>\<open>parse\<close> on input that is long enough, with the reads evaluated.\<close>

lemma parse_reads:
  assumes "8 \<le> N" and "N \<le> length bytes"
  shows "parse h pb bytes (int N) =
    (if be_word (take 4 (drop (N - 4) bytes)) = adler32 pb 1 (take (N - 4) bytes) then
       let nameLen = sint (be_word (take 4 bytes) :: u32) in
       if 2 \<le> nameLen \<and> nameLen \<le> int N - 8 then
         (case createMessage pb (take (nat (nameLen - 1)) (drop 4 bytes)) of
            None \<Rightarrow> Inr (kUnknownMessageType, None)
          | Some message \<Rightarrow>
              let (ok, message') = ParseFromArray pb message
                (take (nat (int N - 8 - nameLen)) (drop (nat (4 + nameLen)) bytes))
              in Inr (if ok then kNoError else kParseError, Some message'))
       else Inr (kInvalidNameLen, None)
     else Inr (kCheckSumError, None))"
proof -
  have "nat (int N - 4) = N - 4" by simp
  then show ?thesis using assms
    by (auto simp: parse_def asInt32_ok read_bytes_ok codec_consts Let_def of_nat_diff split: option.split)
qed

lemma redoCheckSum_ok:
  assumes "length data = N" and "8 \<le> N"
  shows "redoCheckSum h pb (int N) data = Inr (take (N - 4) data @ be_bytes 4 (adler32 pb 1 (take (N - 4) data)))"
proof -
  let ?cs = "be_bytes 4 (adler32 pb 1 (take (N - 4) data))"
  have idx: "nat (int N - 4) = N - 4" "nat (int N - 3) = N - 3" "nat (int N - 2) = N - 2" "nat (int N - 1) = N - 1"
    using assms(2) by simp_all
  have rd: "read_bytes (c_str data) 0 (int N - 4) = Inr (take (N - 4) data)"
    using assms by (simp add: read_bytes_ok c_str_def idx)
  have "redoCheckSum h pb (int N) data
      = Inr (data[N - 4 := ?cs ! 0, N - 3 := ?cs ! 1, N - 2 := ?cs ! 2, N - 1 := ?cs ! 3])"
    using assms by (simp add: redoCheckSum_def rd set_at_def idx mem_hostToNetwork32 Let_def)
  also have "data[N - 4 := ?cs ! 0, N - 3 := ?cs ! 1, N - 2 := ?cs ! 2, N - 1 := ?cs ! 3] = take (N - 4) data @ ?cs"
  proof (rule nth_equalityI)
    fix i
    assume "i < length (data[N - 4 := ?cs ! 0, N - 3 := ?cs ! 1, N - 2 := ?cs ! 2, N - 1 := ?cs ! 3])"
    then have i: "i < N" using assms(1) by simp
    consider "i < N - 4" | "i = N - 4" | "i = N - 3" | "i = N - 2" | "i = N - 1" using i by linarith
    then show "data[N - 4 := ?cs ! 0, N - 3 := ?cs ! 1, N - 2 := ?cs ! 2, N - 1 := ?cs ! 3] ! i = (take (N - 4) data @ ?cs) ! i"
    proof cases
      case 1
      then show ?thesis using assms by (simp add: nth_append)
    next
      case 2
      then show ?thesis using assms by (simp add: nth_append)
    next
      case 3
      then have "i - (N - 4) = 1" "\<not> i < N - 4" using assms by linarith+
      with 3 show ?thesis using assms by (simp add: nth_append)
    next
      case 4
      then have "i - (N - 4) = 2" "\<not> i < N - 4" using assms by linarith+
      with 4 show ?thesis using assms by (simp add: nth_append)
    next
      case 5
      then have "i - (N - 4) = 3" "\<not> i < N - 4" using assms by linarith+
      with 5 show ?thesis using assms by (simp add: nth_append)
    qed
  qed (use assms in simp)
  finally show ?thesis .
qed

lemma expect_damaged_ok:
  assumes D: "length D = N" "10 \<le> N" and i: "i < N - 4" and D': "D' = take (N - 4) (D[i := f (D ! i)])"
    and nl: "nameLen = sint (be_word (take 4 D') :: u32)"
    and e: "if 2 \<le> nameLen \<and> nameLen \<le> int N - 8
        then expected = kUnknownMessageType \<and> createMessage pb (take (nat (nameLen - 1)) (drop 4 D')) = None
        else expected = kInvalidNameLen"
  shows "expect_damaged h pb (int N) i f expected D = Inr ()"
proof -
  let ?bytes = "D' @ be_bytes 4 (adler32 pb 1 D') @ [0]"
  have l: "length D' = N - 4" using D D' by simp
  have r: "redoCheckSum h pb (int N) (D[i := f (D ! i)]) = Inr (D' @ be_bytes 4 (adler32 pb 1 D'))"
    using redoCheckSum_ok [of "D[i := f (D ! i)]" N h pb] D D' by simp
  have "parse h pb ?bytes (int N) = Inr (expected, None)"
  proof -
    have "take 4 ?bytes = take 4 D'" using l D(2) by simp
    moreover have "take (nat (nameLen - 1)) (drop 4 ?bytes) = take (nat (nameLen - 1)) (drop 4 D')" if "nameLen \<le> int N - 8"
      using l D(2) that by simp
    ultimately show ?thesis using parse_reads [of N ?bytes h pb] l D(2) e nl
      by (auto simp: Let_def split: if_splits)
  qed
  moreover have "i < N" using i by simp
  ultimately show ?thesis using D(1) r
    by (simp add: expect_damaged_def set_at_def expect_error_def c_str_def)
qed

lemma expect_checksum_error:
  assumes "8 \<le> N" and "N \<le> length D" and "be_word (take 4 (drop (N - 4) D)) \<noteq> adler32 pb 1 (take (N - 4) D)"
  shows "expect_error h pb (int N) kCheckSumError D = Inr ()"
  using assms parse_reads [of N "c_str D" h pb] by (simp add: expect_error_def c_str_def)

text \<open>The message of \<open>testBadBuffer\<close> on the wire, after its length.\<close>

definition empty_body :: "byte list" where
  "empty_body = [0, 0, 0, 12] @ muduo_Empty @ [0] @ [8, 43]"

definition empty_frame :: "byte list" where
  "empty_frame = empty_body @ be_bytes 4 (rfc1950 empty_body)"

lemma empty_frame_checksums:
  "be_word (take 4 (drop 17 empty_frame)) \<noteq> rfc1950 (take 17 empty_frame)"
  "be_word (take 4 (drop 18 (empty_frame[21 := empty_frame ! 21 + 1]))) \<noteq> rfc1950 (take 18 (empty_frame[21 := empty_frame ! 21 + 1]))"
  "be_word (take 4 (drop 18 (empty_frame[0 := empty_frame ! 0 + 1]))) \<noteq> rfc1950 (take 18 (empty_frame[0 := empty_frame ! 0 + 1]))"
  by code_simp+

lemma empty_frame_shape: "length empty_frame = 22" "take 18 empty_frame = empty_body"
  by (simp_all add: empty_frame_def empty_body_def muduo_Empty_def)

lemma testBadBuffer_ok:
  assumes "documented pb"
  shows "testBadBuffer h pb = Inr ()"
proof -
  let ?m = "Empty (Some 43)"
  have enc: "encodable pb ?m" and name: "GetTypeName pb ?m = muduo_Empty" and ser: "SerializeToArray pb ?m = [8, 43]"
    and unknown: "createMessage pb (butlast muduo_Empty) = None" "createMessage pb (77 # tl muduo_Empty) = None"
    and sum: "\<And>bs. adler32 pb 1 bs = rfc1950 bs"
    using assms by (simp_all add: documented_def createMessage_def)
  have "be_bytes 4 (word_of_nat (length (GetTypeName pb ?m) + 1) :: u32) = [0, 0, 0, 12]"
    unfolding name by code_simp
  then have body: "frame_body pb ?m = empty_body" by (simp only: frame_body_def empty_body_def name ser append_assoc)
  from encode_and_read_ok [OF enc, of h] obtain buf where
    buf: "encode_and_read h pb ?m = Inr (int 22, buf)" "wf_buffer buf" "readable buf = empty_frame"
    unfolding body sum empty_frame_def by (auto simp: empty_body_def muduo_Empty_def)
  have data: "read_bytes (drop (peek buf) (vec buf)) 0 (int 22) = Inr empty_frame"
    using buf(3) empty_frame_shape(1) by (simp add: drop_peek [OF buf(2)] read_bytes_ok)
  have idx: "nat (int 22 - 1) = 21" "int 22 - 1 = int 21" by simp_all
  have e1: "expect_error h pb (int 21) kCheckSumError empty_frame = Inr ()"
    by (rule expect_checksum_error) (use empty_frame_checksums(1) sum in \<open>simp_all add: empty_frame_shape\<close>)
  have e2: "expect_error h pb (int 22) kCheckSumError (empty_frame[21 := empty_frame ! 21 + 1]) = Inr ()"
    by (rule expect_checksum_error) (use empty_frame_checksums(2) sum in \<open>simp_all add: empty_frame_shape\<close>)
  have e3: "expect_error h pb (int 22) kCheckSumError (empty_frame[0 := empty_frame ! 0 + 1]) = Inr ()"
    by (rule expect_checksum_error) (use empty_frame_checksums(3) sum in \<open>simp_all add: empty_frame_shape\<close>)
  have w: "be_word [0, 0, 0, 0 :: byte] = (0 :: u32)" "be_word [0, 0, 0, 100 :: byte] = (100 :: u32)"
    "be_word [0, 0, 0, 11 :: byte] = (11 :: u32)" "be_word [0, 0, 0, 12 :: byte] = (12 :: u32)" by code_simp+
  note damaged = expect_damaged_ok [where D = empty_frame and N = 22, OF empty_frame_shape(1)]
  have e4: "expect_damaged h pb (int 22) 3 (\<lambda>_. 0) kInvalidNameLen empty_frame = Inr ()"
    by (rule damaged [OF _ _ refl refl])
      (simp_all add: take_update_swap empty_frame_shape, simp add: empty_body_def w)
  have e5: "expect_damaged h pb (int 22) 3 (\<lambda>_. 100) kInvalidNameLen empty_frame = Inr ()"
    by (rule damaged [OF _ _ refl refl])
      (simp_all add: take_update_swap empty_frame_shape, simp add: empty_body_def w)
  have third: "empty_frame ! 3 = 12" by (simp add: empty_frame_def empty_body_def)
  have e6: "expect_damaged h pb (int 22) 3 (\<lambda>b. b - 1) kUnknownMessageType empty_frame = Inr ()"
    by (rule damaged [OF _ _ refl refl])
      (simp_all add: take_update_swap empty_frame_shape third, use unknown(1) in \<open>simp add: empty_body_def w muduo_Empty_def\<close>)
  have e7: "expect_damaged h pb (int 22) 4 (\<lambda>_. 77) kUnknownMessageType empty_frame = Inr ()"
    by (rule damaged [OF _ _ refl refl])
      (simp_all add: take_update_swap empty_frame_shape, use unknown(2) in \<open>simp add: empty_body_def w muduo_Empty_def\<close>)
  have r: "redoCheckSum h pb (int 22) empty_frame = Inr empty_frame"
    using redoCheckSum_ok [of empty_frame 22 h pb] by (simp add: empty_frame_shape sum) (simp add: empty_frame_def)
  have ne: "empty_frame \<noteq> []" using empty_frame_shape(1) by auto
  have "\<exists>x. parse h pb (c_str empty_frame) (int 22) = Inr x"
    using parse_in_range [of "int 22" "c_str empty_frame" h pb] by (auto simp: c_str_def empty_frame_shape)
  then show ?thesis
    unfolding testBadBuffer_def buf(1)
    by (auto simp: ne data set_at_def idx empty_frame_shape e1 e2 e3 e4 e5 e6 e7 r simp del: of_nat_numeral)
qed

subsection \<open>Every cut delivers both messages\<close>

lemma delivered_callbacks [simp]: "delivered (map codec_event.MessageCallback ms) = length ms"
  by (induction ms) auto

lemma cut_at_split:
  assumes dec: "decodable pb q" "decodable pb e"
    and ms: "take len all = concat (map (frame pb) ms) @ take n (frame pb m')" "n < length (frame pb m')" "decodable pb m'"
    and rest: "take n (frame pb m') @ drop len all = concat (map (frame pb) ms')"
    and both: "ms @ ms' = [q, e]" and count: "length ms = (if len = length all then 2 else if len < len1 then 0 else 1)"
  shows "cut_at h pb all len1 len () = Inr ()"
proof -
  have d: "\<forall>m \<in> set ms. decodable pb m" "\<forall>m \<in> set ms'. decodable pb m"
  proof -
    have "set ms \<subseteq> {q, e}" "set ms' \<subseteq> {q, e}" using arg_cong [OF both, of set] by auto
    then show "\<forall>m \<in> set ms. decodable pb m" "\<forall>m \<in> set ms'. decodable pb m" using dec by auto
  qed
  from append_ok [OF wf_new_buffer, of "take len all"] obtain b where
    b: "append (take len all) new_buffer = Inr b" "wf_buffer b" "readable b = take len all" by auto
  have "readable b = concat (map (frame pb) ms) @ take n (frame pb m')" using b(3) ms(1) by simp
  from onMessage_frames [OF b(2) d(1) ms(3) this ms(2), of h] obtain b1 where
    b1: "onMessage h pb b = Inr (map codec_event.MessageCallback ms, b1)" "wf_buffer b1"
      "readable b1 = take n (frame pb m')" by blast
  from append_ok [OF b1(2), of "drop len all"] obtain b2 where
    b2: "append (drop len all) b1 = Inr b2" "wf_buffer b2" "readable b2 = readable b1 @ drop len all" by auto
  have "readable b2 = concat (map (frame pb) ms') @ take 0 (frame pb q)" using b2(3) b1(3) rest by simp
  from onMessage_frames [OF b2(2) d(2) dec(1) this, of h] obtain b3 where
    b3: "onMessage h pb b2 = Inr (map codec_event.MessageCallback ms', b3)" by auto
  have "length ms + length ms' = 2" using arg_cong [OF both, of length] by simp
  then show ?thesis using b(1) b1(1) b2(1) b3 count by (simp add: cut_at_def Let_def)
qed

lemma cut_at_ok:
  assumes dec: "decodable pb q" "decodable pb e" and len: "len \<le> length (frame pb q @ frame pb e)"
  shows "cut_at h pb (frame pb q @ frame pb e) (length (frame pb q)) len () = Inr ()"
proof -
  let ?q = "frame pb q" and ?e = "frame pb e"
  have pos: "0 < length ?q" "0 < length ?e" by simp_all
  consider (all) "len = length (?q @ ?e)" | (none) "len < length ?q" | (one) "length ?q \<le> len" "len < length (?q @ ?e)"
    using len by linarith
  then show ?thesis
  proof cases
    case all
    show ?thesis
      by (rule cut_at_split [OF dec, of _ _ "[q, e]" 0 q "[]"])
        (use all pos dec in \<open>simp_all del: length_frame\<close>)
  next
    case none
    show ?thesis
      by (rule cut_at_split [OF dec, of _ _ "[]" len q "[q, e]"])
        (use none pos dec in \<open>simp_all add: append_assoc [symmetric] del: length_frame append_assoc\<close>)
  next
    case one
    show ?thesis
      by (rule cut_at_split [OF dec, of _ _ "[q]" "len - length ?q" e "[e]"])
        (use one pos dec in \<open>simp_all del: length_frame\<close>)
  qed
qed

lemma testOnMessage_ok:
  assumes "documented pb"
  shows "testOnMessage h pb = Inr ()"
proof -
  let ?q = "Query 1 ''Chen Shuo'' [''Running?'']" and ?e = "Empty (Some 1982)"
  have enc: "encodable pb ?q" "encodable pb ?e" and dec: "decodable pb ?q" "decodable pb ?e"
    using assms by (simp_all add: documented_def)
  from fillEmptyBuffer_ok [OF wf_new_buffer readable_new_buffer _ enc(1), of h] obtain b1 where
    b1: "fillEmptyBuffer h pb ?q new_buffer = Inr b1" "wf_buffer b1" "readable b1 = frame pb ?q" by auto
  from fillEmptyBuffer_ok [OF wf_new_buffer readable_new_buffer _ enc(2), of h] obtain b2 where
    b2: "fillEmptyBuffer h pb ?e new_buffer = Inr b2" "wf_buffer b2" "readable b2 = frame pb ?e" by auto
  from append_ok [OF wf_new_buffer, of "readable b1"] obtain a1 where
    a1: "append (readable b1) new_buffer = Inr a1" "wf_buffer a1" "readable a1 = readable b1" by auto
  from append_ok [OF a1(2), of "readable b2"] obtain a where
    a: "append (readable b2) a1 = Inr a" "wf_buffer a" "readable a = frame pb ?q @ frame pb ?e"
    using a1(3) b1(3) b2(3) by auto
  have rb: "readableBytes b1 = length (frame pb ?q)" "readableBytes b2 = length (frame pb ?e)"
    "readableBytes a = length (frame pb ?q @ frame pb ?e)"
    using b1 b2 a by (simp_all add: readableBytes_wf del: length_frame)
  have "for_each (cut_at h pb (readable a) (readableBytes b1)) [0..<n] () = Inr ()"
    if "n \<le> length (frame pb ?q @ frame pb ?e) + 1" for n
    using that
  proof (induction n)
    case (Suc n)
    then have "n \<le> length (frame pb ?q @ frame pb ?e)" by simp
    from cut_at_ok [OF dec this, of h] Suc show ?case
      unfolding a(3) rb by (simp add: for_each_append del: length_frame length_append)
  qed simp
  then show ?thesis using b1(1) b2(1) a1(1) a(1) rb by (simp add: testOnMessage_def Let_def del: upt_Suc length_frame)
qed

subsection \<open>Properties\<close>

text \<open>C39: The codec's test program passes: with any runtime that behaves as the documentation of
  zlib and of protocol buffers says, on a host of either byte order, no assertion of \<open>codec\_test\<close>
  fails: what is encoded is parsed back, each damaged frame is recognised with the expected error,
  and two messages cut at any place are delivered, the first as soon as it is complete.\<close>

theorem codec_test_passes:
  assumes "documented pb"
  shows "codec_test h pb DebugString = Inr ()"
proof -
  have "encodable pb m \<and> decodable pb m"
    if "m \<in> {Query 1 ''Chen Shuo'' [''Running?''], Answer 1 ''Chen Shuo'' ''blog.csdn.net/Solstice'' [''Jump!'', ''Win!''], Empty None}"
    for m using assms that by (auto simp: documented_def)
  note ok = this
  have "testQuery h pb DebugString = Inr ()"
    using parse_back_ok [of pb "Query 1 ''Chen Shuo'' [''Running?'']" h DebugString True] ok
    by (simp add: testQuery_def cast_message_def down_pointer_cast_def is_a_def)
  moreover have "testAnswer h pb DebugString = Inr ()"
    using parse_back_ok [of pb "Answer 1 ''Chen Shuo'' ''blog.csdn.net/Solstice'' [''Jump!'', ''Win!'']" h DebugString True] ok
    by (simp add: testAnswer_def cast_message_def down_pointer_cast_def is_a_def)
  moreover have "testEmpty h pb DebugString = Inr ()"
    using parse_back_ok [of pb "Empty None" h DebugString False] ok by (simp add: testEmpty_def)
  ultimately show ?thesis
    using testBadBuffer_ok [OF assms] testOnMessage_ok [OF assms] by (simp add: codec_test_def)
qed

text \<open>A runtime that satisfies the hypotheses, for the messages of the tests.\<close>

definition test_runtime :: query_pb where
  "test_runtime = \<lparr>GetTypeName = (\<lambda>m. case class_of m of QueryClass \<Rightarrow> [81] | AnswerClass \<Rightarrow> [65]
       | EmptyClass \<Rightarrow> muduo_Empty | OtherClass n \<Rightarrow> [79]),
     GetDescriptor = class_of, IsInitialized = (\<lambda>_. True), InitializationErrorString = (\<lambda>_. []),
     ByteSizeLong = (\<lambda>m. if m = Empty (Some 43) then 2 else if m = Empty (Some 1982) then 3 else 0),
     SerializeToArray = (\<lambda>m. if m = Empty (Some 43) then [8, 43] else if m = Empty (Some 1982) then [8, 190, 15] else []),
     ParseFromArray = (\<lambda>m bs. (True, if bs = [8, 43] then Empty (Some 43) else if bs = [8, 190, 15] then Empty (Some 1982) else m)),
     FindMessageTypeByName = (\<lambda>n. if n = [81] then Some QueryClass else if n = [65] then Some AnswerClass
       else if n = muduo_Empty then Some EmptyClass else None),
     GetPrototype = (\<lambda>d. case d of QueryClass \<Rightarrow> Some (Query 1 ''Chen Shuo'' [''Running?''])
       | AnswerClass \<Rightarrow> Some server_answer | EmptyClass \<Rightarrow> Some (Empty None) | OtherClass n \<Rightarrow> None),
     adler32 = (\<lambda>a bs. rfc1950 bs)\<rparr>"

theorem codec_test_passes_witness: "codec_test BigEndian test_runtime (\<lambda>m. ''message'') = Inr ()"
proof (rule codec_test_passes)
  show "documented test_runtime"
    by (simp add: documented_def encodable_def decodable_def createMessage_def codec_consts)
      (simp add: test_runtime_def server_answer_def muduo_Empty_def)
qed

end
