(* ===== verification/DispatcherTest.thy ===== *)
theory DispatcherTest
  imports QueryPrograms
begin

section \<open>The tests of the dispatchers: dispatcher\_test.cc and dispatcher\_lite\_test.cc\<close>

text \<open>
  Both programs register callbacks for two message types, dispatch a message of each and one of a
  third type, and print a line for each. The state of the callbacks is the list of lines printed;
  \<open>TypeName\<close> is \<open>GetTypeName\<close> of the runtime.
\<close>

type_synonym test_callback = "(unit, query_message, unit, string list) callback"

type_synonym test_pointer_callback = "(unit, query_message option, unit, string list) callback"

definition default_query :: query_message where
  "default_query = Query 0 [] []"

definition default_answer :: query_message where
  "default_answer = Answer 0 [] [] []"

subsection \<open>dispatcher\_test.cc\<close>

definition test_down_pointer_cast :: "unit result" where
  "test_down_pointer_cast =
     and_then (down_pointer_cast is_a QueryClass (Some default_query)) (\<lambda>query.
       require (query \<noteq> None) (AssertionFailed ''msg && query'') (Inr ()))"

definition test_onQuery :: "(query_message \<Rightarrow> string) \<Rightarrow> test_callback" where
  "test_onQuery TypeName conn message t out = Inr (out @ [''onQuery: '' @ TypeName message])"

definition test_onAnswer :: "(query_message \<Rightarrow> string) \<Rightarrow> test_callback" where
  "test_onAnswer TypeName conn message t out = Inr (out @ [''onAnswer: '' @ TypeName message])"

definition test_onUnknown :: "(query_message \<Rightarrow> string) \<Rightarrow> test_pointer_callback" where
  "test_onUnknown TypeName conn message t out =
     (case message of None \<Rightarrow> Inl (NullDereference ''message'')
      | Some m \<Rightarrow> Inr (out @ [''onUnknownMessageType: '' @ TypeName m]))"

definition dispatcher_test :: "(query_message \<Rightarrow> string) \<Rightarrow> string list result" where
  "dispatcher_test TypeName =
     and_then test_down_pointer_cast (\<lambda>_.
     let d = registerMessageCallback (\<lambda>T. T) AnswerClass (test_onAnswer TypeName)
           (registerMessageCallback (\<lambda>T. T) QueryClass (test_onQuery TypeName) (new_dispatcher (test_onUnknown TypeName)))
     in for_each (\<lambda>m. onProtobufMessage class_of is_a d () (Some m) ()) [default_query, default_answer, Empty None] [])"

subsection \<open>dispatcher\_lite\_test.cc\<close>

definition print_and_cast :: "query_class \<Rightarrow> string \<Rightarrow> (query_message \<Rightarrow> string) \<Rightarrow> test_pointer_callback" where
  "print_and_cast T label TypeName conn message t out =
     (case message of None \<Rightarrow> Inl (NullDereference ''message'')
      | Some m \<Rightarrow>
          and_then (down_pointer_cast is_a T message) (\<lambda>concrete.
            require (concrete \<noteq> None) (AssertionFailed ''query != NULL'') (Inr (out @ [label @ TypeName m]))))"

definition lite_onQuery :: "(query_message \<Rightarrow> string) \<Rightarrow> test_pointer_callback" where
  "lite_onQuery = print_and_cast QueryClass ''onQuery: ''"

definition lite_onAnswer :: "(query_message \<Rightarrow> string) \<Rightarrow> test_pointer_callback" where
  "lite_onAnswer = print_and_cast AnswerClass ''onAnswer: ''"

definition dispatcher_lite_test :: "(query_message \<Rightarrow> string) \<Rightarrow> string list result" where
  "dispatcher_lite_test TypeName =
     (let d = registerMessageCallback_lite AnswerClass (lite_onAnswer TypeName)
           (registerMessageCallback_lite QueryClass (lite_onQuery TypeName) (new_dispatcher_lite (test_onUnknown TypeName)))
      in for_each (\<lambda>m. onProtobufMessage_lite class_of d () (Some m) ()) [default_query, default_answer, Empty None] [])"

subsection \<open>Properties\<close>

text \<open>The dispatcher tests pass and print the same: with either dispatcher the query and the answer reach
  the callback of their type and the empty message the default callback, in the order they were
  dispatched, and no cast fails.\<close>

theorem dispatcher_tests_agree:
  "dispatcher_test TypeName = Inr [''onQuery: '' @ TypeName default_query, ''onAnswer: '' @ TypeName default_answer,
     ''onUnknownMessageType: '' @ TypeName (Empty None)] \<and>
   dispatcher_lite_test TypeName = dispatcher_test TypeName"
  by (simp add: dispatcher_test_def dispatcher_lite_test_def test_down_pointer_cast_def default_query_def
      default_answer_def lite_onQuery_def lite_onAnswer_def print_and_cast_def test_onQuery_def test_onAnswer_def
      test_onUnknown_def onProtobufMessage_def onProtobufMessage_lite_def callbackT_onMessage_def
      registerMessageCallback_def registerMessageCallback_lite_def set_callback_def down_pointer_cast_def is_a_def Let_def)

end
