(* ===== verification/ClientLoop.thy ===== *)
theory ClientLoop
  imports ServerLoop TcpClient
begin

section \<open>A client with its connections\<close>

text \<open>
  \<open>TcpClient\<close>, its \<open>Connector\<close> and \<open>TcpConnection\<close> put together: the connector's timer, socket and queued
  reset, the events and functors of the connections, and calls from other threads take turns in any
  order the loop allows. A client creates a new connection object for every attempt that succeeds and
  establishes it at once; a connection it has given up stays in its loop until \<open>connectDestroyed\<close> has
  run. Connections are numbers, \<open>conns\<close> has the state of each and the functors pending for it.
\<close>

record clienting =
  client :: tcp_client
  conns :: "nat \<Rightarrow> (conn_functor list \<times> tcp_connection) option"

definition new_clienting :: "tcp_client \<Rightarrow> clienting" where
  "new_clienting k = \<lparr>client = k, conns = Map.empty\<rparr>"

subsection \<open>Carrying out what the client asks\<close>

text \<open>\<open>in_loop\<close> says whether the caller of \<open>disconnect\<close> is the loop's thread.\<close>

fun carry_out ::
  "(nat \<Rightarrow> net) \<Rightarrow> (nat \<Rightarrow> user_code) \<Rightarrow> bool \<Rightarrow> bool \<Rightarrow> conn_request \<Rightarrow> clienting \<Rightarrow> clienting result" where
  "carry_out nets code wcc in_loop (EstablishConnection n name sockfd) h =
     and_then (connectEstablished (nets n) (code n) True (new_connection 0 sockfd wcc)) (\<lambda>t.
       Inr (h\<lparr>conns := (conns h)(n \<mapsto> (toLoop t, t\<lparr>toLoop := []\<rparr>))\<rparr>))"
| "carry_out nets code wcc in_loop (ShutdownConnection n) h =
     (case conns h n of
        None \<Rightarrow> Inl (NullDereference ''connection_'')
      | Some (fs, t) \<Rightarrow> and_then (shutdown in_loop t) (\<lambda>t'.
          Inr (h\<lparr>conns := (conns h)(n \<mapsto> (fs @ toLoop t', t'\<lparr>toLoop := []\<rparr>))\<rparr>)))"
| "carry_out nets code wcc in_loop (DestroyConnection n) h =
     (case conns h n of
        None \<Rightarrow> Inl (NullDereference ''conn'')
      | Some (fs, t) \<Rightarrow> Inr (h\<lparr>conns := (conns h)(n \<mapsto> (fs @ [ConnectDestroyed], t))\<rparr>))"

definition with_client ::
  "(nat \<Rightarrow> net) \<Rightarrow> (nat \<Rightarrow> user_code) \<Rightarrow> bool \<Rightarrow> bool \<Rightarrow> tcp_client result \<Rightarrow> clienting \<Rightarrow> clienting result" where
  "with_client nets code wcc in_loop r h = and_then r (\<lambda>k.
     for_each (carry_out nets code wcc in_loop) (toConnection k) (h\<lparr>client := k\<lparr>toConnection := []\<rparr>\<rparr>))"

text \<open>
  A connection's code returns: what it queued goes to its loop, and each call of the close callback is
  \<open>removeConnection\<close>, with \<open>sys\<close> for the system calls of a restart.
\<close>

definition lost :: "(nat \<Rightarrow> net) \<Rightarrow> (nat \<Rightarrow> user_code) \<Rightarrow> bool \<Rightarrow> int \<times> int \<Rightarrow> nat \<Rightarrow> clienting \<Rightarrow> clienting result" where
  "lost nets code wcc sys n h = with_client nets code wcc True (client_removeConnection True sys n (client h)) h"

definition back_to ::
  "(nat \<Rightarrow> net) \<Rightarrow> (nat \<Rightarrow> user_code) \<Rightarrow> bool \<Rightarrow> int \<times> int \<Rightarrow> nat \<Rightarrow> conn_functor list \<Rightarrow> tcp_connection
     \<Rightarrow> tcp_connection result \<Rightarrow> clienting \<Rightarrow> clienting result" where
  "back_to nets code wcc sys n fs t r h = and_then r (\<lambda>t'.
     for_each (lost nets code wcc sys) (replicate (closes t' - closes t) n)
       (h\<lparr>conns := (conns h)(n \<mapsto> (fs @ toLoop t', t'\<lparr>toLoop := []\<rparr>))\<rparr>))"

subsection \<open>The events\<close>

text \<open>\<open>AtConnector\<close> carries the number of the connection object it may lead to; \<open>ReportConn\<close> the
  results of the system calls of a restart.\<close>

datatype client_loop_event =
    AtConnector Connector.event nat "sockaddr_in option"
  | RunConnFunctor nat
  | ReportConn nat event_mask int int
  | SendOn nat "byte list"
  | ShutdownOn nat
  | DisconnectClient bool
  | StopTheClient

fun client_loop_step ::
  "(nat \<Rightarrow> net) \<Rightarrow> (nat \<Rightarrow> user_code) \<Rightarrow> bool \<Rightarrow> (u32 \<Rightarrow> string option) \<Rightarrow> host_order \<Rightarrow> client_loop_event
     \<Rightarrow> clienting \<Rightarrow> clienting result" where
  "client_loop_step nets code wcc ntop order (AtConnector e n peer) h =
     with_client nets code wcc True (client_step ntop order (ConnectorEvent e n peer) (client h)) h"
| "client_loop_step nets code wcc ntop order (RunConnFunctor n) h =
     (case conns h n of
        Some (f # fs, t) \<Rightarrow> back_to nets code wcc (0, 0) n fs t (run_functor (nets n) (code n) f t) h
      | _ \<Rightarrow> Inr h)"
| "client_loop_step nets code wcc ntop order (ReportConn n revt sockfd err) h =
     (case conns h n of
        Some (fs, t) \<Rightarrow>
          if reported revt t then back_to nets code wcc (sockfd, err) n fs t (conn_event (nets n) (code n) revt t) h
          else Inr h
      | None \<Rightarrow> Inr h)"
| "client_loop_step nets code wcc ntop order (SendOn n m) h =
     (case conns h n of
        Some (fs, t) \<Rightarrow> back_to nets code wcc (0, 0) n fs t (send (nets n) False m t) h | None \<Rightarrow> Inr h)"
| "client_loop_step nets code wcc ntop order (ShutdownOn n) h =
     (case conns h n of
        Some (fs, t) \<Rightarrow> back_to nets code wcc (0, 0) n fs t (shutdown False t) h | None \<Rightarrow> Inr h)"
| "client_loop_step nets code wcc ntop order (DisconnectClient in_loop) h =
     with_client nets code wcc in_loop (client_step ntop order Disconnect (client h)) h"
| "client_loop_step nets code wcc ntop order StopTheClient h =
     with_client nets code wcc True (client_step ntop order StopClient (client h)) h"

text \<open>
  The poller reports after the functors queued before, the connector's reset among them, have run; a
  new connection is a new object.
\<close>

fun client_loop_enabled :: "clienting \<Rightarrow> client_loop_event \<Rightarrow> bool" where
  "client_loop_enabled h (AtConnector e n peer) \<longleftrightarrow>
     client_enabled (client h) (ConnectorEvent e n peer) \<and> conns h n = None"
| "client_loop_enabled h (ReportConn n revt sockfd err) \<longleftrightarrow> resets (connector (client h)) = 0 \<and> 0 \<le> sockfd"
| "client_loop_enabled h e \<longleftrightarrow> True"

text \<open>
  What the theorems ask of the world beyond that: \<open>connect\<close> is called only on an idle connector, and polls
  report on connections only masks of \<open>ordinary\<close>.
\<close>

fun orderly :: "clienting \<Rightarrow> client_loop_event \<Rightarrow> bool" where
  "orderly h (AtConnector e n peer) \<longleftrightarrow> careful (connector (client h)) e"
| "orderly h (ReportConn n revt sockfd err) \<longleftrightarrow> ordinary revt"
| "orderly h e \<longleftrightarrow> True"

inductive client_loop_reaches ::
  "(clienting \<Rightarrow> client_loop_event \<Rightarrow> bool) \<Rightarrow> (nat \<Rightarrow> net) \<Rightarrow> (nat \<Rightarrow> user_code) \<Rightarrow> bool \<Rightarrow> (u32 \<Rightarrow> string option) \<Rightarrow> host_order
     \<Rightarrow> clienting \<Rightarrow> clienting \<Rightarrow> bool"
  for world nets code wcc ntop order h0 where
  looping_here: "client_loop_reaches world nets code wcc ntop order h0 h0"
| looping_next: "client_loop_reaches world nets code wcc ntop order h0 h \<Longrightarrow> client_loop_enabled h e \<Longrightarrow> world h e \<Longrightarrow>
    client_loop_step nets code wcc ntop order e h = Inr h' \<Longrightarrow> client_loop_reaches world nets code wcc ntop order h0 h'"

subsection \<open>The invariant\<close>

text \<open>
  The connection the client holds is one of its objects, not yet asked to be destroyed; every other
  object is on its way out or gone.
\<close>

definition conn_ok :: "net \<Rightarrow> bool \<Rightarrow> conn_functor list \<Rightarrow> tcp_connection \<Rightarrow> bool" where
  "conn_ok net held fs t \<longleftrightarrow> ConnectionLoop.client_inv net fs t \<and> ups t = ups_in (tcp_connection.state t) \<and>
     (held \<longleftrightarrow> ConnectDestroyed \<notin> set fs \<and> tcp_connection.state t \<noteq> conn_state.kDisconnected)"

definition clienting_inv :: "(nat \<Rightarrow> net) \<Rightarrow> clienting \<Rightarrow> bool" where
  "clienting_inv nets h \<longleftrightarrow> TcpClient.client_inv (client h) \<and> toConnection (client h) = [] \<and>
     (\<forall>n. connection (client h) = Some n \<longrightarrow> conns h n \<noteq> None) \<and>
     (\<forall>n fs t. conns h n = Some (fs, t) \<longrightarrow> conn_ok (nets n) (connection (client h) = Some n) fs t)"

lemma clienting_invD:
  assumes "clienting_inv nets h"
  shows "TcpClient.client_inv (client h)" "toConnection (client h) = []"
    "connection (client h) = Some n \<Longrightarrow> conns h n \<noteq> None"
    "conns h n = Some (fs, t) \<Longrightarrow> conn_ok (nets n) (connection (client h) = Some n) fs t"
  using assms unfolding clienting_inv_def by blast+

lemma run_functor_closes:
  assumes I: "ConnectionLoop.client_inv net (f # fs) c" and r: "run_functor net ucode f c = Inr c'"
  shows "closes c' = closes c"
proof -
  have w: "write_ok net" and inv: "conn_inv c"
    and fin: "tcp_connection.state c = conn_state.kConnecting \<Longrightarrow> \<not> fin c"
    using I by (simp_all add: ConnectionLoop.client_inv_def)
  show ?thesis
  proof (cases f)
    case (SendInLoop m)
    then show ?thesis using sendInLoop_ok [OF inv w, of m] r by (auto simp: closes_def)
  next
    case ShutdownInLoop
    then show ?thesis using r by (auto simp: shutdownInLoop_def in_loop_thread_def closes_def split: if_splits)
  next
    case WriteComplete
    then show ?thesis using call_user_ok [OF inv w, of ucode WriteCompleteCallback] r by (auto simp: progress_def closes_def)
  next
    case ConnectEstablished
    then have "connectEstablished net ucode True c = Inr c'" "tcp_connection.state c = conn_state.kConnecting"
      using r connectEstablished_callback [of net ucode c c'] by simp_all
    with connectEstablished_ok [OF inv w this(2) fin [OF this(2)], of ucode] show ?thesis by (auto simp: closes_def)
  next
    case ConnectDestroyed
    then have "connectDestroyed net ucode True c = Inr c'"
      "tcp_connection.state c = conn_state.kConnected \<or> tcp_connection.state c = conn_state.kDisconnecting"
      using r connectDestroyed_callback [of net ucode c c'] by auto
    with connectDestroyed_ok [OF inv this(2), of net ucode] show ?thesis by (auto simp: closes_def)
  qed
qed

lemma established_ok:
  assumes "write_ok net"
  shows "\<exists>t. connectEstablished net ucode True (new_connection l sockfd wcc) = Inr t \<and>
    conn_ok net True (toLoop t) (t\<lparr>toLoop := []\<rparr>)"
proof -
  let ?c = "new_connection l sockfd wcc"
  have I: "ConnectionLoop.client_inv net [ConnectEstablished] ?c"
    using conn_inv_new [of l sockfd wcc] assms by (simp add: ConnectionLoop.client_inv_def new_connection_def)
  from run_conn_ok [OF I, of ucode] obtain t where t: "run_functor net ucode ConnectEstablished ?c = Inr t"
    by (cases "run_functor net ucode ConnectEstablished ?c") (simp_all add: run_conn_def settle_def)
  have k: "closes t = closes ?c" using run_functor_closes [OF I t] .
  have "ConnectionLoop.client_inv net (toLoop t) (t\<lparr>toLoop := []\<rparr>)"
    using run_conn_ok [OF I, of ucode] t k by (simp add: run_conn_def settle_def closes_def)
  moreover have "ups ?c = []" "toLoop ?c = []" by (simp_all add: new_connection_def ups_def)
  ultimately show ?thesis using run_functor_cases(2) [OF t] t
    by (auto simp: conn_ok_def ups_def)
qed

lemma removeConnection_requests:
  assumes "client_removeConnection True sys n k = Inr k'"
  shows "connection k = Some n \<and> connection k' = None \<and> toConnection k' = toConnection k @ [DestroyConnection n]"
  using assms by (auto simp: client_removeConnection_def and_then_Inr_iff Let_def require_def split: if_splits)

lemma back_to_ok:
  assumes I: "clienting_inv nets h" and h: "conns h n = Some (gs, t)"
    and set_r: "returns_or {} (\<lambda>(t', cs). ConnectionLoop.client_inv (nets n) (fs @ queued_by cs) t') (settle t r)"
    and r: "\<And>t'. r = Inr t' \<Longrightarrow> ups t' = ups_in (tcp_connection.state t') \<and> ConnectDestroyed \<notin> set (toLoop t') \<and>
        (connection (client h) = Some n \<longleftrightarrow> ConnectDestroyed \<notin> set fs \<and> tcp_connection.state t' \<noteq> conn_state.kDisconnected)"
    and sys: "\<And>t'. r = Inr t' \<Longrightarrow> closes t' = closes t \<or> resets (connector (client h)) = 0 \<and> 0 \<le> fst sys"
  shows "\<exists>h'. back_to nets code wcc sys n fs t r h = Inr h' \<and> clienting_inv nets h'"
proof -
  from set_r obtain t' where t': "r = Inr t'" by (cases r) (simp_all add: settle_def)
  let ?k = "closes t' - closes t"
  let ?t = "t'\<lparr>toLoop := []\<rparr>"
  let ?h = "h\<lparr>conns := (conns h)(n \<mapsto> (fs @ toLoop t', ?t))\<rparr>"
  note ok = r [OF t']
  have C: "ConnectionLoop.client_inv (nets n) (fs @ toLoop t' @ replicate ?k ConnectDestroyed) ?t"
    using set_r t' by (simp add: settle_def closes_def del: map_append map_replicate)
  have count: "count_list (fs @ toLoop t' @ replicate ?k ConnectDestroyed) ConnectDestroyed
      = (if down ?t \<and> tcp_connection.state ?t \<noteq> conn_state.kDisconnected then 1 else 0)"
    using C unfolding ConnectionLoop.client_inv_def by (elim conjE)
  then have "count_list fs ConnectDestroyed + (count_list (toLoop t') ConnectDestroyed + ?k)
      = (if down t' \<and> tcp_connection.state t' \<noteq> conn_state.kDisconnected then 1 else 0)"
    unfolding count_list_append count_list_replicate_same by simp
  then consider (none) "?k = 0"
    | (one) "?k = 1" "count_list fs ConnectDestroyed = 0" "tcp_connection.state t' \<noteq> conn_state.kDisconnected"
    by (auto split: if_splits) linarith+
  then show ?thesis
  proof cases
    case none
    have "conn_ok (nets n) (connection (client h) = Some n) (fs @ toLoop t') ?t"
      using C none ok by (auto simp: conn_ok_def ups_def)
    then have "clienting_inv nets ?h" using I by (auto simp: clienting_inv_def)
    then show ?thesis using none t' by (simp add: back_to_def)
  next
    case one
    then have held: "connection (client h) = Some n" using ok by (simp add: count_list_0_iff)
    have "resets (connector (client h)) = 0" "0 \<le> fst sys" using sys [OF t'] one(1) by auto
    then have "client_enabled (client h) (ConnectionLost (fst sys) (snd sys))"
        "client_careful (client h) (ConnectionLost (fst sys) (snd sys))" using held by simp_all
    from client_step_ok [OF clienting_invD(1) [OF I] this] held obtain k where
      k: "client_removeConnection True sys n (client h) = Inr k" "TcpClient.client_inv k" by auto
    let ?h' = "\<lparr>client = k\<lparr>toConnection := []\<rparr>, conns = (conns h)(n \<mapsto> (fs @ toLoop t' @ [ConnectDestroyed], ?t))\<rparr>"
    note kf = removeConnection_requests [OF k(1)]
    have "lost nets code wcc sys n ?h = Inr ?h'"
      using k(1) kf clienting_invD(2) [OF I] by (simp add: lost_def with_client_def)
    then have run: "back_to nets code wcc sys n fs t r h = Inr ?h'" using one t' by (simp add: back_to_def)
    have "conn_ok (nets n) False (fs @ toLoop t' @ [ConnectDestroyed]) ?t"
      using C one ok by (auto simp: conn_ok_def ups_def)
    moreover have "conn_ok (nets m) False gs u" if "m \<noteq> n" "conns h m = Some (gs, u)" for m gs u
      using clienting_invD(4) [OF I that(2)] that(1) held by simp
    ultimately have "clienting_inv nets ?h'" using k(2) kf by (simp add: clienting_inv_def TcpClient.client_inv_def)
    with run show ?thesis by blast
  qed
qed

subsection \<open>The events keep the invariant\<close>

lemma held_tame:
  assumes "conn_ok net held fs t" and "tame t t'"
  shows "ups t' = ups_in (tcp_connection.state t') \<and> ConnectDestroyed \<notin> set (toLoop t') \<and>
    (held \<longleftrightarrow> ConnectDestroyed \<notin> set fs \<and> tcp_connection.state t' \<noteq> conn_state.kDisconnected)"
  using assms tame_ups [OF assms(2)] tame_destroyed [OF assms(2)]
  by (auto simp: conn_ok_def tame_def ConnectionLoop.client_inv_def)

lemma functor_step_ok:
  assumes I: "clienting_inv nets h" and h: "conns h n = Some (f # fs, t)"
  shows "\<exists>h'. back_to nets code wcc sys n fs t (run_functor (nets n) (code n) f t) h = Inr h' \<and> clienting_inv nets h'"
proof (rule back_to_ok [OF I h])
  note ok = clienting_invD(4) [OF I h]
  then have C: "ConnectionLoop.client_inv (nets n) (f # fs) t" by (simp add: conn_ok_def)
  show "returns_or {} (\<lambda>(t', cs). ConnectionLoop.client_inv (nets n) (fs @ queued_by cs) t')
      (settle t (run_functor (nets n) (code n) f t))"
    using run_conn_ok [OF C, of "code n"] by (simp add: run_conn_def)
  fix t'
  assume r: "run_functor (nets n) (code n) f t = Inr t'"
  show "closes t' = closes t \<or> resets (connector (client h)) = 0 \<and> 0 \<le> fst sys"
    using run_functor_closes [OF C r] by simp
  have tl: "toLoop t = []" using C by (simp add: ConnectionLoop.client_inv_def)
  have u: "ups t = ups_in (tcp_connection.state t)"
    and held: "connection (client h) = Some n \<longleftrightarrow> ConnectDestroyed \<notin> set (f # fs) \<and> tcp_connection.state t \<noteq> conn_state.kDisconnected"
    using ok by (simp_all add: conn_ok_def)
  consider "f = ConnectEstablished" | "f = ConnectDestroyed" | "f \<noteq> ConnectEstablished" "f \<noteq> ConnectDestroyed" by blast
  then show "ups t' = ups_in (tcp_connection.state t') \<and> ConnectDestroyed \<notin> set (toLoop t') \<and>
      (connection (client h) = Some n \<longleftrightarrow> ConnectDestroyed \<notin> set fs \<and> tcp_connection.state t' \<noteq> conn_state.kDisconnected)"
  proof cases
    case 1
    with run_functor_cases(2) [OF r] tl u held show ?thesis by auto
  next
    case 2
    with run_functor_cases(3) [OF r] tl u held show ?thesis by auto
  next
    case 3
    from run_functor_cases(1) [OF r 3] have "tame t t'" .
    with tame_ups [OF this u] tame_destroyed [OF this] tl held 3 show ?thesis by (auto simp: tame_def)
  qed
qed

lemma report_step_ok:
  assumes I: "clienting_inv nets h" and h: "conns h n = Some (fs, t)" and o: "ordinary revt" and "reported revt t"
    and sys: "resets (connector (client h)) = 0" "0 \<le> fst sys"
  shows "\<exists>h'. back_to nets code wcc sys n fs t (conn_event (nets n) (code n) revt t) h = Inr h' \<and> clienting_inv nets h'"
proof (rule back_to_ok [OF I h])
  note ok = clienting_invD(4) [OF I h]
  then have "ConnectionLoop.client_inv (nets n) fs t" by (simp add: conn_ok_def)
  from handle_conn_ok [OF o this, of "code n"] assms(4)
  show "returns_or {} (\<lambda>(t', cs). ConnectionLoop.client_inv (nets n) (fs @ queued_by cs) t')
      (settle t (conn_event (nets n) (code n) revt t))"
    by (simp add: handle_conn_def)
  show "ups t' = ups_in (tcp_connection.state t') \<and> ConnectDestroyed \<notin> set (toLoop t') \<and>
      (connection (client h) = Some n \<longleftrightarrow> ConnectDestroyed \<notin> set fs \<and> tcp_connection.state t' \<noteq> conn_state.kDisconnected)"
    if "conn_event (nets n) (code n) revt t = Inr t'" for t'
    using held_tame [OF ok calm.conn_event_related [OF that]] .
qed (use sys in simp)

lemma outside_step_ok:
  assumes I: "clienting_inv nets h" and h: "conns h n = Some (fs, t)"
    and r: "r = Inr t \<or> (\<exists>f t1. r = Inr (queue_functor f t1) \<and> post_conn t f t1)"
  shows "\<exists>h'. back_to nets code wcc sys n fs t r h = Inr h' \<and> clienting_inv nets h'"
proof (rule back_to_ok [OF I h])
  note ok = clienting_invD(4) [OF I h]
  then have C: "ConnectionLoop.client_inv (nets n) fs t" by (simp add: conn_ok_def)
  then have tl: "toLoop t = []" by (simp add: ConnectionLoop.client_inv_def)
  have q: "settle t (Inr (queue_functor f t1)) = Inr (t1, [QueueCall f])" if "post_conn t f t1" for f t1
    using that tl by (auto simp: settle_def queue_functor_def elim!: post_connE)
  show "returns_or {} (\<lambda>(t', cs). ConnectionLoop.client_inv (nets n) (fs @ queued_by cs) t') (settle t r)"
  proof (cases "r = Inr t")
    case True
    then have "settle t r = Inr (t, [])" using tl by (simp add: settle_def)
    then show ?thesis using C by simp
  next
    case False
    then obtain f t1 where f: "r = Inr (queue_functor f t1)" "post_conn t f t1" using r by blast
    show ?thesis using post_conn_ok [OF C f(2)] unfolding f(1) q [OF f(2)] by simp
  qed
  show "ups t' = ups_in (tcp_connection.state t') \<and> ConnectDestroyed \<notin> set (toLoop t') \<and>
      (connection (client h) = Some n \<longleftrightarrow> ConnectDestroyed \<notin> set fs \<and> tcp_connection.state t' \<noteq> conn_state.kDisconnected)"
    if "r = Inr t'" for t'
    using that r ok tl by (auto simp: conn_ok_def queue_functor_def ups_def elim!: post_connE)
  show "closes t' = closes t \<or> resets (connector (client h)) = 0 \<and> 0 \<le> fst sys" if "r = Inr t'" for t'
    using that r by (auto simp: closes_def queue_functor_def elim!: post_connE)
qed

text \<open>What an event of the connector asks for: nothing, or one connection, when there was none.\<close>

lemma connector_event_requests:
  assumes I: "TcpClient.client_inv k" and e: "client_enabled k (ConnectorEvent e n peer)"
    and ca: "careful (connector k) e"
    and s: "client_step ntop order (ConnectorEvent e n peer) k = Inr k'" and t: "toConnection k = []"
  shows "toConnection k' = [] \<and> connection k' = connection k \<or>
    (\<exists>name sockfd. toConnection k' = [EstablishConnection n name sockfd] \<and> connection k' = Some n \<and> connection k = None)"
proof -
  have cinv: "connector_inv (connector k)" and en: "enabled (connector k) e" and nr: "\<forall>a b. e \<noteq> Restart a b"
    using I e by (auto simp: TcpClient.client_inv_def)
  from step_ok [OF cinv en ca] obtain c where c: "Connector.step e (connector k) = Inr c" by blast
  show ?thesis
  proof (cases "handed_fd (connector k) c")
    case None
    then show ?thesis using s t c by (auto simp: Let_def)
  next
    case (Some sockfd)
    then have "handedOver c \<noteq> handedOver (connector k)" by (auto simp: handed_fd_def split: if_splits)
    then have "connection k = None"
      using connected_events [OF _ en nr c] I by (auto simp: TcpClient.client_inv_def)
    then show ?thesis using s t c Some by (auto simp: Let_def client_newConnection_def)
  qed
qed

lemma connector_step_ok:
  assumes I: "clienting_inv nets h" and e: "client_loop_enabled h (AtConnector e n peer)"
    and o: "orderly h (AtConnector e n peer)" and w: "write_ok (nets n)"
  shows "\<exists>h'. client_loop_step nets code wcc ntop order (AtConnector e n peer) h = Inr h' \<and> clienting_inv nets h'"
proof -
  have en: "client_enabled (client h) (ConnectorEvent e n peer)" and new: "conns h n = None"
    and ca: "careful (connector (client h)) e" using e o by simp_all
  then have "client_careful (client h) (ConnectorEvent e n peer)" by simp
  from client_step_ok [OF clienting_invD(1) [OF I] en this] obtain k where
    k: "client_step ntop order (ConnectorEvent e n peer) (client h) = Inr k" "TcpClient.client_inv k" by blast
  from connector_event_requests [OF clienting_invD(1) [OF I] en ca k(1) clienting_invD(2) [OF I]]
  consider (none) "toConnection k = []" "connection k = connection (client h)"
    | (est) name sockfd where "toConnection k = [EstablishConnection n name sockfd]" "connection k = Some n"
        "connection (client h) = None" by blast
  then show ?thesis
  proof cases
    case none
    then have "client_loop_step nets code wcc ntop order (AtConnector e n peer) h = Inr (h\<lparr>client := k\<lparr>toConnection := []\<rparr>\<rparr>)"
      using k(1) by (simp add: with_client_def del: client_step.simps)
    moreover have "clienting_inv nets (h\<lparr>client := k\<lparr>toConnection := []\<rparr>\<rparr>)"
      using I none k(2) by (auto simp: clienting_inv_def TcpClient.client_inv_def)
    ultimately show ?thesis by blast
  next
    case est
    from established_ok [OF w, of "code n" 0 sockfd wcc] obtain t where
      t: "connectEstablished (nets n) (code n) True (new_connection 0 sockfd wcc) = Inr t"
        "conn_ok (nets n) True (toLoop t) (t\<lparr>toLoop := []\<rparr>)" by blast
    let ?h = "\<lparr>client = k\<lparr>toConnection := []\<rparr>, conns = (conns h)(n \<mapsto> (toLoop t, t\<lparr>toLoop := []\<rparr>))\<rparr>"
    have "client_loop_step nets code wcc ntop order (AtConnector e n peer) h = Inr ?h"
      using k(1) est(1) t(1) by (simp add: with_client_def del: client_step.simps)
    moreover have "conn_ok (nets m) False gs u" if "m \<noteq> n" "conns h m = Some (gs, u)" for m gs u
      using clienting_invD(4) [OF I that(2)] est(3) by simp
    then have "clienting_inv nets ?h" using k(2) est(2) t(2) by (simp add: clienting_inv_def TcpClient.client_inv_def)
    ultimately show ?thesis by blast
  qed
qed

lemma disconnect_step_ok:
  assumes I: "clienting_inv nets h"
  shows "\<exists>h'. client_loop_step nets code wcc ntop order (DisconnectClient in_loop) h = Inr h' \<and> clienting_inv nets h'"
proof -
  let ?k = "client_disconnect (client h)"
  have kinv: "TcpClient.client_inv ?k" "connection ?k = connection (client h)"
    using clienting_invD(1) [OF I] by (auto simp: client_disconnect_def TcpClient.client_inv_def Let_def split: option.split)
  show ?thesis
  proof (cases "connection (client h)")
    case None
    then have "toConnection ?k = []" using clienting_invD(2) [OF I] by (simp add: client_disconnect_def Let_def)
    then have "client_loop_step nets code wcc ntop order (DisconnectClient in_loop) h = Inr (h\<lparr>client := ?k\<lparr>toConnection := []\<rparr>\<rparr>)"
      by (simp add: with_client_def)
    moreover have "clienting_inv nets (h\<lparr>client := ?k\<lparr>toConnection := []\<rparr>\<rparr>)"
      using I kinv by (auto simp: clienting_inv_def TcpClient.client_inv_def)
    ultimately show ?thesis by blast
  next
    case (Some n)
    then obtain fs t where h: "conns h n = Some (fs, t)" using clienting_invD(3) [OF I Some] by auto
    note ok = clienting_invD(4) [OF I h]
    then have C: "ConnectionLoop.client_inv (nets n) fs t" and tl: "toLoop t = []"
      by (simp_all add: conn_ok_def ConnectionLoop.client_inv_def)
    have tk: "toConnection ?k = [ShutdownConnection n]"
      using Some clienting_invD(2) [OF I] by (simp add: client_disconnect_def Let_def)
    have "\<exists>t'. shutdown in_loop t = Inr t' \<and> conn_ok (nets n) True (fs @ toLoop t') (t'\<lparr>toLoop := []\<rparr>)"
    proof (cases "tcp_connection.state t = conn_state.kConnected")
      case False
      then have "shutdown in_loop t = Inr t" by (simp add: shutdown_def)
      moreover have same: "t\<lparr>toLoop := []\<rparr> = t" using tl by simp
      have "conn_ok (nets n) True (fs @ toLoop t) (t\<lparr>toLoop := []\<rparr>)" unfolding same tl using ok Some by simp
      ultimately show ?thesis by blast
    next
      case True
      let ?t = "t\<lparr>tcp_connection.state := conn_state.kDisconnecting\<rparr>"
      show ?thesis
      proof (cases in_loop)
        case False
        have "ConnectionLoop.client_inv (nets n) (fs @ [ShutdownInLoop]) (?t\<lparr>toLoop := []\<rparr>)"
          using post_conn_ok [OF C post_shutdown [OF True]] by (simp add: ConnectionLoop.client_inv_def conn_inv_def)
        then show ?thesis using True False ok Some tl
          by (auto simp: shutdown_def queue_functor_def conn_ok_def ups_def)
      next
        case inl: True
        have "shutdown in_loop t = Inr ?t \<or> shutdown in_loop t = Inr (?t\<lparr>fin := True\<rparr>)"
          using True inl by (simp add: shutdown_def shutdownInLoop_def in_loop_thread_def Let_def)
        moreover have "ConnectionLoop.client_inv (nets n) fs (?t\<lparr>toLoop := []\<rparr>)"
            "ConnectionLoop.client_inv (nets n) fs (?t\<lparr>fin := True, toLoop := []\<rparr>)"
          using C True by (simp_all add: ConnectionLoop.client_inv_def conn_inv_def)
        then have "conn_ok (nets n) True (fs @ toLoop ?t) (?t\<lparr>toLoop := []\<rparr>)"
            "conn_ok (nets n) True (fs @ toLoop (?t\<lparr>fin := True\<rparr>)) (?t\<lparr>fin := True, toLoop := []\<rparr>)"
          using ok Some tl True by (simp_all add: conn_ok_def ups_def)
        ultimately show ?thesis by (elim disjE) auto
      qed
    qed
    then obtain t' where t': "shutdown in_loop t = Inr t'" "conn_ok (nets n) True (fs @ toLoop t') (t'\<lparr>toLoop := []\<rparr>)" by blast
    let ?h = "\<lparr>client = ?k\<lparr>toConnection := []\<rparr>, conns = (conns h)(n \<mapsto> (fs @ toLoop t', t'\<lparr>toLoop := []\<rparr>))\<rparr>"
    have "client_loop_step nets code wcc ntop order (DisconnectClient in_loop) h = Inr ?h"
      using tk h t'(1) by (simp add: with_client_def)
    moreover have "conn_ok (nets m) False gs u" if "m \<noteq> n" "conns h m = Some (gs, u)" for m gs u
      using clienting_invD(4) [OF I that(2)] that(1) Some by simp
    then have "clienting_inv nets ?h"
      using kinv t'(2) Some by (simp add: clienting_inv_def TcpClient.client_inv_def)
    ultimately show ?thesis by blast
  qed
qed

lemma client_loop_step_ok:
  assumes I: "clienting_inv nets h" and e: "client_loop_enabled h e" and o: "orderly h e" and w: "\<And>n. write_ok (nets n)"
  shows "\<exists>h'. client_loop_step nets code wcc ntop order e h = Inr h' \<and> clienting_inv nets h'"
proof (cases e)
  case (AtConnector ev n peer)
  with connector_step_ok [OF I _ _ w] e o show ?thesis by blast
next
  case (RunConnFunctor n)
  then show ?thesis using functor_step_ok [OF I] I
    by (cases "conns h n") (auto split: list.split)
next
  case (ReportConn n revt sockfd err)
  then show ?thesis using report_step_ok [OF I, of n _ _ revt "(sockfd, err)"] I e o
    by (cases "conns h n") auto
next
  case (SendOn n m)
  have "send (nets n) False m t = Inr t \<or> (\<exists>f t1. send (nets n) False m t = Inr (queue_functor f t1) \<and> post_conn t f t1)" for t
    using post_send [of t m] by (cases "tcp_connection.state t = conn_state.kConnected") (auto simp: send_def)
  then show ?thesis using SendOn outside_step_ok [OF I] I by (cases "conns h n") auto
next
  case (ShutdownOn n)
  have "shutdown False t = Inr t \<or> (\<exists>f t1. shutdown False t = Inr (queue_functor f t1) \<and> post_conn t f t1)" for t
    using post_shutdown [of t] by (auto simp: shutdown_def)
  then show ?thesis using ShutdownOn outside_step_ok [OF I] I by (cases "conns h n") auto
next
  case (DisconnectClient in_loop)
  then show ?thesis using disconnect_step_ok [OF I] by simp
next
  case StopTheClient
  let ?k = "client_stop (client h)"
  have k: "client_step ntop order StopClient (client h) = Inr ?k" by simp
  have "TcpClient.client_inv ?k" "connection ?k = connection (client h)" "toConnection ?k = []"
    using client_step_ok [OF clienting_invD(1) [OF I], of StopClient] clienting_invD(2) [OF I]
    by (auto simp: client_stop_def)
  then have "clienting_inv nets (h\<lparr>client := ?k\<lparr>toConnection := []\<rparr>\<rparr>)" "toConnection ?k = []"
    using I by (auto simp: clienting_inv_def TcpClient.client_inv_def)
  then show ?thesis using StopTheClient k by (simp add: with_client_def)
qed

lemma client_loop_reaches_inv:
  assumes "client_loop_reaches orderly nets code wcc ntop order (new_clienting k) h"
    and k: "TcpClient.client_inv k" "toConnection k = []" "connection k = None" and w: "\<And>n. write_ok (nets n)"
  shows "clienting_inv nets h"
  using assms(1)
proof (induction rule: client_loop_reaches.induct)
  case looping_here
  then show ?case using k by (simp add: clienting_inv_def new_clienting_def)
next
  case (looping_next h e h')
  from client_loop_step_ok [OF looping_next.IH looping_next.hyps(2,3) w, of code wcc ntop order] looping_next.hyps(4)
  show ?case by auto
qed

subsection \<open>Properties\<close>


text \<open>
  The witness: a client that has retrying enabled connects to its server, sends it three bytes, of which
  the kernel takes two and then one, and is told of the end of the stream.
\<close>

fun client_loop_run :: "client_loop_event list \<Rightarrow> clienting \<Rightarrow> clienting result" where
  "client_loop_run [] h = Inr h"
| "client_loop_run (e # es) h =
     require (client_loop_enabled h e \<and> orderly h e) (AssertionFailed ''enabled'')
       (and_then (client_loop_step (\<lambda>_. slow_net) (\<lambda>_. greet) False (\<lambda>_. None) LittleEndian e h) (client_loop_run es))"

lemma client_loop_run_reaches:
  "client_loop_run es h = Inr h' \<Longrightarrow>
    client_loop_reaches orderly (\<lambda>_. slow_net) (\<lambda>_. greet) False (\<lambda>_. None) LittleEndian h0 h \<Longrightarrow>
    client_loop_reaches orderly (\<lambda>_. slow_net) (\<lambda>_. greet) False (\<lambda>_. None) LittleEndian h0 h'"
  by (induction es arbitrary: h)
    (auto simp: require_def and_then_Inr_iff split: if_splits dest: looping_next)

definition greeting_events :: "client_loop_event list" where
  "greeting_events = [AtConnector (Start 7 EINPROGRESS) 1 None, AtConnector (SocketReady POLLOUT 0 False) 1 None,
     AtConnector ResetRuns 2 None, ReportConn 1 POLLOUT 8 0]"

lemma greeting_runs:
  "case client_loop_run greeting_events (new_clienting (enableRetry new_client)) of Inl e \<Rightarrow> False
    | Inr h \<Rightarrow> connection (client h) = Some 1 \<and> resets (connector (client h)) = 0 \<and>
        (case conns h 1 of None \<Rightarrow> False
           | Some (fs, t) \<Rightarrow> wire t = [104, 105, 33] \<and> tcp_connection.state t = conn_state.kConnected)"
  by code_simp


text \<open>
  The promise about the masks is needed: a hangup with priority data, on which \<open>readv\<close> finds the end of
  the stream, loses the connection twice, and the client no longer holds it the second time.
\<close>

lemma hangup_loses_twice:
  "case client_loop_run greeting_events (new_clienting new_client) of Inl e \<Rightarrow> False
    | Inr h \<Rightarrow> resets (connector (client h)) = 0 \<and>
        (case client_loop_step (\<lambda>_. slow_net) (\<lambda>_. greet) False (\<lambda>_. None) LittleEndian (ReportConn 1 (POLLHUP OR POLLPRI) 8 0) h of
           Inl e \<Rightarrow> e = AssertionFailed ''connection_ == conn'' | Inr h' \<Rightarrow> False)"
  by code_simp

theorem hangup_fails_client:
  "\<exists>h. client_loop_reaches orderly (\<lambda>_. slow_net) (\<lambda>_. greet) False (\<lambda>_. None) LittleEndian (new_clienting new_client) h \<and>
    client_loop_enabled h (ReportConn 1 (POLLHUP OR POLLPRI) 8 0) \<and>
    client_loop_step (\<lambda>_. slow_net) (\<lambda>_. greet) False (\<lambda>_. None) LittleEndian (ReportConn 1 (POLLHUP OR POLLPRI) 8 0) h
      = Inl (AssertionFailed ''connection_ == conn'')"
proof -
  obtain h where h: "client_loop_run greeting_events (new_clienting new_client) = Inr h"
    using hangup_loses_twice by (cases "client_loop_run greeting_events (new_clienting new_client)") simp_all
  have "client_loop_reaches orderly (\<lambda>_. slow_net) (\<lambda>_. greet) False (\<lambda>_. None) LittleEndian (new_clienting new_client) h"
    by (rule client_loop_run_reaches [OF h looping_here])
  then show ?thesis using hangup_loses_twice h
    by (intro exI [of _ h]) (auto split: sum.splits simp del: client_loop_step.simps)
qed

text \<open>C40: A client that has lost its connection without reconnecting cannot be connected again: the
  connector is left in its final state, which only \<open>restart\<close> resets, so the next \<open>connect\<close> fails the
  assertion of \<open>startInLoop\<close>. This is so however \<open>connect\<close> was called before.\<close>

theorem connect_after_loss_aborts:
  assumes "client_reaches callers ntop order new_client k" and "connection k = Some n"
    and "\<not> (retry_enabled k \<and> connect_wanted k)" and "client_enabled k (ConnectionLost sockfd err)"
  shows "\<exists>k'. client_step ntop order (ConnectionLost sockfd err) k = Inr k' \<and> connection k' = None \<and>
    client_connect sys k' = Inl (AssertionFailed ''state_ == kDisconnected'')"
proof -
  have inv: "held_inv k" by (rule held_inv_reaches [OF assms(1)]) (simp add: held_inv_def new_client_def)
  let ?k = "k\<lparr>connection := None, toConnection := toConnection k @ [DestroyConnection n]\<rparr>"
  have "client_step ntop order (ConnectionLost sockfd err) k = Inr ?k"
    using assms(2,3) by (auto simp: client_removeConnection_def Let_def)
  moreover have "connector.state (connector k) = states.kConnected"
    using inv assms(2) by (simp add: held_inv_def)
  ultimately show ?thesis by (simp add: client_connect_def Connector.start_def startInLoop_def Let_def)
qed

text \<open>A client that has connected.\<close>

fun client_run :: "client_event list \<Rightarrow> tcp_client \<Rightarrow> tcp_client result" where
  "client_run [] k = Inr k"
| "client_run (e # es) k =
     require (client_enabled k e \<and> client_careful k e) (AssertionFailed ''enabled'')
       (and_then (client_step (\<lambda>_. None) LittleEndian e k) (client_run es))"

lemma client_run_reaches:
  "client_run es k = Inr k' \<Longrightarrow> client_reaches client_careful (\<lambda>_. None) LittleEndian k0 k \<Longrightarrow>
    client_reaches client_careful (\<lambda>_. None) LittleEndian k0 k'"
  by (induction es arbitrary: k)
    (auto simp: require_def and_then_Inr_iff split: if_splits dest: client_more)

definition connecting_events :: "client_event list" where
  "connecting_events = [ConnectorEvent (Start 7 EINPROGRESS) 1 None, ConnectorEvent (SocketReady POLLOUT 0 False) 1 None,
     ConnectorEvent ResetRuns 1 None]"

definition connected_client :: tcp_client where
  "connected_client = (case client_run connecting_events new_client of Inr k \<Rightarrow> k | Inl e \<Rightarrow> new_client)"

lemma connected_client_facts:
  "connection connected_client = Some 1" "\<not> retry_enabled connected_client"
  "client_enabled connected_client (ConnectionLost 8 0)" "\<not> is_fault (client_run connecting_events new_client)"
  by code_simp+

theorem connect_after_loss_aborts_witness:
  "\<exists>k'. client_step (\<lambda>_. None) LittleEndian (ConnectionLost 8 0) connected_client = Inr k' \<and>
     client_connect (9, 0) k' = Inl (AssertionFailed ''state_ == kDisconnected'')"
proof -
  have "client_run connecting_events new_client = Inr connected_client"
    using connected_client_facts(4) by (auto simp: connected_client_def not_fault_iff)
  from client_run_reaches [OF this client_refl]
  have r: "client_reaches client_careful (\<lambda>_. None) LittleEndian new_client connected_client" .
  have "\<not> (retry_enabled connected_client \<and> connect_wanted connected_client)" using connected_client_facts(2) by simp
  from connect_after_loss_aborts [OF r connected_client_facts(1) this connected_client_facts(3)] show ?thesis by blast
qed

end
