(* ===== verification/LoopThread.thy ===== *)
theory LoopThread
  imports Prelude
begin

section \<open>A thread with a loop of its own: EventLoopThread.h and EventLoopThread.cc\<close>

text \<open>
  An \<open>EventLoopThread\<close> is shared by its creator, which calls \<open>startLoop\<close>, uses the loop and destroys the
  object, and the runner, the thread that runs \<open>threadFunc\<close>. They meet through \<open>mutex_\<close>, \<open>cond_\<close> and
  \<open>loop_\<close>, and the model has every step between two of these accesses. The loop is an object on the
  runner's stack: it is gone once \<open>threadFunc\<close> has returned. Of the loop itself only \<open>quit_\<close> matters,
  which \<open>EventLoop::loop\<close> clears on entry. The program test6.cc, which uses such a thread, comes last.
\<close>

subsection \<open>The two threads\<close>

text \<open>
  The creator: \<open>Starting\<close> wants the lock for the first time, \<open>Checking\<close> holds it at the \<open>while\<close>, \<open>Sleeping\<close>
  is in \<open>cond_.wait()\<close>, \<open>Waking\<close> wants the lock again; \<open>Quitting\<close> is in \<open>EventLoop::quit\<close>, which it called
  itself, and \<open>Destroying\<close> in the one the destructor calls, both after the assignment to \<open>quit_\<close> and before
  \<open>isInLoopThread\<close> and \<open>wakeup\<close>. The runner: \<open>Constructed\<close> wants the lock,
  \<open>Publishing\<close> and \<open>Notifying\<close> hold it, \<open>Entering\<close> is about to call \<open>loop()\<close>.
\<close>

datatype creator_pc = Fresh | Starting | Checking | Sleeping | Waking | HasLoop nat | Quitting nat | Destroying | Joining | Joined

datatype runner_pc = NotStarted | Constructed | Publishing | Notifying | Entering | Looping | Returned

datatype holder = Creator | Runner

record loop_thread =
  loop_ptr :: "nat option"
  exiting :: bool
  mutex :: "holder option"
  creator :: creator_pc
  runner :: runner_pc
  quit_flag :: bool

definition new_loop_thread :: loop_thread where
  "new_loop_thread = \<lparr>loop_ptr = None, exiting = False, mutex = None, creator = Fresh, runner = NotStarted,
     quit_flag = False\<rparr>"

text \<open>\<open>startLoop\<close> up to the lock.\<close>

definition start_thread :: "loop_thread \<Rightarrow> loop_thread result" where
  "start_thread t = require (runner t = NotStarted) (AssertionFailed ''!thread_.started()'')
     (Inr (t\<lparr>creator := Starting, runner := Constructed\<rparr>))"

text \<open>
  \<open>EventLoop::quit\<close> called by the creator through the pointer, whether a loop was started or not and
  whether it is still there: it sets \<open>quit_\<close>; then it asks the loop for its thread and writes to the
  loop's eventfd. The loop may see \<open>quit_\<close> and be gone in between.
\<close>

definition at_loop :: "loop_thread \<Rightarrow> loop_thread result \<Rightarrow> loop_thread result" where
  "at_loop t r =
     (case loop_ptr t of
        None \<Rightarrow> Inl (NullDereference ''loop_'')
      | Some _ \<Rightarrow> require (runner t \<noteq> Returned) (NullDereference ''loop_, which is gone'') r)"

definition quit_sets :: "loop_thread \<Rightarrow> loop_thread result" where
  "quit_sets t = at_loop t (Inr (t\<lparr>quit_flag := True\<rparr>))"

definition quit_wakes :: "loop_thread \<Rightarrow> loop_thread result" where
  "quit_wakes t = at_loop t (Inr t)"

text \<open>The destructor up to the middle of \<open>quit\<close>, and from there to \<open>join\<close>.\<close>

definition destroy_loop_thread :: "loop_thread \<Rightarrow> loop_thread result" where
  "destroy_loop_thread t = and_then (quit_sets (t\<lparr>exiting := True\<rparr>)) (\<lambda>t'. Inr (t'\<lparr>creator := Destroying\<rparr>))"

definition destroy_goes_on :: "loop_thread \<Rightarrow> loop_thread result" where
  "destroy_goes_on t = and_then (quit_wakes t) (\<lambda>t'. Inr (t'\<lparr>creator := Joining\<rparr>))"

text \<open>\<open>wait\<close> may return without a notification, as POSIX allows.\<close>

inductive thread_step :: "loop_thread \<Rightarrow> loop_thread \<Rightarrow> bool" where
  starts: "creator t = Fresh \<Longrightarrow> start_thread t = Inr t' \<Longrightarrow> thread_step t t'"
| locks: "creator t \<in> {Starting, Waking} \<Longrightarrow> mutex t = None \<Longrightarrow>
    thread_step t (t\<lparr>creator := Checking, mutex := Some Creator\<rparr>)"
| waits: "creator t = Checking \<Longrightarrow> loop_ptr t = None \<Longrightarrow> thread_step t (t\<lparr>creator := Sleeping, mutex := None\<rparr>)"
| wakes: "creator t = Sleeping \<Longrightarrow> thread_step t (t\<lparr>creator := Waking\<rparr>)"
| sees_loop: "creator t = Checking \<Longrightarrow> loop_ptr t = Some l \<Longrightarrow>
    thread_step t (t\<lparr>creator := HasLoop l, mutex := None\<rparr>)"
| runner_locks: "runner t = Constructed \<Longrightarrow> mutex t = None \<Longrightarrow>
    thread_step t (t\<lparr>runner := Publishing, mutex := Some Runner\<rparr>)"
| publishes: "runner t = Publishing \<Longrightarrow> thread_step t (t\<lparr>runner := Notifying, loop_ptr := Some this_loop\<rparr>)"
| notifies: "runner t = Notifying \<Longrightarrow> thread_step t (t\<lparr>runner := Entering, mutex := None,
    creator := (if creator t = Sleeping then Waking else creator t)\<rparr>)"
| enters_loop: "runner t = Entering \<Longrightarrow> thread_step t (t\<lparr>runner := Looping, quit_flag := False\<rparr>)"
| leaves_loop: "runner t = Looping \<Longrightarrow> quit_flag t \<Longrightarrow> thread_step t (t\<lparr>runner := Returned\<rparr>)"
| quits: "creator t = HasLoop l \<Longrightarrow> quit_sets t = Inr t' \<Longrightarrow> thread_step t (t'\<lparr>creator := Quitting l\<rparr>)"
| quit_returns: "creator t = Quitting l \<Longrightarrow> quit_wakes t = Inr t' \<Longrightarrow> thread_step t (t'\<lparr>creator := HasLoop l\<rparr>)"
| destroys: "creator t = HasLoop l \<Longrightarrow> destroy_loop_thread t = Inr t' \<Longrightarrow> thread_step t t'"
| goes_to_join: "creator t = Destroying \<Longrightarrow> destroy_goes_on t = Inr t' \<Longrightarrow> thread_step t t'"
| joins: "creator t = Joining \<Longrightarrow> runner t = Returned \<Longrightarrow> thread_step t (t\<lparr>creator := Joined\<rparr>)"

inductive_cases thread_stepE: "thread_step t t'"

abbreviation thread_runs :: "loop_thread \<Rightarrow> loop_thread \<Rightarrow> bool" where
  "thread_runs \<equiv> thread_step\<^sup>*\<^sup>*"

subsection \<open>The invariant\<close>

text \<open>
  Where the threads can be at the same time, who holds the lock then, and whether the pointer is set. A
  creator asleep has yet to be notified, and nobody asks the loop to quit before \<open>startLoop\<close> has returned.
\<close>

fun published :: "runner_pc \<Rightarrow> bool" where
  "published NotStarted = False"
| "published Constructed = False"
| "published Publishing = False"
| "published _ = True"

fun together :: "creator_pc \<Rightarrow> runner_pc \<Rightarrow> bool" where
  "together Fresh r \<longleftrightarrow> r = NotStarted"
| "together Starting r \<longleftrightarrow> r \<noteq> NotStarted \<and> r \<noteq> Returned"
| "together Waking r \<longleftrightarrow> r \<noteq> NotStarted \<and> r \<noteq> Returned"
| "together Checking r \<longleftrightarrow> r = Constructed \<or> r = Entering \<or> r = Looping"
| "together Sleeping r \<longleftrightarrow> r = Constructed \<or> r = Publishing \<or> r = Notifying"
| "together (HasLoop l) r \<longleftrightarrow> r = Entering \<or> r = Looping \<or> r = Returned"
| "together (Quitting l) r \<longleftrightarrow> r = Entering \<or> r = Looping \<or> r = Returned"
| "together Destroying r \<longleftrightarrow> r = Entering \<or> r = Looping \<or> r = Returned"
| "together Joining r \<longleftrightarrow> r = Entering \<or> r = Looping \<or> r = Returned"
| "together Joined r \<longleftrightarrow> r = Returned"

fun lock_of :: "creator_pc \<Rightarrow> runner_pc \<Rightarrow> holder option" where
  "lock_of Checking r = Some Creator"
| "lock_of c Publishing = Some Runner"
| "lock_of c Notifying = Some Runner"
| "lock_of c r = None"

fun starting :: "creator_pc \<Rightarrow> bool" where
  "starting Starting = True"
| "starting Checking = True"
| "starting Sleeping = True"
| "starting Waking = True"
| "starting _ = False"

definition thread_inv :: "loop_thread \<Rightarrow> bool" where
  "thread_inv t \<longleftrightarrow> together (creator t) (runner t) \<and> mutex t = lock_of (creator t) (runner t) \<and>
     (loop_ptr t \<noteq> None \<longleftrightarrow> published (runner t)) \<and>
     (creator t = Fresh \<or> starting (creator t) \<longrightarrow> \<not> quit_flag t) \<and>
     (creator t \<in> {Destroying, Joining} \<and> runner t = Entering \<longrightarrow> quit_flag t)"

lemma at_loop_Inr: "at_loop t r = Inr t' \<longleftrightarrow> loop_ptr t \<noteq> None \<and> runner t \<noteq> Returned \<and> r = Inr t'"
  by (auto simp: at_loop_def require_Inr_iff split: option.splits)

lemma quit_sets_Inr:
  "quit_sets t = Inr t' \<longleftrightarrow> loop_ptr t \<noteq> None \<and> runner t \<noteq> Returned \<and> t' = t\<lparr>quit_flag := True\<rparr>"
  by (auto simp: quit_sets_def at_loop_Inr)

lemma quit_wakes_Inr: "quit_wakes t = Inr t' \<longleftrightarrow> loop_ptr t \<noteq> None \<and> runner t \<noteq> Returned \<and> t' = t"
  by (auto simp: quit_wakes_def at_loop_Inr)

lemma destroy_Inr:
  "destroy_loop_thread t = Inr t' \<longleftrightarrow> loop_ptr t \<noteq> None \<and> runner t \<noteq> Returned \<and>
     t' = t\<lparr>exiting := True, quit_flag := True, creator := Destroying\<rparr>"
  by (auto simp: destroy_loop_thread_def and_then_Inr_iff quit_sets_Inr)

lemma goes_on_Inr:
  "destroy_goes_on t = Inr t' \<longleftrightarrow> loop_ptr t \<noteq> None \<and> runner t \<noteq> Returned \<and> t' = t\<lparr>creator := Joining\<rparr>"
  by (auto simp: destroy_goes_on_def and_then_Inr_iff quit_wakes_Inr)

lemmas thread_results = start_thread_def quit_sets_Inr quit_wakes_Inr destroy_Inr goes_on_Inr

lemma thread_inv_step:
  assumes s: "thread_step t t'" and I: "thread_inv t"
  shows "thread_inv t'"
proof -
  have J: "together (creator t) (runner t)" "mutex t = lock_of (creator t) (runner t)"
    "loop_ptr t \<noteq> None \<longleftrightarrow> published (runner t)" "creator t = Fresh \<or> starting (creator t) \<longrightarrow> \<not> quit_flag t"
    "creator t \<in> {Destroying, Joining} \<and> runner t = Entering \<longrightarrow> quit_flag t"
    using I unfolding thread_inv_def by blast+
  show ?thesis using s
  proof cases
    case locks
    then show ?thesis using J unfolding thread_inv_def by (cases "runner t") auto
  next
    case sees_loop
    then show ?thesis using J unfolding thread_inv_def by (cases "runner t") auto
  next
    case runner_locks
    then show ?thesis using J unfolding thread_inv_def by (cases "creator t") auto
  next
    case publishes
    then show ?thesis using J unfolding thread_inv_def by (cases "creator t") auto
  next
    case notifies
    then show ?thesis using J unfolding thread_inv_def by (cases "creator t") auto
  next
    case enters_loop
    then show ?thesis using J unfolding thread_inv_def by (cases "creator t") auto
  next
    case leaves_loop
    then show ?thesis using J unfolding thread_inv_def by (cases "creator t") auto
  qed (use J in \<open>unfold thread_inv_def, cases "runner t", auto simp: thread_results\<close>)
qed

lemma thread_inv_reachable:
  assumes "thread_runs new_loop_thread t"
  shows "thread_inv t"
  using assms
proof (induction rule: rtranclp_induct)
  case base
  show ?case by (simp add: thread_inv_def new_loop_thread_def)
qed (rule thread_inv_step)

subsection \<open>Starting\<close>

text \<open>What is left to do until \<open>startLoop\<close> returns. Only a wakeup without notification adds to it.\<close>

fun runner_left :: "runner_pc \<Rightarrow> nat" where
  "runner_left NotStarted = 5"
| "runner_left Constructed = 4"
| "runner_left Publishing = 3"
| "runner_left Notifying = 2"
| "runner_left Entering = 1"
| "runner_left _ = 0"

fun creator_left :: "creator_pc \<Rightarrow> nat" where
  "creator_left Starting = 3"
| "creator_left Waking = 3"
| "creator_left Checking = 2"
| "creator_left Sleeping = 1"
| "creator_left _ = 0"

definition startup_left :: "loop_thread \<Rightarrow> nat" where
  "startup_left t = 4 * runner_left (runner t) + creator_left (creator t)"

lemma starting_decreases:
  assumes "thread_step t t'" and I: "thread_inv t" and "starting (creator t)"
  shows "startup_left t' < startup_left t \<or> creator t = Sleeping \<and> t' = t\<lparr>creator := Waking\<rparr>"
proof -
  have q: "\<not> quit_flag t" using I assms(3) by (simp add: thread_inv_def)
  show ?thesis using assms(1)
  proof cases
    case locks
    then show ?thesis by (auto simp: startup_left_def)
  next
    case notifies
    then show ?thesis by (cases "creator t") (simp_all add: startup_left_def)
  qed (use q assms(3) in \<open>auto simp: startup_left_def\<close>)
qed

lemma starting_can_step:
  assumes I: "thread_inv t" and "starting (creator t)"
  shows "\<exists>t'. thread_step t t' \<and> startup_left t' < startup_left t"
proof -
  have J: "together (creator t) (runner t)" "mutex t = lock_of (creator t) (runner t)"
    using I by (simp_all add: thread_inv_def)
  consider "creator t \<in> {Starting, Waking}" "mutex t = None" | "creator t = Checking"
    | "runner t = Constructed" "mutex t = None" | "runner t = Publishing" | "runner t = Notifying"
    using J assms(2) by (cases "creator t"; cases "runner t") simp_all
  then show ?thesis
  proof cases
    case 1
    from locks [OF this] 1 show ?thesis by (auto simp: startup_left_def)
  next
    case 2
    show ?thesis
    proof (cases "loop_ptr t")
      case None
      from waits [OF 2 this] 2 show ?thesis by (auto simp: startup_left_def)
    next
      case (Some l)
      from sees_loop [OF 2 this] 2 show ?thesis by (auto simp: startup_left_def)
    qed
  next
    case 3
    from runner_locks [OF this] 3 show ?thesis by (auto simp: startup_left_def)
  next
    case 4
    from publishes [OF this, of 0] 4 show ?thesis by (auto simp: startup_left_def)
  next
    case 5
    from notifies [OF this] 5 show ?thesis by (auto simp: startup_left_def)
  qed
qed

text \<open>\<open>startLoop\<close> returns the loop: as long as the creator is in it, some step brings it nearer to the end,
  every step other than waking up without a reason does, and when it returns, it returns the pointer
  to a loop that has been published and has not gone. No notification is lost.\<close>

theorem startLoop_returns:
  assumes "thread_runs new_loop_thread t"
  shows "(starting (creator t) \<longrightarrow> (\<exists>t'. thread_step t t' \<and> startup_left t' < startup_left t) \<and>
      (\<forall>t'. thread_step t t' \<longrightarrow> startup_left t' < startup_left t \<or> creator t = Sleeping \<and> t' = t\<lparr>creator := Waking\<rparr>)) \<and>
    (\<forall>t' l. starting (creator t) \<and> thread_step t t' \<and> creator t' = HasLoop l \<longrightarrow>
       loop_ptr t' = Some l \<and> runner t' \<in> {Entering, Looping})"
proof -
  have I: "thread_inv t" using assms by (rule thread_inv_reachable)
  have "loop_ptr t' = Some l \<and> runner t' \<in> {Entering, Looping}"
    if st: "starting (creator t)" and s: "thread_step t t'" and l: "creator t' = HasLoop l" for t' l
    using s
  proof cases
    case (sees_loop k)
    then show ?thesis using l I by (cases "runner t") (auto simp: thread_inv_def)
  qed (use st l in \<open>auto split: if_splits\<close>)
  then show ?thesis using starting_can_step [OF I] starting_decreases [OF _ I] by blast
qed

theorem startLoop_returns_witness:
  "\<exists>t'. thread_step (new_loop_thread\<lparr>creator := Starting, runner := Constructed\<rparr>) t' \<and>
     startup_left t' < startup_left (new_loop_thread\<lparr>creator := Starting, runner := Constructed\<rparr>)"
proof -
  let ?t = "new_loop_thread\<lparr>creator := Starting, runner := Constructed\<rparr>"
  have "thread_step new_loop_thread ?t" by (rule starts) (simp_all add: new_loop_thread_def start_thread_def)
  from startLoop_returns [OF r_into_rtranclp [where r = thread_step, OF this]] show ?thesis by simp
qed

subsection \<open>Destroying\<close>

text \<open>Once the destructor has set \<open>quit_\<close>, only the runner and the destructor itself move.\<close>

lemma destroying_step:
  assumes "thread_step t t'" and "creator t \<in> {Destroying, Joining}" and "runner t \<in> {Entering, Looping, Returned}"
  shows "runner t = Entering \<and> t' = t\<lparr>runner := Looping, quit_flag := False\<rparr> \<or>
    runner t = Looping \<and> quit_flag t \<and> t' = t\<lparr>runner := Returned\<rparr> \<or>
    creator t = Destroying \<and> runner t \<noteq> Returned \<and> t' = t\<lparr>creator := Joining\<rparr> \<or>
    creator t = Joining \<and> runner t = Returned \<and> t' = t\<lparr>creator := Joined\<rparr>"
  using assms(1)
proof (cases rule: thread_step.cases)
  case goes_to_join
  then show ?thesis by (simp add: goes_on_Inr)
next
  case enters_loop
  then show ?thesis by simp
next
  case leaves_loop
  then show ?thesis by simp
next
  case joins
  then show ?thesis by simp
next
  case locks
  then show ?thesis using assms(2) by (elim insertE) simp_all
qed (use assms(2,3) in simp_all)

text \<open>A loop that has been asked to quit while it was looping.\<close>

definition heard :: "loop_thread \<Rightarrow> bool" where
  "heard t \<longleftrightarrow> loop_ptr t \<noteq> None \<and> (creator t \<in> {Destroying, Joining} \<and> (runner t = Looping \<and> quit_flag t \<or> runner t = Returned) \<or>
     creator t = Joined \<and> runner t = Returned)"

lemma joined_stays: "thread_runs t t' \<Longrightarrow> creator t = Joined \<Longrightarrow> runner t = Returned \<Longrightarrow> t' = t"
proof (induction rule: rtranclp_induct)
  case (step y z)
  from step.hyps(2) show ?case by (cases rule: thread_step.cases) (use step in auto)
qed simp

lemma heard_stays: "thread_runs t t' \<Longrightarrow> heard t \<Longrightarrow> heard t'"
proof (induction rule: rtranclp_induct)
  case (step y z)
  then have h: "heard y" by simp
  show ?case
  proof (cases "creator y = Joined")
    case True
    with h joined_stays [of y z] step.hyps(2) show ?thesis by (auto simp: heard_def)
  next
    case False
    with h have "creator y \<in> {Destroying, Joining}" "runner y \<in> {Entering, Looping, Returned}" by (auto simp: heard_def)
    from destroying_step [OF step.hyps(2) this] h show ?thesis by (auto simp: heard_def)
  qed
qed simp

text \<open>It ends in \<open>join\<close>, unless the loop is gone before the destructor has woken it.\<close>

lemma heard_joins:
  assumes "heard t" and "\<not> (creator t = Destroying \<and> runner t = Returned)"
  shows "\<exists>t'. thread_runs t t' \<and> creator t' = Joined"
proof -
  have join: "\<exists>t'. thread_runs u t' \<and> creator t' = Joined" if "creator u = Joining" "runner u = Returned" for u
    using joins [OF that] by (intro exI [of _ "u\<lparr>creator := Joined\<rparr>"]) auto
  have wait: "\<exists>t'. thread_runs u t' \<and> creator t' = Joined" if u: "creator u = Joining" "runner u = Looping" "quit_flag u" for u
  proof -
    from join [of "u\<lparr>runner := Returned\<rparr>"] u(1) obtain t' where
      "thread_runs (u\<lparr>runner := Returned\<rparr>) t'" "creator t' = Joined" by auto
    with converse_rtranclp_into_rtranclp [of thread_step, OF leaves_loop [OF u(2,3)]] show ?thesis by blast
  qed
  consider "creator t = Destroying" "runner t = Looping" "quit_flag t" "loop_ptr t \<noteq> None"
    | "creator t = Joining" "runner t = Looping" "quit_flag t" | "creator t = Joining" "runner t = Returned"
    | "creator t = Joined" using assms unfolding heard_def by blast
  then show ?thesis
  proof cases
    case 1
    let ?u = "t\<lparr>creator := Joining\<rparr>"
    have "thread_step t ?u" using 1 by (intro goes_to_join) (simp_all add: goes_on_Inr)
    moreover obtain t' where "thread_runs ?u t'" "creator t' = Joined" using wait [of ?u] 1 by auto
    ultimately show ?thesis by (blast intro: converse_rtranclp_into_rtranclp)
  qed (use wait join in blast)+
qed

lemma gone_before_wakeup:
  assumes "creator t = Destroying" and "runner t = Returned" and "loop_ptr t \<noteq> None"
  shows "destroy_goes_on t = Inl (NullDereference ''loop_, which is gone'')"
  using assms by (auto simp: destroy_goes_on_def quit_wakes_def at_loop_def)

text \<open>A loop that has been asked before it clears \<open>quit_\<close>, and is not asked again.\<close>

definition unheard :: "loop_thread \<Rightarrow> bool" where
  "unheard t \<longleftrightarrow> loop_ptr t \<noteq> None \<and> creator t \<in> {Destroying, Joining} \<and> (runner t = Entering \<or> runner t = Looping \<and> \<not> quit_flag t)"

lemma unheard_stays: "thread_runs t t' \<Longrightarrow> unheard t \<Longrightarrow> unheard t'"
proof (induction rule: rtranclp_induct)
  case (step y z)
  then have u: "unheard y" by simp
  then have "creator y \<in> {Destroying, Joining}" "runner y \<in> {Entering, Looping, Returned}" by (auto simp: unheard_def)
  from destroying_step [OF step.hyps(2) this] u show ?case by (auto simp: unheard_def)
qed simp

lemma unheard_stuck:
  assumes "unheard t"
  shows "\<exists>t'. thread_runs t t' \<and> \<not> (\<exists>t''. thread_step t' t'')"
proof -
  have stuck: "\<not> (\<exists>t''. thread_step u t'')" if "creator u = Joining" "runner u = Looping" "\<not> quit_flag u" for u
    using destroying_step [of u] that by auto
  have waits: "\<exists>t'. thread_runs u t' \<and> \<not> (\<exists>t''. thread_step t' t'')"
    if "loop_ptr u \<noteq> None" "creator u \<in> {Destroying, Joining}" "runner u = Looping" "\<not> quit_flag u" for u
  proof (cases "creator u = Joining")
    case True
    with stuck [of u] that show ?thesis by blast
  next
    case False
    then have "thread_step u (u\<lparr>creator := Joining\<rparr>)" using that by (intro goes_to_join) (simp_all add: goes_on_Inr)
    with stuck [of "u\<lparr>creator := Joining\<rparr>"] that(3,4) show ?thesis by (auto intro: exI [of _ "u\<lparr>creator := Joining\<rparr>"])
  qed
  show ?thesis
  proof (cases "runner t = Entering")
    case True
    let ?u = "t\<lparr>runner := Looping, quit_flag := False\<rparr>"
    obtain t' where "thread_runs ?u t'" "\<not> (\<exists>t''. thread_step t' t'')"
      using waits [of ?u] assms by (auto simp: unheard_def)
    with converse_rtranclp_into_rtranclp [of thread_step, OF enters_loop [OF True]] show ?thesis by blast
  next
    case False
    then show ?thesis using waits [of t] assms by (auto simp: unheard_def)
  qed
qed

text \<open>C26: What destroying the object of a running thread does depends on where the runner is. In
  its loop: the destructor's \<open>quit\<close> is heard, and what follows is a race. At any time after it
  either the destructor can still come to the end of \<open>join\<close>, or the loop has gone while the
  destructor was in the middle of \<open>quit\<close>, and it goes on to use a loop that is gone; once it has
  woken the loop it comes to the end. Both happen. Not yet in its loop, although \<open>startLoop\<close> has
  returned: the \<open>quit\<close> is lost when \<open>loop\<close> clears the flag, \<open>join\<close> never returns, and the two
  threads end up stuck. Returned from the loop, because someone called \<open>quit\<close> before: the destructor
  calls \<open>quit\<close> on a loop that is gone.\<close>

theorem loop_thread_destruction:
  assumes "thread_runs new_loop_thread t" and "creator t = HasLoop l"
  shows "case runner t of
      Looping \<Rightarrow> \<exists>t1. destroy_loop_thread t = Inr t1 \<and>
        (\<forall>t2. thread_runs t1 t2 \<longrightarrow> (\<exists>t3. thread_runs t2 t3 \<and> creator t3 = Joined) \<or>
           creator t2 = Destroying \<and> destroy_goes_on t2 = Inl (NullDereference ''loop_, which is gone'')) \<and>
        (\<exists>t2. thread_runs t1 t2 \<and> creator t2 = Joined) \<and>
        (\<exists>t2. thread_runs t1 t2 \<and> creator t2 = Destroying \<and>
           destroy_goes_on t2 = Inl (NullDereference ''loop_, which is gone''))
    | Entering \<Rightarrow> \<exists>t1. destroy_loop_thread t = Inr t1 \<and> (\<forall>t2. thread_runs t1 t2 \<longrightarrow> creator t2 \<in> {Destroying, Joining}) \<and>
        (\<exists>t2. thread_runs t1 t2 \<and> \<not> (\<exists>t3. thread_step t2 t3))
    | Returned \<Rightarrow> destroy_loop_thread t = Inl (NullDereference ''loop_, which is gone'')
    | _ \<Rightarrow> False"
proof -
  let ?t1 = "t\<lparr>exiting := True, quit_flag := True, creator := Destroying\<rparr>"
  have I: "together (creator t) (runner t)" "loop_ptr t \<noteq> None \<longleftrightarrow> published (runner t)"
    using thread_inv_reachable [OF assms(1)] by (simp_all add: thread_inv_def)
  consider "runner t = Looping" | "runner t = Entering" | "runner t = Returned" using I(1) assms(2) by auto
  then show ?thesis
  proof cases
    case 1
    then have d: "destroy_loop_thread t = Inr ?t1" using I(2) by (simp add: destroy_Inr)
    have h: "heard ?t1" using 1 I(2) by (simp add: heard_def)
    have all: "(\<exists>t3. thread_runs t2 t3 \<and> creator t3 = Joined) \<or>
        creator t2 = Destroying \<and> destroy_goes_on t2 = Inl (NullDereference ''loop_, which is gone'')" if "thread_runs ?t1 t2" for t2
      using heard_joins [OF heard_stays [OF that h]] gone_before_wakeup [of t2] heard_stays [OF that h]
      by (auto simp: heard_def)
    have joined: "\<exists>t2. thread_runs ?t1 t2 \<and> creator t2 = Joined" using heard_joins [OF h] 1 by simp
    let ?t2 = "?t1\<lparr>runner := Returned\<rparr>"
    have "thread_step ?t1 ?t2" using leaves_loop [of ?t1] 1 by simp
    moreover have "destroy_goes_on ?t2 = Inl (NullDereference ''loop_, which is gone'')"
      by (rule gone_before_wakeup) (use 1 I(2) in simp_all)
    ultimately have "\<exists>t2. thread_runs ?t1 t2 \<and> creator t2 = Destroying \<and>
        destroy_goes_on t2 = Inl (NullDereference ''loop_, which is gone'')"
      by (intro exI [of _ ?t2]) auto
    with d 1 all joined show ?thesis by simp
  next
    case 2
    then have d: "destroy_loop_thread t = Inr ?t1" using I(2) by (simp add: destroy_Inr)
    have u: "unheard ?t1" using 2 I(2) by (simp add: unheard_def)
    have "creator t2 \<in> {Destroying, Joining}" if "thread_runs ?t1 t2" for t2
      using unheard_stays [OF that u] by (simp add: unheard_def)
    with d 2 unheard_stuck [OF u] show ?thesis by simp
  next
    case 3
    then show ?thesis using I(2) by (auto simp: destroy_loop_thread_def quit_sets_def at_loop_def)
  qed
qed

subsection \<open>All three happen\<close>

definition thread_with_loop :: loop_thread where
  "thread_with_loop = new_loop_thread\<lparr>creator := HasLoop 3, runner := Entering, loop_ptr := Some 3\<rparr>"

lemma thread_with_loop_reachable: "thread_runs new_loop_thread thread_with_loop"
proof -
  let ?t1 = "new_loop_thread\<lparr>creator := Starting, runner := Constructed\<rparr>"
  let ?t2 = "?t1\<lparr>runner := Publishing, mutex := Some Runner\<rparr>"
  let ?t3 = "?t2\<lparr>runner := Notifying, loop_ptr := Some 3\<rparr>"
  let ?t4 = "?t3\<lparr>runner := Entering, mutex := None\<rparr>"
  let ?t5 = "?t4\<lparr>creator := Checking, mutex := Some Creator\<rparr>"
  have "thread_step new_loop_thread ?t1" by (rule starts) (simp_all add: new_loop_thread_def start_thread_def)
  moreover have "thread_step ?t1 ?t2" by (rule runner_locks) (simp_all add: new_loop_thread_def)
  moreover have "thread_step ?t2 ?t3" by (rule publishes) simp
  moreover have "thread_step ?t3 ?t4" using notifies [of ?t3] by (simp add: new_loop_thread_def)
  moreover have "thread_step ?t4 ?t5" by (rule locks) simp_all
  moreover have "thread_step ?t5 thread_with_loop"
    using sees_loop [of ?t5 3] by (simp add: thread_with_loop_def new_loop_thread_def)
  ultimately show ?thesis by (meson converse_rtranclp_into_rtranclp r_into_rtranclp)
qed

lemma thread_looping_reachable: "thread_runs new_loop_thread (thread_with_loop\<lparr>runner := Looping\<rparr>)"
proof -
  have "thread_step thread_with_loop (thread_with_loop\<lparr>runner := Looping\<rparr>)"
    using enters_loop [of thread_with_loop] by (simp add: thread_with_loop_def new_loop_thread_def)
  with thread_with_loop_reachable show ?thesis by (rule rtranclp.rtrancl_into_rtrancl)
qed

lemma thread_returned_reachable:
  "thread_runs new_loop_thread (thread_with_loop\<lparr>quit_flag := True, runner := Returned\<rparr>)"
proof -
  let ?t = "thread_with_loop\<lparr>runner := Looping\<rparr>"
  let ?q = "?t\<lparr>quit_flag := True\<rparr>"
  have "thread_step ?t (?q\<lparr>creator := Quitting 3\<rparr>)"
    by (rule quits) (simp_all add: thread_with_loop_def quit_sets_Inr)
  moreover have same: "?q\<lparr>creator := HasLoop 3\<rparr> = ?q" by (simp add: thread_with_loop_def)
  have "thread_step (?q\<lparr>creator := Quitting 3\<rparr>) (?q\<lparr>creator := HasLoop 3\<rparr>)"
    using quit_returns [of "?q\<lparr>creator := Quitting 3\<rparr>" 3] by (simp add: thread_with_loop_def quit_wakes_Inr)
  then have "thread_step (?q\<lparr>creator := Quitting 3\<rparr>) ?q" unfolding same .
  moreover have "thread_step ?q (thread_with_loop\<lparr>quit_flag := True, runner := Returned\<rparr>)"
    using leaves_loop [of ?q] by simp
  ultimately show ?thesis using thread_looping_reachable by (meson rtranclp.rtrancl_into_rtrancl)
qed

theorem loop_thread_destruction_witness:
  "(\<exists>t1. destroy_loop_thread (thread_with_loop\<lparr>runner := Looping\<rparr>) = Inr t1 \<and>
      (\<exists>t2. thread_runs t1 t2 \<and> creator t2 = Joined) \<and>
      (\<exists>t2. thread_runs t1 t2 \<and> destroy_goes_on t2 = Inl (NullDereference ''loop_, which is gone''))) \<and>
   (\<exists>t1. destroy_loop_thread thread_with_loop = Inr t1 \<and> (\<exists>t2. thread_runs t1 t2 \<and> \<not> (\<exists>t3. thread_step t2 t3))) \<and>
   destroy_loop_thread (thread_with_loop\<lparr>quit_flag := True, runner := Returned\<rparr>)
     = Inl (NullDereference ''loop_, which is gone'')"
proof (intro conjI)
  show "\<exists>t1. destroy_loop_thread (thread_with_loop\<lparr>runner := Looping\<rparr>) = Inr t1 \<and>
      (\<exists>t2. thread_runs t1 t2 \<and> creator t2 = Joined) \<and>
      (\<exists>t2. thread_runs t1 t2 \<and> destroy_goes_on t2 = Inl (NullDereference ''loop_, which is gone''))"
    using loop_thread_destruction [OF thread_looping_reachable] by (simp add: thread_with_loop_def) blast
  show "\<exists>t1. destroy_loop_thread thread_with_loop = Inr t1 \<and> (\<exists>t2. thread_runs t1 t2 \<and> \<not> (\<exists>t3. thread_step t2 t3))"
    using loop_thread_destruction [OF thread_with_loop_reachable] by (simp add: thread_with_loop_def) blast
  show "destroy_loop_thread (thread_with_loop\<lparr>quit_flag := True, runner := Returned\<rparr>)
     = Inl (NullDereference ''loop_, which is gone'')"
    using loop_thread_destruction [OF thread_returned_reachable] by (simp add: thread_with_loop_def)
qed

text \<open>In particular the two threads can end up waiting for each other.\<close>

lemma loop_thread_can_deadlock:
  "\<exists>t. thread_runs new_loop_thread t \<and> creator t = Joining \<and> runner t = Looping \<and> \<not> (\<exists>t'. thread_step t t')"
proof -
  let ?t = "thread_with_loop\<lparr>exiting := True, quit_flag := True, creator := Destroying\<rparr>"
  have "destroy_loop_thread thread_with_loop = Inr ?t" by (simp add: destroy_Inr thread_with_loop_def)
  then have "thread_step thread_with_loop ?t" by (intro destroys) (simp_all add: thread_with_loop_def)
  with thread_with_loop_reachable have r: "thread_runs new_loop_thread ?t" by (rule rtranclp.rtrancl_into_rtrancl)
  have u: "unheard ?t" by (simp add: unheard_def thread_with_loop_def)
  from unheard_stuck [OF u] obtain t' where t': "thread_runs ?t t'" "\<not> (\<exists>t''. thread_step t' t'')" by blast
  have u': "unheard t'" by (rule unheard_stays [OF t'(1) u])
  then have "runner t' = Looping" using enters_loop [of t'] t'(2) by (auto simp: unheard_def)
  moreover from this have "creator t' = Joining" using u' goes_to_join [of t' "t'\<lparr>creator := Joining\<rparr>"] t'(2)
    by (auto simp: unheard_def goes_on_Inr)
  ultimately show ?thesis using rtranclp_trans [OF r t'(1)] t'(2) by (intro exI [of _ t']) blast
qed

subsection \<open>test6.cc\<close>

text \<open>
  The main thread of test6 after \<open>startLoop\<close>: two functors are given to the loop, the loop is asked to
  quit, and the destructor of \<open>loopThread\<close> runs. A member function of the loop needs the loop. The
  second halves of \<open>quit\<close> and of the destructor are steps of \<open>thread_step\<close>.
\<close>

definition through_loop :: "loop_thread \<Rightarrow> loop_thread result" where
  "through_loop t = (case loop_ptr t of
     None \<Rightarrow> Inl (NullDereference ''loop'')
   | Some _ \<Rightarrow> require (runner t \<noteq> Returned) (NullDereference ''loop, which is gone'') (Inr t))"

fun test6_main :: "nat \<Rightarrow> loop_thread \<Rightarrow> loop_thread result" where
  "test6_main 0 t = through_loop t"
| "test6_main (Suc 0) t = through_loop t"
| "test6_main (Suc (Suc 0)) t = and_then (quit_sets t) (\<lambda>t'.
     Inr (t'\<lparr>creator := (case creator t of HasLoop l \<Rightarrow> Quitting l | c \<Rightarrow> c)\<rparr>))"
| "test6_main (Suc (Suc (Suc n))) t = destroy_loop_thread t"

text \<open>\<open>startLoop\<close> and the runner take steps of \<open>thread_step\<close>, the statements of \<open>main\<close> are counted.\<close>

inductive test6_reaches :: "nat \<Rightarrow> loop_thread \<Rightarrow> bool" where
  test6_begins: "test6_reaches 0 new_loop_thread"
| test6_starting: "test6_reaches n t \<Longrightarrow> thread_step t t' \<Longrightarrow> (\<And>l. creator t \<noteq> HasLoop l) \<Longrightarrow> test6_reaches n t'"
| test6_runner: "test6_reaches n t \<Longrightarrow> thread_step t t' \<Longrightarrow> runner t' \<noteq> runner t \<Longrightarrow> test6_reaches n t'"
| test6_statement: "test6_reaches n t \<Longrightarrow> creator t = HasLoop l \<Longrightarrow> test6_main n t = Inr t' \<Longrightarrow> test6_reaches (Suc n) t'"

lemma through_loop_Inr: "through_loop t = Inr t' \<longleftrightarrow> loop_ptr t \<noteq> None \<and> runner t \<noteq> Returned \<and> t' = t"
  by (auto simp: through_loop_def split: option.splits)

lemma test6_main_steps: "creator t = HasLoop l \<Longrightarrow> test6_main n t = Inr t' \<Longrightarrow> t' = t \<or> thread_step t t'"
  by (induction n t rule: test6_main.induct) (auto simp: through_loop_Inr and_then_Inr_iff intro: quits destroys)

text \<open>Until the loop has been asked to quit it is there, and the flag is not set.\<close>

lemma test6_inv:
  "test6_reaches n t \<Longrightarrow> thread_inv t \<and> (n \<le> 2 \<longrightarrow> \<not> quit_flag t \<and> runner t \<noteq> Returned)"
proof (induction rule: test6_reaches.induct)
  case test6_begins
  then show ?case by (simp add: thread_inv_def new_loop_thread_def)
next
  case (test6_starting n t t')
  then show ?case using thread_inv_step [OF test6_starting.hyps(2)]
    by (auto elim!: thread_stepE simp: thread_results require_Inr_iff)
next
  case (test6_runner n t t')
  then show ?case using thread_inv_step [OF test6_runner.hyps(2)]
    by (auto elim!: thread_stepE simp: thread_results require_Inr_iff)
next
  case (test6_statement n t l t')
  have "thread_inv t'" using test6_main_steps [OF test6_statement.hyps(2,3)] thread_inv_step test6_statement.IH by blast
  moreover have "n = 0 \<or> n = Suc 0 \<Longrightarrow> t' = t" using test6_statement.hyps(3) by (auto simp: through_loop_Inr)
  ultimately show ?case using test6_statement.IH by (auto simp: le_Suc_eq numeral_2_eq_2)
qed

text \<open>The first three statements after \<open>startLoop\<close> do no harm. The destructor does if the thread has left
  \<open>threadFunc\<close> by then.\<close>

lemma test6_statements_ok:
  assumes "test6_reaches n t" and "creator t = HasLoop l" and "n \<le> 2"
  shows "\<exists>t'. test6_main n t = Inr t'"
proof -
  have "thread_inv t" "runner t \<noteq> Returned" using test6_inv [OF assms(1)] assms(3) by simp_all
  then have "loop_ptr t \<noteq> None" "runner t \<noteq> Returned" using assms(2) by (auto simp: thread_inv_def)
  then show ?thesis using assms(3) by (auto simp: le_Suc_eq numeral_2_eq_2 through_loop_def quit_sets_def at_loop_def)
qed

lemma test6_destructor_fails:
  assumes "test6_reaches 3 t" and "creator t = HasLoop l" and "runner t = Returned"
  shows "test6_main 3 t = Inl (NullDereference ''loop_, which is gone'')"
proof -
  have "loop_ptr t \<noteq> None" using test6_inv [OF assms(1)] assms(2,3) by (auto simp: thread_inv_def)
  then show ?thesis using assms(3) by (auto simp: numeral_3_eq_3 destroy_loop_thread_def quit_sets_def at_loop_def)
qed

text \<open>So does the second half of \<open>main\<close>'s own \<open>quit\<close>.\<close>

lemma test6_quit_fails:
  assumes "test6_reaches n t" and "creator t = Quitting l" and "runner t = Returned"
  shows "quit_wakes t = Inl (NullDereference ''loop_, which is gone'')"
proof -
  have "loop_ptr t \<noteq> None" using test6_inv [OF assms(1)] assms(2,3) by (auto simp: thread_inv_def)
  then show ?thesis using assms(3) by (auto simp: quit_wakes_def at_loop_def)
qed

text \<open>And it comes to that: the thread may enter the loop and leave it before the destructor runs.\<close>

lemma test6_has_loop: "test6_reaches 0 thread_with_loop"
proof -
  let ?t1 = "new_loop_thread\<lparr>creator := Starting, runner := Constructed\<rparr>"
  let ?t2 = "?t1\<lparr>runner := Publishing, mutex := Some Runner\<rparr>"
  let ?t3 = "?t2\<lparr>runner := Notifying, loop_ptr := Some 3\<rparr>"
  let ?t4 = "?t3\<lparr>runner := Entering, mutex := None\<rparr>"
  let ?t5 = "?t4\<lparr>creator := Checking, mutex := Some Creator\<rparr>"
  have "thread_step new_loop_thread ?t1" by (rule starts) (simp_all add: new_loop_thread_def start_thread_def)
  from test6_starting [OF test6_begins this] have "test6_reaches 0 ?t1" by (simp add: new_loop_thread_def)
  moreover have "thread_step ?t1 ?t2" by (rule runner_locks) (simp_all add: new_loop_thread_def)
  ultimately have "test6_reaches 0 ?t2" by (rule test6_starting) simp
  moreover have "thread_step ?t2 ?t3" by (rule publishes) simp
  ultimately have "test6_reaches 0 ?t3" by (rule test6_starting) simp
  moreover have "thread_step ?t3 ?t4" using notifies [of ?t3] by (simp add: new_loop_thread_def)
  ultimately have "test6_reaches 0 ?t4" by (rule test6_starting) simp
  moreover have "thread_step ?t4 ?t5" by (rule locks) simp_all
  ultimately have "test6_reaches 0 ?t5" by (rule test6_starting) simp
  moreover have "thread_step ?t5 thread_with_loop"
    using sees_loop [of ?t5 3] by (simp add: thread_with_loop_def new_loop_thread_def)
  ultimately show ?thesis by (rule test6_starting) simp
qed

lemma test6_asked_to_quit:
  "test6_reaches 3 (thread_with_loop\<lparr>runner := Looping, quit_flag := True, creator := Quitting 3\<rparr>)"
proof -
  let ?t = "thread_with_loop\<lparr>runner := Looping\<rparr>"
  have c: "creator ?t = HasLoop 3" by (simp add: thread_with_loop_def)
  have "thread_step thread_with_loop ?t"
    using enters_loop [of thread_with_loop] by (simp add: thread_with_loop_def new_loop_thread_def)
  from test6_runner [OF test6_has_loop this] have "test6_reaches 0 ?t" by (simp add: thread_with_loop_def)
  from test6_statement [OF this c] have "test6_reaches (Suc 0) ?t" by (simp add: through_loop_Inr thread_with_loop_def)
  from test6_statement [OF this c] have "test6_reaches (Suc (Suc 0)) ?t" by (simp add: through_loop_Inr thread_with_loop_def)
  from test6_statement [OF this c, of "?t\<lparr>quit_flag := True, creator := Quitting 3\<rparr>"] show ?thesis
    by (simp add: quit_sets_Inr and_then_Inr_iff thread_with_loop_def numeral_3_eq_3)
qed

lemma test6_can_fail:
  "\<exists>t l. test6_reaches 3 t \<and> creator t = HasLoop l \<and> runner t = Returned"
  "\<exists>t l. test6_reaches 3 t \<and> creator t = Quitting l \<and> runner t = Returned"
proof -
  let ?q = "thread_with_loop\<lparr>runner := Looping, quit_flag := True, creator := Quitting 3\<rparr>"
  let ?h = "?q\<lparr>creator := HasLoop 3\<rparr>"
  have "thread_step ?q (?q\<lparr>runner := Returned\<rparr>)" by (rule leaves_loop) simp_all
  with test6_asked_to_quit have "test6_reaches 3 (?q\<lparr>runner := Returned\<rparr>)" by (rule test6_runner) simp
  then show "\<exists>t l. test6_reaches 3 t \<and> creator t = Quitting l \<and> runner t = Returned" by fastforce
  have "thread_step ?q ?h" using quit_returns [of ?q 3] by (simp add: thread_with_loop_def quit_wakes_Inr)
  with test6_asked_to_quit have "test6_reaches 3 ?h" by (rule test6_starting) simp
  moreover have "thread_step ?h (?h\<lparr>runner := Returned\<rparr>)" by (rule leaves_loop) simp_all
  ultimately have "test6_reaches 3 (?h\<lparr>runner := Returned\<rparr>)" by (rule test6_runner) simp
  then show "\<exists>t l. test6_reaches 3 t \<and> creator t = HasLoop l \<and> runner t = Returned" by fastforce
qed

end
