(* ===== verification/TimerPrograms.thy ===== *)
theory TimerPrograms
  imports LoopTimers
begin

section \<open>Programs on the timers of a loop: test4.cc and test5.cc\<close>

text \<open>
  A program whose code is timer callbacks and queued functors, all in the loop's thread. A callback is
  a number; what it asks of the timer queue and what it does to the program's own state and to the
  loop touch different things, and are given apart: \<open>requests\<close> and \<open>effects\<close>. The effects of the
  callbacks that \<open>TimerQueue::handleRead\<close> has run are made in the order it ran them.
\<close>

fun run_callbacks :: "(nat \<Rightarrow> 's \<Rightarrow> 's \<times> 'f call list) \<Rightarrow> nat list \<Rightarrow> 's \<Rightarrow> 's \<times> 'f call list" where
  "run_callbacks effects [] s = (s, [])"
| "run_callbacks effects (cb # cbs) s =
     (let (s1, cs1) = effects cb s; (s2, cs2) = run_callbacks effects cbs s1 in (s2, cs1 @ cs2))"

definition timer_program_event ::
  "'ts platform \<Rightarrow> (nat \<Rightarrow> 'ts timer_queue \<Rightarrow> 'ts request list) \<Rightarrow> (nat \<Rightarrow> 's \<Rightarrow> 's \<times> 'f call list)
     \<Rightarrow> 'ts \<Rightarrow> ('ts::linorder) timer_queue \<times> 's \<Rightarrow> (('ts timer_queue \<times> 's) \<times> 'f call list) result" where
  "timer_program_event pf requests effects now st = (let (q, s) = st in
     and_then (handleRead pf requests True now (q\<lparr>clock := now\<rparr>)) (\<lambda>q'.
       let (s', cs) = run_callbacks effects (drop (length (fired q)) (fired q')) s in Inr ((q', s'), cs)))"

subsection \<open>test5.cc\<close>

text \<open>What is printed with each name is \<open>g\_flag\<close> at that time.\<close>

record flagged =
  g_flag :: int
  printed :: "(string \<times> int) list"

datatype test5_functor = Run3

definition print_flag :: "string \<Rightarrow> flagged \<Rightarrow> flagged" where
  "print_flag name s = s\<lparr>printed := printed s @ [(name, g_flag s)]\<rparr>"

definition run4 :: "flagged \<Rightarrow> flagged \<times> test5_functor call list" where
  "run4 s = (print_flag ''run4'' s, [QuitCall])"

definition run2 :: "flagged \<Rightarrow> flagged \<times> test5_functor call list" where
  "run2 s = (print_flag ''run2'' s, [QueueCall Run3])"

text \<open>\<open>runInLoop\<close> in the loop's own thread is a call.\<close>

definition run1 :: "flagged \<Rightarrow> flagged \<times> test5_functor call list" where
  "run1 s = (let (s', calls) = run2 (print_flag ''run1'' (s\<lparr>g_flag := 1\<rparr>)) in (s'\<lparr>g_flag := 2\<rparr>, calls))"

text \<open>The timers are numbered after their callbacks, 1 and 4; \<open>now3\<close> is the time when \<open>run3\<close> is run.\<close>

definition test5_effects :: "nat \<Rightarrow> flagged \<Rightarrow> flagged \<times> test5_functor call list" where
  "test5_effects cb = (if cb = 1 then run1 else run4)"

definition run3 ::
  "('ts::linorder) platform \<Rightarrow> 'ts \<Rightarrow> test5_functor \<Rightarrow> 'ts timer_queue \<times> flagged
     \<Rightarrow> (('ts timer_queue \<times> flagged) \<times> test5_functor call list) result" where
  "run3 pf now3 f st = (let (q, s) = st in
     and_then (runAfter pf 3 4 (q\<lparr>clock := now3\<rparr>)) (\<lambda>(_, q'). Inr ((q', (print_flag ''run3'' s)\<lparr>g_flag := 3\<rparr>), [])))"

definition test5 ::
  "('ts::linorder) platform \<Rightarrow> 'ts \<Rightarrow> 'ts active list list \<Rightarrow> 'ts timer_queue
     \<Rightarrow> (test5_functor, 'ts timer_queue \<times> flagged) event_loop result" where
  "test5 pf now3 polls q0 =
     (let s0 = print_flag ''main'' \<lparr>g_flag = 0, printed = []\<rparr> in
      and_then (new_event_loop False (q0, s0)) (\<lambda>L.
      and_then (runAfter pf 2 1 q0) (\<lambda>(_, q1).
      and_then (loop (run3 pf now3) (timer_program_event pf (\<lambda>_ _. []) test5_effects) True polls (L\<lparr>user := (q1, s0)\<rparr>)) (\<lambda>L'.
        Inr (if looping L' then L' else L'\<lparr>user := (fst (user L'), print_flag ''main'' (snd (user L')))\<rparr>)))))"

subsection \<open>test4.cc\<close>

text \<open>\<open>messages\<close> is what \<open>print\<close> has printed, without the times.\<close>

record counted =
  cnt :: int
  messages :: "string list"

definition print_msg :: "string \<Rightarrow> counted \<Rightarrow> counted \<times> unit call list" where
  "print_msg msg s = (s\<lparr>cnt := cnt s + 1, messages := messages s @ [msg]\<rparr>, if cnt s + 1 = 20 then [QuitCall] else [])"

text \<open>The timers of \<open>main\<close> in the order they are made; the seventh is the one bound to \<open>EventLoop::cancel\<close>.\<close>

definition test4_message :: "nat \<Rightarrow> string" where
  "test4_message cb = (if cb = 1 then ''once1'' else if cb = 2 then ''once1.5'' else if cb = 3 then ''once2.5''
     else if cb = 4 then ''once3.5'' else if cb = 5 then ''every2'' else if cb = 6 then ''every3'' else ''cancelSelf()'')"

definition test4_effects :: "nat \<Rightarrow> counted \<Rightarrow> counted \<times> unit call list" where
  "test4_effects cb s = (if cb = 7 then (s, []) else print_msg (test4_message cb) s)"

definition test4_requests :: "timer_id \<Rightarrow> timer_id \<Rightarrow> nat \<Rightarrow> 'ts timer_queue \<Rightarrow> 'ts request list" where
  "test4_requests t toCancel cb q = (if cb = 7 then [CancelTimer t] else if cb = 8 then [CancelTimer toCancel] else [])"

definition test4_timers ::
  "('ts::linorder) platform \<Rightarrow> 'ts timer_queue \<Rightarrow> ((timer_id \<times> timer_id) \<times> 'ts timer_queue) result" where
  "test4_timers pf q =
     and_then (runAfter pf 1 1 q) (\<lambda>(_, q).
     and_then (runAfter pf (3 / 2) 2 q) (\<lambda>(_, q).
     and_then (runAfter pf (5 / 2) 3 q) (\<lambda>(_, q).
     and_then (runAfter pf (7 / 2) 4 q) (\<lambda>(_, q).
     and_then (runEvery pf 2 5 q) (\<lambda>(t, q).
     and_then (runEvery pf 3 6 q) (\<lambda>(_, q).
     and_then (runAfter pf 10 7 q) (\<lambda>(_, q).
     and_then (runEvery pf 5 8 q) (\<lambda>(toCancel, q). Inr ((t, toCancel), q)))))))))"

definition test4 ::
  "('ts::linorder) platform \<Rightarrow> 'ts active list list \<Rightarrow> 'ts timer_queue
     \<Rightarrow> (unit, 'ts timer_queue \<times> counted) event_loop result" where
  "test4 pf polls q0 =
     (let s0 = fst (print_msg ''main'' \<lparr>cnt = 0, messages = []\<rparr>) in
      and_then (new_event_loop False (q0, s0)) (\<lambda>L.
      and_then (test4_timers pf q0) (\<lambda>((t, toCancel), q1).
      and_then (loop (\<lambda>_ st. Inr (st, [])) (timer_program_event pf (test4_requests t toCancel) test4_effects) True polls
          (L\<lparr>user := (q1, s0)\<rparr>)) (\<lambda>L'.
        Inr (if looping L' then L' else L'\<lparr>user := (fst (user L'), fst (print_msg ''main loop exits'' (snd (user L'))))\<rparr>)))))"

subsection \<open>Callbacks whose cancellations find nothing\<close>

definition unheeded :: "(u64 \<Rightarrow> 'ts timer option) \<Rightarrow> 'ts request \<Rightarrow> bool" where
  "unheeded m r \<longleftrightarrow> (\<exists>tid. r = CancelTimer tid \<and> (\<forall>t. m (id_timer tid) = Some t \<longrightarrow> sequence t \<noteq> id_sequence tid))"

definition no_match :: "(u64 \<Rightarrow> 'ts timer option) \<Rightarrow> (u64 \<times> u64) list \<Rightarrow> bool" where
  "no_match m cs \<longleftrightarrow> (\<forall>p n t. (p, n) \<in> set cs \<longrightarrow> m p = Some t \<longrightarrow> sequence t \<noteq> n)"

lemma perform_unheeded:
  assumes inv: "tq_inv H q" and "unheeded (mem q) r" and no: "no_match (mem q) (cancelingTimers q)"
  shows "\<exists>cs. perform pf r q = Inr (q\<lparr>cancelingTimers := cs\<rparr>) \<and> no_match (mem q) cs"
proof -
  obtain tid where r: "r = CancelTimer tid" "\<forall>t. mem q (id_timer tid) = Some t \<longrightarrow> sequence t \<noteq> id_sequence tid"
    using assms(2) by (auto simp: unheeded_def)
  then have i: "(id_timer tid, id_sequence tid) \<notin> set (activeTimers q)" by (auto simp: tq_inv_active [OF inv])
  let ?cs = "if callingExpiredTimers q then fst (set_insert (id_timer tid, id_sequence tid) (cancelingTimers q))
    else cancelingTimers q"
  have "set ?cs \<subseteq> insert (id_timer tid, id_sequence tid) (set (cancelingTimers q))"
    by (auto simp: set_insert_def set_insort_key)
  then have "no_match (mem q) ?cs" using no r(2) unfolding no_match_def by blast
  then show ?thesis using cancelInLoop_inactive [OF inv i] r(1) by (intro exI [of _ ?cs]) simp
qed

lemma requests_unheeded:
  assumes "tq_inv H q" and "\<forall>r \<in> set rs. unheeded (mem q) r" and "no_match (mem q) (cancelingTimers q)"
  shows "\<exists>cs. for_each (perform pf) rs q = Inr (q\<lparr>cancelingTimers := cs\<rparr>) \<and> no_match (mem q) cs"
  using assms
proof (induction rs arbitrary: q)
  case Nil
  then show ?case by (intro exI [of _ "cancelingTimers q"]) simp
next
  case (Cons r rs)
  from perform_unheeded [OF Cons.prems(1) _ Cons.prems(3), of r pf] Cons.prems(2) obtain cs where
    cs: "perform pf r q = Inr (q\<lparr>cancelingTimers := cs\<rparr>)" "no_match (mem q) cs" by auto
  have "\<exists>cs'. for_each (perform pf) rs (q\<lparr>cancelingTimers := cs\<rparr>)
      = Inr ((q\<lparr>cancelingTimers := cs\<rparr>)\<lparr>cancelingTimers := cs'\<rparr>) \<and> no_match (mem (q\<lparr>cancelingTimers := cs\<rparr>)) cs'"
    by (rule Cons.IH) (use Cons.prems cs(2) in simp_all)
  with cs(1) show ?case by auto
qed

lemma callback_of_mem: "mem q = mem q' \<Longrightarrow> callback_of q = callback_of q'"
  by (simp add: callback_of_def fun_eq_iff)

lemma callbacks_unheeded:
  assumes "tq_inv H q" and "snd ` set es \<subseteq> H" and "no_match (mem q) (cancelingTimers q)"
    and req: "\<And>cb q' r. r \<in> set (requests cb q') \<Longrightarrow> unheeded (mem q) r"
  shows "\<exists>cs. for_each (run_timer pf requests) es q
      = Inr (q\<lparr>fired := fired q @ map (callback_of q) es, cancelingTimers := cs\<rparr>) \<and> no_match (mem q) cs"
  using assms
proof (induction es arbitrary: q)
  case Nil
  then show ?case by (intro exI [of _ "cancelingTimers q"]) simp
next
  case (Cons e es)
  have "snd e \<in> dom (mem q)" using Cons.prems(1,2) by (auto simp: tq_inv_def)
  then obtain t where t: "mem q (snd e) = Some t" by auto
  let ?q = "q\<lparr>fired := fired q @ [callback t]\<rparr>"
  have "\<exists>cs. for_each (perform pf) (requests (callback t) q) ?q = Inr (?q\<lparr>cancelingTimers := cs\<rparr>) \<and> no_match (mem ?q) cs"
    by (rule requests_unheeded [where H = H]) (use Cons.prems in simp_all)
  then obtain cs where cs: "run_timer pf requests e q = Inr (?q\<lparr>cancelingTimers := cs\<rparr>)" "no_match (mem q) cs"
    using t by (auto simp: run_timer_def deref_timer_def)
  have "\<exists>cs'. for_each (run_timer pf requests) es (?q\<lparr>cancelingTimers := cs\<rparr>)
      = Inr ((?q\<lparr>cancelingTimers := cs\<rparr>)\<lparr>fired := fired (?q\<lparr>cancelingTimers := cs\<rparr>) @
          map (callback_of (?q\<lparr>cancelingTimers := cs\<rparr>)) es, cancelingTimers := cs'\<rparr>) \<and>
      no_match (mem (?q\<lparr>cancelingTimers := cs\<rparr>)) cs'"
    by (rule Cons.IH) (use Cons.prems cs(2) in simp_all)
  moreover have "callback_of (?q\<lparr>cancelingTimers := cs\<rparr>) = callback_of q" by (rule callback_of_mem) simp
  moreover have "callback_of q e = callback t" using t by (simp add: callback_of_def)
  ultimately show ?case using cs(1) by auto
qed

text \<open>
  Then \<open>handleRead\<close> cannot fail, and what it leaves is known of every timer: one that was due starts again
  if it repeats and is deleted otherwise, the others stay.
\<close>

lemma handleRead_unheeded:
  assumes inv: "tq_inv {} q" and bad: "\<not> ts_valid pf (ts_default pf)"
    and req: "\<And>cb q' r. r \<in> set (requests cb q') \<Longrightarrow> unheeded (mem q) r"
  shows "\<exists>q'. handleRead pf requests True now q = Inr q' \<and> tq_inv {} q' \<and>
    fired q' = fired q @ map (callback_of q) (due now q) \<and>
    mem q' = (\<lambda>p. case mem q p of None \<Rightarrow> None
      | Some t \<Rightarrow> if expiration t \<le> now then if repeat t then Some (restart pf now t) else None else Some t)"
proof -
  let ?es = "due now q"
  have du: "due now (readTimerfd q) = ?es" by (simp add: due_def readTimerfd_def)
  have inv0: "tq_inv {} (readTimerfd q)" using inv by (simp add: readTimerfd_def)
  obtain q1 where g: "getExpired now (readTimerfd q) = Inr (due now (readTimerfd q), q1)"
      "tq_inv ({} \<union> snd ` set (due now (readTimerfd q))) q1" "mem q1 = mem (readTimerfd q)"
      "set (due now (readTimerfd q)) = {e \<in> set (timers (readTimerfd q)). fst e \<le> now}"
      "fired q1 = fired (readTimerfd q)" "distinct (map snd (due now (readTimerfd q)))"
    by (rule getExpired_ok [OF inv0, of now])
  have same: "mem (readTimerfd q) = mem q" "timers (readTimerfd q) = timers q" "fired (readTimerfd q) = fired q"
    by (simp_all add: readTimerfd_def)
  have q1: "getExpired now (readTimerfd q) = Inr (?es, q1)" "tq_inv (snd ` set ?es) q1"
      "mem q1 = mem q" "set ?es = {e \<in> set (timers q). fst e \<le> now}" "fired q1 = fired q" "distinct (map snd ?es)"
    using g unfolding du same by simp_all
  let ?q1 = "q1\<lparr>callingExpiredTimers := True, cancelingTimers := []\<rparr>"
  have "\<exists>cs. for_each (run_timer pf requests) ?es ?q1
      = Inr (?q1\<lparr>fired := fired ?q1 @ map (callback_of ?q1) ?es, cancelingTimers := cs\<rparr>) \<and> no_match (mem ?q1) cs"
    by (rule callbacks_unheeded [where H = "snd ` set ?es"])
      (use q1(2,3) req in \<open>simp_all add: no_match_def\<close>)
  then obtain cs where cs: "for_each (run_timer pf requests) ?es ?q1
      = Inr (?q1\<lparr>fired := fired q @ map (callback_of q) ?es, cancelingTimers := cs\<rparr>)" "no_match (mem q) cs"
    using q1(3,5) callback_of_mem [of ?q1 q] by auto
  let ?q2 = "q1\<lparr>callingExpiredTimers := False, fired := fired q @ map (callback_of q) ?es, cancelingTimers := cs\<rparr>"
  have ne: "UINTPTR_MAX \<notin> snd ` set ?es"
  proof -
    have "snd e \<noteq> UINTPTR_MAX" if "e \<in> set ?es" for e using tq_invD [OF inv, of "fst e" "snd e"] that q1(4) by auto
    then show ?thesis by force
  qed
  have "tq_inv ({} \<union> snd ` set ?es) ?q2" using q1(2) by simp
  from reset_entries_ok [OF this q1(6) Int_empty_left ne, of pf now] obtain q3 where
    r3: "for_each (reset_entry pf now) ?es ?q2 = Inr q3" "tq_inv {} q3" "fired q3 = fired ?q2"
      "\<forall>r. r \<notin> snd ` set ?es \<longrightarrow> mem q3 r = mem ?q2 r"
      "\<forall>e \<in> set ?es. \<forall>t. mem ?q2 (snd e) = Some t \<longrightarrow>
        mem q3 (snd e) = (if again ?q2 e then Some (restart pf now t) else None) \<and>
        (again ?q2 e \<longrightarrow> (addTime pf now (interval t), snd e) \<in> set (timers q3))"
    by (elim exE conjE)
  have mq2: "mem ?q2 = mem q" using q1(3) by simp
  note q3 = r3(1-3) r3(4)[unfolded mq2] r3(5)[unfolded mq2]
  have m: "mem q3 p = (case mem q p of None \<Rightarrow> None
      | Some t \<Rightarrow> if expiration t \<le> now then if repeat t then Some (restart pf now t) else None else Some t)" for p
  proof (cases "mem q p")
    case None
    have "(w, p) \<notin> set (timers q)" for w using tq_invD [OF inv, of w p] None by (metis option.distinct(1))
    then have "p \<notin> snd ` set ?es" using q1(4) by auto
    then show ?thesis using q3(4) None by simp
  next
    case (Some t)
    have "p \<in> dom (mem q)" using Some by blast
    then have "p \<in> snd ` set (timers q)" using inv by (simp add: tq_inv_def)
    then obtain w where w: "(w, p) \<in> set (timers q)" by force
    have e: "w = expiration t" using tq_invD [OF inv w] Some by auto
    show ?thesis
    proof (cases "expiration t \<le> now")
      case True
      then have "(w, p) \<in> set ?es" using w e q1(4) by simp
      with q3(5) Some have "mem q3 p = (if again ?q2 (w, p) then Some (restart pf now t) else None)" by fastforce
      moreover have "again ?q2 (w, p) = repeat t"
        using Some q1(3) cs(2) by (auto simp: again_def no_match_def)
      ultimately show ?thesis using Some True by simp
    next
      case False
      have "v = expiration t" if "(v, p) \<in> set (timers q)" for v using tq_invD [OF inv that] Some by auto
      then have "p \<notin> snd ` set ?es" using False q1(4) by auto
      then show ?thesis using q3(4) Some False by simp
    qed
  qed
  have "\<exists>q'. reset pf ?es now ?q2 = Inr q' \<and> tq_inv {} q' \<and> fired q' = fired q3 \<and> mem q' = mem q3"
  proof (cases "timers q3")
    case Nil
    then show ?thesis using q3(1,2) bad by (intro exI [of _ q3]) (simp add: reset_def)
  next
    case (Cons x xs)
    obtain w p where x: "x = (w, p)" by (cases x)
    have "(w, p) \<in> set (timers q3)" using Cons x by simp
    from tq_invD [OF q3(2) this] obtain t where t: "mem q3 p = Some t" by blast
    let ?r = "if ts_valid pf (expiration t) then resetTimerfd pf (expiration t) q3 else q3"
    have "reset pf ?es now ?q2 = Inr ?r" using q3(1) Cons x t by (simp add: reset_def deref_timer_def)
    then show ?thesis using q3(2) by (intro exI [of _ ?r]) (simp add: resetTimerfd_def)
  qed
  then obtain q' where q': "reset pf ?es now ?q2 = Inr q'" "tq_inv {} q'" "fired q' = fired q3" "mem q' = mem q3" by blast
  have eq: "(?q1\<lparr>fired := fired q @ map (callback_of q) ?es, cancelingTimers := cs\<rparr>)\<lparr>callingExpiredTimers := False\<rparr> = ?q2"
    by simp
  have "handleRead pf requests True now q = Inr q'"
    unfolding handleRead_def q1(1) require_True and_then.simps case_prod_conv cs(1) eq by (rule q'(1))
  then show ?thesis using q'(2-4) q3(3) m by (intro exI [of _ q']) (simp add: fun_eq_iff)
qed

lemma timer_program_event_ok:
  assumes inv: "tq_inv {} q" and bad: "\<not> ts_valid pf (ts_default pf)"
    and req: "\<And>cb q' r. r \<in> set (requests cb q') \<Longrightarrow> unheeded (mem q) r"
  shows "\<exists>q'. timer_program_event pf requests effects now (q, s)
      = (let (s', cs) = run_callbacks effects (map (callback_of q) (due now q)) s in Inr ((q', s'), cs)) \<and>
    tq_inv {} q' \<and> fired q' = fired q @ map (callback_of q) (due now q) \<and>
    mem q' = (\<lambda>p. case mem q p of None \<Rightarrow> None
      | Some t \<Rightarrow> if expiration t \<le> now then if repeat t then Some (restart pf now t) else None else Some t)"
proof -
  let ?q = "q\<lparr>clock := now\<rparr>"
  have "\<exists>q'. handleRead pf requests True now ?q = Inr q' \<and> tq_inv {} q' \<and>
      fired q' = fired ?q @ map (callback_of ?q) (due now ?q) \<and>
      mem q' = (\<lambda>p. case mem ?q p of None \<Rightarrow> None
        | Some t \<Rightarrow> if expiration t \<le> now then if repeat t then Some (restart pf now t) else None else Some t)"
    by (rule handleRead_unheeded [OF _ bad]) (use inv req in simp_all)
  then obtain q' where
    q': "handleRead pf requests True now ?q = Inr q'" "tq_inv {} q'"
      "fired q' = fired ?q @ map (callback_of ?q) (due now ?q)"
      "mem q' = (\<lambda>p. case mem ?q p of None \<Rightarrow> None
        | Some t \<Rightarrow> if expiration t \<le> now then if repeat t then Some (restart pf now t) else None else Some t)"
    by blast
  have "callback_of ?q = callback_of q" "due now ?q = due now q" by (auto intro: callback_of_mem simp: due_def)
  with q' show ?thesis by (intro exI [of _ q']) (simp add: timer_program_event_def)
qed

subsection \<open>A queue with at most one timer\<close>

definition no_timer :: "('ts::linorder) timer_queue \<Rightarrow> bool" where
  "no_timer q \<longleftrightarrow> tq_inv {} q \<and> mem q = Map.empty"

definition holds_timer :: "nat \<Rightarrow> 'ts \<Rightarrow> ('ts::linorder) timer_queue \<Rightarrow> bool" where
  "holds_timer cb T q \<longleftrightarrow> tq_inv {} q \<and> (\<exists>p n. mem q = [p \<mapsto> new_timer cb T 0 n])"

lemma no_timer_due: "no_timer q \<Longrightarrow> due now q = []"
  by (auto simp: no_timer_def tq_inv_def due_def)

lemma holds_timer_due:
  assumes "holds_timer cb T q"
  shows "map (callback_of q) (due now q) = (if T \<le> now then [cb] else [])"
proof -
  obtain p n where inv: "tq_inv {} q" and m: "mem q = [p \<mapsto> new_timer cb T 0 n]"
    using assms by (auto simp: holds_timer_def)
  have "snd ` set (timers q) = {p}" using inv m by (simp add: tq_inv_def)
  moreover have "w = T" if e: "(w, r) \<in> set (timers q)" for w r
  proof -
    from tq_invD [OF inv e] obtain t where "mem q r = Some t" "expiration t = w" by blast
    then show ?thesis using m by (auto simp: new_timer_def split: if_splits)
  qed
  ultimately have one: "set (timers q) = {(T, p)}" by force
  have "distinct (timers q)" using inv by (simp add: tq_inv_def ascending_def)
  then have "length (timers q) = 1" using one distinct_card [of "timers q"] by simp
  with one have "timers q = [(T, p)]" by (auto simp: length_Suc_conv)
  then show ?thesis using m by (simp add: due_def callback_of_def new_timer_def)
qed

lemma no_timer_event:
  assumes "no_timer q" and bad: "\<not> ts_valid pf (ts_default pf)"
  shows "\<exists>q'. timer_program_event pf (\<lambda>_ _. []) effects now (q, s) = Inr ((q', s), []) \<and> no_timer q'"
proof -
  have inv: "tq_inv {} q" "mem q = Map.empty" using assms(1) by (simp_all add: no_timer_def)
  from timer_program_event_ok [OF inv(1) bad, of "\<lambda>_ _. []" effects now s] no_timer_due [OF assms(1)] inv(2)
  show ?thesis by (auto simp: no_timer_def)
qed

lemma holds_timer_event:
  assumes "holds_timer cb T q" and bad: "\<not> ts_valid pf (ts_default pf)"
  shows "\<exists>q'. if T \<le> now
    then timer_program_event pf (\<lambda>_ _. []) effects now (q, s) = Inr ((q', fst (effects cb s)), snd (effects cb s)) \<and> no_timer q'
    else timer_program_event pf (\<lambda>_ _. []) effects now (q, s) = Inr ((q', s), []) \<and> holds_timer cb T q'"
proof -
  obtain p n where inv: "tq_inv {} q" and m: "mem q = [p \<mapsto> new_timer cb T 0 n]"
    using assms by (auto simp: holds_timer_def)
  from timer_program_event_ok [OF inv bad, of "\<lambda>_ _. []" effects now s] obtain q' where
    q': "timer_program_event pf (\<lambda>_ _. []) effects now (q, s)
        = (let (s', cs) = run_callbacks effects (if T \<le> now then [cb] else []) s in Inr ((q', s'), cs))" "tq_inv {} q'"
      "mem q' = (\<lambda>p. case mem q p of None \<Rightarrow> None
        | Some t \<Rightarrow> if expiration t \<le> now then if repeat t then Some (restart pf now t) else None else Some t)"
    using holds_timer_due [OF assms(1), of now] by auto
  have "mem q' = (if T \<le> now then Map.empty else [p \<mapsto> new_timer cb T 0 n])"
    unfolding q'(3) m by (rule ext) (simp add: new_timer_def)
  then show ?thesis using q'(1,2)
    by (intro exI [of _ q']) (auto simp: no_timer_def holds_timer_def split: prod.splits)
qed

lemma runAfter_alone:
  assumes "no_timer q" and al: "allocator_ok pf" and p: "allocate pf Map.empty = Some p"
  shows "\<exists>tid q'. runAfter pf delay cb q = Inr (tid, q') \<and> holds_timer cb (addTime pf (clock q) delay) q'"
proof -
  have inv: "tq_inv {} q" "mem q = Map.empty" using assms(1) by (simp_all add: no_timer_def)
  then have p': "allocate pf (mem q) = Some p" using p by simp
  from addTimer_ok(1,2) [OF inv(1) al p', where cb = cb and due = "addTime pf (clock q) delay" and intv = 0] inv(2)
  show ?thesis by (auto simp: runAfter_def runAt_def holds_timer_def)
qed

subsection \<open>The run of test5.cc\<close>

definition test5_lines :: "(string \<times> int) list" where
  "test5_lines = [(''main'', 0), (''run1'', 1), (''run2'', 1), (''run3'', 2), (''run4'', 3), (''main'', 3)]"

text \<open>The loop while \<open>main\<close> is in it: the functors that wait, what holds of the queue, and the first
  \<open>n\<close> lines printed.\<close>

definition in_test5 ::
  "test5_functor list \<Rightarrow> ('ts timer_queue \<Rightarrow> bool) \<Rightarrow> bool \<Rightarrow> int \<Rightarrow> nat
     \<Rightarrow> (test5_functor, 'ts timer_queue \<times> flagged) event_loop \<Rightarrow> bool" where
  "in_test5 fs P qt flag n L \<longleftrightarrow> pendingFunctors L = fs \<and> P (fst (user L)) \<and> quitting L = qt \<and> looping L \<and>
     g_flag (snd (user L)) = flag \<and> printed (snd (user L)) = take n test5_lines"

abbreviation "handle5 pf \<equiv> timer_program_event pf (\<lambda>_ _. []) test5_effects"

lemma in_test5_idle:
  assumes "in_test5 fs no_timer qt flag n L" and bad: "\<not> ts_valid pf (ts_default pf)"
  shows "\<exists>L'. dispatch (handle5 pf) a L = Inr L' \<and> in_test5 fs no_timer qt flag n L'"
proof (cases a)
  case WakeupChannel
  then show ?thesis using assms(1) by (simp add: in_test5_def loop_handleRead_def)
next
  case (Component now)
  obtain q s where u: "user L = (q, s)" by (cases "user L")
  then have "no_timer q" using assms(1) by (simp add: in_test5_def)
  from no_timer_event [OF this bad, of test5_effects now s] Component assms(1) u show ?thesis
    by (auto simp: in_thread_def in_test5_def)
qed

lemma in_test5_waiting:
  assumes "in_test5 [] (holds_timer cb T) False flag n L" and bad: "\<not> ts_valid pf (ts_default pf)"
    and eff: "\<And>s. g_flag s = flag \<Longrightarrow> printed s = take n test5_lines \<Longrightarrow>
      g_flag (fst (test5_effects cb s)) = flag' \<and> printed (fst (test5_effects cb s)) = take n' test5_lines \<and>
      queued_by (snd (test5_effects cb s)) = fs' \<and> (QuitCall \<in> set (snd (test5_effects cb s))) = qt'"
  shows "\<exists>L'. dispatch (handle5 pf) a L = Inr L' \<and>
    (if \<exists>now. a = Component now \<and> T \<le> now then in_test5 fs' no_timer qt' flag' n' L'
     else in_test5 [] (holds_timer cb T) False flag n L')"
proof (cases a)
  case WakeupChannel
  then show ?thesis using assms(1) by (simp add: in_test5_def loop_handleRead_def)
next
  case (Component now)
  obtain q s where u: "user L = (q, s)" by (cases "user L")
  then have q: "holds_timer cb T q" and s: "g_flag s = flag" "printed s = take n test5_lines"
    using assms(1) by (simp_all add: in_test5_def)
  from holds_timer_event [OF q bad, of now test5_effects s] obtain q' where
    q': "if T \<le> now
      then handle5 pf now (q, s) = Inr ((q', fst (test5_effects cb s)), snd (test5_effects cb s)) \<and> no_timer q'
      else handle5 pf now (q, s) = Inr ((q', s), []) \<and> holds_timer cb T q'" by blast
  show ?thesis
  proof (cases "T \<le> now")
    case True
    then show ?thesis using q' Component assms(1) u eff [OF s] by (simp add: in_thread_def in_test5_def fold_loop_call)
  next
    case False
    then show ?thesis using q' Component assms(1) u by (simp add: in_thread_def in_test5_def)
  qed
qed

lemma poll_idle:
  assumes "in_test5 fs no_timer qt flag n L" and bad: "\<not> ts_valid pf (ts_default pf)"
  shows "\<exists>L'. for_each (dispatch (handle5 pf)) as L = Inr L' \<and> in_test5 fs no_timer qt flag n L'"
  by (rule for_each_invariant [OF in_test5_idle [OF _ bad] assms(1)])

lemma poll_waiting:
  assumes "in_test5 [] (holds_timer cb T) False flag n L" and bad: "\<not> ts_valid pf (ts_default pf)"
    and eff: "\<And>s. g_flag s = flag \<Longrightarrow> printed s = take n test5_lines \<Longrightarrow>
      g_flag (fst (test5_effects cb s)) = flag' \<and> printed (fst (test5_effects cb s)) = take n' test5_lines \<and>
      queued_by (snd (test5_effects cb s)) = fs' \<and> (QuitCall \<in> set (snd (test5_effects cb s))) = qt'"
  shows "\<exists>L'. for_each (dispatch (handle5 pf)) as L = Inr L' \<and>
    (if \<exists>now. Component now \<in> set as \<and> T \<le> now then in_test5 fs' no_timer qt' flag' n' L'
     else in_test5 [] (holds_timer cb T) False flag n L')"
  using assms(1)
proof (induction as arbitrary: L)
  case (Cons a as)
  from in_test5_waiting [OF Cons.prems bad eff, of a] obtain L1 where
    L1: "dispatch (handle5 pf) a L = Inr L1"
      "if \<exists>now. a = Component now \<and> T \<le> now then in_test5 fs' no_timer qt' flag' n' L1
       else in_test5 [] (holds_timer cb T) False flag n L1" by blast
  show ?case
  proof (cases "\<exists>now. a = Component now \<and> T \<le> now")
    case True
    then have "in_test5 fs' no_timer qt' flag' n' L1" using L1(2) by simp
    from poll_idle [OF this bad, of as] L1(1) True show ?thesis by auto
  next
    case False
    then have "in_test5 [] (holds_timer cb T) False flag n L1" using L1(2) by auto
    from Cons.IH [OF this] L1(1) False show ?thesis by (auto split: if_splits)
  qed
qed simp

lemma no_functors:
  assumes "in_test5 [] P qt flag n L"
  shows "\<exists>L'. doPendingFunctors (run3 pf now3) L = Inr L' \<and> in_test5 [] P qt flag n L'"
  using assms by (simp add: doPendingFunctors_def in_test5_def)

lemma run3_runs:
  assumes "in_test5 [Run3] no_timer False 2 3 L" and al: "allocator_ok pf" and p: "allocate pf Map.empty = Some p"
  shows "\<exists>L'. doPendingFunctors (run3 pf now3) L = Inr L' \<and>
    in_test5 [] (holds_timer 4 (addTime pf now3 3)) False 3 4 L'"
proof -
  obtain q s where u: "user L = (q, s)" by (cases "user L")
  then have q: "no_timer (q\<lparr>clock := now3\<rparr>)" and s: "g_flag s = 2" "printed s = take 3 test5_lines"
    using assms(1) by (simp_all add: in_test5_def no_timer_def)
  from runAfter_alone [OF q al p, of 3 4] obtain tid q' where
    q': "runAfter pf 3 4 (q\<lparr>clock := now3\<rparr>) = Inr (tid, q')" "holds_timer 4 (addTime pf now3 3) q'" by auto
  then have "run3 pf now3 Run3 (q, s) = Inr ((q', (print_flag ''run3'' s)\<lparr>g_flag := 3\<rparr>), [])"
    by (simp add: run3_def)
  with assms(1) u q'(2) s show ?thesis
    by (simp add: doPendingFunctors_def in_thread_def in_test5_def print_flag_def test5_lines_def)
qed

definition due_in :: "('ts::linorder) \<Rightarrow> 'ts active list \<Rightarrow> bool" where
  "due_in T as \<longleftrightarrow> (\<exists>now. Component now \<in> set as \<and> T \<le> now)"

lemma after_run4:
  assumes "in_test5 [] P True 3 5 L"
  shows "\<exists>L'. loop_while run handle polls L = Inr L' \<and> \<not> looping L' \<and> g_flag (snd (user L')) = 3 \<and>
    printed (snd (user L')) = take 5 test5_lines"
  using assms by (subst loop_while.simps) (simp add: in_test5_def)

lemma after_run3:
  assumes "in_test5 [] (holds_timer 4 T) False 3 4 L" and bad: "\<not> ts_valid pf (ts_default pf)"
  shows "\<exists>L'. loop_while (run3 pf now3) (handle5 pf) polls L = Inr L' \<and>
    (if \<exists>as \<in> set polls. due_in T as
     then \<not> looping L' \<and> g_flag (snd (user L')) = 3 \<and> printed (snd (user L')) = take 5 test5_lines
     else looping L' \<and> printed (snd (user L')) = take 4 test5_lines)"
  using assms(1)
proof (induction polls arbitrary: L)
  case Nil
  then show ?case by (subst loop_while.simps) (simp add: in_test5_def)
next
  case (Cons as polls)
  have "\<exists>L1. for_each (dispatch (handle5 pf)) as L = Inr L1 \<and>
      (if \<exists>now. Component now \<in> set as \<and> T \<le> now then in_test5 [] no_timer True 3 5 L1
       else in_test5 [] (holds_timer 4 T) False 3 4 L1)"
    by (rule poll_waiting [OF Cons.prems bad])
      (simp add: test5_effects_def run4_def print_flag_def test5_lines_def)
  then obtain L1 where L1: "for_each (dispatch (handle5 pf)) as L = Inr L1"
      "if due_in T as then in_test5 [] no_timer True 3 5 L1 else in_test5 [] (holds_timer 4 T) False 3 4 L1"
    by (auto simp: due_in_def)
  have nq: "\<not> quitting L" using Cons.prems by (simp add: in_test5_def)
  show ?case
  proof (cases "due_in T as")
    case True
    then have "in_test5 [] no_timer True 3 5 L1" using L1(2) by simp
    from no_functors [OF this, of pf now3] obtain L2 where
      L2: "doPendingFunctors (run3 pf now3) L1 = Inr L2" "in_test5 [] no_timer True 3 5 L2" by blast
    from after_run4 [OF L2(2)] L1(1) L2(1) nq True show ?thesis by (subst loop_while.simps) simp
  next
    case False
    then have "in_test5 [] (holds_timer 4 T) False 3 4 L1" using L1(2) by simp
    from no_functors [OF this, of pf now3] obtain L2 where
      L2: "doPendingFunctors (run3 pf now3) L1 = Inr L2" "in_test5 [] (holds_timer 4 T) False 3 4 L2" by blast
    from Cons.IH [OF L2(2)] L1(1) L2(1) nq False show ?thesis by (subst loop_while.simps) simp
  qed
qed

definition due_then :: "('ts::linorder) \<Rightarrow> 'ts \<Rightarrow> 'ts active list list \<Rightarrow> bool" where
  "due_then T1 T2 polls \<longleftrightarrow> (\<exists>earlier as later. polls = earlier @ as # later \<and> due_in T1 as \<and> (\<exists>as' \<in> set later. due_in T2 as'))"

lemma due_then_simps:
  "\<not> due_then T1 T2 []"
  "due_then T1 T2 (as # polls) \<longleftrightarrow> due_in T1 as \<and> (\<exists>as' \<in> set polls. due_in T2 as') \<or> due_then T1 T2 polls"
  unfolding due_then_def by (auto simp: Cons_eq_append_conv) 

lemma due_then_later: "due_then T1 T2 polls \<Longrightarrow> \<exists>as \<in> set polls. due_in T2 as"
  by (auto simp: due_then_def)

lemma before_run1:
  assumes "in_test5 [] (holds_timer 1 T) False 0 1 L" and bad: "\<not> ts_valid pf (ts_default pf)"
    and al: "allocator_ok pf" and p: "allocate pf Map.empty = Some p"
  shows "\<exists>L'. loop_while (run3 pf now3) (handle5 pf) polls L = Inr L' \<and>
    (if due_then T (addTime pf now3 3) polls
     then \<not> looping L' \<and> g_flag (snd (user L')) = 3 \<and> printed (snd (user L')) = take 5 test5_lines
     else looping L' \<and> (\<exists>n \<le> 5. printed (snd (user L')) = take n test5_lines))"
  using assms(1)
proof (induction polls arbitrary: L)
  case Nil
  then show ?case by (subst loop_while.simps) (auto simp: in_test5_def due_then_simps intro: exI [of _ 1])
next
  case (Cons as polls)
  have "\<exists>L1. for_each (dispatch (handle5 pf)) as L = Inr L1 \<and>
      (if \<exists>now. Component now \<in> set as \<and> T \<le> now then in_test5 [Run3] no_timer False 2 3 L1
       else in_test5 [] (holds_timer 1 T) False 0 1 L1)"
    by (rule poll_waiting [OF Cons.prems bad])
      (simp add: test5_effects_def run1_def run2_def print_flag_def test5_lines_def)
  then obtain L1 where L1: "for_each (dispatch (handle5 pf)) as L = Inr L1"
      "if due_in T as then in_test5 [Run3] no_timer False 2 3 L1 else in_test5 [] (holds_timer 1 T) False 0 1 L1"
    by (auto simp: due_in_def)
  have nq: "\<not> quitting L" using Cons.prems by (simp add: in_test5_def)
  show ?case
  proof (cases "due_in T as")
    case True
    then have "in_test5 [Run3] no_timer False 2 3 L1" using L1(2) by simp
    from run3_runs [OF this al p, of now3] obtain L2 where
      L2: "doPendingFunctors (run3 pf now3) L1 = Inr L2" "in_test5 [] (holds_timer 4 (addTime pf now3 3)) False 3 4 L2"
      by blast
    let ?late = "\<exists>as \<in> set polls. due_in (addTime pf now3 3) as"
    obtain L3 where L3: "loop_while (run3 pf now3) (handle5 pf) polls L2 = Inr L3"
      "if ?late then \<not> looping L3 \<and> g_flag (snd (user L3)) = 3 \<and> printed (snd (user L3)) = take 5 test5_lines
       else looping L3 \<and> printed (snd (user L3)) = take 4 test5_lines"
      using after_run3 [OF L2(2) bad] by blast
    have "loop_while (run3 pf now3) (handle5 pf) (as # polls) L = Inr L3"
      using L1(1) L2(1) L3(1) nq by (subst loop_while.simps) simp
    moreover have "due_then T (addTime pf now3 3) (as # polls) = ?late"
      using True due_then_later [of T "addTime pf now3 3" polls] by (auto simp: due_then_simps)
    moreover have "\<exists>n \<le> 5. take 4 test5_lines = take n test5_lines" by (rule exI [of _ 4]) simp
    ultimately show ?thesis using L3(2) by (intro exI [of _ L3]) (simp split: if_splits)
  next
    case False
    then have "in_test5 [] (holds_timer 1 T) False 0 1 L1" using L1(2) by simp
    from no_functors [OF this, of pf now3] obtain L2 where
      L2: "doPendingFunctors (run3 pf now3) L1 = Inr L2" "in_test5 [] (holds_timer 1 T) False 0 1 L2" by blast
    from Cons.IH [OF L2(2)] L1(1) L2(1) nq False show ?thesis
      by (subst loop_while.simps) (simp add: due_then_simps)
  qed
qed

text \<open>C27: test5 fails no assertion whatever its polls report and prints a beginning of the same six lines:
  \<open>run1\<close> runs \<open>run2\<close> at once, before it sets the flag to 2, and \<open>run3\<close> only after it has returned. It leaves
  the loop, and prints all six, exactly when the polls report the timer descriptor at or after the time
  of the first timer and then, in a later poll, at or after that of the second.\<close>

theorem test5_prints:
  assumes "allocator_ok pf" and "allocate pf Map.empty \<noteq> None" and "\<not> ts_valid pf (ts_default pf)"
  shows "\<exists>L. test5 pf now3 polls (new_timer_queue Map.empty n t0) = Inr L \<and>
    (if due_then (addTime pf t0 2) (addTime pf now3 3) polls
     then \<not> looping L \<and> printed (snd (user L)) = [(''main'', 0), (''run1'', 1), (''run2'', 1), (''run3'', 2), (''run4'', 3), (''main'', 3)]
     else looping L \<and> (\<exists>k. printed (snd (user L)) = take k [(''main'', 0), (''run1'', 1), (''run2'', 1), (''run3'', 2), (''run4'', 3)]))"
proof -
  let ?q0 = "new_timer_queue Map.empty n t0"
  let ?s0 = "print_flag ''main'' \<lparr>g_flag = 0, printed = []\<rparr>"
  obtain p where p: "allocate pf Map.empty = Some p" using assms(2) by auto
  have "no_timer ?q0" by (simp add: no_timer_def tq_inv_new) (simp add: new_timer_queue_def)
  from runAfter_alone [OF this assms(1) p, of 2 1] obtain tid q1 where
    q1: "runAfter pf 2 1 ?q0 = Inr (tid, q1)" "holds_timer 1 (addTime pf t0 2) q1"
    by (auto simp: new_timer_queue_def)
  let ?L = "\<lparr>looping = True, quitting = False, callingPendingFunctors = False, pendingFunctors = [],
    counter = 0, user = (q1, ?s0)\<rparr> :: (test5_functor, 'a timer_queue \<times> flagged) event_loop"
  have "in_test5 [] (holds_timer 1 (addTime pf t0 2)) False 0 1 ?L"
    using q1(2) by (simp add: in_test5_def print_flag_def test5_lines_def)
  from before_run1 [OF this assms(3,1) p, of now3 polls] obtain L' where
    L': "loop_while (run3 pf now3) (handle5 pf) polls ?L = Inr L'"
      "if due_then (addTime pf t0 2) (addTime pf now3 3) polls
       then \<not> looping L' \<and> g_flag (snd (user L')) = 3 \<and> printed (snd (user L')) = take 5 test5_lines
       else looping L' \<and> (\<exists>n \<le> 5. printed (snd (user L')) = take n test5_lines)" by blast
  have five: "take k test5_lines = take k [(''main'', 0), (''run1'', 1), (''run2'', 1), (''run3'', 2), (''run4'', 3)]" if "k \<le> 5" for k
  proof -
    have "take k test5_lines = take k (take 5 test5_lines)" using that by (simp add: min_def)
    then show ?thesis by (simp add: test5_lines_def)
  qed
  let ?r = "if looping L' then L' else L'\<lparr>user := (fst (user L'), print_flag ''main'' (snd (user L')))\<rparr>"
  have "test5 pf now3 polls ?q0 = Inr ?r"
    using q1(1) L'(1) by (simp add: test5_def new_event_loop_def loop_def Let_def)
  moreover have "if due_then (addTime pf t0 2) (addTime pf now3 3) polls
     then \<not> looping ?r \<and> printed (snd (user ?r)) = [(''main'', 0), (''run1'', 1), (''run2'', 1), (''run3'', 2), (''run4'', 3), (''main'', 3)]
     else looping ?r \<and> (\<exists>k. printed (snd (user ?r)) = take k [(''main'', 0), (''run1'', 1), (''run2'', 1), (''run3'', 2), (''run4'', 3)])"
    using L'(2) five by (auto simp: print_flag_def test5_lines_def split: if_splits)
  ultimately show ?thesis by blast
qed

theorem test5_prints_witness:
  "\<exists>L. test5 micro_clock 2500000 [[Component 100], [WakeupChannel, Component 2000090], [Component 5500000]]
      (new_timer_queue Map.empty 0 90) = Inr L \<and>
    printed (snd (user L)) = [(''main'', 0), (''run1'', 1), (''run2'', 1), (''run3'', 2), (''run4'', 3), (''main'', 3)]"
proof -
  have t: "addTime micro_clock 90 2 = 2000090" "addTime micro_clock 2500000 3 = 5500000"
    by (simp_all add: micro_clock_def)
  have a: "allocate micro_clock Map.empty \<noteq> None" by (simp add: micro_clock_def)
  have "due_then (2000090 :: int) 5500000 [[Component 100], [WakeupChannel, Component 2000090], [Component 5500000]]"
    by (auto simp: due_then_simps due_in_def)
  with test5_prints [OF allocator_micro_clock a valid_micro_clock, of 2500000
      "[[Component 100], [WakeupChannel, Component 2000090], [Component 5500000]]" 0 90] show ?thesis
    unfolding t by (simp only: if_True) blast
qed

subsection \<open>The run of test4.cc\<close>

text \<open>Every timer has a number other than 0, and those of a set of callbacks repeat for ever.\<close>

definition numbered :: "('ts::linorder) timer_queue \<Rightarrow> bool" where
  "numbered q \<longleftrightarrow> tq_inv {} q \<and> (\<forall>p t. mem q p = Some t \<longrightarrow> sequence t \<noteq> 0)"

definition repeats :: "nat \<Rightarrow> 'ts timer_queue \<Rightarrow> bool" where
  "repeats cb q \<longleftrightarrow> (\<exists>p t. mem q p = Some t \<and> callback t = cb \<and> repeat t)"

lemma add_numbered:
  assumes q: "numbered q" "s_numCreated q = word_of_nat k" "Suc k < 2 ^ 64" and al: "allocator_ok pf"
    and incr: "\<And>n. incrementAndGet pf n = (n + 1, n + 1)"
  shows "returns_or {bad_alloc} (\<lambda>(tid, q'). numbered q' \<and> s_numCreated q' = word_of_nat (Suc k) \<and> fired q' = fired q \<and>
    id_sequence tid = 0 \<and> (\<forall>c. repeats c q \<longrightarrow> repeats c q') \<and> (1 < intv \<longrightarrow> repeats cb q')) (addTimer pf cb T intv q)"
proof (cases "allocate pf (mem q)")
  case None
  then show ?thesis by (simp add: addTimer_fault)
next
  case (Some p)
  have inv: "tq_inv {} q" using q(1) by (simp add: numbered_def)
  have free: "mem q p = None" using al Some by (auto simp: allocator_ok_def)
  have "unat (word_of_nat (Suc k) :: u64) = Suc k"
    using unat_of_nat [where 'a = 64, of "Suc k"] q(3) by (simp del: of_nat_Suc)
  then have ne: "(word_of_nat (Suc k) :: u64) \<noteq> 0" by (metis nat.distinct(1) unat_0)
  have s: "incrementAndGet pf (s_numCreated q) = (word_of_nat (Suc k), word_of_nat (Suc k))"
    unfolding q(2) incr by (simp add: add.commute)
  note a = addTimer_ok(1,2) [OF inv al Some, where cb = cb and due = T and intv = intv, unfolded s fst_conv snd_conv]
  have rep: "repeats c q'" if c: "repeats c q" and m: "mem q' = (mem q)(p \<mapsto> t)" for c t and q' :: "'a timer_queue"
  proof -
    obtain r u where "mem q r = Some u" "callback u = c" "repeat u" using c by (auto simp: repeats_def)
    then have "mem q' r = Some u" "callback u = c" "repeat u" using m free by auto
    then show ?thesis unfolding repeats_def by blast
  qed
  show ?thesis unfolding a(1)
    using a(2) q(1) ne rep by (auto simp: numbered_def new_timer_def make_timer_id_def) (auto simp: repeats_def)
qed

lemma test4_timers_ok:
  assumes al: "allocator_ok pf" and incr: "\<And>n. incrementAndGet pf n = (n + 1, n + 1)"
  shows "returns_or {bad_alloc} (\<lambda>((t, toCancel), q). numbered q \<and> fired q = [] \<and> id_sequence t = 0 \<and> id_sequence toCancel = 0 \<and>
    repeats 5 q \<and> repeats 6 q \<and> repeats 8 q) (test4_timers pf (new_timer_queue Map.empty 0 t0))"
proof -
  define P where "P k cbs q \<longleftrightarrow> numbered q \<and> s_numCreated q = word_of_nat k \<and> fired q = [] \<and> (\<forall>c \<in> cbs. repeats c q)"
    for k cbs and q :: "'a timer_queue"
  have add: "returns_or {bad_alloc} (\<lambda>(tid, q'). id_sequence tid = 0 \<and> P (Suc k) (if 1 < intv then insert cb cbs else cbs) q')
      (addTimer pf cb T intv q)" if "P k cbs q" "Suc k < 2 ^ 64" for k cbs q cb T intv
    by (rule returns_or_mono [OF add_numbered [OF _ _ that(2) al incr]])
      (use that(1) in \<open>auto simp: P_def\<close>)
  have "P 0 {} (new_timer_queue Map.empty 0 t0)"
    by (simp add: P_def numbered_def tq_inv_new) (simp add: new_timer_queue_def)
  note P0 = this
  have nxt: "returns_or {bad_alloc} R (and_then (addTimer pf cb T intv q) K)"
    if "P k cbs q" "Suc k < 2 ^ 64"
      "\<And>tid q'. id_sequence tid = 0 \<Longrightarrow> P (Suc k) (if 1 < intv then insert cb cbs else cbs) q' \<Longrightarrow>
        returns_or {bad_alloc} R (K (tid, q'))" for k cbs q cb T intv and R and K :: "timer_id \<times> 'a timer_queue \<Rightarrow> 'b result"
    by (rule returns_or_and_then [OF add [OF that(1,2)]]) (use that(3) in auto)
  show ?thesis unfolding test4_timers_def runAfter_def runAt_def runEvery_def
    by (rule nxt, rule P0, simp, simp only: prod.case, (rule nxt, assumption, simp, simp only: prod.case)+)
      (simp add: P_def)
qed

lemma run_callbacks_Cons:
  "fst (run_callbacks effects (cb # cbs) s) = fst (run_callbacks effects cbs (fst (effects cb s)))"
  "snd (run_callbacks effects (cb # cbs) s)
    = snd (effects cb s) @ snd (run_callbacks effects cbs (fst (effects cb s)))"
  by (simp_all split: prod.splits)

text \<open>All but the seventh callback print.\<close>

abbreviation prints :: "nat list \<Rightarrow> nat list" where
  "prints \<equiv> filter (\<lambda>cb. cb \<noteq> 7)"

lemma run_callbacks_test4:
  "fst (run_callbacks test4_effects cbs s)
    = s\<lparr>cnt := cnt s + int (length (prints cbs)), messages := messages s @ map test4_message (prints cbs)\<rparr>"
  "queued_by (snd (run_callbacks test4_effects cbs s)) = []"
  "QuitCall \<in> set (snd (run_callbacks test4_effects cbs s)) \<longleftrightarrow> cnt s < 20 \<and> 20 \<le> cnt s + int (length (prints cbs))"
proof (induction cbs arbitrary: s)
  case (Cons cb cbs)
  note simps = run_callbacks_Cons test4_effects_def print_msg_def queued_by_append
  case 1 show ?case unfolding run_callbacks_Cons Cons.IH(1) by (simp add: simps)
  case 2 show ?case unfolding run_callbacks_Cons queued_by_append Cons.IH(2) by (simp add: simps)
  case 3 show ?case unfolding run_callbacks_Cons set_append Un_iff Cons.IH(3) by (auto simp: simps)
qed simp_all

text \<open>What holds of the queue and of what has been printed as long as \<open>main\<close> is in the loop.\<close>

definition queue4 :: "('ts::linorder) timer_queue \<Rightarrow> bool" where
  "queue4 q \<longleftrightarrow> numbered q \<and> repeats 5 q \<and> repeats 6 q \<and> repeats 8 q"

definition in_test4 :: "(unit, ('ts::linorder) timer_queue \<times> counted) event_loop \<Rightarrow> bool" where
  "in_test4 L \<longleftrightarrow> pendingFunctors L = [] \<and> looping L \<and> queue4 (fst (user L)) \<and>
     messages (snd (user L)) = ''main'' # map test4_message (prints (fired (fst (user L)))) \<and>
     cnt (snd (user L)) = 1 + int (length (prints (fired (fst (user L))))) \<and>
     (quitting L \<longleftrightarrow> 20 \<le> cnt (snd (user L)))"

abbreviation "handle4 pf t tc \<equiv> timer_program_event pf (test4_requests t tc) test4_effects"

lemma queue4_event:
  assumes q: "queue4 q" and bad: "\<not> ts_valid pf (ts_default pf)" and ids: "id_sequence t = 0" "id_sequence tc = 0"
  shows "\<exists>q'. handle4 pf t tc now (q, s)
      = (let (s', cs) = run_callbacks test4_effects (map (callback_of q) (due now q)) s in Inr ((q', s'), cs)) \<and>
    queue4 q' \<and> fired q' = fired q @ map (callback_of q) (due now q)"
proof -
  have inv: "tq_inv {} q" and num: "\<forall>p u. mem q p = Some u \<longrightarrow> sequence u \<noteq> 0" using q by (simp_all add: queue4_def numbered_def)
  have req: "unheeded (mem q) r" if "r \<in> set (test4_requests t tc cb q')" for r cb q'
    using that num ids by (auto simp: test4_requests_def unheeded_def split: if_splits)
  obtain q' where
    q': "handle4 pf t tc now (q, s)
        = (let (s', cs) = run_callbacks test4_effects (map (callback_of q) (due now q)) s in Inr ((q', s'), cs))"
      "tq_inv {} q'" "fired q' = fired q @ map (callback_of q) (due now q)"
      "mem q' = (\<lambda>p. case mem q p of None \<Rightarrow> None
        | Some t \<Rightarrow> if expiration t \<le> now then if repeat t then Some (restart pf now t) else None else Some t)"
    using timer_program_event_ok [where requests = "test4_requests t tc" and effects = test4_effects and now = now and s = s,
      OF inv bad] req by blast
  have rs: "sequence (restart pf now u) = sequence u" "callback (restart pf now u) = callback u"
    "repeat (restart pf now u) = repeat u" for u by (simp_all add: restart_def)
  have "numbered q'" using q'(2) num rs unfolding numbered_def q'(4) by (auto split: option.splits if_splits)
  moreover have "repeats cb q'" if "repeats cb q" for cb
  proof -
    from that obtain p u where "mem q p = Some u" "callback u = cb" "repeat u" by (auto simp: repeats_def)
    then have "mem q' p = Some (if expiration u \<le> now then restart pf now u else u)" unfolding q'(4) by simp
    moreover have "callback (if expiration u \<le> now then restart pf now u else u) = cb"
      "repeat (if expiration u \<le> now then restart pf now u else u)"
      using \<open>callback u = cb\<close> \<open>repeat u\<close> rs by simp_all
    ultimately show ?thesis unfolding repeats_def by blast
  qed
  ultimately show ?thesis using q'(1,3) q by (auto simp: queue4_def)
qed

lemma in_test4_dispatch:
  assumes L: "in_test4 L" and bad: "\<not> ts_valid pf (ts_default pf)" and ids: "id_sequence t = 0" "id_sequence tc = 0"
  shows "\<exists>L'. dispatch (handle4 pf t tc) a L = Inr L' \<and> in_test4 L'"
proof (cases a)
  case WakeupChannel
  then show ?thesis using L by (simp add: in_test4_def loop_handleRead_def)
next
  case (Component now)
  obtain q s where u: "user L = (q, s)" by (cases "user L")
  then have "queue4 q" using L by (simp add: in_test4_def)
  from queue4_event [OF this bad ids, of now s] obtain q' where
    q': "handle4 pf t tc now (q, s)
        = (let (s', cs) = run_callbacks test4_effects (map (callback_of q) (due now q)) s in Inr ((q', s'), cs))"
      "queue4 q'" "fired q' = fired q @ map (callback_of q) (due now q)" by blast
  let ?r = "run_callbacks test4_effects (map (callback_of q) (due now q)) s"
  obtain s' cs where r: "?r = (s', cs)" by (cases ?r)
  note e = run_callbacks_test4 [where cbs = "map (callback_of q) (due now q)" and s = s, unfolded r fst_conv snd_conv]
  show ?thesis using q' r e L u Component
    by (auto simp: in_thread_def in_test4_def fold_loop_call)
qed

lemma in_test4_loop:
  assumes "in_test4 L" and bad: "\<not> ts_valid pf (ts_default pf)" and ids: "id_sequence t = 0" "id_sequence tc = 0"
  shows "\<exists>L'. loop_while (\<lambda>_ st. Inr (st, [])) (handle4 pf t tc) polls L = Inr L' \<and>
    in_test4 (L'\<lparr>looping := True\<rparr>) \<and> (looping L' \<longleftrightarrow> \<not> quitting L')"
  using assms(1)
proof (induction polls arbitrary: L)
  case Nil
  then show ?case by (subst loop_while.simps) (simp add: in_test4_def)
next
  case (Cons as polls)
  show ?case
  proof (cases "quitting L")
    case True
    then show ?thesis using Cons.prems by (subst loop_while.simps) (simp add: in_test4_def)
  next
    case False
    have "\<exists>L1. for_each (dispatch (handle4 pf t tc)) as L = Inr L1 \<and> in_test4 L1"
      by (rule for_each_invariant) (use in_test4_dispatch [OF _ bad ids] Cons.prems in auto)
    then obtain L1 where L1: "for_each (dispatch (handle4 pf t tc)) as L = Inr L1" "in_test4 L1" by blast
    have "\<exists>L2. doPendingFunctors (\<lambda>_ st. Inr (st, [])) L1 = Inr L2 \<and> in_test4 L2"
      using L1(2) by (simp add: doPendingFunctors_def in_test4_def)
    then obtain L2 where L2: "doPendingFunctors (\<lambda>_ st. Inr (st, [])) L1 = Inr L2" "in_test4 L2" by blast
    from Cons.IH [OF L2(2)] L1(1) L2(1) False show ?thesis by (subst loop_while.simps) simp
  qed
qed

text \<open>C31: In test4 no cancellation has any effect: whatever the polls report nothing fails, save an
  allocation before the loop, and the timers \<open>every2\<close>, which is cancelled after ten seconds, and
  \<open>cancelSelf()\<close>, which cancels itself whenever it runs, are in the queue to the end, since
  \<open>addTimer\<close> returns an identity that no timer has. Every callback that is run prints its message
  once and in order, and the loop is left exactly when twenty messages have been printed.\<close>

theorem test4_cancels_nothing:
  assumes "allocator_ok pf" and "\<not> ts_valid pf (ts_default pf)" and "\<And>n. incrementAndGet pf n = (n + 1, n + 1)"
  shows "returns_or {bad_alloc} (\<lambda>L.
      (\<forall>cb \<in> {5, 6, 8}. \<exists>p t. (expiration t, p) \<in> set (timers (fst (user L))) \<and> mem (fst (user L)) p = Some t \<and>
        callback t = cb \<and> repeat t) \<and>
      messages (snd (user L)) = ''main'' # map test4_message (prints (fired (fst (user L)))) @
        (if looping L then [] else [''main loop exits'']) \<and>
      (looping L \<longleftrightarrow> length (prints (fired (fst (user L)))) < 19))
    (test4 pf polls (new_timer_queue Map.empty 0 t0))"
proof -
  let ?s0 = "fst (print_msg ''main'' \<lparr>cnt = 0, messages = []\<rparr>)"
  let ?L = "\<lambda>q. \<lparr>looping = True, quitting = False, callingPendingFunctors = False, pendingFunctors = [],
    counter = 0, user = (q, ?s0)\<rparr> :: (unit, 'a timer_queue \<times> counted) event_loop"
  have entry: "\<exists>t p. (expiration t, p) \<in> set (timers q) \<and> mem q p = Some t \<and> callback t = cb \<and> repeat t"
    if i: "tq_inv {} q" and r: "repeats cb q" for cb and q :: "'a timer_queue"
  proof -
    obtain p t where t: "mem q p = Some t" "callback t = cb" "repeat t" using r by (auto simp: repeats_def)
    then have "p \<in> snd ` set (timers q)" using i by (auto simp: tq_inv_def)
    then obtain w where w: "(w, p) \<in> set (timers q)" by force
    from tq_invD [OF i w] t(1) have "expiration t = w" by auto
    with w t show ?thesis by blast
  qed
  show ?thesis
  proof (cases "test4_timers pf (new_timer_queue Map.empty 0 t0)")
    case (Inl e)
    with test4_timers_ok [OF assms(1,3), of t0] show ?thesis by (simp add: test4_def new_event_loop_def)
  next
    case (Inr x)
    obtain t tc q where x: "x = ((t, tc), q)" by (metis prod.collapse)
    have q: "numbered q" "fired q = []" "id_sequence t = 0" "id_sequence tc = 0" "repeats 5 q" "repeats 6 q" "repeats 8 q"
      using test4_timers_ok [OF assms(1,3), of t0] Inr x by simp_all
    then have "in_test4 (?L q)" by (simp add: in_test4_def queue4_def print_msg_def)
    from in_test4_loop [OF this assms(2) q(3,4), of polls] obtain L' where
      L': "loop_while (\<lambda>_ st. Inr (st, [])) (handle4 pf t tc) polls (?L q) = Inr L'"
        "in_test4 (L'\<lparr>looping := True\<rparr>)" "looping L' \<longleftrightarrow> \<not> quitting L'" by blast
    let ?r = "if looping L' then L' else L'\<lparr>user := (fst (user L'), fst (print_msg ''main loop exits'' (snd (user L'))))\<rparr>"
    have r: "test4 pf polls (new_timer_queue Map.empty 0 t0) = Inr ?r"
      using Inr x L'(1) by (simp add: test4_def new_event_loop_def loop_def Let_def)
    have "queue4 (fst (user L'))" using L'(2) by (simp add: in_test4_def)
    then have "\<forall>cb \<in> {5, 6, 8}. \<exists>p t. (expiration t, p) \<in> set (timers (fst (user L'))) \<and>
        mem (fst (user L')) p = Some t \<and> callback t = cb \<and> repeat t"
      using entry unfolding queue4_def numbered_def by blast
    with L'(2,3) show ?thesis unfolding r by (auto simp: in_test4_def print_msg_def)
  qed
qed

lemma roomy_clock_suffices: "\<not> is_fault (test4 roomy_clock [[Component 1000000], [Component 2500000]] (new_timer_queue Map.empty 0 90))"
  by code_simp

theorem test4_cancels_nothing_witness:
  "\<exists>L. test4 roomy_clock [[Component 1000000], [Component 2500000]] (new_timer_queue Map.empty 0 90) = Inr L \<and>
     messages (snd (user L)) = ''main'' # map test4_message (prints (fired (fst (user L)))) @
        (if looping L then [] else [''main loop exits'']) \<and>
     (\<exists>p t. mem (fst (user L)) p = Some t \<and> callback t = 5)"
proof -
  let ?r = "test4 roomy_clock [[Component 1000000], [Component 2500000]] (new_timer_queue Map.empty 0 90)"
  obtain L where L: "?r = Inr L" using roomy_clock_suffices unfolding not_fault_iff by blast
  from test4_cancels_nothing [OF roomy_clock_ok, of "[[Component 1000000], [Component 2500000]]" 90]
  show ?thesis unfolding L returns_or_simps by blast
qed

end
