(* ===== verification/LoopOwner.thy ===== *)
theory LoopOwner
  imports EventLoop
begin

section \<open>One loop per thread\<close>

text \<open>
  The rest of the library takes as a flag whether a call of a loop's function comes from the loop's own
  thread. Here the flag is computed as the code does it: a process has threads with their thread-local
  variable \<open>t_loopInThisThread\<close> and loops, each with the \<open>threadId_\<close> it was constructed in. Threads and the
  addresses of loops are numbers. The programs test1.cc and test2.cc, which are about this rule, come last.
\<close>

record ('f, 's) process =
  t_loopInThisThread :: "nat \<Rightarrow> nat option"
  loops :: "nat \<Rightarrow> (nat \<times> ('f, 's) event_loop) option"

definition new_process :: "('f, 's) process" where
  "new_process = \<lparr>t_loopInThisThread = Map.empty, loops = Map.empty\<rparr>"

definition isInLoopThread :: "nat \<Rightarrow> nat \<Rightarrow> ('f, 's) process \<Rightarrow> bool" where
  "isInLoopThread tid l P = (case loops P l of None \<Rightarrow> False | Some (threadId, L) \<Rightarrow> threadId = tid)"

text \<open>Constructor and destructor, run by thread \<open>tid\<close> on the memory at \<open>l\<close>.\<close>

definition construct_loop :: "nat \<Rightarrow> nat \<Rightarrow> 's \<Rightarrow> ('f, 's) process \<Rightarrow> ('f, 's) process result" where
  "construct_loop tid l s P =
     and_then (new_event_loop (t_loopInThisThread P tid \<noteq> None) s) (\<lambda>L.
       Inr (P\<lparr>t_loopInThisThread := (t_loopInThisThread P)(tid \<mapsto> l), loops := (loops P)(l \<mapsto> (tid, L))\<rparr>))"

definition destruct_loop :: "nat \<Rightarrow> nat \<Rightarrow> ('f, 's) process \<Rightarrow> ('f, 's) process result" where
  "destruct_loop tid l P =
     (case loops P l of
        None \<Rightarrow> Inl (NullDereference ''EventLoop'')
      | Some (_, L) \<Rightarrow> and_then (destroy_event_loop L) (\<lambda>_.
          Inr (P\<lparr>t_loopInThisThread := (t_loopInThisThread P)(tid := None), loops := (loops P)(l := None)\<rparr>)))"

text \<open>A member function called by a thread on a loop.\<close>

definition call_member ::
  "nat \<Rightarrow> nat \<Rightarrow> (bool \<Rightarrow> ('f, 's) event_loop \<Rightarrow> ('f, 's) event_loop result) \<Rightarrow> ('f, 's) process \<Rightarrow> ('f, 's) process result"
where
  "call_member tid l f P =
     (case loops P l of
        None \<Rightarrow> Inl (NullDereference ''EventLoop'')
      | Some (threadId, L) \<Rightarrow> and_then (f (isInLoopThread tid l P) L) (\<lambda>L'. Inr (P\<lparr>loops := (loops P)(l \<mapsto> (threadId, L'))\<rparr>)))"

datatype ('f, 'e, 's) process_event =
    Construct nat nat 's
  | Destruct nat nat
  | Loop nat nat "'e active list list"
  | RunInLoop nat nat 'f
  | Quit nat nat

fun process_step ::
  "('f \<Rightarrow> 's \<Rightarrow> ('s \<times> 'f call list) result) \<Rightarrow> ('e \<Rightarrow> 's \<Rightarrow> ('s \<times> 'f call list) result) \<Rightarrow> ('f, 'e, 's) process_event
     \<Rightarrow> ('f, 's) process \<Rightarrow> ('f, 's) process result" where
  "process_step run handle (Construct tid l s) P = construct_loop tid l s P"
| "process_step run handle (Destruct tid l) P = destruct_loop tid l P"
| "process_step run handle (Loop tid l polls) P = call_member tid l (\<lambda>in_loop. loop run handle in_loop polls) P"
| "process_step run handle (RunInLoop tid l f) P = call_member tid l (\<lambda>in_loop. runInLoop run in_loop f) P"
| "process_step run handle (Quit tid l) P = call_member tid l (\<lambda>in_loop L. Inr (quit in_loop L)) P"

text \<open>New loops do not overlap with old ones, and only loops that exist are destroyed or used, by
  any thread.\<close>

fun process_enabled :: "('f, 's) process \<Rightarrow> ('f, 'e, 's) process_event \<Rightarrow> bool" where
  "process_enabled P (Construct tid l s) \<longleftrightarrow> loops P l = None"
| "process_enabled P (Destruct tid l) \<longleftrightarrow> loops P l \<noteq> None"
| "process_enabled P (Loop tid l polls) \<longleftrightarrow> loops P l \<noteq> None"
| "process_enabled P (RunInLoop tid l f) \<longleftrightarrow> loops P l \<noteq> None"
| "process_enabled P (Quit tid l) \<longleftrightarrow> loops P l \<noteq> None"

text \<open>
  The destructor does not check which thread runs it. The programs of the repository destroy a loop in
  the thread that made it, since a loop is a local variable of \<open>main\<close> or of \<open>threadFunc\<close>; a theorem that
  relies on that says so with \<open>destroyed_at_home\<close>.
\<close>

fun destroyed_at_home :: "('f, 's) process \<Rightarrow> ('f, 'e, 's) process_event \<Rightarrow> bool" where
  "destroyed_at_home P (Destruct tid l) \<longleftrightarrow> isInLoopThread tid l P"
| "destroyed_at_home P e \<longleftrightarrow> True"

inductive process_reaches ::
  "(('f, 's) process \<Rightarrow> ('f, 'e, 's) process_event \<Rightarrow> bool) \<Rightarrow> ('f \<Rightarrow> 's \<Rightarrow> ('s \<times> 'f call list) result) \<Rightarrow> ('e \<Rightarrow> 's \<Rightarrow> ('s \<times> 'f call list) result) \<Rightarrow> ('f, 's) process \<Rightarrow> bool"
  for callers run handle where
  process_begins: "process_reaches callers run handle new_process"
| process_goes_on: "process_reaches callers run handle P \<Longrightarrow> process_enabled P e \<Longrightarrow> callers P e \<Longrightarrow>
    process_step run handle e P = Inr P' \<Longrightarrow> process_reaches callers run handle P'"

subsection \<open>The invariant\<close>

definition owners_agree :: "('f, 's) process \<Rightarrow> bool" where
  "owners_agree P \<longleftrightarrow> (\<forall>t l. t_loopInThisThread P t = Some l \<longleftrightarrow> isInLoopThread t l P)"

lemma isInLoopThread_iff: "isInLoopThread t l P \<longleftrightarrow> (\<exists>L. loops P l = Some (t, L))"
  by (auto simp: isInLoopThread_def split: option.splits)

lemma ownersD: "owners_agree P \<Longrightarrow> isInLoopThread t l P \<longleftrightarrow> t_loopInThisThread P t = Some l"
  by (simp add: owners_agree_def)

lemma call_member_owners:
  assumes "owners_agree P" and "call_member tid l f P = Inr P'"
  shows "owners_agree P'"
proof -
  obtain i L L' where "loops P l = Some (i, L)" "P' = P\<lparr>loops := (loops P)(l \<mapsto> (i, L'))\<rparr>"
    using assms(2) by (auto simp: call_member_def and_then_Inr_iff split: option.splits)
  then have "isInLoopThread t k P' \<longleftrightarrow> isInLoopThread t k P" for t k by (simp add: isInLoopThread_def)
  then show ?thesis using assms(1) \<open>P' = _\<close> by (simp add: owners_agree_def)
qed

lemma construct_owners:
  assumes "owners_agree P" and "loops P l = None" and "construct_loop tid l s P = Inr P'"
  shows "owners_agree P'"
proof -
  obtain L where c: "t_loopInThisThread P tid = None"
    "P' = P\<lparr>t_loopInThisThread := (t_loopInThisThread P)(tid \<mapsto> l), loops := (loops P)(l \<mapsto> (tid, L))\<rparr>"
    using assms(3) by (auto simp: construct_loop_def new_event_loop_def and_then_Inr_iff require_Inr_iff)
  have "isInLoopThread t k P' \<longleftrightarrow> (if k = l then t = tid else isInLoopThread t k P)" for t k
    by (auto simp: c(2) isInLoopThread_def)
  moreover have "\<not> isInLoopThread t l P" for t using assms(2) by (simp add: isInLoopThread_def)
  ultimately show ?thesis using c ownersD [OF assms(1)] by (auto simp: owners_agree_def)
qed

lemma destruct_owners:
  assumes "owners_agree P" and "isInLoopThread tid l P" and "destruct_loop tid l P = Inr P'"
  shows "owners_agree P'"
proof -
  have d: "P' = P\<lparr>t_loopInThisThread := (t_loopInThisThread P)(tid := None), loops := (loops P)(l := None)\<rparr>"
    using assms(3) by (auto simp: destruct_loop_def and_then_Inr_iff split: option.splits)
  have l: "t_loopInThisThread P tid = Some l" using ownersD [OF assms(1)] assms(2) by simp
  have "isInLoopThread t k P' \<longleftrightarrow> k \<noteq> l \<and> isInLoopThread t k P" for t k
    by (simp add: d isInLoopThread_def)
  moreover have "t_loopInThisThread P t = Some k \<longleftrightarrow> isInLoopThread t k P" for t k using ownersD [OF assms(1)] by blast
  moreover have "t = tid" if "isInLoopThread t l P" for t using that assms(2) by (auto simp: isInLoopThread_iff)
  moreover have "t_loopInThisThread P' t = (if t = tid then None else t_loopInThisThread P t)" for t by (simp add: d)
  ultimately show ?thesis using l unfolding owners_agree_def by (metis option.distinct(1) option.inject)
qed

lemma process_step_owners:
  assumes "owners_agree P" and "process_enabled P e" and "destroyed_at_home P e" and "process_step run handle e P = Inr P'"
  shows "owners_agree P'"
proof (cases e)
  case (Construct tid l s)
  with assms(2-4) show ?thesis by (intro construct_owners [OF assms(1)]) simp_all
next
  case (Destruct tid l)
  with assms(2-4) show ?thesis by (intro destruct_owners [OF assms(1)]) simp_all
next
  case (Loop tid l polls)
  with assms(4) show ?thesis by (intro call_member_owners [OF assms(1)]) simp
next
  case (RunInLoop tid l f)
  with assms(4) show ?thesis by (intro call_member_owners [OF assms(1)]) simp
next
  case (Quit tid l)
  with assms(4) show ?thesis by (intro call_member_owners [OF assms(1)]) simp
qed

lemma process_reaches_owners: "process_reaches destroyed_at_home run handle P \<Longrightarrow> owners_agree P"
proof (induction rule: process_reaches.induct)
  case process_begins
  show ?case by (simp add: owners_agree_def new_process_def isInLoopThread_iff)
qed (rule process_step_owners)

text \<open>C13: One loop per thread: whatever threads construct, run, use and destroy loops, as long as a
  loop is destroyed only by the thread that made it, which the destructor does not check, no thread
  ever has two and no two threads are both the thread of a loop; a thread's variable points to its
  loop, and constructing another one is refused exactly when it has one. Only the loop's own thread
  gets into \<open>loop()\<close>.\<close>

theorem one_loop_per_thread:
  assumes "process_reaches destroyed_at_home run handle P"
  shows "(\<forall>t l. t_loopInThisThread P t = Some l \<longleftrightarrow> isInLoopThread t l P) \<and>
    (\<forall>t l l'. isInLoopThread t l P \<and> isInLoopThread t l' P \<longrightarrow> l = l') \<and>
    (\<forall>t t' l. isInLoopThread t l P \<and> isInLoopThread t' l P \<longrightarrow> t = t') \<and>
    (\<forall>t l s. construct_loop t l s P = Inl (Fatal ''Another EventLoop exists in this thread'') \<longleftrightarrow> (\<exists>l'. isInLoopThread t l' P)) \<and>
    (\<forall>t l polls P'. process_step run handle (Loop t l polls) P = Inr P' \<longrightarrow> t_loopInThisThread P t = Some l)"
proof -
  have own: "t_loopInThisThread P t = Some l \<longleftrightarrow> isInLoopThread t l P" for t l
    using process_reaches_owners [OF assms] by (simp add: owners_agree_def)
  have "l = l'" if "isInLoopThread t l P" "isInLoopThread t l' P" for t l l'
    using that unfolding own [symmetric] by simp
  moreover have "t = t'" if "isInLoopThread t l P" "isInLoopThread t' l P" for t t' l
    using that by (auto simp: isInLoopThread_iff)
  moreover have "construct_loop t l s P = Inl (Fatal ''Another EventLoop exists in this thread'') \<longleftrightarrow> (\<exists>l'. isInLoopThread t l' P)" for t l s
    unfolding own [symmetric] by (cases "t_loopInThisThread P t") (simp_all add: construct_loop_def new_event_loop_def)
  moreover have "t_loopInThisThread P t = Some l" if "process_step run handle (Loop t l polls) P = Inr P'" for t l polls P'
    using that unfolding own by (auto simp: call_member_def and_then_Inr_iff loop_def require_Inr_iff split: option.splits)
  ultimately show ?thesis using own by blast
qed

text \<open>Thread 1 with the loop at 10, and thread 2 with the loop at 20.\<close>

definition two_loops :: "(unit, unit) process" where
  "two_loops = \<lparr>t_loopInThisThread = [1 \<mapsto> 10, 2 \<mapsto> 20],
     loops = [10 \<mapsto> (1, \<lparr>looping = False, quitting = False, callingPendingFunctors = False, pendingFunctors = [], counter = 0, user = ()\<rparr>),
              20 \<mapsto> (2, \<lparr>looping = False, quitting = False, callingPendingFunctors = False, pendingFunctors = [], counter = 0, user = ()\<rparr>)]\<rparr>"

abbreviation bare_reaches ::
  "((unit, unit) process \<Rightarrow> (unit, unit, unit) process_event \<Rightarrow> bool) \<Rightarrow> (unit, unit) process \<Rightarrow> bool" where
  "bare_reaches callers \<equiv> process_reaches callers (\<lambda>_ s. Inr (s, [])) (\<lambda>_ s. Inr (s, []))"

lemma two_loops_reached:
  assumes "\<And>P tid l. callers P (Construct tid l ())"
  shows "bare_reaches callers two_loops"
proof -
  obtain P where P: "construct_loop 1 10 () new_process = Inr P" "loops P 20 = None"
      "construct_loop 2 20 () P = Inr two_loops"
    by (auto simp: construct_loop_def new_event_loop_def new_process_def two_loops_def fun_upd_twist)
  have "bare_reaches callers P"
    by (rule process_goes_on [OF process_begins, where e = "Construct 1 10 ()"])
      (use P(1) assms in \<open>simp_all add: new_process_def\<close>)
  then show ?thesis
    by (rule process_goes_on [where e = "Construct 2 20 ()"]) (use P(2,3) assms in simp_all)
qed

theorem one_loop_per_thread_witness:
  "(\<exists>l'. isInLoopThread 2 l' two_loops) \<and>
    construct_loop 2 30 () two_loops = Inl (Fatal ''Another EventLoop exists in this thread'')"
proof -
  have "isInLoopThread 2 20 two_loops" by (simp add: isInLoopThread_def two_loops_def)
  moreover have "bare_reaches destroyed_at_home two_loops" by (rule two_loops_reached) simp
  ultimately show ?thesis using one_loop_per_thread by blast
qed

text \<open>
  The condition is needed: after a loop is destroyed by the thread of another one, the other thread can
  have two loops.
\<close>

lemma foreign_destruction:
  assumes "loops P l = Some (t, L)" and "loops P l' = Some (t', L')" and "l \<noteq> l'" and "\<not> looping L'" and "loops P k = None"
  shows "\<exists>P1 P2. destruct_loop t l' P = Inr P1 \<and> loops P1 k = None \<and> construct_loop t k s P1 = Inr P2 \<and>
    isInLoopThread t l P2 \<and> isInLoopThread t k P2 \<and> l \<noteq> k"
proof -
  have "l \<noteq> k" using assms by auto
  then show ?thesis using assms
    by (auto simp: destruct_loop_def destroy_event_loop_def construct_loop_def new_event_loop_def isInLoopThread_iff)
qed

theorem foreign_destruction_reached:
  "\<exists>P. bare_reaches (\<lambda>_ _. True) P \<and> isInLoopThread 1 10 P \<and> isInLoopThread 1 30 P"
proof -
  have "\<exists>P1 P2. destruct_loop 1 20 two_loops = Inr P1 \<and> loops P1 30 = None \<and> construct_loop 1 30 () P1 = Inr P2 \<and>
      isInLoopThread 1 10 P2 \<and> isInLoopThread 1 30 P2 \<and> (10 :: nat) \<noteq> 30"
    by (rule foreign_destruction) (simp add: two_loops_def)+
  then obtain P1 P2 where P: "destruct_loop 1 20 two_loops = Inr P1" "loops P1 30 = None" "construct_loop 1 30 () P1 = Inr P2"
      "isInLoopThread 1 10 P2" "isInLoopThread 1 30 P2" by blast
  have "bare_reaches (\<lambda>_ _. True) two_loops" by (rule two_loops_reached) simp
  then have "bare_reaches (\<lambda>_ _. True) P1"
    by (rule process_goes_on [where e = "Destruct 1 20"]) (use P(1) in \<open>simp_all add: two_loops_def\<close>)
  then have "bare_reaches (\<lambda>_ _. True) P2"
    by (rule process_goes_on [where e = "Construct 1 30 ()"]) (use P(2,3) in simp_all)
  with P(4,5) show ?thesis by blast
qed

subsection \<open>test1.cc and test2.cc\<close>

text \<open>
  In test1 the main thread, 0, and the thread it starts each make a loop and run it; in test2 the thread
  runs the loop of the main thread. The loops are at the addresses 10 and 20 and have no work to do;
  \<open>polls\<close> and \<open>polls'\<close> are what the two polls report. The threads do not share their loops, so that one
  order of their steps stands for all.
\<close>

definition run_bare :: "nat \<Rightarrow> nat \<Rightarrow> unit active list list \<Rightarrow> (unit, unit) process \<Rightarrow> (unit, unit) process result" where
  "run_bare tid l polls = call_member tid l (\<lambda>in_loop. loop (\<lambda>_ s. Inr (s, [])) (\<lambda>_ s. Inr (s, [])) in_loop polls)"

definition test1_main :: "unit active list list \<Rightarrow> unit active list list \<Rightarrow> (unit, unit) process result" where
  "test1_main polls polls' =
     and_then (construct_loop 0 10 () new_process) (\<lambda>P.
     and_then (construct_loop 1 20 () P) (\<lambda>P.
     and_then (run_bare 1 20 polls' P) (run_bare 0 10 polls)))"

definition test2_main :: "unit active list list \<Rightarrow> (unit, unit) process result" where
  "test2_main polls = and_then (construct_loop 0 10 () new_process) (run_bare 1 10 polls)"

lemma test2_main_aborts: "test2_main polls = Inl (Fatal ''EventLoop::abortNotInLoopThread'')"
  by (simp add: test2_main_def construct_loop_def new_event_loop_def new_process_def run_bare_def call_member_def
      isInLoopThread_def loop_def)

end
