(* ===== verification/LoopPrograms.thy ===== *)
theory LoopPrograms
  imports TcpClient LoopOwner
begin

section \<open>The small programs on a loop: test1.cc, test2.cc, test3.cc, test7.cc and test12.cc\<close>

text \<open>
  Programs with one component on a loop: none at all, a channel, an acceptor and a connector. What they
  print is counted or left out.
\<close>

subsection \<open>test1.cc and test2.cc\<close>

text \<open>A thread that makes a loop and runs it, and one that runs the loop of another thread.\<close>

definition bare_loop :: "bool \<Rightarrow> unit active list list \<Rightarrow> (unit, unit) event_loop result" where
  "bare_loop in_loop polls =
     and_then (new_event_loop False ()) (loop (\<lambda>_ s. Inr (s, [])) (\<lambda>_ s. Inr (s, [])) in_loop polls)"

definition test1_threadFunc :: "unit active list list \<Rightarrow> (unit, unit) event_loop result" where
  "test1_threadFunc polls = bare_loop True polls"

definition test2_threadFunc :: "unit active list list \<Rightarrow> (unit, unit) event_loop result" where
  "test2_threadFunc polls = bare_loop False polls"

subsection \<open>test3.cc\<close>

text \<open>The state counts the calls of \<open>timeout\<close>.\<close>

definition timeout :: "unit \<Rightarrow> nat \<Rightarrow> (nat \<times> unit call list) result" where
  "timeout e n = Inr (Suc n, [QuitCall])"

definition test3 :: "unit active list list \<Rightarrow> (unit, nat) event_loop result" where
  "test3 polls = and_then (new_event_loop False 0) (loop (\<lambda>_ s. Inr (s, [])) timeout True polls)"

subsection \<open>test7.cc\<close>

text \<open>What was written to which descriptor, and the descriptors closed.\<close>

record greeter =
  greeted :: "(int \<times> byte list) list"
  closedFds :: "int list"

definition how_are_you :: "byte list" where
  "how_are_you = [72, 111, 119, 32, 97, 114, 101, 32, 121, 111, 117, 63, 10]"

definition greet_and_close :: "int \<Rightarrow> int \<Rightarrow> int \<Rightarrow> greeter \<Rightarrow> greeter result" where
  "greet_and_close wrote close_ret sockfd g =
     (let g1 = g\<lparr>greeted := greeted g @ [(sockfd, take (nat wrote) how_are_you)]\<rparr> in
      and_then (sockets_close close_ret) (\<lambda>_. Inr (g1\<lparr>closedFds := closedFds g1 @ [sockfd]\<rparr>)))"

text \<open>The listening channel is readable: what \<open>accept\<close>, \<open>write\<close> and \<open>close\<close> return.\<close>

record accept_event =
  accepted_fd :: int
  accept_errno :: int
  accept_peer :: sockaddr_in
  write_ret :: int
  close_ret :: int

definition test7_step :: "acceptor \<Rightarrow> accept_event \<Rightarrow> greeter \<Rightarrow> greeter result" where
  "test7_step a e g =
     and_then (acceptor_handleRead (accepted_fd e) (accept_errno e) (accept_peer e) (close_ret e) a) (\<lambda>r.
       case r of
         NewConnection connfd peer \<Rightarrow> greet_and_close (write_ret e) (close_ret e) connfd g
       | _ \<Rightarrow> Inr g)"

definition test7 :: "int \<Rightarrow> int \<Rightarrow> int \<Rightarrow> accept_event list \<Rightarrow> greeter result" where
  "test7 sockfd bind_ret listen_ret es =
     and_then (new_acceptor 0 sockfd bind_ret) (\<lambda>a.
     and_then (acceptor_listen True listen_ret (a\<lparr>newConnectionCallback := True\<rparr>)) (\<lambda>a'.
       for_each (test7_step a') es \<lparr>greeted = [], closedFds = []\<rparr>))"

subsection \<open>test12.cc\<close>

text \<open>A connector and whether the loop was asked to quit.\<close>

definition test12_step :: "Connector.event \<Rightarrow> connector \<times> bool \<Rightarrow> (connector \<times> bool) result" where
  "test12_step e s = (let (c, quits) = s in
     and_then (Connector.step e c) (\<lambda>c'. Inr (c', quits \<or> length (handedOver c) < length (handedOver c'))))"

text \<open>\<open>main\<close> starts it once; from then on the loop makes its steps.\<close>

inductive test12_reaches :: "connector \<times> bool \<Rightarrow> bool" where
  test12_starts: "0 \<le> sockfd \<Longrightarrow> test12_step (Start sockfd err) (new_connector, False) = Inr s \<Longrightarrow> test12_reaches s"
| test12_goes_on: "test12_reaches (c, quits) \<Longrightarrow> enabled c e \<Longrightarrow> (\<forall>a b. e \<noteq> Start a b \<and> e \<noteq> Restart a b) \<Longrightarrow> e \<noteq> Stop \<Longrightarrow>
    test12_step e (c, quits) = Inr s \<Longrightarrow> test12_reaches s"

subsection \<open>Facts\<close>

lemma idle_poll:
  fixes L :: "('f, 's) event_loop"
  assumes "looping L" and "\<not> quitting L" and "pendingFunctors L = []" and h: "\<And>e s. handle e s = Inr (s, [])"
  shows "\<exists>L'. for_each (dispatch handle) as L = Inr L' \<and> looping L' \<and> \<not> quitting L' \<and> pendingFunctors L' = [] \<and> user L' = user L"
proof (rule for_each_invariant)
  fix a and L1 :: "('f, 's) event_loop"
  assume "looping L1 \<and> \<not> quitting L1 \<and> pendingFunctors L1 = [] \<and> user L1 = user L"
  then show "\<exists>L'. dispatch handle a L1 = Inr L' \<and> looping L' \<and> \<not> quitting L' \<and> pendingFunctors L' = [] \<and> user L' = user L"
    by (cases a) (simp_all add: loop_handleRead_def in_thread_def h)
qed (use assms in simp)

lemma no_pending:
  "pendingFunctors L = [] \<Longrightarrow> doPendingFunctors run L = Inr (L\<lparr>callingPendingFunctors := False\<rparr>)"
  by (simp add: doPendingFunctors_def)

lemma idle_loop_goes_on:
  assumes "looping L" and "\<not> quitting L" and "pendingFunctors L = []"
    and h: "\<And>e s. handle e s = Inr (s, [])"
  shows "\<exists>L'. loop_while run handle polls L = Inr L' \<and> looping L'"
  using assms(1-3)
proof (induction polls arbitrary: L)
  case Nil
  then show ?case by (subst loop_while.simps) simp
next
  case (Cons as polls)
  from idle_poll [where handle = handle and as = as, OF Cons.prems h] obtain L1 where
    L1: "for_each (dispatch handle) as L = Inr L1" "looping L1" "\<not> quitting L1" "pendingFunctors L1 = []" by blast
  note d = no_pending [OF L1(4), of run]
  have "\<exists>L'. loop_while run handle polls (L1\<lparr>callingPendingFunctors := False\<rparr>) = Inr L' \<and> looping L'"
    by (rule Cons.IH) (use L1 in simp_all)
  then show ?case using L1(1) d Cons.prems by (subst loop_while.simps) simp
qed

text \<open>The loops of test1 never end; the thread of test2 is aborted, since the loop is not its own.\<close>

lemma test1_never_ends: "\<exists>L. test1_threadFunc polls = Inr L \<and> looping L"
proof -
  have "\<exists>L'. loop_while (\<lambda>_ s. Inr (s, [])) (\<lambda>_ s. Inr (s, [])) polls \<lparr>looping = True, quitting = False,
      callingPendingFunctors = False, pendingFunctors = [] :: unit list, counter = 0, user = ()\<rparr> = Inr L' \<and> looping L'"
    by (rule idle_loop_goes_on) simp_all
  then show ?thesis by (simp add: test1_threadFunc_def bare_loop_def new_event_loop_def loop_def)
qed

lemma test1_main_runs:
  "\<exists>P L L'. test1_main polls polls' = Inr P \<and> loops P 10 = Some (0, L) \<and> looping L \<and> loops P 20 = Some (1, L') \<and> looping L'"
proof -
  let ?L = "\<lparr>looping = False, quitting = False, callingPendingFunctors = False, pendingFunctors = [] :: unit list, counter = 0, user = ()\<rparr>"
  have run: "\<exists>L'. loop (\<lambda>_ s. Inr (s, [])) (\<lambda>_ s. Inr (s, [])) True polls ?L = Inr L' \<and> looping L'" for polls :: "unit active list list"
    using test1_never_ends [of polls] by (simp add: test1_threadFunc_def bare_loop_def new_event_loop_def)
  obtain L L' where "loop (\<lambda>_ s. Inr (s, [])) (\<lambda>_ s. Inr (s, [])) True polls ?L = Inr L" "looping L"
    "loop (\<lambda>_ s. Inr (s, [])) (\<lambda>_ s. Inr (s, [])) True polls' ?L = Inr L'" "looping L'" using run [of polls] run [of polls'] by blast
  then show ?thesis by (simp add: test1_main_def construct_loop_def new_event_loop_def new_process_def run_bare_def call_member_def
      isInLoopThread_def)
qed

lemma test2_aborts: "test2_threadFunc polls = Inl (Fatal ''EventLoop::abortNotInLoopThread'')"
  by (simp add: test2_threadFunc_def bare_loop_def new_event_loop_def loop_def)

text \<open>In test3 the poll that reports the timer calls \<open>timeout\<close>, and the loop ends with it.\<close>

lemma test3_poll:
  "pendingFunctors L = [] \<Longrightarrow> looping L \<Longrightarrow> \<exists>L'. for_each (dispatch timeout) as L = Inr L' \<and> pendingFunctors L' = [] \<and> looping L' \<and>
    quitting L' = (quitting L \<or> Component () \<in> set as) \<and> user L' = user L + count_list as (Component ())"
proof (induction as arbitrary: L)
  case (Cons a as)
  have "\<exists>L1. dispatch timeout a L = Inr L1 \<and> pendingFunctors L1 = [] \<and> looping L1 \<and>
      quitting L1 = (quitting L \<or> a = Component ()) \<and> user L1 = user L + (if a = Component () then 1 else 0)"
    using Cons.prems by (cases a) (simp_all add: loop_handleRead_def in_thread_def timeout_def EventLoop.quit_def)
  then obtain L1 where L1: "dispatch timeout a L = Inr L1" "pendingFunctors L1 = []" "looping L1"
    "quitting L1 = (quitting L \<or> a = Component ())" "user L1 = user L + (if a = Component () then 1 else 0)" by blast
  from Cons.IH [OF L1(2,3)] L1 show ?case by auto
qed simp

lemma loop_while_quit: "quitting L \<Longrightarrow> loop_while run handle polls L = Inr (L\<lparr>looping := False\<rparr>)"
  by (subst loop_while.simps) simp

lemma test3_loop:
  assumes "pendingFunctors L = []" and "looping L" and "\<not> quitting L"
    and "\<forall>xs \<in> set early. Component () \<notin> set xs" and "Component () \<in> set as"
  shows "\<exists>L'. loop_while (\<lambda>_ s. Inr (s, [])) timeout (early @ as # late) L = Inr L' \<and> \<not> looping L' \<and>
    user L' = user L + count_list as (Component ())"
  using assms
proof (induction early arbitrary: L)
  case Nil
  from test3_poll [OF Nil.prems(1,2), of as] obtain L1 where
    L1: "for_each (dispatch timeout) as L = Inr L1" "pendingFunctors L1 = []" "quitting L1"
      "user L1 = user L + count_list as (Component ())" using Nil.prems(5) by auto
  then show ?case using Nil.prems(3)
    by (subst loop_while.simps) (simp add: no_pending loop_while_quit)
next
  case (Cons xs early)
  from test3_poll [OF Cons.prems(1,2), of xs] Cons.prems(3,4) obtain L1 where
    L1: "for_each (dispatch timeout) xs L = Inr L1" "pendingFunctors L1 = []" "looping L1" "\<not> quitting L1"
      "user L1 = user L" by (auto simp: count_notin)
  have "\<exists>L'. loop_while (\<lambda>_ s. Inr (s, [])) timeout (early @ as # late) (L1\<lparr>callingPendingFunctors := False\<rparr>) = Inr L' \<and>
      \<not> looping L' \<and> user L' = user (L1\<lparr>callingPendingFunctors := False\<rparr>) + count_list as (Component ())"
    by (rule Cons.IH) (use L1 Cons.prems in simp_all)
  with L1 Cons.prems(3) show ?case by (subst append_Cons, subst loop_while.simps) (simp add: no_pending)
qed

lemma test3_times_out:
  assumes "\<forall>xs \<in> set early. Component () \<notin> set xs" and "count_list as (Component ()) = 1"
  shows "\<exists>L. test3 (early @ as # late) = Inr L \<and> \<not> looping L \<and> user L = 1"
proof -
  have "Component () \<in> set as" using assms(2) count_list_0_iff [of as "Component ()"] by auto
  from test3_loop [OF _ _ _ assms(1) this, of "\<lparr>looping = True, quitting = False, callingPendingFunctors = False,
      pendingFunctors = [] :: unit list, counter = 0, user = 0\<rparr>" late] assms(2) show ?thesis
    by (simp add: test3_def new_event_loop_def loop_def)
qed

text \<open>Every connection test7 accepts is greeted and closed, once and in order; with system calls that
  succeed it goes on.\<close>

lemma test7_closes_every_connection:
  assumes "test7 sockfd bind_ret listen_ret es = Inr g"
  shows "closedFds g = filter (\<lambda>fd. 0 \<le> fd) (map accepted_fd es) \<and> map fst (greeted g) = closedFds g \<and>
    (\<forall>(fd, bs) \<in> set (greeted g). \<exists>n. bs = take n how_are_you)"
proof -
  let ?P = "\<lambda>es g. closedFds g = filter (\<lambda>fd. 0 \<le> fd) (map accepted_fd es) \<and> map fst (greeted g) = closedFds g \<and>
    (\<forall>(fd, bs) \<in> set (greeted g). \<exists>n. bs = take n how_are_you)"
  have one: "?P (pre @ [e]) g'" if "?P pre g0" "test7_step a e g0 = Inr g'" "newConnectionCallback a" for pre e g0 g' a
    using that by (auto simp: test7_step_def and_then_Inr_iff acceptor_handleRead_def Socket_accept_def sockets_accept_def
        greet_and_close_def Let_def split: if_splits)
  have all: "?P (pre @ es) g'" if "?P pre g0" "for_each (test7_step a) es g0 = Inr g'" "newConnectionCallback a" for pre es g0 g' a
    using that
  proof (induction es arbitrary: pre g0)
    case (Cons e es)
    then obtain g1 where g1: "test7_step a e g0 = Inr g1" "for_each (test7_step a) es g1 = Inr g'"
      by (auto simp: and_then_Inr_iff)
    from Cons.IH [OF one [OF Cons.prems(1) g1(1) Cons.prems(3)] g1(2) Cons.prems(3)] show ?case by simp
  qed simp
  obtain a where a: "for_each (test7_step (a\<lparr>newConnectionCallback := True, listening := True,
      acceptChannel := enableReading (acceptChannel a)\<rparr>)) es \<lparr>greeted = [], closedFds = []\<rparr> = Inr g"
    using assms by (auto simp: test7_def and_then_Inr_iff acceptor_listen_def)
  from all [OF _ a, of "[]"] show ?thesis by simp
qed

text \<open>test12 never fails; its loop is asked to quit exactly when a connection has been made, and there is
  only one.\<close>

definition test12_inv :: "connector \<times> bool \<Rightarrow> bool" where
  "test12_inv s \<longleftrightarrow> (let (c, quits) = s in connector_inv c \<and> length (handedOver c) = (if quits then 1 else 0) \<and>
     (quits \<longrightarrow> connector.state c = states.kConnected))"

lemma test12_step_ok:
  assumes inv: "test12_inv (c, quits)" and en: "enabled c e" and e: "\<forall>a b. e \<noteq> Start a b \<and> e \<noteq> Restart a b" "e \<noteq> Stop"
  shows "\<exists>s. test12_step e (c, quits) = Inr s \<and> test12_inv s"
proof -
  have c: "connector_inv c" "length (handedOver c) = (if quits then 1 else 0)" "quits \<longrightarrow> connector.state c = states.kConnected"
    using inv by (simp_all add: test12_inv_def)
  have "careful c e" using e by (cases e) auto
  from step_ok [OF c(1) en this] obtain c' where c': "Connector.step e c = Inr c'" "connector_inv c'" by blast
  show ?thesis
  proof (cases quits)
    case True
    with c(3) have "connector.state c = states.kConnected" by simp
    from connected_events [OF this en _ c'(1)] e(1)
    have "connector.state c' = states.kConnected \<and> handedOver c' = handedOver c" by blast
    with c c' True show ?thesis by (simp add: test12_step_def test12_inv_def)
  next
    case False
    from step_handed [OF c'(1)] False c c' show ?thesis
      by (auto simp: test12_step_def test12_inv_def)
  qed
qed

lemma test12_reaches_inv: "test12_reaches s \<Longrightarrow> test12_inv s"
proof (induction rule: test12_reaches.induct)
  case (test12_starts sockfd err s)
  have "enabled new_connector (Start sockfd err)" "careful new_connector (Start sockfd err)"
    using test12_starts by (simp_all add: new_connector_def)
  from step_ok [OF connector_inv_new this] obtain c' where c': "Connector.step (Start sockfd err) new_connector = Inr c'" "connector_inv c'"
    by blast
  then have "handedOver c' = []"
    using startInLoop_handed [of True "(sockfd, err)" "new_connector\<lparr>wanted := True\<rparr>" c']
    by (simp add: Connector.start_def new_connector_def)
  with test12_starts c' show ?case by (auto simp: test12_step_def test12_inv_def new_connector_def)
next
  case (test12_goes_on c quits e s)
  from test12_step_ok [OF test12_goes_on.IH test12_goes_on.hyps(2-4)] test12_goes_on.hyps(5) show ?case by auto
qed

lemma test12_quits_when_connected:
  assumes "test12_reaches (c, quits)"
  shows "(if quits then connector.state c = states.kConnected \<and> (\<exists>sockfd. handedOver c = [sockfd]) else handedOver c = []) \<and>
    (enabled c e \<and> (\<forall>a b. e \<noteq> Start a b \<and> e \<noteq> Restart a b) \<and> e \<noteq> Stop \<longrightarrow> (\<exists>s. test12_step e (c, quits) = Inr s))"
proof -
  have I: "test12_inv (c, quits)" using assms by (rule test12_reaches_inv)
  have "if quits then connector.state c = states.kConnected \<and> (\<exists>sockfd. handedOver c = [sockfd]) else handedOver c = []"
    using I by (cases "handedOver c") (auto simp: test12_inv_def split: if_splits)
  with test12_step_ok [OF I, of e] show ?thesis by blast
qed

end
