(* ===== verification/RpcStream.thy ===== *)
theory RpcStream
  imports Codec Rpc Dispatcher
begin

section \<open>Remote procedure calls over byte streams\<close>

text \<open>
  \<open>RpcChannel\<close> with its codec: what a channel sends is put into frames, and the bytes that arrive go
  through the input buffer of the connection to \<open>RpcChannel::onMessage\<close>, which has the codec cut them up
  and hand the messages to \<open>onRpcMessage\<close>. The streams between the two ends deliver the bytes in order in
  pieces of any sizes.

  The result is a refinement: the two channels on byte streams do what the two channels of
  \<open>rpc_step\<close>, between which whole messages travel, do. One arrival of bytes stands for as many of its
  steps as messages are completed by it, none included.
\<close>

subsection \<open>The channel and its codec\<close>

text \<open>
  The generated class of \<open>rpc.proto\<close>: the message object with given fields, and the fields of a
  message object if it is one of this class, which is what the cast tests.
\<close>

record ('d, 'm) rpc_runtime =
  rpc_pb :: "('d, 'm) protobuf"
  from_rpc :: "rpc_message \<Rightarrow> 'm"
  as_rpc :: "'m \<Rightarrow> rpc_message option"

text \<open>
  The two callbacks the codec of a channel has: \<open>onRpcMessage\<close>, with the cast on its second line, and the
  default error callback. The flag says whether the connection was asked to shut down.
\<close>

definition channel_callback ::
  "('d, 'm) rpc_runtime \<Rightarrow> service_map \<Rightarrow> nat \<Rightarrow> 'm codec_event \<Rightarrow> rpc_channel \<times> bool \<Rightarrow> (rpc_channel \<times> bool) result"
where
  "channel_callback rt svcs c ev s = (let (ch, shut) = s in
     case ev of
       codec_event.MessageCallback m \<Rightarrow>
         require (Some c = conn ch) (AssertionFailed ''conn == conn_'')
          (and_then (down_pointer_cast (\<lambda>m _. as_rpc rt m \<noteq> None) () (Some m)) (\<lambda>_.
           and_then (onRpcMessage svcs c (the (as_rpc rt m)) ch) (\<lambda>ch'. Inr (ch', shut))))
     | ErrorCallback e \<Rightarrow> Inr (ch, shut \<or> defaultErrorCallback (Some (\<not> shut)) e))"

text \<open>\<open>RpcChannel::onMessage\<close>.\<close>

definition channel_onMessage ::
  "host_order \<Rightarrow> ('d, 'm) rpc_runtime \<Rightarrow> service_map \<Rightarrow> nat \<Rightarrow> buffer \<Rightarrow> rpc_channel \<times> bool
     \<Rightarrow> ((rpc_channel \<times> bool) \<times> buffer) result" where
  "channel_onMessage h rt svcs c buf s =
     and_then (onMessage h (rpc_pb rt) buf) (\<lambda>(evs, buf').
     and_then (for_each (channel_callback rt svcs c) evs s) (\<lambda>s'. Inr (s', buf')))"

text \<open>\<open>codec_.send\<close> of the messages a channel has sent in a call: their frames, which a connection
  that is shutting down does not take.\<close>

fun frames_of :: "host_order \<Rightarrow> ('d, 'm) rpc_runtime \<Rightarrow> rpc_message list \<Rightarrow> byte list result" where
  "frames_of h rt [] = Inr []"
| "frames_of h rt (x # xs) =
     and_then (send_bytes h (rpc_pb rt) (from_rpc rt x)) (\<lambda>bs. and_then (frames_of h rt xs) (\<lambda>bs'. Inr (bs @ bs')))"

definition sent_between :: "host_order \<Rightarrow> ('d, 'm) rpc_runtime \<Rightarrow> bool \<Rightarrow> rpc_channel \<Rightarrow> rpc_channel \<Rightarrow> byte list result" where
  "sent_between h rt shut ch ch' =
     and_then (frames_of h rt (drop (length (outbox ch)) (outbox ch'))) (\<lambda>bs. Inr (if shut then [] else bs))"

subsection \<open>Two ends and the streams between them\<close>

record rpc_end =
  channel :: rpc_channel
  input :: buffer
  shut :: bool

text \<open>\<open>to_far\<close> and \<open>to_near\<close> are the bytes on the way. The calls are made by the near end.\<close>

record rpc_streams =
  near :: rpc_end
  far :: rpc_end
  to_far :: "byte list"
  to_near :: "byte list"
  made :: "(string \<times> string \<times> byte list) list"

definition new_streams :: rpc_streams where
  "new_streams = \<lparr>near = \<lparr>channel = new_rpc_channel (Some 0), input = new_buffer, shut = False\<rparr>,
     far = \<lparr>channel = setServices True (new_rpc_channel (Some 0)), input = new_buffer, shut = False\<rparr>,
     to_far = [], to_near = [], made = []\<rparr>"

text \<open>An operation of an end's channel and the bytes it gives to the connection.\<close>

definition act ::
  "host_order \<Rightarrow> ('d, 'm) rpc_runtime \<Rightarrow> (rpc_channel \<Rightarrow> rpc_channel result) \<Rightarrow> rpc_end \<Rightarrow> (rpc_end \<times> byte list) result"
where
  "act h rt f e =
     and_then (f (channel e)) (\<lambda>ch.
     and_then (sent_between h rt (shut e) (channel e) ch) (\<lambda>bs. Inr (e\<lparr>channel := ch\<rparr>, bs)))"

text \<open>Bytes arrive: they are appended to the input buffer and the message callback is called.\<close>

definition arrive ::
  "host_order \<Rightarrow> ('d, 'm) rpc_runtime \<Rightarrow> service_map \<Rightarrow> byte list \<Rightarrow> rpc_end \<Rightarrow> (rpc_end \<times> byte list) result"
where
  "arrive h rt svcs bytes e =
     and_then (append bytes (input e)) (\<lambda>buf.
     and_then (channel_onMessage h rt svcs 0 buf (channel e, shut e)) (\<lambda>((ch, sh), buf').
     and_then (sent_between h rt (shut e) (channel e) ch) (\<lambda>bs. Inr (\<lparr>channel = ch, input = buf', shut = sh\<rparr>, bs))))"

datatype stream_event = CallOver string string "byte list" | FarReads nat | FinishOver nat "byte list" | NearReads nat

text \<open>The hosts at the two ends may differ in their byte order.\<close>

fun stream_step ::
  "host_order \<Rightarrow> host_order \<Rightarrow> ('d, 'm) rpc_runtime \<Rightarrow> service_map \<Rightarrow> stream_event \<Rightarrow> rpc_streams \<Rightarrow> rpc_streams result"
where
  "stream_step h h' rt svcs (CallOver s m r) w =
     (let i = length (made w) + 1
      in and_then (act h rt (CallMethod s m r i i) (near w)) (\<lambda>(e, bs).
           Inr (w\<lparr>near := e, to_far := to_far w @ bs, made := made w @ [(s, m, r)]\<rparr>)))"
| "stream_step h h' rt svcs (FarReads n) w =
     and_then (arrive h' rt svcs (take n (to_far w)) (far w)) (\<lambda>(e, bs).
       Inr (w\<lparr>far := e, to_far := drop n (to_far w), to_near := to_near w @ bs\<rparr>))"
| "stream_step h h' rt svcs (FinishOver k response) w =
     and_then (act h' rt (finish k response) (far w)) (\<lambda>(e, bs). Inr (w\<lparr>far := e, to_near := to_near w @ bs\<rparr>))"
| "stream_step h h' rt svcs (NearReads n) w =
     and_then (arrive h rt Map.empty (take n (to_near w)) (near w)) (\<lambda>(e, bs).
       Inr (w\<lparr>near := e, to_near := drop n (to_near w), to_far := to_far w @ bs\<rparr>))"

text \<open>
  A message the codec can carry: the runtime encodes it and decodes what it has encoded. Callers
  and services only make messages that can be carried, which bounds their size.
\<close>

definition carried :: "('d, 'm) rpc_runtime \<Rightarrow> rpc_message \<Rightarrow> bool" where
  "carried rt x \<longleftrightarrow> encodable (rpc_pb rt) (from_rpc rt x) \<and> decodable (rpc_pb rt) (from_rpc rt x) \<and>
     as_rpc rt (from_rpc rt x) = Some x"

definition reply_to :: "u64 \<Rightarrow> byte list option \<Rightarrow> rpc_error option \<Rightarrow> rpc_message" where
  "reply_to i response err = \<lparr>msg_type = RESPONSE, msg_id = i, msg_service = None, msg_method = None,
     msg_request = None, msg_response = response, msg_error = err\<rparr>"

fun stream_enabled :: "('d, 'm) rpc_runtime \<Rightarrow> response_spec \<Rightarrow> rpc_streams \<Rightarrow> stream_event \<Rightarrow> bool" where
  "stream_enabled rt spec w (CallOver s m r) \<longleftrightarrow>
     length (made w) + 1 < 2 ^ 64 \<and> carried rt (request_of (length (made w) + 1) (s, m, r))"
| "stream_enabled rt spec w (FarReads n) \<longleftrightarrow> 0 < n \<and> n \<le> length (to_far w)"
| "stream_enabled rt spec w (FinishOver k bs) \<longleftrightarrow> k < length (working (channel (far w))) \<and>
     (let r = working (channel (far w)) ! k
      in spec (run_service r) (run_method r) (run_request r) bs \<and> carried rt (reply_to (run_id r) (Some bs) None))"
| "stream_enabled rt spec w (NearReads n) \<longleftrightarrow> 0 < n \<and> n \<le> length (to_near w)"

inductive stream_reaches ::
  "host_order \<Rightarrow> host_order \<Rightarrow> ('d, 'm) rpc_runtime \<Rightarrow> service_map \<Rightarrow> response_spec \<Rightarrow> rpc_streams \<Rightarrow> rpc_streams \<Rightarrow> bool"
  for h h' rt svcs spec where
  stream_here: "stream_reaches h h' rt svcs spec w w"
| stream_next: "stream_reaches h h' rt svcs spec w w1 \<Longrightarrow> stream_enabled rt spec w1 e \<Longrightarrow>
    stream_step h h' rt svcs e w1 = Inr w2 \<Longrightarrow> stream_reaches h h' rt svcs spec w w2"

definition all_quiet :: "rpc_streams \<Rightarrow> bool" where
  "all_quiet w \<longleftrightarrow> to_far w = [] \<and> to_near w = [] \<and> working (channel (far w)) = []"

subsection \<open>A stream that carries messages\<close>

text \<open>
  The bytes in the input buffer of the reader followed by those on the way are the frames of the
  messages sent and not yet delivered, and the first of these is not complete.
\<close>

definition carries :: "('d, 'm) rpc_runtime \<Rightarrow> buffer \<Rightarrow> byte list \<Rightarrow> rpc_message list \<Rightarrow> bool" where
  "carries rt b bytes xs \<longleftrightarrow> wf_buffer b \<and> (\<forall>x \<in> set xs. carried rt x) \<and>
     readable b @ bytes = concat (map (\<lambda>x. frame (rpc_pb rt) (from_rpc rt x)) xs) \<and>
     (\<forall>x. xs \<noteq> [] \<and> x = hd xs \<longrightarrow> length (readable b) < length (frame (rpc_pb rt) (from_rpc rt x)))"

lemma frames_of_carried:
  "\<forall>x \<in> set xs. carried rt x \<Longrightarrow> frames_of h rt xs = Inr (concat (map (\<lambda>x. frame (rpc_pb rt) (from_rpc rt x)) xs))"
  by (induction xs) (simp_all add: carried_def send_bytes_frame)

lemma sent_between_carried:
  assumes "outbox ch' = outbox ch @ xs" and "\<forall>x \<in> set xs. carried rt x"
  shows "sent_between h rt False ch ch' = Inr (concat (map (\<lambda>x. frame (rpc_pb rt) (from_rpc rt x)) xs))"
  using assms by (simp add: sent_between_def frames_of_carried)

lemma carries_more:
  assumes "carries rt b bytes xs" and "\<forall>x \<in> set ys. carried rt x"
  shows "carries rt b (bytes @ concat (map (\<lambda>x. frame (rpc_pb rt) (from_rpc rt x)) ys)) (xs @ ys)"
  using assms by (cases xs) (auto simp: carries_def frame_def)

text \<open>What is left of a stream once the first \<open>j\<close> messages are delivered.\<close>

definition carried_tail :: "('d, 'm) rpc_runtime \<Rightarrow> nat \<Rightarrow> byte list \<Rightarrow> byte list \<Rightarrow> rpc_message list \<Rightarrow> bool" where
  "carried_tail rt j q bytes xs \<longleftrightarrow>
     q @ bytes = concat (map (\<lambda>x. frame (rpc_pb rt) (from_rpc rt x)) (drop j xs)) \<and>
     (drop j xs \<noteq> [] \<longrightarrow> length q < length (frame (rpc_pb rt) (from_rpc rt (hd (drop j xs)))))"

text \<open>Some bytes arrive: the codec delivers the messages that are complete now. What it delivers
  depends on the readable bytes of the input buffer only.\<close>

lemma complete_messages:
  assumes c: "carries rt b bytes xs" and n: "0 < n" "n \<le> length bytes"
  shows "\<exists>j q. j \<le> length xs \<and> carried_tail rt j q (drop n bytes) xs \<and>
    (\<forall>b1 h. wf_buffer b1 \<and> readable b1 = readable b @ take n bytes \<longrightarrow>
      (\<exists>b2. onMessage h (rpc_pb rt) b1 = Inr (map (\<lambda>x. codec_event.MessageCallback (from_rpc rt x)) (take j xs), b2) \<and>
        wf_buffer b2 \<and> readable b2 = q))"
proof -
  let ?f = "\<lambda>x. frame (rpc_pb rt) (from_rpc rt x)"
  have carr: "\<forall>x \<in> set xs. carried rt x" and eq: "readable b @ bytes = concat (map ?f xs)"
    using c by (simp_all add: carries_def)
  obtain x xs' where xs: "xs = x # xs'" using eq n by (cases xs) auto
  have dec: "\<forall>y \<in> set xs. decodable (rpc_pb rt) (from_rpc rt y)" using carr by (simp add: carried_def)
  have "(readable b @ take n bytes) @ drop n bytes = concat (map ?f xs) @ []" using eq by simp
  moreover have "length ([] :: byte list) < length (?f x)" by (simp add: frame_def)
  ultimately obtain j q where jq: "j \<le> length xs" "readable b @ take n bytes = concat (map ?f (take j xs)) @ q"
      "q @ drop n bytes = concat (map ?f (drop j xs))" "length q < length ((map ?f xs @ [?f x]) ! j)"
    using cut_frames [of "readable b @ take n bytes" "drop n bytes" "map ?f xs" "[]" "?f x"] by (auto simp: take_map drop_map)
  define y where "y = (if j < length xs then xs ! j else x)"
  have "x \<in> set xs" using xs by simp
  then have "y \<in> set xs" by (simp add: y_def)
  moreover have "(map ?f xs @ [?f x]) ! j = ?f y" using jq(1) by (simp add: y_def nth_append)
  ultimately have y: "y \<in> set xs" "length q < length (?f y)" using jq(4) by (simp_all only:)
  have q: "q = take (length q) (?f y)"
  proof (cases "j < length xs")
    case True
    then have "drop j xs = xs ! j # drop (Suc j) xs" by (simp add: Cons_nth_drop_Suc)
    then have "q @ drop n bytes = ?f y @ concat (map ?f (drop (Suc j) xs))" using jq(3) True by (simp add: y_def)
    then have "take (length q) (q @ drop n bytes) = take (length q) (?f y)" using y(2) by (simp del: length_frame)
    then show ?thesis by simp
  next
    case False
    then show ?thesis using jq(3) by simp
  qed
  have "carried_tail rt j q (drop n bytes) xs"
    using jq(1,3) y(2) unfolding carried_tail_def
    by (auto simp: y_def hd_drop_conv_nth simp del: length_frame split: if_splits)
  moreover have "\<exists>b2. onMessage h (rpc_pb rt) b1 = Inr (map (\<lambda>x. codec_event.MessageCallback (from_rpc rt x)) (take j xs), b2) \<and>
      wf_buffer b2 \<and> readable b2 = q" if b1: "wf_buffer b1" "readable b1 = readable b @ take n bytes" for b1 h
  proof -
    have "readable b1 = concat (map (frame (rpc_pb rt)) (map (from_rpc rt) (take j xs))) @ take (length q) (?f y)"
      using jq(2) q b1(2) by (simp add: comp_def)
    from onMessage_frames [OF b1(1) _ _ this y(2), of h] dec y(1) q show ?thesis by (auto simp: comp_def dest: in_set_takeD)
  qed
  ultimately show ?thesis using jq(1) by blast
qed

lemma carries_tail:
  "carries rt b bytes xs \<Longrightarrow> carried_tail rt j (readable b2) bytes' xs \<Longrightarrow> wf_buffer b2 \<Longrightarrow> carries rt b2 bytes' (drop j xs)"
  by (auto simp: carries_def carried_tail_def dest: in_set_dropD)

lemma read_messages:
  assumes c: "carries rt b bytes xs" and n: "0 < n" "n \<le> length bytes"
  shows "\<exists>b1 b2 j. append (take n bytes) b = Inr b1 \<and> j \<le> length xs \<and>
    onMessage h (rpc_pb rt) b1 = Inr (map (\<lambda>x. codec_event.MessageCallback (from_rpc rt x)) (take j xs), b2) \<and>
    carries rt b2 (drop n bytes) (drop j xs)"
proof -
  have "wf_buffer b" using c by (simp add: carries_def)
  from buf.put_ok [OF this] obtain b1 where
    b1: "append (take n bytes) b = Inr b1" "wf_buffer b1" "readable b1 = readable b @ take n bytes" by blast
  from complete_messages [OF c n] obtain j q where jq: "j \<le> length xs" "carried_tail rt j q (drop n bytes) xs"
    "\<forall>b1 h. wf_buffer b1 \<and> readable b1 = readable b @ take n bytes \<longrightarrow>
      (\<exists>b2. onMessage h (rpc_pb rt) b1 = Inr (map (\<lambda>x. codec_event.MessageCallback (from_rpc rt x)) (take j xs), b2) \<and>
        wf_buffer b2 \<and> readable b2 = q)" by blast
  from jq(3) b1(2,3) obtain b2 where
    "onMessage h (rpc_pb rt) b1 = Inr (map (\<lambda>x. codec_event.MessageCallback (from_rpc rt x)) (take j xs), b2)"
    "wf_buffer b2" "readable b2 = q" by blast
  with b1(1) jq(1,2) carries_tail [OF c] show ?thesis by blast
qed

subsection \<open>Messages delivered in a row\<close>

text \<open>What a channel sends when a message arrives is at most one error.\<close>

lemma onRequest_error:
  "onRequest svcs x ch = Inr (e, ch') \<Longrightarrow> outbox ch' = outbox ch"
  by (auto simp: onRequest_def split: option.splits if_splits)

lemma onRpcMessage_sends:
  assumes "onRpcMessage svcs c x ch = Inr ch'"
  shows "\<exists>ys. outbox ch' = outbox ch @ ys \<and> (\<forall>y \<in> set ys. \<exists>e. y = reply_to (msg_id x) None (Some e))"
proof (cases "msg_type x")
  case REQUEST
  then have "and_then (onRequest (if services ch then Some svcs else None) x ch) (\<lambda>(e, ch1).
      if e \<noteq> NO_ERROR then codec_send (reply_to (msg_id x) None (Some e)) ch1 else Inr ch1) = Inr ch'"
    unfolding reply_to_def using assms by (simp add: onRpcMessage_def)
  then obtain e ch1 where q: "onRequest (if services ch then Some svcs else None) x ch = Inr (e, ch1)"
    "(if e \<noteq> NO_ERROR then codec_send (reply_to (msg_id x) None (Some e)) ch1 else Inr ch1) = Inr ch'"
    unfolding and_then_Inr_iff by (elim exE conjE) (auto simp only: split_paired_all prod.case)
  from onRequest_error [OF q(1)] q(2) show ?thesis
    by (cases "e = NO_ERROR") (auto simp: codec_send_def split: option.splits)
next
  case RESPONSE
  then show ?thesis using assms onResponse_adds [of x ch ch'] by (simp add: onRpcMessage_def)
next
  case ERROR
  then show ?thesis using assms by (simp add: onRpcMessage_def)
qed

lemma callback_carried:
  assumes "carried rt x" and "conn ch = Some 0" and "onRpcMessage svcs 0 x ch = Inr ch'"
  shows "channel_callback rt svcs 0 (codec_event.MessageCallback (from_rpc rt x)) (ch, False) = Inr (ch', False)"
  using assms by (simp add: channel_callback_def down_pointer_cast_def carried_def)

abbreviation errors_carried :: "('d, 'm) rpc_runtime \<Rightarrow> bool" where
  "errors_carried rt \<equiv> \<forall>i e. carried rt (reply_to i None (Some e))"

lemma requests_delivered:
  assumes "rpc_inv svcs spec ans w" and svcs: "\<And>s. svcs s \<noteq> Some None" and err: "errors_carried rt"
    and "j \<le> length (outbox (caller w)) - seen_requests w"
    and "\<forall>x \<in> set (drop (seen_requests w) (outbox (caller w))). carried rt x"
  shows "\<exists>w' ans' ys. for_each (channel_callback rt svcs 0)
        (map (\<lambda>x. codec_event.MessageCallback (from_rpc rt x)) (take j (drop (seen_requests w) (outbox (caller w)))))
        (callee w, False) = Inr (callee w', False) \<and>
    rpc_reaches svcs spec w w' \<and> rpc_inv svcs spec ans' w' \<and> caller w' = caller w \<and> calls w' = calls w \<and>
    seen_requests w' = seen_requests w + j \<and> seen_replies w' = seen_replies w \<and>
    outbox (callee w') = outbox (callee w) @ ys \<and> (\<forall>y \<in> set ys. carried rt y) \<and>
    (if j = 0 then w' = w else work w' < work w)"
  using assms(1,4,5)
proof (induction j arbitrary: w ans)
  case 0
  then show ?case using rpc_here by (intro exI [of _ w] exI [of _ ans] exI [of _ "[]"]) simp
next
  case (Suc j)
  let ?k = "seen_requests w"
  let ?x = "outbox (caller w) ! ?k"
  have k: "?k < length (outbox (caller w))" using Suc.prems(2) by simp
  have pend: "drop ?k (outbox (caller w)) = ?x # drop (Suc ?k) (outbox (caller w))" using k by (simp add: Cons_nth_drop_Suc)
  have en: "rpc_enabled spec w Serve" using k by simp
  from serve_ok [OF Suc.prems(1) k svcs] obtain w1 where
    w1: "rpc_step svcs Serve w = Inr w1" "rpc_inv svcs spec ans w1" by blast
  then obtain ch where ch: "onRpcMessage svcs 0 ?x (callee w) = Inr ch" "w1 = w\<lparr>callee := ch, seen_requests := ?k + 1\<rparr>"
    by (auto simp: and_then_Inr_iff)
  have x: "carried rt ?x" using Suc.prems(3) pend by simp
  have conn: "conn (callee w) = Some 0" using rpc_invD(2) [OF Suc.prems(1)] .
  have wk: "work w1 < work w" by (rule step_works(1) [OF Suc.prems(1) en w1(1)]) simp
  obtain ys1 where ys1: "outbox ch = outbox (callee w) @ ys1" "\<forall>y \<in> set ys1. carried rt y"
    using onRpcMessage_sends [OF ch(1)] err by metis
  have "j \<le> length (outbox (caller w1)) - seen_requests w1"
    "\<forall>x \<in> set (drop (seen_requests w1) (outbox (caller w1))). carried rt x"
    using Suc.prems(2,3) pend by (simp_all add: ch(2))
  from Suc.IH [OF w1(2) this] obtain w2 ans2 ys2 where
    w2: "for_each (channel_callback rt svcs 0)
        (map (\<lambda>x. codec_event.MessageCallback (from_rpc rt x)) (take j (drop (Suc ?k) (outbox (caller w)))))
        (ch, False) = Inr (callee w2, False)"
      "rpc_reaches svcs spec w1 w2" "rpc_inv svcs spec ans2 w2" "caller w2 = caller w" "calls w2 = calls w"
      "seen_requests w2 = ?k + Suc j" "seen_replies w2 = seen_replies w" "outbox (callee w2) = outbox ch @ ys2"
      "\<forall>y \<in> set ys2. carried rt y" "if j = 0 then w2 = w1 else work w2 < work w1"
    unfolding ch(2) by auto
  have "rpc_reaches svcs spec w w2" using reaches_trans [OF w2(2)] rpc_next [OF rpc_here en w1(1)] by blast
  moreover have "work w2 < work w" using w2(10) wk by (auto split: if_splits)
  ultimately show ?case using w2 callback_carried [OF x conn ch(1)] ys1
    by (intro exI [of _ w2] exI [of _ ans2] exI [of _ "ys1 @ ys2"]) (auto simp: pend)
qed

lemma replies_delivered:
  assumes "rpc_inv svcs spec ans w" and svcs: "\<And>s. svcs s \<noteq> Some None"
    and "j \<le> length (replies w)" and "\<forall>x \<in> set (replies w). carried rt x"
  shows "\<exists>w' ans'. for_each (channel_callback rt Map.empty 0)
        (map (\<lambda>x. codec_event.MessageCallback (from_rpc rt x)) (take j (replies w))) (caller w, False) = Inr (caller w', False) \<and>
    rpc_reaches svcs spec w w' \<and> rpc_inv svcs spec ans' w' \<and> callee w' = callee w \<and> calls w' = calls w \<and>
    seen_requests w' = seen_requests w \<and> seen_replies w' = seen_replies w + j \<and>
    outbox (caller w') = outbox (caller w) \<and> (if j = 0 then w' = w else work w' < work w)"
  using assms(1,3,4)
proof (induction j arbitrary: w ans)
  case 0
  then show ?case using rpc_here by (intro exI [of _ w] exI [of _ ans]) simp
next
  case (Suc j)
  let ?k = "seen_replies w"
  let ?x = "outbox (callee w) ! ?k"
  have k: "?k < length (outbox (callee w))" using Suc.prems(2) by (simp add: replies_def)
  have pend: "replies w = ?x # drop (Suc ?k) (outbox (callee w))" using k by (simp add: Cons_nth_drop_Suc replies_def)
  have en: "rpc_enabled spec w Reply" using k by simp
  from reply_ok [OF Suc.prems(1) k] obtain w1 a where
    w1: "rpc_step svcs Reply w = Inr w1" "rpc_inv svcs spec (ans @ [a]) w1" by blast
  then obtain ch where ch: "onRpcMessage Map.empty 0 ?x (caller w) = Inr ch" "w1 = w\<lparr>caller := ch, seen_replies := ?k + 1\<rparr>"
    by (auto simp: and_then_Inr_iff)
  have x: "carried rt ?x" using Suc.prems(3) pend by simp
  have conn: "conn (caller w) = Some 0" using rpc_invD(1) [OF Suc.prems(1)] .
  have wk: "work w1 < work w" by (rule step_works(1) [OF Suc.prems(1) en w1(1)]) simp
  have ob: "outbox ch = outbox (caller w)" using rpc_invD(7) [OF w1(2)] rpc_invD(7) [OF Suc.prems(1)] by (simp add: ch(2))
  have r1: "replies w1 = drop (Suc ?k) (outbox (callee w))" by (simp add: replies_def ch(2))
  have "j \<le> length (replies w1)" "\<forall>x \<in> set (replies w1). carried rt x"
    using Suc.prems(2,3) unfolding pend r1 by simp_all
  from Suc.IH [OF w1(2) this] obtain w2 ans2 where
    w2: "for_each (channel_callback rt Map.empty 0)
        (map (\<lambda>x. codec_event.MessageCallback (from_rpc rt x)) (take j (drop (Suc ?k) (outbox (callee w)))))
        (ch, False) = Inr (caller w2, False)"
      "rpc_reaches svcs spec w1 w2" "rpc_inv svcs spec ans2 w2" "callee w2 = callee w" "calls w2 = calls w"
      "seen_requests w2 = seen_requests w" "seen_replies w2 = ?k + Suc j" "outbox (caller w2) = outbox ch"
      "if j = 0 then w2 = w1 else work w2 < work w1"
    unfolding r1 unfolding ch(2) by auto
  have "rpc_reaches svcs spec w w2" using reaches_trans [OF w2(2)] rpc_next [OF rpc_here en w1(1)] by blast
  moreover have "work w2 < work w" using w2(9) wk by (auto split: if_splits)
  ultimately show ?case using w2 callback_carried [OF x conn ch(1)] ob
    by (intro exI [of _ w2] exI [of _ ans2]) (auto simp: pend)
qed
subsection \<open>The streams refine the exchange of messages\<close>

definition stands_for :: "('d, 'm) rpc_runtime \<Rightarrow> rpc_world \<Rightarrow> rpc_streams \<Rightarrow> bool" where
  "stands_for rt w v \<longleftrightarrow> channel (near v) = caller w \<and> channel (far v) = callee w \<and> made v = calls w \<and>
     \<not> shut (near v) \<and> \<not> shut (far v) \<and>
     carries rt (input (far v)) (to_far v) (drop (seen_requests w) (outbox (caller w))) \<and>
     carries rt (input (near v)) (to_near v) (replies w)"

text \<open>Nothing new is called, and there are fewer messages to deal with or fewer bytes on the way.\<close>

definition nearer_end :: "rpc_world \<times> rpc_streams \<Rightarrow> rpc_world \<times> rpc_streams \<Rightarrow> bool" where
  "nearer_end = (\<lambda>(w', v') (w, v). made v' = made v \<and>
     (work w' < work w \<or> work w' = work w \<and> length (to_far v' @ to_near v') < length (to_far v @ to_near v)))"

lemma stands_for_new: "stands_for rt new_world new_streams"
  by (simp add: stands_for_def new_world_def new_streams_def carries_def replies_def new_rpc_channel_def setServices_def
      wf_new_buffer readable_new_buffer)

lemma call_over:
  assumes st: "stands_for rt w v" and inv: "rpc_inv svcs spec ans w" and en: "stream_enabled rt spec v (CallOver s m r)"
  shows "\<exists>w' v'. stream_step h h' rt svcs (CallOver s m r) v = Inr v' \<and> stands_for rt w' v' \<and>
    rpc_reaches svcs spec w w' \<and> rpc_inv svcs spec ans w'"
proof -
  let ?i = "length (calls w) + 1"
  have S: "channel (near v) = caller w" "made v = calls w" "\<not> shut (near v)" using st by (simp_all add: stands_for_def)
  have e: "rpc_enabled spec w (Call s m r)" and x: "carried rt (request_of ?i (s, m, r))" using en S(2) by simp_all
  from call_ok [OF inv, of s m r] e obtain w' where
    w': "rpc_step svcs (Call s m r) w = Inr w'" "rpc_inv svcs spec ans w'" "calls w' = calls w @ [(s, m, r)]" by auto
  then obtain ch where ch: "CallMethod s m r ?i ?i (caller w) = Inr ch" "w' = w\<lparr>caller := ch, calls := calls w @ [(s, m, r)]\<rparr>"
    by (auto simp: and_then_Inr_iff Let_def)
  have ob: "outbox ch = outbox (caller w) @ [request_of ?i (s, m, r)]"
    using rpc_invD(7) [OF w'(2)] rpc_invD(7) [OF inv] requests_snoc [of "calls w" "(s, m, r)"] by (simp add: ch(2))
  let ?bs = "frame (rpc_pb rt) (from_rpc rt (request_of ?i (s, m, r)))"
  have "sent_between h rt False (caller w) ch = Inr ?bs" using sent_between_carried [OF ob] x by simp
  then have step: "stream_step h h' rt svcs (CallOver s m r) v = Inr (v\<lparr>near := (near v)\<lparr>channel := ch\<rparr>, to_far := to_far v @ ?bs,
      made := made v @ [(s, m, r)]\<rparr>)"
    using S ch(1) by (simp add: act_def)
  have "seen_requests w \<le> length (outbox (caller w))" using rpc_invD(5,7) [OF inv] by simp
  moreover have "carries rt (input (far v)) (to_far v @ ?bs)
      (drop (seen_requests w) (outbox (caller w)) @ [request_of ?i (s, m, r)])"
    using carries_more [of rt "input (far v)" "to_far v" _ "[request_of ?i (s, m, r)]"] st x by (simp add: stands_for_def)
  ultimately have "stands_for rt w' (v\<lparr>near := (near v)\<lparr>channel := ch\<rparr>, to_far := to_far v @ ?bs, made := made v @ [(s, m, r)]\<rparr>)"
    using st ob by (simp add: stands_for_def ch(2) replies_def)
  with step w'(2) rpc_next [OF rpc_here e w'(1)] show ?thesis by blast
qed

lemma far_reads:
  assumes st: "stands_for rt w v" and inv: "rpc_inv svcs spec ans w" and svcs: "\<And>s. svcs s \<noteq> Some None"
    and err: "errors_carried rt" and en: "stream_enabled rt spec v (FarReads n)"
  shows "\<exists>w' v' ans'. stream_step h h' rt svcs (FarReads n) v = Inr v' \<and> stands_for rt w' v' \<and>
    rpc_reaches svcs spec w w' \<and> rpc_inv svcs spec ans' w' \<and> nearer_end (w', v') (w, v)"
proof -
  let ?pend = "drop (seen_requests w) (outbox (caller w))"
  let ?ev = "map (\<lambda>x. codec_event.MessageCallback (from_rpc rt x))"
  have S: "channel (far v) = callee w" "\<not> shut (far v)" "made v = calls w" "carries rt (input (far v)) (to_far v) ?pend"
    using st by (simp_all add: stands_for_def)
  have n: "0 < n" "n \<le> length (to_far v)" using en by simp_all
  from read_messages [OF S(4) n] obtain b1 b2 j where
    r: "append (take n (to_far v)) (input (far v)) = Inr b1" "j \<le> length ?pend"
      "onMessage h' (rpc_pb rt) b1 = Inr (?ev (take j ?pend), b2)" "carries rt b2 (drop n (to_far v)) (drop j ?pend)" by blast
  have "\<forall>x \<in> set ?pend. carried rt x" using S(4) by (simp add: carries_def)
  with r(2) obtain w' ans' ys where
    w': "for_each (channel_callback rt svcs 0) (?ev (take j ?pend)) (callee w, False) = Inr (callee w', False)"
      "rpc_reaches svcs spec w w'" "rpc_inv svcs spec ans' w'" "caller w' = caller w" "calls w' = calls w"
      "seen_requests w' = seen_requests w + j" "seen_replies w' = seen_replies w" "outbox (callee w') = outbox (callee w) @ ys"
      "\<forall>y \<in> set ys. carried rt y" "if j = 0 then w' = w else work w' < work w"
    using requests_delivered [OF inv svcs err, of j] by auto
  let ?bs = "concat (map (\<lambda>x. frame (rpc_pb rt) (from_rpc rt x)) ys)"
  let ?v = "v\<lparr>far := \<lparr>channel = callee w', input = b2, shut = False\<rparr>, to_far := drop n (to_far v), to_near := to_near v @ ?bs\<rparr>"
  have step: "stream_step h h' rt svcs (FarReads n) v = Inr ?v"
    using S(1,2) r(1,3) w'(1) sent_between_carried [OF w'(8,9)] by (simp add: arrive_def channel_onMessage_def)
  have le: "seen_replies w \<le> length (outbox (callee w))" using rpc_invD(6) [OF inv] .
  have "carries rt (input (near v)) (to_near v @ ?bs) (replies w @ ys)"
    using carries_more [OF _ w'(9), of "input (near v)" "to_near v" "replies w"] st by (simp add: stands_for_def)
  moreover have "replies w' = replies w @ ys" using le w'(7,8) by (simp add: replies_def)
  moreover have "carries rt b2 (drop n (to_far v)) (drop (seen_requests w') (outbox (caller w')))"
    using r(4) w'(4,6) by (simp add: add.commute)
  ultimately have "stands_for rt w' ?v" using st w'(4,5) by (simp add: stands_for_def)
  moreover have "nearer_end (w', ?v) (w, v)"
  proof (cases "j = 0")
    case True
    then have "w' = w" "ys = []" using w'(8,10) by simp_all
    then show ?thesis using n by (simp add: nearer_end_def)
  qed (use w'(10) in \<open>simp add: nearer_end_def\<close>)
  ultimately show ?thesis using step w'(2,3) by blast
qed

lemma near_reads:
  assumes st: "stands_for rt w v" and inv: "rpc_inv svcs spec ans w" and svcs: "\<And>s. svcs s \<noteq> Some None"
    and en: "stream_enabled rt spec v (NearReads n)"
  shows "\<exists>w' v' ans'. stream_step h h' rt svcs (NearReads n) v = Inr v' \<and> stands_for rt w' v' \<and>
    rpc_reaches svcs spec w w' \<and> rpc_inv svcs spec ans' w' \<and> nearer_end (w', v') (w, v)"
proof -
  let ?ev = "map (\<lambda>x. codec_event.MessageCallback (from_rpc rt x))"
  have S: "channel (near v) = caller w" "\<not> shut (near v)" "made v = calls w" "carries rt (input (near v)) (to_near v) (replies w)"
    using st by (simp_all add: stands_for_def)
  have n: "0 < n" "n \<le> length (to_near v)" using en by simp_all
  from read_messages [OF S(4) n] obtain b1 b2 j where
    r: "append (take n (to_near v)) (input (near v)) = Inr b1" "j \<le> length (replies w)"
      "onMessage h (rpc_pb rt) b1 = Inr (?ev (take j (replies w)), b2)" "carries rt b2 (drop n (to_near v)) (drop j (replies w))"
    by blast
  have "\<forall>x \<in> set (replies w). carried rt x" using S(4) by (simp add: carries_def)
  from replies_delivered [OF inv svcs r(2) this] obtain w' ans' where
    w': "for_each (channel_callback rt Map.empty 0) (?ev (take j (replies w))) (caller w, False) = Inr (caller w', False)"
      "rpc_reaches svcs spec w w'" "rpc_inv svcs spec ans' w'" "callee w' = callee w" "calls w' = calls w"
      "seen_requests w' = seen_requests w" "seen_replies w' = seen_replies w + j" "outbox (caller w') = outbox (caller w)"
      "if j = 0 then w' = w else work w' < work w" by blast
  let ?v = "v\<lparr>near := \<lparr>channel = caller w', input = b2, shut = False\<rparr>, to_near := drop n (to_near v)\<rparr>"
  have "sent_between h rt False (caller w) (caller w') = Inr []" using w'(8) by (simp add: sent_between_def)
  then have step: "stream_step h h' rt svcs (NearReads n) v = Inr ?v"
    using S(1,2) r(1,3) w'(1) by (simp add: arrive_def channel_onMessage_def)
  have "replies w' = drop j (replies w)" using w'(4,7) by (simp add: replies_def add.commute)
  then have "stands_for rt w' ?v" using st w'(4-6,8) r(4) by (simp add: stands_for_def)
  moreover have "nearer_end (w', ?v) (w, v)" using w'(9) n by (auto simp: nearer_end_def split: if_splits)
  ultimately show ?thesis using step w'(2,3) by blast
qed

lemma finish_over:
  assumes st: "stands_for rt w v" and inv: "rpc_inv svcs spec ans w" and en: "stream_enabled rt spec v (FinishOver k bs)"
  shows "\<exists>w' v'. stream_step h h' rt svcs (FinishOver k bs) v = Inr v' \<and> stands_for rt w' v' \<and>
    rpc_reaches svcs spec w w' \<and> rpc_inv svcs spec ans w' \<and> nearer_end (w', v') (w, v)"
proof -
  let ?x = "reply_to (run_id (working (callee w) ! k)) (Some bs) None"
  have S: "channel (far v) = callee w" "\<not> shut (far v)" "made v = calls w" using st by (simp_all add: stands_for_def)
  have e: "rpc_enabled spec w (Finish k bs)" and x: "carried rt ?x" using en S(1) by (simp_all add: Let_def)
  from finish_ok [OF inv e] obtain w' where
    w': "rpc_step svcs (Finish k bs) w = Inr w'" "rpc_inv svcs spec ans w'" by blast
  then obtain ch where ch: "finish k bs (callee w) = Inr ch" "w' = w\<lparr>callee := ch\<rparr>" by (auto simp: and_then_Inr_iff)
  have ob: "outbox ch = outbox (callee w) @ [?x]"
    using ch(1) rpc_invD(2) [OF inv] by (auto simp: finish_def doneCallback_def codec_send_def reply_to_def Let_def)
  let ?bs = "frame (rpc_pb rt) (from_rpc rt ?x)"
  let ?v = "v\<lparr>far := (far v)\<lparr>channel := ch\<rparr>, to_near := to_near v @ ?bs\<rparr>"
  have "sent_between h' rt False (callee w) ch = Inr ?bs" using sent_between_carried [OF ob] x by simp
  then have step: "stream_step h h' rt svcs (FinishOver k bs) v = Inr ?v" using S ch(1) by (simp add: act_def)
  have "carries rt (input (near v)) (to_near v @ ?bs) (replies w @ [?x])"
    using carries_more [of rt "input (near v)" "to_near v" _ "[?x]"] st x by (simp add: stands_for_def)
  moreover have "replies w' = replies w @ [?x]" using rpc_invD(6) [OF inv] ob by (simp add: replies_def ch(2))
  ultimately have "stands_for rt w' ?v" using st by (simp add: stands_for_def ch(2))
  moreover have "work w' < work w" by (rule step_works(1) [OF inv e w'(1)]) simp
  then have "nearer_end (w', ?v) (w, v)" by (simp add: nearer_end_def)
  ultimately show ?thesis using step w'(2) rpc_next [OF rpc_here e w'(1)] by blast
qed

lemma stream_step_ok:
  assumes "stands_for rt w v" and "rpc_inv svcs spec ans w" and "\<And>s. svcs s \<noteq> Some None"
    and "errors_carried rt" and "stream_enabled rt spec v e"
  shows "\<exists>w' v' ans'. stream_step h h' rt svcs e v = Inr v' \<and> stands_for rt w' v' \<and>
    rpc_reaches svcs spec w w' \<and> rpc_inv svcs spec ans' w' \<and>
    ((\<exists>s m r. e = CallOver s m r) \<or> nearer_end (w', v') (w, v))"
proof (cases e)
  case (CallOver s m r)
  then show ?thesis using call_over [OF assms(1,2)] assms(5) by blast
next
  case (FarReads n)
  then show ?thesis using far_reads [OF assms(1-4)] assms(5) by blast
next
  case (FinishOver k bs)
  then show ?thesis using finish_over [OF assms(1,2)] assms(5) by blast
next
  case (NearReads n)
  then show ?thesis using near_reads [OF assms(1-3)] assms(5) by blast
qed

lemma stream_reaches_stands_for:
  assumes "stream_reaches h h' rt svcs spec v v'" and "stands_for rt w v" and "rpc_inv svcs spec ans w"
    and "\<And>s. svcs s \<noteq> Some None" and "errors_carried rt"
  shows "\<exists>w' ans'. stands_for rt w' v' \<and> rpc_reaches svcs spec w w' \<and> rpc_inv svcs spec ans' w'"
  using assms(1,2,3)
proof (induction rule: stream_reaches.induct)
  case (stream_here v)
  then show ?case using rpc_here by blast
next
  case (stream_next v v1 e v2)
  from stream_next.IH [OF stream_next.prems] obtain w1 ans1 where
    w1: "stands_for rt w1 v1" "rpc_reaches svcs spec w w1" "rpc_inv svcs spec ans1 w1" by blast
  from stream_step_ok [OF w1(1,3) assms(4,5) stream_next.hyps(2), of h h'] stream_next.hyps(3) obtain w2 ans2 where
    "stands_for rt w2 v2" "rpc_reaches svcs spec w1 w2" "rpc_inv svcs spec ans2 w2" by auto
  then show ?case using reaches_trans [OF _ w1(2)] by blast
qed

text \<open>When nothing is on the way and no service is at work, the exchange has settled.\<close>

lemma quiet_settled:
  assumes "stands_for rt w v" and "rpc_inv svcs spec ans w"
  shows "all_quiet v \<longleftrightarrow> settled w"
proof -
  have no: "bytes = [] \<longleftrightarrow> xs = []" if "carries rt b bytes xs" for b bytes xs
    using that by (cases xs) (auto simp: carries_def)
  note I = rpc_invD [OF assms(2)]
  have c: "carries rt (input (far v)) (to_far v) (drop (seen_requests w) (outbox (caller w)))"
    "carries rt (input (near v)) (to_near v) (drop (seen_replies w) (outbox (callee w)))"
    using assms(1) by (simp_all add: stands_for_def replies_def)
  have "to_far v = [] \<longleftrightarrow> seen_requests w = length (outbox (caller w))" using no [OF c(1)] I(5,7) by auto
  moreover have "to_near v = [] \<longleftrightarrow> seen_replies w = length (outbox (callee w))" using no [OF c(2)] I(6) by auto
  ultimately show ?thesis using assms(1) by (simp add: all_quiet_def settled_def stands_for_def)
qed

text \<open>What has happened to the calls: each is answered at most once, rightly, and in the end all are.\<close>

lemma streams_answered:
  assumes st: "stands_for rt w v" and inv: "rpc_inv svcs spec ans w"
  shows "\<exists>ans. happened (channel (near v)) = concat (map deliver ans) \<and> distinct (map fst ans) \<and>
      (\<forall>(i, a) \<in> set ans. 1 \<le> i \<and> i \<le> length (made v) \<and> right_answer svcs spec (made v ! (i - 1)) a) \<and>
      (all_quiet v \<longrightarrow> set (map fst ans) = {1..length (made v)})"
proof -
  have same: "caller w = channel (near v)" "calls w = made v" using st by (simp_all add: stands_for_def)
  note I = rpc_invD [OF inv] and ids = rpc_inv_ids [OF inv] and q = quiet_settled [OF st inv]
  have "1 \<le> i \<and> i \<le> length (made v)" if "(i, a) \<in> set ans" for i a
  proof -
    have "i \<in> set (unanswered w @ map fst ans)" using that by force
    then show ?thesis unfolding ids(2) same(2) by simp
  qed
  moreover have "all_quiet v \<longrightarrow> set (map fst ans) = {1..length (made v)}"
    using ids(2) I(7) same(2) by (auto simp: q unanswered_def replies_def settled_def)
  ultimately show ?thesis using I(12,13) ids(1) same by (intro exI [of _ ans]) auto
qed

subsection \<open>The exchange comes to an end\<close>

lemma wf_nearer_end: "wfP nearer_end"
proof -
  let ?m = "\<lambda>(w, v). (work w, length (to_far v @ to_near v))"
  have "nearer_end p q \<Longrightarrow> (?m p, ?m q) \<in> less_than <*lex*> less_than" for p q
    by (cases p; cases q) (auto simp: nearer_end_def)
  then have "{(p, q). nearer_end p q} \<subseteq> inv_image (less_than <*lex*> less_than) ?m" by auto
  then show ?thesis unfolding wfp_def by (rule wf_subset [rotated]) (intro wf_inv_image wf_lex_prod wf_less_than)
qed

abbreviation answers_exist :: "('d, 'm) rpc_runtime \<Rightarrow> response_spec \<Rightarrow> bool" where
  "answers_exist rt spec \<equiv> \<forall>s m r i. \<exists>bs. spec s m r bs \<and> carried rt (reply_to i (Some bs) None)"

lemma not_quiet_can_step:
  assumes "\<not> all_quiet v" and "answers_exist rt spec"
  shows "\<exists>e. stream_enabled rt spec v e \<and> (\<nexists>s m r. e = CallOver s m r)"
proof -
  consider "to_far v \<noteq> []" | "to_near v \<noteq> []" | "0 < length (working (channel (far v)))"
    using assms(1) by (auto simp: all_quiet_def)
  then show ?thesis
  proof cases
    case 1
    then have "stream_enabled rt spec v (FarReads (length (to_far v)))" by simp
    then show ?thesis by blast
  next
    case 2
    then have "stream_enabled rt spec v (NearReads (length (to_near v)))" by simp
    then show ?thesis by blast
  next
    case 3
    let ?r = "working (channel (far v)) ! 0"
    obtain bs where "spec (run_service ?r) (run_method ?r) (run_request ?r) bs" "carried rt (reply_to (run_id ?r) (Some bs) None)"
      using assms(2) by blast
    with 3 have "stream_enabled rt spec v (FinishOver 0 bs)" by (simp add: Let_def)
    then show ?thesis by blast
  qed
qed

lemma stream_reaches_trans:
  "stream_reaches h h' rt svcs spec b c \<Longrightarrow> stream_reaches h h' rt svcs spec a b \<Longrightarrow> stream_reaches h h' rt svcs spec a c"
  by (induction rule: stream_reaches.induct) (auto intro: stream_next)

lemma streams_settle:
  assumes "stands_for rt w v" and "rpc_inv svcs spec ans w" and svcs: "\<And>s. svcs s \<noteq> Some None"
    and err: "errors_carried rt" and spec: "answers_exist rt spec"
  shows "\<exists>v'. stream_reaches h h' rt svcs spec v v' \<and> all_quiet v' \<and> made v' = made v"
  using assms(1,2)
proof (induction "(w, v)" arbitrary: w v ans rule: wfp_induct_rule [OF wf_nearer_end])
  case (1 w v)
  show ?case
  proof (cases "all_quiet v")
    case True
    then show ?thesis using stream_here by blast
  next
    case False
    from not_quiet_can_step [OF this spec] obtain e where
      e: "stream_enabled rt spec v e" "\<nexists>s m r. e = CallOver s m r" by blast
    from stream_step_ok [OF "1.prems" svcs err e(1), of h h'] e(2) obtain w1 v1 ans1 where
      s1: "stream_step h h' rt svcs e v = Inr v1" "stands_for rt w1 v1" "rpc_inv svcs spec ans1 w1"
        "nearer_end (w1, v1) (w, v)" by blast
    from "1.hyps" [OF s1(4) s1(2,3)] obtain v' where
      v': "stream_reaches h h' rt svcs spec v1 v'" "all_quiet v'" "made v' = made v1" by blast
    have "made v1 = made v" using s1(4) by (simp add: nearer_end_def)
    with v' stream_reaches_trans [OF v'(1) stream_next [OF stream_here e(1) s1(1)]] show ?thesis by auto
  qed
qed

lemma no_endless_delivery:
  assumes "stands_for rt w v" and "rpc_inv svcs spec ans w" and svcs: "\<And>s. svcs s \<noteq> Some None"
    and err: "errors_carried rt"
  shows "\<nexists>f. f 0 = v \<and> (\<forall>i. \<exists>e. stream_enabled rt spec (f i) e \<and> (\<nexists>s m r. e = CallOver s m r) \<and>
    stream_step h h' rt svcs e (f i) = Inr (f (Suc i)))"
  using assms(1,2)
proof (induction "(w, v)" arbitrary: w v ans rule: wfp_induct_rule [OF wf_nearer_end])
  case (1 w v)
  show ?case
  proof
    assume "\<exists>f. f 0 = v \<and> (\<forall>i. \<exists>e. stream_enabled rt spec (f i) e \<and> (\<nexists>s m r. e = CallOver s m r) \<and>
      stream_step h h' rt svcs e (f i) = Inr (f (Suc i)))"
    then obtain f where f: "f 0 = v" "\<And>i. \<exists>e. stream_enabled rt spec (f i) e \<and> (\<nexists>s m r. e = CallOver s m r) \<and>
      stream_step h h' rt svcs e (f i) = Inr (f (Suc i))" by blast
    from f(2) [of 0] obtain e where e: "stream_enabled rt spec v e" "\<nexists>s m r. e = CallOver s m r"
      "stream_step h h' rt svcs e v = Inr (f 1)" unfolding f(1) by auto
    from stream_step_ok [OF "1.prems" svcs err e(1), of h h'] e(2,3) obtain w1 ans1 where
      s1: "stands_for rt w1 (f 1)" "rpc_inv svcs spec ans1 w1" "nearer_end (w1, f 1) (w, v)" by auto
    have "(\<lambda>i. f (Suc i)) 0 = f 1 \<and> (\<forall>i. \<exists>e. stream_enabled rt spec ((\<lambda>i. f (Suc i)) i) e \<and> (\<nexists>s m r. e = CallOver s m r) \<and>
      stream_step h h' rt svcs e ((\<lambda>i. f (Suc i)) i) = Inr ((\<lambda>i. f (Suc i)) (Suc i)))"
      using f(2) by simp
    with "1.hyps" [OF s1(3) s1(1,2)] show False by (elim notE exI)
  qed
qed
subsection \<open>A concrete runtime for the examples\<close>

text \<open>
  It encodes requests to one method of one service, responses and errors: a tag, the number of the
  call in eight bytes and the rest.
\<close>

fun error_number :: "rpc_error \<Rightarrow> byte" where
  "error_number NO_ERROR = 0"
| "error_number WRONG_PROTO = 1"
| "error_number NO_SERVICE = 2"
| "error_number NO_METHOD = 3"
| "error_number INVALID_REQUEST = 4"
| "error_number INVALID_RESPONSE = 5"
| "error_number TIMEOUT = 6"

definition number_error :: "byte \<Rightarrow> rpc_error" where
  "number_error b = (if b = 0 then NO_ERROR else if b = 1 then WRONG_PROTO else if b = 2 then NO_SERVICE
     else if b = 3 then NO_METHOD else if b = 4 then INVALID_REQUEST else if b = 5 then INVALID_RESPONSE else TIMEOUT)"

definition say_request :: "u64 \<Rightarrow> byte list \<Rightarrow> rpc_message" where
  "say_request i bs = \<lparr>msg_type = REQUEST, msg_id = i, msg_service = Some ''echo'', msg_method = Some ''say'',
     msg_request = Some bs, msg_response = None, msg_error = None\<rparr>"

definition say_bytes :: "rpc_message \<Rightarrow> byte list" where
  "say_bytes x = (if msg_type x = REQUEST then 1 # be_bytes 8 (msg_id x) @ field_or_empty (msg_request x)
     else case msg_error x of
       Some e \<Rightarrow> 2 # be_bytes 8 (msg_id x) @ [error_number e]
     | None \<Rightarrow> (case msg_response x of
         Some bs \<Rightarrow> 3 # be_bytes 8 (msg_id x) @ bs
       | None \<Rightarrow> 4 # be_bytes 8 (msg_id x)))"

definition say_parse :: "byte list \<Rightarrow> rpc_message" where
  "say_parse bs = (let i = be_word (take 8 (tl bs)); rest = drop 8 (tl bs) in
     if hd bs = 1 then say_request i rest
     else if hd bs = 2 then reply_to i None (Some (number_error (hd rest)))
     else if hd bs = 3 then reply_to i (Some rest) None
     else reply_to i None None)"

definition say_runtime :: "(unit, rpc_message) rpc_runtime" where
  "say_runtime = \<lparr>rpc_pb = \<lparr>GetTypeName = (\<lambda>_. [82]), GetDescriptor = (\<lambda>_. ()), IsInitialized = (\<lambda>_. True), InitializationErrorString = (\<lambda>_. []),
       ByteSizeLong = length \<circ> say_bytes, SerializeToArray = say_bytes, ParseFromArray = (\<lambda>_ bs. (True, say_parse bs)),
       FindMessageTypeByName = (\<lambda>name. if name = [82] then Some () else None),
       GetPrototype = (\<lambda>_. Some (reply_to 0 None None)), adler32 = (\<lambda>a bs. a + sum_list (map ucast bs))\<rparr>,
     from_rpc = id, as_rpc = Some\<rparr>"

lemma say_roundtrip:
  "say_parse (say_bytes (say_request i bs)) = say_request i bs"
  "say_parse (say_bytes (reply_to i None (Some e))) = reply_to i None (Some e)"
  "say_parse (say_bytes (reply_to i (Some bs) None)) = reply_to i (Some bs) None"
  "say_parse (say_bytes (reply_to i None None)) = reply_to i None None"
proof -
  have e: "number_error (error_number e) = e" by (cases e) (simp_all add: number_error_def)
  have w: "be_word (be_bytes 8 i) = i" by (rule be_word_be_bytes) simp
  show "say_parse (say_bytes (say_request i bs)) = say_request i bs"
    by (simp add: say_parse_def say_bytes_def say_request_def field_or_empty_def w)
  show "say_parse (say_bytes (reply_to i None (Some e))) = reply_to i None (Some e)"
    by (simp add: say_parse_def say_bytes_def reply_to_def w e)
  show "say_parse (say_bytes (reply_to i (Some bs) None)) = reply_to i (Some bs) None"
    by (simp add: say_parse_def say_bytes_def reply_to_def w)
  show "say_parse (say_bytes (reply_to i None None)) = reply_to i None None"
    by (simp add: say_parse_def say_bytes_def reply_to_def w)
qed

lemma say_carried:
  assumes "say_parse (say_bytes x) = x" and "length (say_bytes x) < 1000"
  shows "carried say_runtime x"
  using assms by (simp add: carried_def encodable_def decodable_def createMessage_def codec_consts)
    (simp add: say_runtime_def)

lemma carried_say:
  "length bs < 900 \<Longrightarrow> carried say_runtime (say_request i bs)"
  "length bs < 900 \<Longrightarrow> carried say_runtime (reply_to i (Some bs) None)"
  "carried say_runtime (reply_to i None (Some e))"
  "carried say_runtime (reply_to i None None)"
  by (rule say_carried, rule say_roundtrip,
    simp add: say_bytes_def say_request_def reply_to_def field_or_empty_def)+

subsection \<open>Properties\<close>

text \<open>C4: Remote procedure calls work over byte streams: however calls, arrivals of pieces of the
  streams of any sizes and answers of the services interleave, on hosts of any byte orders, no step
  fails and no connection is shut down; the two channels are always in a state that the exchange of
  whole messages reaches, so each call is answered at most once and with the answer to that very
  request, and once the streams are empty and no service is at work every call has been answered.\<close>

theorem rpc_over_bytes:
  assumes "stream_reaches h h' rt svcs spec new_streams v" and "\<And>s. svcs s \<noteq> Some None"
    and "\<forall>i e. carried rt (reply_to i None (Some e))"
  shows "(\<exists>w. rpc_reaches svcs spec new_world w \<and> caller w = channel (near v) \<and> callee w = channel (far v) \<and>
      calls w = made v \<and> (settled w \<longleftrightarrow> all_quiet v)) \<and>
    (\<exists>ans. happened (channel (near v)) = concat (map deliver ans) \<and> distinct (map fst ans) \<and>
      (\<forall>(i, a) \<in> set ans. 1 \<le> i \<and> i \<le> length (made v) \<and> right_answer svcs spec (made v ! (i - 1)) a) \<and>
      (all_quiet v \<longrightarrow> set (map fst ans) = {1..length (made v)})) \<and>
    \<not> shut (near v) \<and> \<not> shut (far v) \<and>
    (\<forall>e. stream_enabled rt spec v e \<longrightarrow> (\<exists>v'. stream_step h h' rt svcs e v = Inr v'))"
proof -
  from stream_reaches_stands_for [OF assms(1) stands_for_new rpc_inv_new assms(2,3)] obtain w ans where
    w: "stands_for rt w v" "rpc_reaches svcs spec new_world w" "rpc_inv svcs spec ans w" by blast
  have same: "caller w = channel (near v)" "callee w = channel (far v)" "calls w = made v" "\<not> shut (near v)" "\<not> shut (far v)"
    using w(1) by (simp_all add: stands_for_def)
  note ans = streams_answered [OF w(1,3)]
  moreover have "\<forall>e. stream_enabled rt spec v e \<longrightarrow> (\<exists>v'. stream_step h h' rt svcs e v = Inr v')"
    using stream_step_ok [OF w(1,3) assms(2,3)] by blast
  ultimately show ?thesis using w(2) same quiet_settled [OF w(1,3)] ans by blast
qed

text \<open>A call on its way between two hosts.\<close>

abbreviation say_spec :: response_spec where
  "say_spec \<equiv> \<lambda>s m r bs. bs = take 800 r"

lemma say_call_reaches:
  "\<exists>v. stream_reaches LittleEndian BigEndian say_runtime echo_services say_spec new_streams v \<and>
     made v = [(''echo'', ''say'', [7])]"
proof -
  have "request_of 1 (''echo'', ''say'', [7]) = say_request 1 [7]" by (simp add: request_of_def say_request_def)
  then have en: "stream_enabled say_runtime say_spec new_streams (CallOver ''echo'' ''say'' [7])"
    using carried_say(1) [of "[7]" 1] by (simp add: new_streams_def)
  from call_over [OF stands_for_new rpc_inv_new en, of LittleEndian BigEndian echo_services] obtain v where
    v: "stream_step LittleEndian BigEndian say_runtime echo_services (CallOver ''echo'' ''say'' [7]) new_streams = Inr v" by blast
  then have "made v = [(''echo'', ''say'', [7])]" by (auto simp: and_then_Inr_iff Let_def new_streams_def)
  with stream_next [OF stream_here en v] show ?thesis by blast
qed

lemma say_answers_exist: "answers_exist say_runtime say_spec"
  by (simp add: carried_say(2))

theorem rpc_over_bytes_witness:
  "\<exists>v. stream_reaches LittleEndian BigEndian say_runtime echo_services say_spec new_streams v \<and>
     made v = [(''echo'', ''say'', [7])] \<and>
     (\<exists>ans. happened (channel (near v)) = concat (map deliver ans) \<and> set (map fst ans) = {1})"
proof -
  have err: "errors_carried say_runtime" by (simp add: carried_say(3))
  from say_call_reaches obtain v where
    v: "stream_reaches LittleEndian BigEndian say_runtime echo_services say_spec new_streams v" "made v = [(''echo'', ''say'', [7])]"
    by blast
  from stream_reaches_stands_for [OF v(1) stands_for_new rpc_inv_new echo_services_nonnull err] obtain w ans where
    "stands_for say_runtime w v" "rpc_inv echo_services say_spec ans w" by blast
  from streams_settle [OF this echo_services_nonnull err say_answers_exist] v(2) obtain v' where
    v': "stream_reaches LittleEndian BigEndian say_runtime echo_services say_spec v v'" "all_quiet v'"
      "made v' = [(''echo'', ''say'', [7])]" by auto
  note r = stream_reaches_trans [OF v'(1) v(1)]
  from rpc_over_bytes [OF r echo_services_nonnull err, THEN conjunct2, THEN conjunct1] v'(2,3) have
    "\<exists>ans. happened (channel (near v')) = concat (map deliver ans) \<and> set (map fst ans) = {1}" by auto
  with r v'(3) show ?thesis by blast
qed

text \<open>From every state of the two ends and the streams, with services that answer, no endless
  sequence of arrivals and answers without a new call is possible, and some sequence of them ends
  with the streams empty and every call answered.\<close>

theorem rpc_over_bytes_completes:
  assumes "stream_reaches h h' rt svcs spec new_streams v" and "\<And>s. svcs s \<noteq> Some None"
    and "\<forall>i e. carried rt (reply_to i None (Some e))"
    and "\<forall>s m r i. \<exists>bs. spec s m r bs \<and> carried rt (reply_to i (Some bs) None)"
  shows "(\<exists>v'. stream_reaches h h' rt svcs spec v v' \<and> all_quiet v' \<and> made v' = made v) \<and>
    (\<nexists>f. f 0 = v \<and> (\<forall>i. \<exists>e. stream_enabled rt spec (f i) e \<and> (\<nexists>s m r. e = CallOver s m r) \<and>
       stream_step h h' rt svcs e (f i) = Inr (f (Suc i))))"
proof -
  from stream_reaches_stands_for [OF assms(1) stands_for_new rpc_inv_new assms(2,3)] obtain w ans where
    w: "stands_for rt w v" "rpc_inv svcs spec ans w" by blast
  show ?thesis using streams_settle [OF w assms(2-4)] no_endless_delivery [OF w assms(2,3)] by blast
qed

theorem rpc_over_bytes_completes_witness:
  "\<exists>v. stream_reaches LittleEndian BigEndian say_runtime echo_services say_spec new_streams v \<and>
     all_quiet v \<and> made v = [(''echo'', ''say'', [7])]"
proof -
  have err: "errors_carried say_runtime" by (simp add: carried_say(3))
  from say_call_reaches obtain v where
    v: "stream_reaches LittleEndian BigEndian say_runtime echo_services say_spec new_streams v" "made v = [(''echo'', ''say'', [7])]"
    by blast
  from rpc_over_bytes_completes [OF v(1) echo_services_nonnull err say_answers_exist, THEN conjunct1]
    stream_reaches_trans [OF _ v(1)] v(2) show ?thesis by auto
qed

text \<open>C30: What a peer can do to a channel: a well-formed frame with a message of another class, or
  a response with neither a response nor an error in it, ends the process by a failed assertion, on
  the side of the server too.\<close>

theorem peer_can_abort:
  assumes "wf_buffer (input e)" and "readable (input e) = []" and "conn (channel e) = Some 0" and "decodable (rpc_pb rt) m"
  shows "(as_rpc rt m = None \<longrightarrow> arrive h rt svcs (frame (rpc_pb rt) m) e =
      Inl (AssertionFailed ''f == NULL || dynamic_cast<To *>(f.get()) != NULL'')) \<and>
    (\<forall>x. as_rpc rt m = Some x \<and> msg_type x = RESPONSE \<and> msg_response x = None \<and> msg_error x = None \<longrightarrow>
      arrive h rt svcs (frame (rpc_pb rt) m) e = Inl (AssertionFailed ''message.has_response() || message.has_error()''))"
proof -
  obtain b1 where b1: "append (frame (rpc_pb rt) m) (input e) = Inr b1" "wf_buffer b1" "readable b1 = frame (rpc_pb rt) m"
    using buf.put_ok [OF assms(1)] assms(2) by fastforce
  have "readable b1 = concat (map (frame (rpc_pb rt)) [m]) @ take 0 (frame (rpc_pb rt) m)" using b1(3) by simp
  from onMessage_frames [OF b1(2) _ assms(4) this, of h] assms(4) obtain b2 where
    "onMessage h (rpc_pb rt) b1 = Inr ([codec_event.MessageCallback m], b2)" by (auto simp: frame_def)
  then have a: "arrive h rt svcs (frame (rpc_pb rt) m) e = and_then (channel_callback rt svcs 0 (codec_event.MessageCallback m)
      (channel e, shut e)) (\<lambda>(ch, sh). and_then (sent_between h rt (shut e) (channel e) ch)
        (\<lambda>bs. Inr (\<lparr>channel = ch, input = b2, shut = sh\<rparr>, bs)))"
    using b1(1) by (cases "channel_callback rt svcs 0 (codec_event.MessageCallback m) (channel e, shut e)")
      (simp_all add: arrive_def channel_onMessage_def split: prod.split)
  show ?thesis using assms(3) unfolding a
    by (auto simp: channel_callback_def down_pointer_cast_def onRpcMessage_def onResponse_def)
qed

theorem peer_can_abort_witness:
  "arrive BigEndian say_runtime echo_services (frame (rpc_pb say_runtime) (reply_to 5 None None)) (far new_streams) =
     Inl (AssertionFailed ''message.has_response() || message.has_error()'')"
proof -
  have "decodable (rpc_pb say_runtime) (reply_to 5 None None)" "as_rpc say_runtime (reply_to 5 None None) = Some (reply_to 5 None None)"
    using carried_say(4) [of 5] by (simp_all add: carried_def say_runtime_def)
  then show ?thesis
    using peer_can_abort [of "far new_streams" say_runtime "reply_to 5 None None" BigEndian echo_services]
    by (simp add: new_streams_def wf_new_buffer readable_new_buffer new_rpc_channel_def setServices_def) (simp add: reply_to_def)
qed

end
