(* ===== verification/RpcConnection.thy ===== *)
theory RpcConnection
  imports RpcStream ConnectionView
begin

section \<open>Remote procedure calls over two connections\<close>

text \<open>
  The whole way of a call: \<open>RpcChannel\<close>, its codec, the \<open>TcpConnection\<close> of each end with its buffers and
  partial writes, and the bytes between the two kernels. As \<open>RpcServer::onConnection\<close> sets it up, the
  message callback of a connection is \<open>RpcChannel::onMessage\<close>, and what a channel sends goes to
  \<open>TcpConnection::send\<close> in the loop's thread. The connections are established and stay so.

  Two ends with their connections are shown to refine the two ends on plain byte streams of
  \<open>RpcStream\<close>: the bytes on the way are those accepted by the sender's connection and not yet read by
  the receiver's, whether they are still in the output buffer or already on the wire.
\<close>

subsection \<open>A channel on its connection\<close>

record rpc_peer =
  rpc :: rpc_channel
  tcp :: tcp_connection

text \<open>Each message sent is one frame and one call of \<open>TcpConnection::send\<close>.\<close>

fun frame_list :: "host_order \<Rightarrow> ('d, 'm) rpc_runtime \<Rightarrow> rpc_message list \<Rightarrow> byte list list result" where
  "frame_list h rt [] = Inr []"
| "frame_list h rt (x # xs) =
     and_then (send_bytes h (rpc_pb rt) (from_rpc rt x)) (\<lambda>bs. and_then (frame_list h rt xs) (\<lambda>bss. Inr (bs # bss)))"

definition sent_frames :: "host_order \<Rightarrow> ('d, 'm) rpc_runtime \<Rightarrow> rpc_channel \<Rightarrow> rpc_channel \<Rightarrow> byte list list result" where
  "sent_frames h rt ch ch' = frame_list h rt (drop (length (outbox ch)) (outbox ch'))"

definition peer_act ::
  "host_order \<Rightarrow> ('d, 'm) rpc_runtime \<Rightarrow> net \<Rightarrow> (rpc_channel \<Rightarrow> rpc_channel result) \<Rightarrow> rpc_peer \<Rightarrow> rpc_peer result" where
  "peer_act h rt net f p =
     and_then (f (rpc p)) (\<lambda>ch.
     and_then (sent_frames h rt (rpc p) ch) (\<lambda>fs.
     and_then (for_each (user_step net) (map Send fs) (tcp p)) (\<lambda>c. Inr \<lparr>rpc = ch, tcp = c\<rparr>)))"

text \<open>
  \<open>RpcChannel::onMessage\<close> on the input buffer: the new state of the channel and the calls it makes on
  the connection. The codec reports an error, and shuts down, after all messages.
\<close>

definition rpc_input ::
  "host_order \<Rightarrow> ('d, 'm) rpc_runtime \<Rightarrow> service_map \<Rightarrow> rpc_channel \<Rightarrow> buffer \<Rightarrow> (rpc_channel \<times> user_call list) result" where
  "rpc_input h rt svcs ch buf =
     and_then (channel_onMessage h rt svcs 0 buf (ch, False)) (\<lambda>((ch', shuts), rest).
     and_then (sent_frames h rt ch ch') (\<lambda>fs.
       Inr (ch', RetrieveInput (readableBytes buf - readableBytes rest) # map Send fs @ (if shuts then [Shutdown] else []))))"

text \<open>
  The channel of the connection is readable. \<open>TcpConnection::handleRead\<close> fills the input buffer and
  calls the message callback, whose calls on the connection are those of \<open>rpc_input\<close>.
\<close>

definition peer_readable ::
  "host_order \<Rightarrow> ('d, 'm) rpc_runtime \<Rightarrow> net \<Rightarrow> service_map \<Rightarrow> rpc_peer \<Rightarrow> rpc_peer result" where
  "peer_readable h rt net svcs p =
     and_then (readFd (sys_readv net (syscalls (tcp p))) (inputBuffer (tcp p))) (\<lambda>(n, savedError, buf).
       if 0 < n then
         and_then (rpc_input h rt svcs (rpc p) buf) (\<lambda>(ch, calls).
         and_then (TcpConnection.handleRead net (\<lambda>_ _. calls) (tcp p)) (\<lambda>c. Inr \<lparr>rpc = ch, tcp = c\<rparr>))
       else and_then (TcpConnection.handleRead net (\<lambda>_ _. []) (tcp p)) (\<lambda>c. Inr (p\<lparr>tcp := c\<rparr>)))"

definition peer_writable :: "net \<Rightarrow> rpc_peer \<Rightarrow> rpc_peer result" where
  "peer_writable net p = and_then (TcpConnection.handleWrite net True (tcp p)) (\<lambda>c. Inr (p\<lparr>tcp := c\<rparr>))"

subsection \<open>Two ends\<close>

record rpc_link =
  client_end :: rpc_peer
  server_end :: rpc_peer
  link_calls :: "(string \<times> string \<times> byte list) list"

text \<open>What the kernels hold: written at one end and not yet read at the other.\<close>

definition in_flight :: "rpc_peer \<Rightarrow> rpc_peer \<Rightarrow> byte list" where
  "in_flight p q = drop (length (received (tcp q))) (wire (tcp p))"

text \<open>A connection just established, whose connection callback makes no calls on it.\<close>

definition established_connection :: "net \<Rightarrow> int \<Rightarrow> tcp_connection result" where
  "established_connection net sockfd = connectEstablished net (\<lambda>_ _. []) True (new_connection 0 sockfd False)"

definition new_link :: "net \<Rightarrow> int \<Rightarrow> int \<Rightarrow> rpc_link result" where
  "new_link net sockfd sockfd' =
     and_then (established_connection net sockfd) (\<lambda>c.
     and_then (established_connection net sockfd') (\<lambda>c'.
       Inr \<lparr>client_end = \<lparr>rpc = setConnection (Some 0) (new_rpc_channel None), tcp = c\<rparr>,
            server_end = \<lparr>rpc = setServices True (new_rpc_channel (Some 0)), tcp = c'\<rparr>, link_calls = []\<rparr>))"

datatype link_event =
    LinkCall string string "byte list"
  | LinkFinish nat "byte list"
  | ServerReadable nat
  | ClientReadable nat
  | ServerWritable
  | ClientWritable

text \<open>A read gets the next \<open>n\<close> bytes the other end has written.\<close>

definition reading :: "net \<Rightarrow> byte list \<Rightarrow> net" where
  "reading net bs = net\<lparr>sys_readv := \<lambda>_ _. ReadvBytes bs\<rparr>"

fun link_step ::
  "host_order \<Rightarrow> host_order \<Rightarrow> ('d, 'm) rpc_runtime \<Rightarrow> net \<Rightarrow> service_map \<Rightarrow> link_event \<Rightarrow> rpc_link \<Rightarrow> rpc_link result" where
  "link_step h h' rt net svcs (LinkCall s m r) L =
     (let i = length (link_calls L) + 1
      in and_then (peer_act h rt net (CallMethod s m r i i) (client_end L)) (\<lambda>p.
           Inr (L\<lparr>client_end := p, link_calls := link_calls L @ [(s, m, r)]\<rparr>)))"
| "link_step h h' rt net svcs (LinkFinish k response) L =
     and_then (peer_act h' rt net (finish k response) (server_end L)) (\<lambda>p. Inr (L\<lparr>server_end := p\<rparr>))"
| "link_step h h' rt net svcs (ServerReadable n) L =
     and_then (peer_readable h' rt (reading net (take n (in_flight (client_end L) (server_end L)))) svcs (server_end L)) (\<lambda>p.
       Inr (L\<lparr>server_end := p\<rparr>))"
| "link_step h h' rt net svcs (ClientReadable n) L =
     and_then (peer_readable h rt (reading net (take n (in_flight (server_end L) (client_end L)))) Map.empty (client_end L)) (\<lambda>p.
       Inr (L\<lparr>client_end := p\<rparr>))"
| "link_step h h' rt net svcs ServerWritable L =
     and_then (peer_writable net (server_end L)) (\<lambda>p. Inr (L\<lparr>server_end := p\<rparr>))"
| "link_step h h' rt net svcs ClientWritable L =
     and_then (peer_writable net (client_end L)) (\<lambda>p. Inr (L\<lparr>client_end := p\<rparr>))"

fun link_enabled :: "('d, 'm) rpc_runtime \<Rightarrow> response_spec \<Rightarrow> rpc_link \<Rightarrow> link_event \<Rightarrow> bool" where
  "link_enabled rt spec L (LinkCall s m r) \<longleftrightarrow>
     length (link_calls L) + 1 < 2 ^ 64 \<and> carried rt (request_of (length (link_calls L) + 1) (s, m, r))"
| "link_enabled rt spec L (LinkFinish k bs) \<longleftrightarrow> k < length (working (rpc (server_end L))) \<and>
     (let r = working (rpc (server_end L)) ! k
      in spec (run_service r) (run_method r) (run_request r) bs \<and> carried rt (reply_to (run_id r) (Some bs) None))"
| "link_enabled rt spec L (ServerReadable n) \<longleftrightarrow> 0 < n \<and> n \<le> length (in_flight (client_end L) (server_end L))"
| "link_enabled rt spec L (ClientReadable n) \<longleftrightarrow> 0 < n \<and> n \<le> length (in_flight (server_end L) (client_end L))"
| "link_enabled rt spec L ServerWritable \<longleftrightarrow> isWriting (chan (tcp (server_end L)))"
| "link_enabled rt spec L ClientWritable \<longleftrightarrow> isWriting (chan (tcp (client_end L)))"

inductive link_reaches ::
  "host_order \<Rightarrow> host_order \<Rightarrow> ('d, 'm) rpc_runtime \<Rightarrow> net \<Rightarrow> service_map \<Rightarrow> response_spec \<Rightarrow> rpc_link \<Rightarrow> rpc_link \<Rightarrow> bool"
  for h h' rt net svcs spec where
  link_here: "link_reaches h h' rt net svcs spec L L"
| link_next: "link_reaches h h' rt net svcs spec L L1 \<Longrightarrow> link_enabled rt spec L1 e \<Longrightarrow>
    link_step h h' rt net svcs e L1 = Inr L2 \<Longrightarrow> link_reaches h h' rt net svcs spec L L2"

definition link_quiet :: "rpc_link \<Rightarrow> bool" where
  "link_quiet L \<longleftrightarrow> in_flight (client_end L) (server_end L) = [] \<and> in_flight (server_end L) (client_end L) = [] \<and>
     readable (outputBuffer (tcp (client_end L))) = [] \<and> readable (outputBuffer (tcp (server_end L))) = [] \<and>
     working (rpc (server_end L)) = []"

subsection \<open>The connections of a link\<close>

text \<open>What is on the way from one end to the other, whether written yet or not.\<close>

definition underway :: "rpc_peer \<Rightarrow> rpc_peer \<Rightarrow> byte list" where
  "underway p q = drop (length (received (tcp q))) (accepted (tcp p))"

definition peer_ok :: "rpc_peer \<Rightarrow> rpc_peer \<Rightarrow> bool" where
  "peer_ok p q \<longleftrightarrow> sending (tcp p) \<and> (\<exists>n. received (tcp q) = take n (wire (tcp p)))"

text \<open>An end of a link and an end on plain streams with the same channel and the same input.\<close>

definition same_end :: "rpc_peer \<Rightarrow> rpc_end \<Rightarrow> bool" where
  "same_end p e \<longleftrightarrow> channel e = rpc p \<and> \<not> shut e \<and> wf_buffer (input e) \<and> readable (input e) = readable (inputBuffer (tcp p))"

definition link_refines :: "rpc_link \<Rightarrow> rpc_streams \<Rightarrow> bool" where
  "link_refines L v \<longleftrightarrow> same_end (client_end L) (near v) \<and> same_end (server_end L) (far v) \<and> made v = link_calls L \<and>
     to_far v = underway (client_end L) (server_end L) \<and> to_near v = underway (server_end L) (client_end L) \<and>
     peer_ok (client_end L) (server_end L) \<and> peer_ok (server_end L) (client_end L)"

lemma frames_of_list: "frames_of h rt xs = and_then (frame_list h rt xs) (\<lambda>fs. Inr (concat fs))"
proof (induction xs)
  case (Cons x xs)
  then show ?case by (cases "send_bytes h (rpc_pb rt) (from_rpc rt x)"; cases "frame_list h rt xs") simp_all
qed simp

lemma sent_frames_between:
  "sent_between h rt False ch ch' = Inr bs \<Longrightarrow> \<exists>fs. sent_frames h rt ch ch' = Inr fs \<and> concat fs = bs"
  by (auto simp: sent_between_def sent_frames_def frames_of_list and_then_Inr_iff)

lemma sending_input: "sending c \<Longrightarrow> wf_buffer b \<Longrightarrow> sending (c\<lparr>inputBuffer := b\<rparr>)"
proof -
  assume s: "sending c" and b: "wf_buffer b"
  have "conn_inv c" using s by (simp add: sending_def)
  then have "conn_inv (c\<lparr>inputBuffer := b\<rparr>)" using b unfolding conn_inv_def by auto
  then show "sending (c\<lparr>inputBuffer := b\<rparr>)" using s by (simp add: sending_def)
qed

lemma sendInLoop_wire: "sendInLoop net True m c = Inr c' \<Longrightarrow> wire c = take (length (wire c)) (wire c')"
  by (auto simp: sendInLoop_def conn_op_defs update_chan_def split: if_splits prod.splits)

lemma sends_ok:
  assumes "sending c" and w: "write_ok net"
  shows "\<exists>c' n. for_each (user_step net) (map Send fs) c = Inr c' \<and> sending c' \<and> accepted c' = accepted c @ concat fs \<and>
    inputBuffer c' = inputBuffer c \<and> received c' = received c \<and> wire c = take n (wire c')"
  using assms(1)
proof (induction fs arbitrary: c)
  case Nil
  then show ?case by (intro exI [of _ c] exI [of _ "length (wire c)"]) simp
next
  case (Cons f fs)
  from send_sending [OF Cons.prems w, of f] obtain c1 where
    c1: "send net True f c = Inr c1" "sending c1" "accepted c1 = accepted c @ f" by blast
  have k: "sendInLoop net True f c = Inr c1" using c1(1) Cons.prems by (simp add: send_def sending_def)
  have keep: "inputBuffer c1 = inputBuffer c" "received c1 = received c" using sendInLoop_view [OF k] by simp_all
  note wi = sendInLoop_wire [OF k]
  from Cons.IH [OF c1(2)] obtain c2 n where
    c2: "for_each (user_step net) (map Send fs) c1 = Inr c2" "sending c2" "accepted c2 = accepted c1 @ concat fs"
      "inputBuffer c2 = inputBuffer c1" "received c2 = received c1" "wire c1 = take n (wire c2)" by blast
  have "wire c = take (min (length (wire c)) n) (wire c2)" using wi c2(6) by (metis take_take)
  then show ?case using c1 c2 keep by (intro exI [of _ c2]) auto
qed

subsection \<open>One end moves\<close>

text \<open>An end has accepted \<open>sent\<close> and read \<open>taken\<close>, and remains open for both.\<close>

definition moved :: "rpc_peer \<Rightarrow> byte list \<Rightarrow> byte list \<Rightarrow> rpc_peer \<Rightarrow> bool" where
  "moved p sent taken p' \<longleftrightarrow> sending (tcp p') \<and> accepted (tcp p') = accepted (tcp p) @ sent \<and>
     received (tcp p') = received (tcp p) @ taken \<and> (\<exists>n. wire (tcp p) = take n (wire (tcp p')))"

lemma sending_wire: "sending c \<Longrightarrow> wire c @ readable (outputBuffer c) = accepted c"
  by (simp add: sending_def conn_inv_def)

lemma underway_in_flight:
  assumes "peer_ok p q"
  shows "underway p q = in_flight p q @ readable (outputBuffer (tcp p))"
proof -
  have "length (received (tcp q)) \<le> length (wire (tcp p))" using assms by (auto simp: peer_ok_def)
  then show ?thesis using sending_wire [of "tcp p"] assms
    by (simp add: underway_def in_flight_def peer_ok_def flip: sending_wire)
qed

lemma moved_peers:
  assumes pq: "peer_ok p q" and qp: "peer_ok q p" and m: "moved p sent (take n (in_flight q p)) p'"
    and n: "n \<le> length (in_flight q p)"
  shows "peer_ok p' q" "peer_ok q p'" "underway p' q = underway p q @ sent" "underway q p' = drop n (underway q p)"
proof -
  obtain k l where k: "received (tcp q) = take k (wire (tcp p))" and l: "received (tcp p) = take l (wire (tcp q))"
    using pq qp by (auto simp: peer_ok_def)
  obtain j where j: "wire (tcp p) = take j (wire (tcp p'))" using m by (auto simp: moved_def)
  have "received (tcp q) = take (min k j) (wire (tcp p'))" using k j by (simp add: min.commute)
  then show "peer_ok p' q" using m by (auto simp: peer_ok_def moved_def)
  let ?r = "length (received (tcp p))"
  have r: "?r \<le> length (wire (tcp q))" "received (tcp p) = take ?r (wire (tcp q))" using l by (simp_all, metis append_take_drop_id append_eq_conv_conj length_take)
  have all: "received (tcp p') = take ?r (wire (tcp q)) @ take n (drop ?r (wire (tcp q)))"
    using m r(2) by (simp add: moved_def in_flight_def)
  then have "received (tcp p') = take (?r + n) (wire (tcp q))" by (simp add: take_add)
  then show "peer_ok q p'" using qp by (auto simp: peer_ok_def)
  have "length (received (tcp q)) \<le> length (accepted (tcp p))"
    using k sending_wire [of "tcp p"] pq by (auto simp: peer_ok_def simp flip: sending_wire)
  then show "underway p' q = underway p q @ sent" using m by (simp add: underway_def moved_def)
  have "length (received (tcp p')) = ?r + n" using n r(1) all by (simp add: in_flight_def)
  then show "underway q p' = drop n (underway q p)" by (simp add: underway_def add.commute)
qed

lemma act_refines:
  assumes s: "same_end p e" and c: "sending (tcp p)" and w: "write_ok net" and a: "act h rt f e = Inr (e', bs)"
  shows "\<exists>p'. peer_act h rt net f p = Inr p' \<and> same_end p' e' \<and> moved p bs [] p'"
proof -
  obtain ch where ch: "f (rpc p) = Inr ch" "sent_between h rt False (rpc p) ch = Inr bs" "e' = e\<lparr>channel := ch\<rparr>"
    using a s by (auto simp: act_def and_then_Inr_iff same_end_def)
  from sent_frames_between [OF ch(2)] obtain fs where fs: "sent_frames h rt (rpc p) ch = Inr fs" "concat fs = bs" by blast
  from sends_ok [OF c w, of fs] obtain c' n where
    c': "for_each (user_step net) (map Send fs) (tcp p) = Inr c'" "sending c'" "accepted c' = accepted (tcp p) @ concat fs"
      "inputBuffer c' = inputBuffer (tcp p)" "received c' = received (tcp p)" "wire (tcp p) = take n (wire c')" by blast
  then have "peer_act h rt net f p = Inr \<lparr>rpc = ch, tcp = c'\<rparr>" "same_end \<lparr>rpc = ch, tcp = c'\<rparr> e'"
    using ch s fs(1) by (simp_all add: peer_act_def same_end_def)
  moreover have "moved p bs [] \<lparr>rpc = ch, tcp = c'\<rparr>" using c' fs(2) by (auto simp: moved_def)
  ultimately show ?thesis by blast
qed

lemma writable_refines:
  assumes s: "same_end p e" and c: "sending (tcp p)" and w: "write_ok net"
  shows "\<exists>p'. peer_writable net p = Inr p' \<and> same_end p' e \<and> moved p [] [] p'"
proof -
  have inv: "conn_inv (tcp p)" and st: "state (tcp p) = kConnected" "\<not> fin (tcp p)" using c by (simp_all add: sending_def)
  from handleWrite_ok [OF inv w] obtain c' where
    c': "TcpConnection.handleWrite net True (tcp p) = Inr c'" "conn_inv c'" "progress (tcp p) c'" "state c' = state (tcp p)"
      "writeCallback (chan c') = writeCallback (chan (tcp p))" by blast
  note v = handleWrite_view [OF c'(1)]
  have "fin_inv c'" using c'(3) st by (simp add: progress_def fin_inv_def)
  then have "\<not> fin c'" using c'(4) st by (auto simp: fin_inv_def)
  then have "sending c'" using c c' by (simp add: sending_def progress_def)
  moreover have "wire (tcp p) = take (length (wire (tcp p))) (wire c')"
    using c'(1) by (auto simp: handleWrite_def shutdownInLoop_def conn_op_defs update_chan_def split: if_splits)
  ultimately have "moved p [] [] (p\<lparr>tcp := c'\<rparr>)" using v by (auto simp: moved_def)
  then show ?thesis using c'(1) v s by (auto simp: peer_writable_def same_end_def)
qed

lemma write_ok_reading [simp]: "write_ok (reading net bs) = write_ok net"
  by (simp add: write_ok_def reading_def)

lemma tail_of_input:
  assumes "carries rt b bytes xs" and "carried_tail rt j q (drop n bytes) xs"
  shows "\<exists>us. readable b @ take n bytes = us @ q"
proof -
  let ?f = "\<lambda>x. frame (rpc_pb rt) (from_rpc rt x)"
  have "(readable b @ take n bytes) @ drop n bytes = concat (map ?f xs)" using assms(1) by (simp add: carries_def)
  also have "\<dots> = concat (map ?f (take j xs)) @ concat (map ?f (drop j xs))"
    by (simp flip: concat_append map_append)
  also have "\<dots> = (concat (map ?f (take j xs)) @ q) @ drop n bytes" using assms(2) by (simp add: carried_tail_def)
  finally show ?thesis by blast
qed

text \<open>The calls a message callback makes on the connection: it has filled its input buffer with \<open>b\<close>,
  of which all but \<open>q\<close> is retrieved.\<close>

lemma input_calls:
  assumes c: "sending c" and w: "write_ok net" and b: "wf_buffer b" "readable b = us @ q"
  shows "\<exists>c' n. for_each (user_step net) (RetrieveInput (length us) # map Send fs)
      (c\<lparr>inputBuffer := b, syscalls := k, received := r, effects := es\<rparr>) = Inr c' \<and> sending c' \<and>
    accepted c' = accepted c @ concat fs \<and> wf_buffer (inputBuffer c') \<and> readable (inputBuffer c') = q \<and> received c' = r \<and>
    wire c = take n (wire c')"
proof -
  let ?c = "c\<lparr>inputBuffer := b, syscalls := k, received := r, effects := es\<rparr>"
  have "length us \<le> length (readable b)" using b(2) by simp
  from retrieve_ok [OF b(1) this] obtain b' where
    b': "retrieve (length us) b = Inr b'" "wf_buffer b'" "readable b' = drop (length us) (readable b)" by blast
  have "conn_inv c" using c by (simp add: sending_def)
  then have "conn_inv (?c\<lparr>inputBuffer := b'\<rparr>)" using b'(2) unfolding conn_inv_def by auto
  then have s: "sending (?c\<lparr>inputBuffer := b'\<rparr>)" using c by (simp add: sending_def)
  have "min (length us) (readableBytes b) = length us" using b by (simp add: readableBytes_wf)
  then have "user_step net (RetrieveInput (length us)) ?c = Inr (?c\<lparr>inputBuffer := b'\<rparr>)" using b'(1) by simp
  then show ?thesis using sends_ok [OF s w, of fs] b b' by auto
qed

lemma readable_refines:
  assumes s: "same_end p e" and c: "sending (tcp p)" and w: "write_ok net" and carr: "carries rt (input e) bytes xs"
    and n: "0 < n" "n \<le> length bytes" and a: "arrive h rt svcs (take n bytes) e = Inr (e', bs)" and sh: "\<not> shut e'"
  shows "\<exists>p'. peer_readable h rt (reading net (take n bytes)) svcs p = Inr p' \<and> same_end p' e' \<and> moved p bs (take n bytes) p'"
proof -
  let ?net = "reading net (take n bytes)" and ?c = "tcp p"
  have e: "channel e = rpc p" "\<not> shut e" "wf_buffer (input e)" "readable (input e) = readable (inputBuffer ?c)"
    using s by (simp_all add: same_end_def)
  have wf: "wf_buffer (inputBuffer ?c)" using c by (simp add: sending_def conn_inv_def)
  obtain j q where jq: "carried_tail rt j q (drop n bytes) xs"
    "\<forall>b1 h. wf_buffer b1 \<and> readable b1 = readable (input e) @ take n bytes \<longrightarrow>
      (\<exists>b2. onMessage h (rpc_pb rt) b1 = Inr (map (\<lambda>x. codec_event.MessageCallback (from_rpc rt x)) (take j xs), b2) \<and>
        wf_buffer b2 \<and> readable b2 = q)" using complete_messages [OF carr n] by blast
  obtain us where us: "readable (input e) @ take n bytes = us @ q" using tail_of_input [OF carr jq(1)] by blast
  from buf.put_ok [OF e(3)] obtain b1 where
    b1: "append (take n bytes) (input e) = Inr b1" "wf_buffer b1" "readable b1 = readable (input e) @ take n bytes" by blast
  from readFd_ok [OF wf, of "\<lambda>_. ReadvBytes (take n bytes)", OF refl] obtain b where
    b: "readFd (\<lambda>_. ReadvBytes (take n bytes)) (inputBuffer ?c) = Inr (int (length (take n bytes)), None, b)"
      "wf_buffer b" "readable b = readable (inputBuffer ?c) @ take n bytes" by blast
  from jq(2) b1(2,3) obtain b2 where
    b2: "onMessage h (rpc_pb rt) b1 = Inr (map (\<lambda>x. codec_event.MessageCallback (from_rpc rt x)) (take j xs), b2)"
      "wf_buffer b2" "readable b2 = q" by blast
  from jq(2) b(2,3) e(4) obtain b3 where
    b3: "onMessage h (rpc_pb rt) b = Inr (map (\<lambda>x. codec_event.MessageCallback (from_rpc rt x)) (take j xs), b3)"
      "wf_buffer b3" "readable b3 = q" by fastforce
  from a b1(1) b2(1) e(1,2) sh obtain ch where
    ch: "for_each (channel_callback rt svcs 0) (map (\<lambda>x. codec_event.MessageCallback (from_rpc rt x)) (take j xs)) (rpc p, False)
        = Inr (ch, False)"
      "sent_between h rt False (rpc p) ch = Inr bs" "e' = \<lparr>channel = ch, input = b2, shut = False\<rparr>"
    by (auto simp: arrive_def channel_onMessage_def and_then_Inr_iff)
  from sent_frames_between [OF ch(2)] obtain fs where fs: "sent_frames h rt (rpc p) ch = Inr fs" "concat fs = bs" by blast
  have rb: "readable b = us @ q" using b(3) us e(4) by simp
  then have "readableBytes b - readableBytes b3 = length us" using b(2) b3(2,3) by (simp add: readableBytes_wf)
  then have inp: "rpc_input h rt svcs (rpc p) b = Inr (ch, RetrieveInput (length us) # map Send fs)"
    using b3(1) ch(1) fs(1) by (simp add: rpc_input_def channel_onMessage_def)
  have w': "write_ok ?net" using w by simp
  from input_calls [OF c w' b(2) rb, where fs = fs and k = "Suc (syscalls ?c)"
      and r = "received ?c @ take n bytes" and es = "effects ?c @ [UserCallback MessageCallback (connected ?c)]"] obtain c' k where
    c': "for_each (user_step ?net) (RetrieveInput (length us) # map Send fs)
        (?c\<lparr>inputBuffer := b, syscalls := Suc (syscalls ?c), received := received ?c @ take n bytes,
          effects := effects ?c @ [UserCallback MessageCallback (connected ?c)]\<rparr>) = Inr c'"
      "sending c'" "accepted c' = accepted ?c @ concat fs" "wf_buffer (inputBuffer c')" "readable (inputBuffer c') = q"
      "received c' = received ?c @ take n bytes" "wire ?c = take k (wire c')" by blast
  have rv: "sys_readv ?net k = (\<lambda>_. ReadvBytes (take n bytes))" for k by (simp add: reading_def)
  have ne: "bytes \<noteq> []" using n by auto
  have "TcpConnection.handleRead ?net (\<lambda>_ _. RetrieveInput (length us) # map Send fs) ?c = Inr c'"
    using b(1,3) wf ne n(1) c'(1) by (simp add: handleRead_def rv readableBytes_wf call_user_def Let_def connected_def)
  then have "peer_readable h rt ?net svcs p = Inr \<lparr>rpc = ch, tcp = c'\<rparr>"
    using b(1) ne n(1) inp by (simp add: peer_readable_def rv)
  moreover have "same_end \<lparr>rpc = ch, tcp = c'\<rparr> e'" using ch(3) b2(2,3) c'(5) by (simp add: same_end_def)
  moreover have "moved p bs (take n bytes) \<lparr>rpc = ch, tcp = c'\<rparr>" using c' fs(2) by (auto simp: moved_def)
  ultimately show ?thesis by blast
qed

subsection \<open>A link refines the streams\<close>

fun as_stream_event :: "link_event \<Rightarrow> stream_event" where
  "as_stream_event (LinkCall s m r) = CallOver s m r"
| "as_stream_event (LinkFinish k bs) = FinishOver k bs"
| "as_stream_event (ServerReadable n) = FarReads n"
| "as_stream_event (ClientReadable n) = NearReads n"
| "as_stream_event _ = FarReads 0"

abbreviation writable_event :: "link_event \<Rightarrow> bool" where
  "writable_event e \<equiv> e = ServerWritable \<or> e = ClientWritable"

lemma link_refinesD:
  assumes "link_refines L v"
  shows "same_end (client_end L) (near v)" "same_end (server_end L) (far v)" "made v = link_calls L"
    "to_far v = underway (client_end L) (server_end L)" "to_near v = underway (server_end L) (client_end L)"
    "peer_ok (client_end L) (server_end L)" "peer_ok (server_end L) (client_end L)"
    "sending (tcp (client_end L))" "sending (tcp (server_end L))"
    "channel (near v) = rpc (client_end L)" "channel (far v) = rpc (server_end L)"
  using assms by (simp_all add: link_refines_def peer_ok_def same_end_def)

lemma link_enabled_stream:
  assumes "link_refines L v" and "link_enabled rt spec L e" and "\<not> writable_event e"
  shows "stream_enabled rt spec v (as_stream_event e)"
  using assms(2,3) link_refinesD(3-7,11) [OF assms(1)] underway_in_flight by (cases e) auto

lemma client_moves:
  assumes r: "link_refines L v" and m: "moved (client_end L) sent (take n (in_flight (server_end L) (client_end L))) p"
    and n: "n \<le> length (in_flight (server_end L) (client_end L))" and s: "same_end p e"
  shows "link_refines (L\<lparr>client_end := p, link_calls := cs\<rparr>)
    (v\<lparr>near := e, to_far := to_far v @ sent, to_near := drop n (to_near v), made := cs\<rparr>)"
  using moved_peers [OF link_refinesD(6,7) [OF r] m n] s r by (simp add: link_refines_def)

lemma server_moves:
  assumes r: "link_refines L v" and m: "moved (server_end L) sent (take n (in_flight (client_end L) (server_end L))) p"
    and n: "n \<le> length (in_flight (client_end L) (server_end L))" and s: "same_end p e"
  shows "link_refines (L\<lparr>server_end := p\<rparr>) (v\<lparr>far := e, to_far := drop n (to_far v), to_near := to_near v @ sent\<rparr>)"
  using moved_peers [OF link_refinesD(7,6) [OF r] m n] s r by (simp add: link_refines_def)

lemma link_step_refines:
  assumes r: "link_refines L v" and w: "write_ok net" and st: "stands_for rt ww v"
    and e: "link_enabled rt spec L e" "\<not> writable_event e"
    and step: "stream_step h h' rt svcs (as_stream_event e) v = Inr v'" and sh: "\<not> shut (near v')" "\<not> shut (far v')"
  shows "\<exists>L'. link_step h h' rt net svcs e L = Inr L' \<and> link_refines L' v'"
proof (cases e)
  case (LinkCall s m rq)
  let ?i = "length (link_calls L) + 1"
  obtain e1 bs where a: "act h rt (CallMethod s m rq ?i ?i) (near v) = Inr (e1, bs)"
    "v' = v\<lparr>near := e1, to_far := to_far v @ bs, made := link_calls L @ [(s, m, rq)]\<rparr>"
    using step LinkCall link_refinesD(3) [OF r] by (auto simp: and_then_Inr_iff Let_def)
  from act_refines [OF link_refinesD(1,8) [OF r] w a(1)] obtain p where
    p: "peer_act h rt net (CallMethod s m rq ?i ?i) (client_end L) = Inr p" "same_end p e1" "moved (client_end L) bs [] p" by blast
  from client_moves [OF r, of bs 0 p e1 "link_calls L @ [(s, m, rq)]"] p a(2) show ?thesis
    using LinkCall by (simp add: Let_def)
next
  case (LinkFinish k rs)
  obtain e1 bs where a: "act h' rt (finish k rs) (far v) = Inr (e1, bs)" "v' = v\<lparr>far := e1, to_near := to_near v @ bs\<rparr>"
    using step LinkFinish by (auto simp: and_then_Inr_iff)
  from act_refines [OF link_refinesD(2,9) [OF r] w a(1)] obtain p where
    p: "peer_act h' rt net (finish k rs) (server_end L) = Inr p" "same_end p e1" "moved (server_end L) bs [] p" by blast
  from server_moves [OF r, of bs 0 p e1] p a(2) show ?thesis using LinkFinish by simp
next
  case (ServerReadable n)
  let ?fl = "in_flight (client_end L) (server_end L)"
  have n: "0 < n" "n \<le> length ?fl" using e(1) ServerReadable by simp_all
  have tf: "to_far v = ?fl @ readable (outputBuffer (tcp (client_end L)))"
    using link_refinesD(4) [OF r] underway_in_flight [OF link_refinesD(6) [OF r]] by simp
  have n': "n \<le> length (to_far v)" and tk: "take n (to_far v) = take n ?fl" using n tf by simp_all
  obtain e1 bs where a: "arrive h' rt svcs (take n (to_far v)) (far v) = Inr (e1, bs)"
    "v' = v\<lparr>far := e1, to_far := drop n (to_far v), to_near := to_near v @ bs\<rparr>"
    using step ServerReadable by (auto simp: and_then_Inr_iff)
  have "\<not> shut e1" using sh(2) a(2) by simp
  moreover have "\<exists>xs. carries rt (input (far v)) (to_far v) xs" using st by (auto simp: stands_for_def)
  ultimately obtain p where
    p: "peer_readable h' rt (reading net (take n ?fl)) svcs (server_end L) = Inr p" "same_end p e1"
      "moved (server_end L) bs (take n ?fl) p"
    using readable_refines [OF link_refinesD(2,9) [OF r] w _ n(1) n' a(1)] unfolding tk by blast
  from server_moves [OF r p(3) n(2) p(2)] p(1) a(2) show ?thesis using ServerReadable by simp
next
  case (ClientReadable n)
  let ?fl = "in_flight (server_end L) (client_end L)"
  have n: "0 < n" "n \<le> length ?fl" using e(1) ClientReadable by simp_all
  have tn: "to_near v = ?fl @ readable (outputBuffer (tcp (server_end L)))"
    using link_refinesD(5) [OF r] underway_in_flight [OF link_refinesD(7) [OF r]] by simp
  have n': "n \<le> length (to_near v)" and tk: "take n (to_near v) = take n ?fl" using n tn by simp_all
  obtain e1 bs where a: "arrive h rt Map.empty (take n (to_near v)) (near v) = Inr (e1, bs)"
    "v' = v\<lparr>near := e1, to_near := drop n (to_near v), to_far := to_far v @ bs\<rparr>"
    using step ClientReadable by (auto simp: and_then_Inr_iff)
  have "\<not> shut e1" using sh(1) a(2) by simp
  moreover have "\<exists>xs. carries rt (input (near v)) (to_near v) xs" using st by (auto simp: stands_for_def)
  ultimately obtain p where
    p: "peer_readable h rt (reading net (take n ?fl)) Map.empty (client_end L) = Inr p" "same_end p e1"
      "moved (client_end L) bs (take n ?fl) p"
    using readable_refines [OF link_refinesD(1,8) [OF r] w _ n(1) n' a(1)] unfolding tk by blast
  from client_moves [OF r p(3) n(2) p(2), of "link_calls L"] p(1) a(2) link_refinesD(3) [OF r] show ?thesis
    using ClientReadable by (cases v) simp
qed (use e(2) in simp_all)

text \<open>A connection that becomes writable changes nothing for the streams.\<close>

lemma writable_step_refines:
  assumes r: "link_refines L v" and w: "write_ok net" and e: "writable_event e"
  shows "\<exists>L'. link_step h h' rt net svcs e L = Inr L' \<and> link_refines L' v \<and> link_calls L' = link_calls L"
  using e
proof (elim disjE)
  assume e: "e = ServerWritable"
  from writable_refines [OF link_refinesD(2,9) [OF r] w] obtain p where
    p: "peer_writable net (server_end L) = Inr p" "same_end p (far v)" "moved (server_end L) [] [] p" by blast
  from server_moves [OF r, of "[]" 0 p "far v"] p e show ?thesis by simp
next
  assume e: "e = ClientWritable"
  from writable_refines [OF link_refinesD(1,8) [OF r] w] obtain p where
    p: "peer_writable net (client_end L) = Inr p" "same_end p (near v)" "moved (client_end L) [] [] p" by blast
  from client_moves [OF r, of "[]" 0 p "near v" "link_calls L"] p e link_refinesD(3) [OF r] show ?thesis
    by (cases v) simp
qed

text \<open>A reached link: it stands for streams that stand for an exchange of messages.\<close>

definition link_ok ::
  "host_order \<Rightarrow> host_order \<Rightarrow> ('d, 'm) rpc_runtime \<Rightarrow> service_map \<Rightarrow> response_spec \<Rightarrow> rpc_link \<Rightarrow> rpc_streams \<Rightarrow> rpc_world \<Rightarrow> bool"
where
  "link_ok h h' rt svcs spec L v w \<longleftrightarrow> link_refines L v \<and> stream_reaches h h' rt svcs spec new_streams v \<and>
     stands_for rt w v \<and> (\<exists>ans. rpc_inv svcs spec ans w)"

text \<open>What can still be written decreases when a connection becomes writable and its kernel takes bytes.\<close>

definition unwritten :: "rpc_link \<Rightarrow> nat" where
  "unwritten L = length (readable (outputBuffer (tcp (client_end L)))) + length (readable (outputBuffer (tcp (server_end L))))"

definition eager :: "net \<Rightarrow> bool" where
  "eager net \<longleftrightarrow> (\<forall>k data. data \<noteq> [] \<longrightarrow> 0 < sys_write net k data)"

definition link_nearer :: "rpc_link \<times> rpc_streams \<times> rpc_world \<Rightarrow> rpc_link \<times> rpc_streams \<times> rpc_world \<Rightarrow> bool" where
  "link_nearer = (\<lambda>(L', v', w') (L, v, w). link_calls L' = link_calls L \<and>
     (nearer_end (w', v') (w, v) \<or> (w', v') = (w, v) \<and> unwritten L' < unwritten L))"

lemma writes_more:
  assumes c: "sending c" and w: "write_ok net" and e: "eager net" and wr: "isWriting (chan c)"
    and h: "TcpConnection.handleWrite net True c = Inr c'"
  shows "length (readable (outputBuffer c')) < length (readable (outputBuffer c))"
proof -
  have inv: "conn_inv c" using c by (simp add: sending_def)
  have ne: "readable (outputBuffer c) \<noteq> []" using inv wr by (simp add: conn_inv_def)
  have "readable (outputBuffer c') = drop (nat (sys_write net (syscalls c) (readable (outputBuffer c)))) (readable (outputBuffer c))"
    using handleWrite_ok [OF inv w] h wr by auto
  moreover have "0 < sys_write net (syscalls c) (readable (outputBuffer c))" using e ne by (simp add: eager_def)
  ultimately show ?thesis using ne by simp
qed

lemma writable_step_unwritten:
  assumes "link_refines L v" and w: "write_ok net" and e: "eager net"
    and "writable_event ev" and "link_enabled rt spec L ev" and "link_step h h' rt net svcs ev L = Inr L'"
  shows "unwritten L' < unwritten L"
  using assms(4-6) writes_more [OF link_refinesD(8) [OF assms(1)] w e] writes_more [OF link_refinesD(9) [OF assms(1)] w e]
  by (auto simp: peer_writable_def and_then_Inr_iff unwritten_def)

lemma link_step_ok:
  assumes ok: "link_ok h h' rt svcs spec L v ww" and svcs: "\<And>s. svcs s \<noteq> Some None" and err: "errors_carried rt"
    and w: "write_ok net" and e: "link_enabled rt spec L ev"
  shows "\<exists>L' v' w'. link_step h h' rt net svcs ev L = Inr L' \<and> link_ok h h' rt svcs spec L' v' w' \<and>
    (eager net \<longrightarrow> (\<nexists>s m r. ev = LinkCall s m r) \<longrightarrow> link_nearer (L', v', w') (L, v, ww))"
proof (cases "writable_event ev")
  case True
  from ok have r: "link_refines L v" by (simp add: link_ok_def)
  from writable_step_refines [OF r w True] obtain L' where
    L': "link_step h h' rt net svcs ev L = Inr L'" "link_refines L' v" "link_calls L' = link_calls L" by blast
  have "eager net \<longrightarrow> link_nearer (L', v, ww) (L, v, ww)"
    using writable_step_unwritten [OF r w _ True e L'(1)] L'(3) by (simp add: link_nearer_def)
  then show ?thesis using L' ok by (auto simp: link_ok_def)
next
  case False
  obtain ans where k: "link_refines L v" "stream_reaches h h' rt svcs spec new_streams v" "stands_for rt ww v" "rpc_inv svcs spec ans ww"
    using ok by (auto simp: link_ok_def)
  note en = link_enabled_stream [OF k(1) e False]
  from stream_step_ok [OF k(3,4) svcs err en, of h h'] obtain w' v' ans' where
    s: "stream_step h h' rt svcs (as_stream_event ev) v = Inr v'" "stands_for rt w' v'" "rpc_inv svcs spec ans' w'"
      "(\<exists>s m r. as_stream_event ev = CallOver s m r) \<or> nearer_end (w', v') (ww, v)" by blast
  have sh: "\<not> shut (near v')" "\<not> shut (far v')" using s(2) by (simp_all add: stands_for_def)
  from link_step_refines [OF k(1) w k(3) e False s(1) sh] obtain L' where
    L': "link_step h h' rt net svcs ev L = Inr L'" "link_refines L' v'" by blast
  have "link_nearer (L', v', w') (L, v, ww)" if "\<nexists>s m r. ev = LinkCall s m r"
  proof -
    have n: "nearer_end (w', v') (ww, v)" using s(4) that False by (cases ev) auto
    then have "made v' = made v" by (simp add: nearer_end_def)
    with n show ?thesis using link_refinesD(3) [OF k(1)] link_refinesD(3) [OF L'(2)] by (simp add: link_nearer_def)
  qed
  moreover have "link_ok h h' rt svcs spec L' v' w'"
    using L'(2) s(2,3) stream_next [OF k(2) en s(1)] unfolding link_ok_def by blast
  ultimately show ?thesis using L'(1) by blast
qed

lemma link_end_established:
  "\<exists>c. established_connection net sockfd = Inr c \<and> sending c \<and> accepted c = [] \<and> received c = [] \<and> wire c = [] \<and>
     readable (inputBuffer c) = []"
proof -
  let ?c = "update_chan enableReading ((new_connection 0 sockfd False)\<lparr>state := kConnected\<rparr>)"
  have "connectEstablished net (\<lambda>_ _. []) True (new_connection 0 sockfd False) =
      Inr (?c\<lparr>effects := effects ?c @ [UserCallback ConnectionCallback True]\<rparr>)"
    by (simp add: connectEstablished_def in_loop_thread_def call_user_def connected_def new_connection_def update_chan_def Let_def)
  moreover have "sending (?c\<lparr>effects := effects ?c @ [UserCallback ConnectionCallback True]\<rparr>)"
    using conn_inv_new [of 0 sockfd False]
    by (simp add: sending_def conn_inv_def update_chan_def) (simp add: new_connection_def)
  ultimately show ?thesis by (auto simp: established_connection_def update_chan_def new_connection_def readable_new_buffer)
qed

lemma new_link_ok:
  assumes "new_link net sockfd sockfd' = Inr L0"
  shows "link_ok h h' rt svcs spec L0 new_streams new_world"
proof -
  from link_end_established [of net sockfd] link_end_established [of net sockfd'] assms have "link_refines L0 new_streams"
    by (auto simp: new_link_def link_refines_def new_streams_def same_end_def peer_ok_def underway_def wf_new_buffer
        readable_new_buffer setConnection_def new_rpc_channel_def)
  then show ?thesis using stream_here stands_for_new rpc_inv_new unfolding link_ok_def by blast
qed

lemma link_reaches_ok:
  assumes "link_reaches h h' rt net svcs spec L L'" and "link_ok h h' rt svcs spec L v w"
    and svcs: "\<And>s. svcs s \<noteq> Some None" and err: "errors_carried rt" and wr: "write_ok net"
  shows "\<exists>v' w'. link_ok h h' rt svcs spec L' v' w'"
  using assms(1,2)
proof (induction rule: link_reaches.induct)
  case (link_next L L1 e L2)
  from link_next.IH [OF link_next.prems] obtain v1 w1 where "link_ok h h' rt svcs spec L1 v1 w1" by blast
  from link_step_ok [OF this svcs err wr link_next.hyps(2)] link_next.hyps(3) show ?case by auto
qed blast

lemma link_quiet_streams:
  assumes "link_refines L v"
  shows "link_quiet L \<longleftrightarrow> all_quiet v"
  using link_refinesD(4-7,11) [OF assms] underway_in_flight by (auto simp: link_quiet_def all_quiet_def)

subsection \<open>Everything is delivered\<close>

lemma wf_link_nearer: "wfP link_nearer"
proof -
  let ?m = "\<lambda>(L, v, w). (work w, length (to_far v @ to_near v), unwritten L)"
  have "link_nearer p q \<Longrightarrow> (?m p, ?m q) \<in> less_than <*lex*> less_than <*lex*> less_than" for p q
    by (cases p; cases q) (auto simp: link_nearer_def nearer_end_def)
  then have "{(p, q). link_nearer p q} \<subseteq> inv_image (less_than <*lex*> less_than <*lex*> less_than) ?m" by auto
  then show ?thesis unfolding wfp_def by (rule wf_subset [rotated]) (intro wf_inv_image wf_lex_prod wf_less_than)
qed

lemma sending_writes: "sending c \<Longrightarrow> readable (outputBuffer c) \<noteq> [] \<Longrightarrow> isWriting (chan c)"
  by (simp add: sending_def conn_inv_def)

lemma link_can_step:
  assumes r: "link_refines L v" and q: "\<not> link_quiet L" and "answers_exist rt spec"
  shows "\<exists>e. link_enabled rt spec L e \<and> (\<nexists>s m r. e = LinkCall s m r)"
proof -
  let ?c = "client_end L" and ?s = "server_end L"
  consider "in_flight ?c ?s \<noteq> []" | "in_flight ?s ?c \<noteq> []" | "readable (outputBuffer (tcp ?c)) \<noteq> []"
    | "readable (outputBuffer (tcp ?s)) \<noteq> []" | "0 < length (working (rpc ?s))"
    using q by (auto simp: link_quiet_def)
  then show ?thesis
  proof cases
    case 1
    then have "link_enabled rt spec L (ServerReadable (length (in_flight ?c ?s)))" by simp
    then show ?thesis by blast
  next
    case 2
    then have "link_enabled rt spec L (ClientReadable (length (in_flight ?s ?c)))" by simp
    then show ?thesis by blast
  next
    case 3
    then have "link_enabled rt spec L ClientWritable" using sending_writes [OF link_refinesD(8) [OF r]] by simp
    then show ?thesis by blast
  next
    case 4
    then have "link_enabled rt spec L ServerWritable" using sending_writes [OF link_refinesD(9) [OF r]] by simp
    then show ?thesis by blast
  next
    case 5
    let ?r = "working (rpc ?s) ! 0"
    obtain bs where "spec (run_service ?r) (run_method ?r) (run_request ?r) bs" "carried rt (reply_to (run_id ?r) (Some bs) None)"
      using assms(3) by blast
    with 5 have "link_enabled rt spec L (LinkFinish 0 bs)" by (simp add: Let_def)
    then show ?thesis by blast
  qed
qed

lemma link_reaches_trans:
  "link_reaches h h' rt net svcs spec b c \<Longrightarrow> link_reaches h h' rt net svcs spec a b \<Longrightarrow> link_reaches h h' rt net svcs spec a c"
  by (induction rule: link_reaches.induct) (auto intro: link_next)

lemma link_settles:
  assumes "link_ok h h' rt svcs spec L v w" and svcs: "\<And>s. svcs s \<noteq> Some None" and err: "errors_carried rt"
    and wr: "write_ok net" and eager: "eager net" and spec: "answers_exist rt spec"
  shows "\<exists>L'. link_reaches h h' rt net svcs spec L L' \<and> link_quiet L' \<and> link_calls L' = link_calls L"
  using assms(1)
proof (induction "(L, v, w)" arbitrary: L v w rule: wfp_induct_rule [OF wf_link_nearer])
  case (1 L v w)
  show ?case
  proof (cases "link_quiet L")
    case True
    then show ?thesis using link_here by blast
  next
    case False
    have r: "link_refines L v" using "1.prems" by (simp add: link_ok_def)
    from link_can_step [OF r False spec] obtain e where e: "link_enabled rt spec L e" "\<nexists>s m r. e = LinkCall s m r" by blast
    from link_step_ok [OF "1.prems" svcs err wr e(1)] e(2) eager obtain L1 v1 w1 where
      s1: "link_step h h' rt net svcs e L = Inr L1" "link_ok h h' rt svcs spec L1 v1 w1"
        "link_nearer (L1, v1, w1) (L, v, w)" by blast
    from "1.hyps" [OF s1(3,2)] obtain L' where
      L': "link_reaches h h' rt net svcs spec L1 L'" "link_quiet L'" "link_calls L' = link_calls L1" by blast
    have "link_calls L1 = link_calls L" using s1(3) by (simp add: link_nearer_def)
    with L' link_reaches_trans [OF L'(1) link_next [OF link_here e(1) s1(1)]] show ?thesis by auto
  qed
qed

text \<open>A run without new calls.\<close>

abbreviation endless_link ::
  "host_order \<Rightarrow> host_order \<Rightarrow> ('d, 'm) rpc_runtime \<Rightarrow> net \<Rightarrow> service_map \<Rightarrow> response_spec \<Rightarrow> rpc_link \<Rightarrow> (nat \<Rightarrow> rpc_link) \<Rightarrow> bool"
where
  "endless_link h h' rt net svcs spec L f \<equiv> f 0 = L \<and> (\<forall>i. \<exists>e. link_enabled rt spec (f i) e \<and>
     (\<nexists>s m r. e = LinkCall s m r) \<and> link_step h h' rt net svcs e (f i) = Inr (f (Suc i)))"

lemma no_endless_link:
  assumes "link_ok h h' rt svcs spec L v w" and svcs: "\<And>s. svcs s \<noteq> Some None" and err: "errors_carried rt"
    and wr: "write_ok net" and eager: "eager net"
  shows "\<nexists>f. endless_link h h' rt net svcs spec L f"
  using assms(1)
proof (induction "(L, v, w)" arbitrary: L v w rule: wfp_induct_rule [OF wf_link_nearer])
  case (1 L v w)
  show ?case
  proof
    assume "\<exists>f. endless_link h h' rt net svcs spec L f"
    then obtain f where f: "f 0 = L" "\<And>i. \<exists>e. link_enabled rt spec (f i) e \<and> (\<nexists>s m r. e = LinkCall s m r) \<and>
      link_step h h' rt net svcs e (f i) = Inr (f (Suc i))" by blast
    from f(2) [of 0] obtain e where e: "link_enabled rt spec L e" "\<nexists>s m r. e = LinkCall s m r"
      "link_step h h' rt net svcs e L = Inr (f 1)" unfolding f(1) by auto
    from link_step_ok [OF "1.prems" svcs err wr e(1)] e(2,3) eager obtain v1 w1 where
      s1: "link_ok h h' rt svcs spec (f 1) v1 w1" "link_nearer (f 1, v1, w1) (L, v, w)" by auto
    have "\<exists>g. endless_link h h' rt net svcs spec (f 1) g"
      by (rule exI [where x = "\<lambda>i. f (Suc i)"]) (use f(2) in simp)
    with "1.hyps" [OF s1(2,1)] show False by (rule notE)
  qed
qed

subsection \<open>Properties\<close>

text \<open>C3: Remote procedure calls work from channel to channel over two established connections with their
  buffers, whatever pieces the kernels write and read: however calls, answers of the services and the
  readiness of the two sockets interleave, on hosts of any byte orders, no step fails; the two ends are
  always in a state that the two ends on plain byte streams reach, with the bytes accepted by one
  connection and not read by the other on the way; each call is answered at most once, with an answer
  to that very request, and all are answered when both kernels and output buffers are empty and no
  service is at work.\<close>

theorem rpc_over_connections:
  assumes "new_link net sockfd sockfd' = Inr L0" and "link_reaches h h' rt net svcs spec L0 L"
    and "\<And>s. svcs s \<noteq> Some None" and "\<forall>i e. carried rt (reply_to i None (Some e))" and "write_ok net"
  shows "(\<exists>v. stream_reaches h h' rt svcs spec new_streams v \<and> channel (near v) = rpc (client_end L) \<and>
      channel (far v) = rpc (server_end L) \<and> made v = link_calls L \<and> (all_quiet v \<longleftrightarrow> link_quiet L) \<and>
      to_far v = in_flight (client_end L) (server_end L) @ readable (outputBuffer (tcp (client_end L))) \<and>
      to_near v = in_flight (server_end L) (client_end L) @ readable (outputBuffer (tcp (server_end L)))) \<and>
    (\<exists>ans. happened (rpc (client_end L)) = concat (map deliver ans) \<and> distinct (map fst ans) \<and>
      (\<forall>(i, a) \<in> set ans. 1 \<le> i \<and> i \<le> length (link_calls L) \<and> right_answer svcs spec (link_calls L ! (i - 1)) a) \<and>
      (link_quiet L \<longrightarrow> set (map fst ans) = {1..length (link_calls L)})) \<and>
    (\<forall>e. link_enabled rt spec L e \<longrightarrow> (\<exists>L'. link_step h h' rt net svcs e L = Inr L'))"
proof -
  from link_reaches_ok [OF assms(2) new_link_ok [OF assms(1)] assms(3-5)] obtain v w where
    ok: "link_ok h h' rt svcs spec L v w" by blast
  then obtain ans where k: "link_refines L v" "stream_reaches h h' rt svcs spec new_streams v" "stands_for rt w v"
    "rpc_inv svcs spec ans w" by (auto simp: link_ok_def)
  note D = link_refinesD [OF k(1)]
  have "to_far v = in_flight (client_end L) (server_end L) @ readable (outputBuffer (tcp (client_end L)))"
    "to_near v = in_flight (server_end L) (client_end L) @ readable (outputBuffer (tcp (server_end L)))"
    using D(4,5) underway_in_flight [OF D(6)] underway_in_flight [OF D(7)] by simp_all
  moreover have "\<forall>e. link_enabled rt spec L e \<longrightarrow> (\<exists>L'. link_step h h' rt net svcs e L = Inr L')"
    using link_step_ok [OF ok assms(3-5)] by blast
  ultimately show ?thesis
    using streams_answered [OF k(3,4)] k(2) D(3,10,11) link_quiet_streams [OF k(1)] by auto
qed

lemma say_call_link:
  "\<exists>L0 L. new_link slow_net 5 6 = Inr L0 \<and>
     link_reaches LittleEndian BigEndian say_runtime slow_net echo_services say_spec L0 L \<and>
     link_calls L = [(''echo'', ''say'', [7])]"
proof -
  obtain L0 where L0: "new_link slow_net 5 6 = Inr L0"
    using link_end_established [of slow_net 5] link_end_established [of slow_net 6] by (auto simp: new_link_def)
  then have none: "link_calls L0 = []" by (auto simp: new_link_def and_then_Inr_iff)
  have "request_of 1 (''echo'', ''say'', [7]) = say_request 1 [7]" by (simp add: request_of_def say_request_def)
  then have en: "link_enabled say_runtime say_spec L0 (LinkCall ''echo'' ''say'' [7])"
    using carried_say(1) [of "[7]" 1] by (simp add: none)
  have err: "errors_carried say_runtime" by (simp add: carried_say(3))
  from link_step_ok [OF new_link_ok [OF L0] _ err write_ok_slow_net en, of echo_services LittleEndian BigEndian]
    echo_services_nonnull obtain L where L: "link_step LittleEndian BigEndian say_runtime slow_net echo_services (LinkCall ''echo'' ''say'' [7]) L0 = Inr L"
    by blast
  then have "link_calls L = [(''echo'', ''say'', [7])]" by (auto simp: and_then_Inr_iff Let_def none)
  with L0 link_next [OF link_here en L] show ?thesis by blast
qed

lemma eager_slow_net: "eager slow_net"
  by (auto simp: eager_def slow_net_def)

theorem rpc_over_connections_witness:
  "\<exists>L0 L. new_link slow_net 5 6 = Inr L0 \<and>
     link_reaches LittleEndian BigEndian say_runtime slow_net echo_services say_spec L0 L \<and>
     link_calls L = [(''echo'', ''say'', [7])] \<and>
     (\<exists>ans. happened (rpc (client_end L)) = concat (map deliver ans) \<and> set (map fst ans) = {1})"
proof -
  have err: "errors_carried say_runtime" by (simp add: carried_say(3))
  from say_call_link obtain L0 L where
    L: "new_link slow_net 5 6 = Inr L0" "link_reaches LittleEndian BigEndian say_runtime slow_net echo_services say_spec L0 L"
      "link_calls L = [(''echo'', ''say'', [7])]" by blast
  from link_reaches_ok [OF L(2) new_link_ok [OF L(1)] echo_services_nonnull err write_ok_slow_net] obtain v w where
    "link_ok LittleEndian BigEndian say_runtime echo_services say_spec L v w" by blast
  from link_settles [OF this echo_services_nonnull err write_ok_slow_net eager_slow_net say_answers_exist] L(3) obtain L' where
    L': "link_reaches LittleEndian BigEndian say_runtime slow_net echo_services say_spec L L'" "link_quiet L'"
      "link_calls L' = [(''echo'', ''say'', [7])]" by auto
  note r = link_reaches_trans [OF L'(1) L(2)]
  from rpc_over_connections [OF L(1) r echo_services_nonnull err write_ok_slow_net, THEN conjunct2, THEN conjunct1] L'(2,3) have
    "\<exists>ans. happened (rpc (client_end L')) = concat (map deliver ans) \<and> set (map fst ans) = {1}" by auto
  with r L(1) L'(3) show ?thesis by blast
qed

text \<open>C24: When the kernels write at least a byte whenever a socket is writable and the services
  answer, then from every state of the two ends no endless sequence of reads, writes and answers
  without a new call is possible, and some sequence of them ends with nothing on the way and every
  call answered.\<close>

theorem rpc_over_connections_completes:
  assumes "new_link net sockfd sockfd' = Inr L0" and "link_reaches h h' rt net svcs spec L0 L"
    and "\<And>s. svcs s \<noteq> Some None" and "\<forall>i e. carried rt (reply_to i None (Some e))" and "write_ok net" and "eager net"
    and "\<forall>s m r i. \<exists>bs. spec s m r bs \<and> carried rt (reply_to i (Some bs) None)"
  shows "(\<exists>L'. link_reaches h h' rt net svcs spec L L' \<and> link_quiet L' \<and> link_calls L' = link_calls L) \<and>
    (\<nexists>f. f 0 = L \<and> (\<forall>i. \<exists>e. link_enabled rt spec (f i) e \<and> (\<nexists>s m r. e = LinkCall s m r) \<and>
       link_step h h' rt net svcs e (f i) = Inr (f (Suc i))))"
proof -
  from link_reaches_ok [OF assms(2) new_link_ok [OF assms(1)] assms(3-5)] obtain v w where
    ok: "link_ok h h' rt svcs spec L v w" by blast
  show ?thesis using link_settles [OF ok assms(3-7)] no_endless_link [OF ok assms(3-6)] by blast
qed

theorem rpc_over_connections_completes_witness:
  "\<exists>L0 L. new_link slow_net 5 6 = Inr L0 \<and>
     link_reaches LittleEndian BigEndian say_runtime slow_net echo_services say_spec L0 L \<and>
     link_quiet L \<and> link_calls L = [(''echo'', ''say'', [7])]"
proof -
  have err: "errors_carried say_runtime" by (simp add: carried_say(3))
  from say_call_link obtain L0 L where
    L: "new_link slow_net 5 6 = Inr L0" "link_reaches LittleEndian BigEndian say_runtime slow_net echo_services say_spec L0 L"
      "link_calls L = [(''echo'', ''say'', [7])]" by blast
  from rpc_over_connections_completes [OF L(1,2) echo_services_nonnull err write_ok_slow_net eager_slow_net say_answers_exist,
      THEN conjunct1] link_reaches_trans [OF _ L(2)] L(1,3) show ?thesis by fastforce
qed

end
