(* ===== verification/SocketCalls.thy ===== *)
theory SocketCalls
  imports Sockets
begin

section \<open>The system calls of the socket wrappers and of a loop's descriptors\<close>

text \<open>
  \<open>Sockets\<close> has the wrappers of SocketsOps.cc, Socket.cc and Acceptor.cc as functions of what the
  system calls returned. Here they, and the constructors of \<open>EventLoop\<close> and \<open>TimerQueue\<close>, make the
  calls, with their arguments and in their order, on a kernel that is a parameter: one function for
  each call, from the kernel's state to the result and the new state. What \<open>documented\<close> says of
  these functions is what the manual pages say of a process that is alone with its descriptors.
\<close>

unbundle bit_operations_syntax

subsection \<open>The calls\<close>

datatype fcntl_command = F_GETFL | F_SETFL u32 | F_GETFD | F_SETFD u32

datatype socket_option = SO_REUSEADDR | TCP_NODELAY

record 'k kernel =
  sys_socket :: "u32 \<Rightarrow> 'k \<Rightarrow> int \<times> 'k"
  sys_fcntl :: "int \<Rightarrow> fcntl_command \<Rightarrow> 'k \<Rightarrow> u32 \<times> 'k"
  sys_setsockopt :: "int \<Rightarrow> socket_option \<Rightarrow> int \<Rightarrow> 'k \<Rightarrow> int \<times> 'k"
  sys_bind :: "int \<Rightarrow> sockaddr_in \<Rightarrow> 'k \<Rightarrow> int \<times> 'k"
  sys_listen :: "int \<Rightarrow> int \<Rightarrow> 'k \<Rightarrow> int \<times> 'k"
  sys_accept4 :: "int \<Rightarrow> u32 \<Rightarrow> 'k \<Rightarrow> (int \<times> int \<times> sockaddr_in) \<times> 'k"
  sys_connect :: "int \<Rightarrow> sockaddr_in \<Rightarrow> 'k \<Rightarrow> int \<times> 'k"
  sys_shutdown_write :: "int \<Rightarrow> 'k \<Rightarrow> int \<times> 'k"
  sys_close :: "int \<Rightarrow> 'k \<Rightarrow> int \<times> 'k"
  sys_eventfd :: "u32 \<Rightarrow> u32 \<Rightarrow> 'k \<Rightarrow> int \<times> 'k"
  sys_timerfd_create :: "u32 \<Rightarrow> u32 \<Rightarrow> 'k \<Rightarrow> int \<times> 'k"

text \<open>Constants of the Linux headers.\<close>

definition O_NONBLOCK :: u32 where "O_NONBLOCK = 2048"
definition FD_CLOEXEC :: u32 where "FD_CLOEXEC = 1"
definition SOCK_STREAM :: u32 where "SOCK_STREAM = 1"
definition SOCK_NONBLOCK :: u32 where "SOCK_NONBLOCK = 2048"
definition SOCK_CLOEXEC :: u32 where "SOCK_CLOEXEC = 524288"
definition EFD_NONBLOCK :: u32 where "EFD_NONBLOCK = 2048"
definition EFD_CLOEXEC :: u32 where "EFD_CLOEXEC = 524288"
definition TFD_NONBLOCK :: u32 where "TFD_NONBLOCK = 2048"
definition TFD_CLOEXEC :: u32 where "TFD_CLOEXEC = 524288"
definition CLOCK_MONOTONIC :: u32 where "CLOCK_MONOTONIC = 1"
definition SOMAXCONN :: int where "SOMAXCONN = 128"

subsection \<open>The wrappers\<close>

definition setNonBlockingAndCloseOnExec :: "'k kernel \<Rightarrow> int \<Rightarrow> 'k \<Rightarrow> 'k" where
  "setNonBlockingAndCloseOnExec K sockfd k =
     (let (flags, k) = sys_fcntl K sockfd F_GETFL k;
          (_, k) = sys_fcntl K sockfd (F_SETFL (flags OR O_NONBLOCK)) k;
          (flags, k) = sys_fcntl K sockfd F_GETFD k;
          (_, k) = sys_fcntl K sockfd (F_SETFD (flags OR FD_CLOEXEC)) k
      in k)"

definition call_createNonblockingOrDie :: "'k kernel \<Rightarrow> 'k \<Rightarrow> (int \<times> 'k) result" where
  "call_createNonblockingOrDie K k =
     (let (sockfd, k) = sys_socket K (SOCK_STREAM OR SOCK_NONBLOCK OR SOCK_CLOEXEC) k
      in and_then (createNonblockingOrDie sockfd) (\<lambda>_. Inr (sockfd, setNonBlockingAndCloseOnExec K sockfd k)))"

definition call_connect :: "'k kernel \<Rightarrow> int \<Rightarrow> sockaddr_in \<Rightarrow> 'k \<Rightarrow> int \<times> 'k" where
  "call_connect K sockfd addr k = sys_connect K sockfd addr k"

definition call_bindOrDie :: "'k kernel \<Rightarrow> int \<Rightarrow> sockaddr_in \<Rightarrow> 'k \<Rightarrow> 'k result" where
  "call_bindOrDie K sockfd addr k =
     (let (ret, k) = sys_bind K sockfd addr k in and_then (bindOrDie ret) (\<lambda>_. Inr k))"

definition call_listenOrDie :: "'k kernel \<Rightarrow> int \<Rightarrow> 'k \<Rightarrow> 'k result" where
  "call_listenOrDie K sockfd k =
     (let (ret, k) = sys_listen K sockfd SOMAXCONN k in and_then (listenOrDie ret) (\<lambda>_. Inr k))"

definition call_accept :: "'k kernel \<Rightarrow> int \<Rightarrow> 'k \<Rightarrow> (int \<times> sockaddr_in \<times> 'k) result" where
  "call_accept K sockfd k =
     (let ((connfd, saveError, addr), k) = sys_accept4 K sockfd (SOCK_CLOEXEC OR SOCK_NONBLOCK) k
      in and_then (sockets_accept connfd saveError) (\<lambda>connfd. Inr (connfd, addr, k)))"

definition call_close :: "'k kernel \<Rightarrow> int \<Rightarrow> 'k \<Rightarrow> 'k result" where
  "call_close K sockfd k = (let (ret, k) = sys_close K sockfd k in and_then (sockets_close ret) (\<lambda>_. Inr k))"

text \<open>A failure of \<open>shutdown\<close> is only logged.\<close>

definition call_shutdownWrite :: "'k kernel \<Rightarrow> int \<Rightarrow> 'k \<Rightarrow> 'k" where
  "call_shutdownWrite K sockfd k = (let (ret, k) = sys_shutdown_write K sockfd k in k)"

subsection \<open>The class Socket\<close>

definition destroy_socket :: "'k kernel \<Rightarrow> int \<Rightarrow> 'k \<Rightarrow> 'k result" where
  "destroy_socket K sockfd k = call_close K sockfd k"

definition socket_bindAddress :: "'k kernel \<Rightarrow> int \<Rightarrow> sockaddr_in \<Rightarrow> 'k \<Rightarrow> 'k result" where
  "socket_bindAddress K sockfd localaddr k = call_bindOrDie K sockfd localaddr k"

definition socket_listen :: "'k kernel \<Rightarrow> int \<Rightarrow> 'k \<Rightarrow> 'k result" where
  "socket_listen K sockfd k = call_listenOrDie K sockfd k"

definition socket_accept :: "'k kernel \<Rightarrow> int \<Rightarrow> sockaddr_in \<Rightarrow> 'k \<Rightarrow> (int \<times> sockaddr_in \<times> 'k) result" where
  "socket_accept K sockfd peeraddr k =
     and_then (call_accept K sockfd k) (\<lambda>(connfd, addr, k). Inr (connfd, if 0 \<le> connfd then addr else peeraddr, k))"

definition socket_setReuseAddr :: "'k kernel \<Rightarrow> int \<Rightarrow> bool \<Rightarrow> 'k \<Rightarrow> 'k" where
  "socket_setReuseAddr K sockfd on k = snd (sys_setsockopt K sockfd SO_REUSEADDR (if on then 1 else 0) k)"

definition socket_shutdownWrite :: "'k kernel \<Rightarrow> int \<Rightarrow> 'k \<Rightarrow> 'k" where
  "socket_shutdownWrite K sockfd k = call_shutdownWrite K sockfd k"

definition socket_setTcpNoDelay :: "'k kernel \<Rightarrow> int \<Rightarrow> bool \<Rightarrow> 'k \<Rightarrow> 'k" where
  "socket_setTcpNoDelay K sockfd on k = snd (sys_setsockopt K sockfd TCP_NODELAY (if on then 1 else 0) k)"

text \<open>\<open>TcpConnection::setTcpNoDelay\<close>, on the socket of the connection.\<close>

definition connection_setTcpNoDelay :: "'k kernel \<Rightarrow> int \<Rightarrow> bool \<Rightarrow> 'k \<Rightarrow> 'k" where
  "connection_setTcpNoDelay K sockfd on k = socket_setTcpNoDelay K sockfd on k"

subsection \<open>A loop's descriptors\<close>

text \<open>
  What the constructor of \<open>EventLoop\<close> asks of the kernel: the timer queue's descriptor and then the one
  for wakeups. Failing to get one ends the process, and so does a loop the thread has already. The
  result is \<open>timerfd_\<close> and \<open>wakeupFd_\<close>; the loop's other members are those of \<open>EventLoop\<close> and \<open>TimerQueue\<close>.
\<close>

definition createTimerfd :: "'k kernel \<Rightarrow> 'k \<Rightarrow> (int \<times> 'k) result" where
  "createTimerfd K k =
     (let (timerfd, k) = sys_timerfd_create K CLOCK_MONOTONIC (TFD_NONBLOCK OR TFD_CLOEXEC) k
      in require (0 \<le> timerfd) (Fatal ''Failed in timerfd_create'') (Inr (timerfd, k)))"

definition createEventfd :: "'k kernel \<Rightarrow> 'k \<Rightarrow> (int \<times> 'k) result" where
  "createEventfd K k =
     (let (evtfd, k) = sys_eventfd K 0 (EFD_NONBLOCK OR EFD_CLOEXEC) k
      in require (0 \<le> evtfd) (Fatal ''Failed in eventfd'') (Inr (evtfd, k)))"

definition call_new_event_loop :: "'k kernel \<Rightarrow> bool \<Rightarrow> 'k \<Rightarrow> ((int \<times> int) \<times> 'k) result" where
  "call_new_event_loop K thread_has_loop k =
     and_then (createTimerfd K k) (\<lambda>(timerfd, k).
     and_then (createEventfd K k) (\<lambda>(wakeupFd, k).
       require (\<not> thread_has_loop) (Fatal ''Another EventLoop exists in this thread'') (Inr ((timerfd, wakeupFd), k))))"

subsection \<open>The acceptor\<close>

definition call_new_acceptor :: "'k kernel \<Rightarrow> nat \<Rightarrow> sockaddr_in \<Rightarrow> 'k \<Rightarrow> (acceptor \<times> 'k) result" where
  "call_new_acceptor K this_loop listenAddr k =
     and_then (call_createNonblockingOrDie K k) (\<lambda>(sd, k).
     and_then (socket_bindAddress K sd listenAddr (socket_setReuseAddr K sd True k)) (\<lambda>k.
       Inr (\<lparr>acceptSocket = sd, acceptChannel = (new_channel this_loop sd)\<lparr>readCallback := True\<rparr>,
           newConnectionCallback = False, listening = False\<rparr>, k)))"

definition call_acceptor_listen :: "'k kernel \<Rightarrow> bool \<Rightarrow> acceptor \<Rightarrow> 'k \<Rightarrow> (acceptor \<times> 'k) result" where
  "call_acceptor_listen K in_loop a k =
     require in_loop (Fatal ''EventLoop::abortNotInLoopThread'')
       (and_then (socket_listen K (acceptSocket a) k) (\<lambda>k.
          Inr (a\<lparr>listening := True, acceptChannel := enableReading (acceptChannel a)\<rparr>, k)))"

definition call_acceptor_handleRead :: "'k kernel \<Rightarrow> host_order \<Rightarrow> acceptor \<Rightarrow> 'k \<Rightarrow> (accept_outcome \<times> 'k) result" where
  "call_acceptor_handleRead K h a k =
     and_then (socket_accept K (acceptSocket a) (InetAddress_port h 0) k) (\<lambda>(connfd, peeraddr, k).
       if 0 \<le> connfd then
         if newConnectionCallback a then Inr (NewConnection connfd peeraddr, k)
         else and_then (call_close K connfd k) (\<lambda>k. Inr (CloseConnection connfd, k))
       else Inr (NothingAccepted, k))"

subsection \<open>What the manual pages say\<close>

text \<open>
  An open descriptor as far as these programs can tell; \<open>look\<close> finds it in the kernel's state.
  \<open>F_SETFL\<close> changes the flags in \<open>settable\<close>, of which \<open>O_NONBLOCK\<close> is one, and ignores the others.
  The laws of the calls are those for sockets.
\<close>

datatype file_kind = SocketFile | EventFile | TimerFile

record open_file =
  kind :: file_kind
  status :: u32
  descriptor_flags :: u32
  reuse :: bool
  nodelay :: bool
  bound :: "sockaddr_in option"
  backlog :: "int option"
  write_open :: bool

definition fresh_socket :: "u32 \<Rightarrow> open_file" where
  "fresh_socket flags = \<lparr>kind = SocketFile, status = 2 OR (if flags AND SOCK_NONBLOCK \<noteq> 0 then O_NONBLOCK else 0),
     descriptor_flags = (if flags AND SOCK_CLOEXEC \<noteq> 0 then FD_CLOEXEC else 0), reuse = False, nodelay = False, bound = None,
     backlog = None, write_open = True\<rparr>"

text \<open>The flags of \<open>eventfd\<close> and \<open>timerfd_create\<close> have the values of those of \<open>socket\<close>.\<close>

definition fresh_file :: "file_kind \<Rightarrow> u32 \<Rightarrow> open_file" where
  "fresh_file kd flags = (fresh_socket flags)\<lparr>kind := kd\<rparr>"

text \<open>A call that makes a descriptor gives a free one, and leaves the others alone.\<close>

definition makes_file :: "('k \<Rightarrow> int \<Rightarrow> open_file option) \<Rightarrow> ('k \<Rightarrow> int \<times> 'k) \<Rightarrow> open_file \<Rightarrow> bool" where
  "makes_file look call file \<longleftrightarrow> (\<forall>k fd k'. call k = (fd, k') \<longrightarrow>
     (if 0 \<le> fd then look k fd = None \<and> look k' = (look k)(fd \<mapsto> file) else look k' = look k))"

definition socket_laws ::
  "'k kernel \<Rightarrow> ('k \<Rightarrow> int \<Rightarrow> open_file option) \<Rightarrow> u32 \<Rightarrow> 'k \<Rightarrow> int \<Rightarrow> open_file \<Rightarrow> bool" where
  "socket_laws K look settable k sd d \<longleftrightarrow>
     (\<exists>k'. sys_fcntl K sd F_GETFL k = (status d, k') \<and> look k' = look k) \<and>
     (\<exists>k'. sys_fcntl K sd F_GETFD k = (descriptor_flags d, k') \<and> look k' = look k) \<and>
     (\<forall>v. look (snd (sys_fcntl K sd (F_SETFL v) k)) =
        (look k)(sd \<mapsto> d\<lparr>status := (status d AND NOT settable) OR (v AND settable)\<rparr>)) \<and>
     (\<forall>v. look (snd (sys_fcntl K sd (F_SETFD v) k)) = (look k)(sd \<mapsto> d\<lparr>descriptor_flags := v\<rparr>)) \<and>
     (\<forall>v. look (snd (sys_setsockopt K sd SO_REUSEADDR v k)) = (look k)(sd \<mapsto> d\<lparr>reuse := v \<noteq> 0\<rparr>)) \<and>
     (\<forall>v. look (snd (sys_setsockopt K sd TCP_NODELAY v k)) = (look k)(sd \<mapsto> d\<lparr>nodelay := v \<noteq> 0\<rparr>)) \<and>
     (\<forall>a ret k'. sys_bind K sd a k = (ret, k') \<longrightarrow>
        look k' = (if 0 \<le> ret then (look k)(sd \<mapsto> d\<lparr>bound := Some a\<rparr>) else look k)) \<and>
     (\<forall>n ret k'. sys_listen K sd n k = (ret, k') \<longrightarrow>
        look k' = (if 0 \<le> ret then (look k)(sd \<mapsto> d\<lparr>backlog := Some n\<rparr>) else look k)) \<and>
     (\<forall>ty connfd err a k'. sys_accept4 K sd ty k = ((connfd, err, a), k') \<longrightarrow>
        (if 0 \<le> connfd then look k connfd = None \<and> (\<exists>here. look k' = (look k)(connfd \<mapsto> (fresh_socket ty)\<lparr>bound := Some here\<rparr>))
         else look k' = look k)) \<and>
     (\<exists>k'. sys_close K sd k = (0, k') \<and> look k' = (look k)(sd := None)) \<and>
     (\<forall>ret k'. sys_shutdown_write K sd k = (ret, k') \<longrightarrow>
        look k' = (if 0 \<le> ret then (look k)(sd \<mapsto> d\<lparr>write_open := False\<rparr>) else look k))"

definition documented :: "'k kernel \<Rightarrow> ('k \<Rightarrow> int \<Rightarrow> open_file option) \<Rightarrow> u32 \<Rightarrow> bool" where
  "documented K look settable \<longleftrightarrow> settable AND O_NONBLOCK = O_NONBLOCK \<and>
     (\<forall>ty. makes_file look (sys_socket K ty) (fresh_socket ty)) \<and>
     (\<forall>start flags. makes_file look (sys_eventfd K start flags) (fresh_file EventFile flags)) \<and>
     (\<forall>clock flags. makes_file look (sys_timerfd_create K clock flags) (fresh_file TimerFile flags)) \<and>
     (\<forall>k sd d. look k sd = Some d \<longrightarrow> kind d = SocketFile \<longrightarrow> socket_laws K look settable k sd d)"

definition nonblocking :: "open_file \<Rightarrow> bool" where
  "nonblocking d \<longleftrightarrow> status d AND O_NONBLOCK \<noteq> 0"

definition close_on_exec :: "open_file \<Rightarrow> bool" where
  "close_on_exec d \<longleftrightarrow> descriptor_flags d AND FD_CLOEXEC \<noteq> 0"

lemmas flag_defs = O_NONBLOCK_def FD_CLOEXEC_def SOCK_STREAM_def SOCK_NONBLOCK_def SOCK_CLOEXEC_def
  EFD_NONBLOCK_def EFD_CLOEXEC_def TFD_NONBLOCK_def TFD_CLOEXEC_def

subsection \<open>The flags of a descriptor\<close>

lemma documentedD: "documented K look settable \<Longrightarrow> look k sd = Some d \<Longrightarrow> kind d = SocketFile \<Longrightarrow> socket_laws K look settable k sd d"
  unfolding documented_def by blast

lemma documented_fcntl:
  assumes "documented K look settable" and "look k sd = Some d" and "kind d = SocketFile"
  shows "\<exists>k'. sys_fcntl K sd F_GETFL k = (status d, k') \<and> look k' = look k"
    and "\<exists>k'. sys_fcntl K sd F_GETFD k = (descriptor_flags d, k') \<and> look k' = look k"
    and "look (snd (sys_fcntl K sd (F_SETFL v) k)) = (look k)(sd \<mapsto> d\<lparr>status := (status d AND NOT settable) OR (v AND settable)\<rparr>)"
    and "look (snd (sys_fcntl K sd (F_SETFD v) k)) = (look k)(sd \<mapsto> d\<lparr>descriptor_flags := v\<rparr>)"
  using documentedD [OF assms] unfolding socket_laws_def by simp_all

lemma documented_options:
  assumes "documented K look settable" and "look k sd = Some d" and "kind d = SocketFile"
  shows "look (snd (sys_setsockopt K sd SO_REUSEADDR v k)) = (look k)(sd \<mapsto> d\<lparr>reuse := v \<noteq> 0\<rparr>)"
    and "look (snd (sys_setsockopt K sd TCP_NODELAY v k)) = (look k)(sd \<mapsto> d\<lparr>nodelay := v \<noteq> 0\<rparr>)"
    and "sys_bind K sd a k = (ret, k') \<Longrightarrow> look k' = (if 0 \<le> ret then (look k)(sd \<mapsto> d\<lparr>bound := Some a\<rparr>) else look k)"
    and "sys_listen K sd n k = (ret, k') \<Longrightarrow> look k' = (if 0 \<le> ret then (look k)(sd \<mapsto> d\<lparr>backlog := Some n\<rparr>) else look k)"
  using documentedD [OF assms] unfolding socket_laws_def by simp_all

lemma documented_descriptors:
  assumes "documented K look settable" and "look k sd = Some d" and "kind d = SocketFile"
  shows "sys_accept4 K sd ty k = ((connfd, err, a), k') \<Longrightarrow>
      (if 0 \<le> connfd then look k connfd = None \<and> (\<exists>here. look k' = (look k)(connfd \<mapsto> (fresh_socket ty)\<lparr>bound := Some here\<rparr>))
       else look k' = look k)"
    and "\<exists>k'. sys_close K sd k = (0, k') \<and> look k' = (look k)(sd := None)"
    and "sys_shutdown_write K sd k = (ret, k') \<Longrightarrow> look k' = (if 0 \<le> ret then (look k)(sd \<mapsto> d\<lparr>write_open := False\<rparr>) else look k)"
  using documentedD [OF assms] unfolding socket_laws_def by simp_all

lemma documented_socket:
  assumes "documented K look settable" and "sys_socket K ty k = (sd, k')"
  shows "if 0 \<le> sd then look k sd = None \<and> look k' = (look k)(sd \<mapsto> fresh_socket ty) else look k' = look k"
  using assms unfolding documented_def makes_file_def by blast

lemma keep_and_add: "settable AND n = n \<Longrightarrow> (s AND NOT settable) OR ((s OR n) AND settable) = (s OR n :: u32)"
proof (rule bit_word_eqI)
  fix i assume a: "settable AND n = n"
  have "bit n i \<longleftrightarrow> bit settable i \<and> bit n i" by (subst (1) a [symmetric]) (simp add: bit_simps)
  then show "i < LENGTH(32) \<Longrightarrow> bit ((s AND NOT settable) OR ((s OR n) AND settable)) i \<longleftrightarrow> bit (s OR n) i"
    by (auto simp: bit_simps)
qed

text \<open>\<open>setNonBlockingAndCloseOnExec\<close> sets the two flags, keeps the others and touches no other descriptor.\<close>

lemma setNonBlocking_flags:
  assumes K: "documented K look settable" and d: "look k sd = Some d" and s: "kind d = SocketFile"
  shows "look (setNonBlockingAndCloseOnExec K sd k) = (look k)(sd \<mapsto>
    d\<lparr>status := status d OR O_NONBLOCK, descriptor_flags := descriptor_flags d OR FD_CLOEXEC\<rparr>)"
proof -
  have n: "settable AND O_NONBLOCK = O_NONBLOCK" using K by (simp add: documented_def)
  obtain k1 where k1: "sys_fcntl K sd F_GETFL k = (status d, k1)" "look k1 = look k"
    using documented_fcntl(1) [OF K d s] by blast
  define k2 where "k2 = snd (sys_fcntl K sd (F_SETFL (status d OR O_NONBLOCK)) k1)"
  let ?d2 = "d\<lparr>status := status d OR O_NONBLOCK\<rparr>"
  have k2: "look k2 = (look k)(sd \<mapsto> ?d2)"
    using documented_fcntl(3) [OF K, of k1 sd d] d s k1(2) keep_and_add [OF n] by (simp add: k2_def)
  then have d2: "look k2 sd = Some ?d2" by simp
  obtain k3 where k3: "sys_fcntl K sd F_GETFD k2 = (descriptor_flags d, k3)" "look k3 = look k2"
    using documented_fcntl(2) [OF K d2] s by auto
  have "look (snd (sys_fcntl K sd (F_SETFD (descriptor_flags d OR FD_CLOEXEC)) k3)) =
      (look k3)(sd \<mapsto> ?d2\<lparr>descriptor_flags := descriptor_flags d OR FD_CLOEXEC\<rparr>)"
    by (rule documented_fcntl(4) [OF K]) (use d2 k3(2) s in simp_all)
  moreover have "setNonBlockingAndCloseOnExec K sd k = snd (sys_fcntl K sd (F_SETFD (descriptor_flags d OR FD_CLOEXEC)) k3)"
    using k1(1) k3(1) by (simp add: setNonBlockingAndCloseOnExec_def k2_def case_prod_unfold Let_def)
  ultimately show ?thesis using k2 k3(2) by simp
qed

lemma fresh_flags:
  "status (fresh_socket (SOCK_STREAM OR SOCK_NONBLOCK OR SOCK_CLOEXEC)) = 2050"
  "descriptor_flags (fresh_socket (SOCK_STREAM OR SOCK_NONBLOCK OR SOCK_CLOEXEC)) = 1"
  "status (fresh_socket (SOCK_CLOEXEC OR SOCK_NONBLOCK)) = 2050"
  "descriptor_flags (fresh_socket (SOCK_CLOEXEC OR SOCK_NONBLOCK)) = 1"
  by (simp_all add: fresh_socket_def flag_defs)

lemma created_socket:
  assumes K: "documented K look settable" and c: "call_createNonblockingOrDie K k = Inr (sd, k')"
  shows "0 \<le> sd \<and> look k sd = None \<and> look k' = (look k)(sd \<mapsto> \<lparr>kind = SocketFile, status = 2050, descriptor_flags = 1, reuse = False,
    nodelay = False, bound = None, backlog = None, write_open = True\<rparr>)"
proof -
  let ?ty = "SOCK_STREAM OR SOCK_NONBLOCK OR SOCK_CLOEXEC"
  obtain k1 where s: "sys_socket K ?ty k = (sd, k1)" "0 \<le> sd" "k' = setNonBlockingAndCloseOnExec K sd k1"
    using c by (auto simp: call_createNonblockingOrDie_def createNonblockingOrDie_def and_then_Inr_iff require_Inr_iff split: prod.splits)
  have n: "look k sd = None" "look k1 = (look k)(sd \<mapsto> fresh_socket ?ty)" using documented_socket [OF K s(1)] s(2) by simp_all
  have "look k' = (look k1)(sd \<mapsto> (fresh_socket ?ty)\<lparr>status := 2050 OR O_NONBLOCK, descriptor_flags := 1 OR FD_CLOEXEC\<rparr>)"
    using setNonBlocking_flags [OF K, of k1 sd "fresh_socket ?ty"] n(2) unfolding s(3) fresh_flags
    by (simp add: fresh_socket_def)
  moreover have "(fresh_socket ?ty)\<lparr>status := 2050 OR O_NONBLOCK, descriptor_flags := 1 OR FD_CLOEXEC\<rparr> =
      \<lparr>kind = SocketFile, status = 2050, descriptor_flags = 1, reuse = False, nodelay = False, bound = None, backlog = None, write_open = True\<rparr>"
    by (simp add: fresh_socket_def flag_defs)
  ultimately show ?thesis using n s(2) by simp
qed

lemma setTcpNoDelay_option:
  "documented K look settable \<Longrightarrow> look k sd = Some d \<Longrightarrow> kind d = SocketFile \<Longrightarrow>
    look (connection_setTcpNoDelay K sd on k) = (look k)(sd \<mapsto> d\<lparr>nodelay := on\<rparr>)"
  using documented_options(2) [of K look settable k sd d "if on then 1 else 0"]
  by (simp add: connection_setTcpNoDelay_def socket_setTcpNoDelay_def)

subsection \<open>A listening acceptor\<close>

text \<open>The socket of an acceptor that was constructed: a new descriptor, nonblocking, closed on exec, with
  address reuse and bound to the given address; no other descriptor was touched, and the acceptor is
  the one of the model without the calls.\<close>

definition bound_socket :: "sockaddr_in \<Rightarrow> open_file" where
  "bound_socket addr = \<lparr>kind = SocketFile, status = 2050, descriptor_flags = 1, reuse = True, nodelay = False,
     bound = Some addr, backlog = None, write_open = True\<rparr>"

lemma acceptor_socket_bound:
  assumes K: "documented K look settable" and n: "call_new_acceptor K this_loop addr k = Inr (a, k1)"
  shows "look k (acceptSocket a) = None \<and> look k1 = (look k)(acceptSocket a \<mapsto> bound_socket addr) \<and>
    \<not> listening a \<and> (\<exists>sockfd ret. new_acceptor this_loop sockfd ret = Inr a)"
proof -
  obtain sd k0 where c: "call_createNonblockingOrDie K k = Inr (sd, k0)"
    "socket_bindAddress K sd addr (socket_setReuseAddr K sd True k0) = Inr k1"
    "a = \<lparr>acceptSocket = sd, acceptChannel = (new_channel this_loop sd)\<lparr>readCallback := True\<rparr>,
       newConnectionCallback = False, listening = False\<rparr>"
    using n by (auto simp: call_new_acceptor_def and_then_Inr_iff)
  let ?d = "\<lparr>kind = SocketFile, status = 2050, descriptor_flags = 1, reuse = False, nodelay = False, bound = None,
    backlog = None, write_open = True\<rparr>"
  have d0: "0 \<le> sd" "look k sd = None" "look k0 = (look k)(sd \<mapsto> ?d)" using created_socket [OF K c(1)] by simp_all
  let ?k = "socket_setReuseAddr K sd True k0"
  have d1: "look ?k = (look k)(sd \<mapsto> ?d\<lparr>reuse := True\<rparr>)"
    using documented_options(1) [OF K, of k0 sd ?d 1] d0(3) by (simp add: socket_setReuseAddr_def)
  obtain ret where b: "sys_bind K sd addr ?k = (ret, k1)" "0 \<le> ret"
    using c(2) by (auto simp: socket_bindAddress_def call_bindOrDie_def bindOrDie_def and_then_Inr_iff require_Inr_iff split: prod.splits)
  have "look k1 = (look k)(sd \<mapsto> bound_socket addr)"
    using documented_options(3) [OF K _ _ b(1)] d1 b(2) by (simp add: bound_socket_def)
  moreover have "new_acceptor this_loop sd ret = Inr a"
    using d0(1) b(2) c(3) by (simp add: new_acceptor_def createNonblockingOrDie_def Socket_bindAddress_def bindOrDie_def)
  ultimately show ?thesis using d0(2) c(3) by auto
qed

text \<open>\<open>listen\<close> makes it a listening one, and touches no other.\<close>

lemma acceptor_socket_listens:
  assumes K: "documented K look settable" and d: "look k (acceptSocket a) = Some d" "kind d = SocketFile"
    and l: "call_acceptor_listen K in_loop a k = Inr (a', k')"
  shows "look k' = (look k)(acceptSocket a \<mapsto> d\<lparr>backlog := Some SOMAXCONN\<rparr>) \<and> acceptSocket a' = acceptSocket a \<and>
    listening a' \<and> (\<exists>ret. acceptor_listen in_loop ret a = Inr a')"
proof -
  obtain ret where li: "in_loop" "sys_listen K (acceptSocket a) SOMAXCONN k = (ret, k')" "0 \<le> ret"
    "a' = a\<lparr>listening := True, acceptChannel := enableReading (acceptChannel a)\<rparr>"
    using l by (auto simp: call_acceptor_listen_def socket_listen_def call_listenOrDie_def listenOrDie_def and_then_Inr_iff
        require_Inr_iff split: prod.splits)
  have "acceptor_listen in_loop ret a = Inr a'"
    using li by (simp add: acceptor_listen_def Socket_listen_def listenOrDie_def)
  with documented_options(4) [OF K d li(2)] li(3,4) show ?thesis by auto
qed

lemma bound_socket_flags: "nonblocking (bound_socket addr)" "close_on_exec (bound_socket addr)"
  by (simp_all add: bound_socket_def nonblocking_def close_on_exec_def flag_defs)

subsection \<open>The descriptors of loops\<close>

abbreviation timer_file :: open_file where
  "timer_file \<equiv> fresh_file TimerFile (TFD_NONBLOCK OR TFD_CLOEXEC)"

abbreviation wakeup_file :: open_file where
  "wakeup_file \<equiv> fresh_file EventFile (EFD_NONBLOCK OR EFD_CLOEXEC)"

lemma loop_file_flags: "nonblocking timer_file" "close_on_exec timer_file" "nonblocking wakeup_file" "close_on_exec wakeup_file"
  by (simp_all add: fresh_file_def fresh_socket_def nonblocking_def close_on_exec_def flag_defs)

text \<open>A loop takes two free descriptors.\<close>

lemma event_loop_descriptors:
  assumes K: "documented K look settable" and l: "call_new_event_loop K b k = Inr ((timerfd, wakeupFd), k')"
  shows "timerfd \<noteq> wakeupFd \<and> look k timerfd = None \<and> look k wakeupFd = None \<and>
    look k' = (look k)(timerfd \<mapsto> timer_file, wakeupFd \<mapsto> wakeup_file)"
proof -
  obtain k1 where c: "sys_timerfd_create K CLOCK_MONOTONIC (TFD_NONBLOCK OR TFD_CLOEXEC) k = (timerfd, k1)" "0 \<le> timerfd"
    "sys_eventfd K 0 (EFD_NONBLOCK OR EFD_CLOEXEC) k1 = (wakeupFd, k')" "0 \<le> wakeupFd"
    using l by (auto simp: call_new_event_loop_def createTimerfd_def createEventfd_def and_then_Inr_iff require_Inr_iff split: prod.splits)
  have m: "makes_file look (sys_timerfd_create K clock fl) (fresh_file TimerFile fl)"
    "makes_file look (sys_eventfd K start fl) (fresh_file EventFile fl)" for clock fl start
    using K unfolding documented_def by blast+
  have "look k timerfd = None \<and> look k1 = (look k)(timerfd \<mapsto> timer_file)"
    using m(1) c(1,2) unfolding makes_file_def by force
  moreover have "look k1 wakeupFd = None \<and> look k' = (look k1)(wakeupFd \<mapsto> wakeup_file)"
    using m(2) c(3,4) unfolding makes_file_def by force
  ultimately show ?thesis by (auto split: if_splits)
qed

text \<open>A kernel that is the table of its descriptors and the next number, in which every call succeeds.\<close>

definition change :: "int \<Rightarrow> (open_file \<Rightarrow> open_file) \<Rightarrow> int \<times> (int \<Rightarrow> open_file option) \<Rightarrow> int \<times> (int \<Rightarrow> open_file option)" where
  "change sd f k = (fst k, (snd k)(sd := map_option f (snd k sd)))"

definition next_file :: "open_file \<Rightarrow> int \<times> (int \<Rightarrow> open_file option) \<Rightarrow> int \<times> int \<times> (int \<Rightarrow> open_file option)" where
  "next_file d k = (if 0 \<le> fst k \<and> snd k (fst k) = None then (fst k, fst k + 1, (snd k)(fst k \<mapsto> d)) else (-1, k))"

fun table_fcntl :: "int \<Rightarrow> fcntl_command \<Rightarrow> int \<times> (int \<Rightarrow> open_file option) \<Rightarrow> u32 \<times> int \<times> (int \<Rightarrow> open_file option)" where
  "table_fcntl sd F_GETFL k = ((case snd k sd of None \<Rightarrow> -1 | Some d \<Rightarrow> status d), k)"
| "table_fcntl sd (F_SETFL v) k = (0, change sd (\<lambda>d. d\<lparr>status := (status d AND NOT O_NONBLOCK) OR (v AND O_NONBLOCK)\<rparr>) k)"
| "table_fcntl sd F_GETFD k = ((case snd k sd of None \<Rightarrow> -1 | Some d \<Rightarrow> descriptor_flags d), k)"
| "table_fcntl sd (F_SETFD v) k = (0, change sd (\<lambda>d. d\<lparr>descriptor_flags := v\<rparr>) k)"

definition table_kernel :: "(int \<times> (int \<Rightarrow> open_file option)) kernel" where
  "table_kernel = \<lparr>sys_socket = (\<lambda>ty. next_file (fresh_socket ty)), sys_fcntl = table_fcntl,
     sys_setsockopt = (\<lambda>sd opt v k. (0, change sd (\<lambda>d. case opt of SO_REUSEADDR \<Rightarrow> d\<lparr>reuse := v \<noteq> 0\<rparr> | TCP_NODELAY \<Rightarrow> d\<lparr>nodelay := v \<noteq> 0\<rparr>) k)),
     sys_bind = (\<lambda>sd a k. (0, change sd (\<lambda>d. d\<lparr>bound := Some a\<rparr>) k)),
     sys_listen = (\<lambda>sd n k. (0, change sd (\<lambda>d. d\<lparr>backlog := Some n\<rparr>) k)),
     sys_accept4 = (\<lambda>sd ty k. let (connfd, k') = next_file ((fresh_socket ty)\<lparr>bound := Some zero_addr\<rparr>) k in ((connfd, EMFILE, zero_addr), k')),
     sys_connect = (\<lambda>sd a k. (0, k)), sys_shutdown_write = (\<lambda>sd k. (0, change sd (\<lambda>d. d\<lparr>write_open := False\<rparr>) k)),
     sys_close = (\<lambda>sd k. (0, (fst k, (snd k)(sd := None)))),
     sys_eventfd = (\<lambda>start flags. next_file (fresh_file EventFile flags)),
     sys_timerfd_create = (\<lambda>clock flags. next_file (fresh_file TimerFile flags))\<rparr>"

lemma table_kernel_laws: "snd k sd = Some d \<Longrightarrow> socket_laws table_kernel snd O_NONBLOCK k sd d"
  unfolding socket_laws_def by (auto simp: table_kernel_def change_def next_file_def split: if_splits)

lemma table_kernel_documented: "documented table_kernel snd O_NONBLOCK"
  unfolding documented_def using table_kernel_laws
  by (auto simp: makes_file_def) (auto simp: table_kernel_def next_file_def split: if_splits)

text \<open>A connection is accepted with both flags set; without a callback it is closed and nothing is
  leaked, and an error that is passed over leaves everything as it was, the pending connection
  included.\<close>

lemma acceptor_handleRead_descriptors:
  assumes K: "documented K look settable" and a: "look k (acceptSocket a) = Some s" "kind s = SocketFile"
    and r: "call_acceptor_handleRead K h a k = Inr (outcome, k')"
  shows "case outcome of
      NewConnection connfd peer \<Rightarrow> look k connfd = None \<and> (\<exists>d. look k' = (look k)(connfd \<mapsto> d) \<and> nonblocking d \<and> close_on_exec d)
    | CloseConnection connfd \<Rightarrow> look k' = look k
    | NothingAccepted \<Rightarrow> look k' = look k"
proof -
  obtain connfd err addr k1 where acc: "sys_accept4 K (acceptSocket a) (SOCK_CLOEXEC OR SOCK_NONBLOCK) k = ((connfd, err, addr), k1)"
    by (metis prod.collapse)
  have fin: "(if 0 \<le> connfd then
        if newConnectionCallback a then Inr (NewConnection connfd addr, k1)
        else and_then (call_close K connfd k1) (\<lambda>k. Inr (CloseConnection connfd, k))
      else Inr (NothingAccepted, k1)) = Inr (outcome, k')"
    using r acc by (auto simp: call_acceptor_handleRead_def socket_accept_def call_accept_def sockets_accept_def and_then_Inr_iff split: if_splits)
  note d = documented_descriptors(1) [OF K a acc]
  show ?thesis
  proof (cases "0 \<le> connfd")
    case False
    then show ?thesis using d fin by auto
  next
    case True
    with d obtain here where n: "look k connfd = None"
      "look k1 = (look k)(connfd \<mapsto> (fresh_socket (SOCK_CLOEXEC OR SOCK_NONBLOCK))\<lparr>bound := Some here\<rparr>)" by auto
    show ?thesis
    proof (cases "newConnectionCallback a")
      case True
      let ?d = "(fresh_socket (SOCK_CLOEXEC OR SOCK_NONBLOCK))\<lparr>bound := Some here\<rparr>"
      have "nonblocking ?d" "close_on_exec ?d"
        by (simp_all add: nonblocking_def close_on_exec_def fresh_flags) (simp_all add: flag_defs)
      moreover have "outcome = NewConnection connfd addr" "k' = k1" using fin True \<open>0 \<le> connfd\<close> by simp_all
      ultimately show ?thesis using n by auto
    next
      case False
      have "look k1 connfd = Some ((fresh_socket (SOCK_CLOEXEC OR SOCK_NONBLOCK))\<lparr>bound := Some here\<rparr>)" using n(2) by simp
      from documented_descriptors(2) [OF K this] obtain k2 where
        "sys_close K connfd k1 = (0, k2)" "look k2 = (look k1)(connfd := None)" by (auto simp: fresh_socket_def)
      then have "outcome = CloseConnection connfd" "look k' = look k" using fin False \<open>0 \<le> connfd\<close> n
        by (auto simp: call_close_def sockets_close_def)
      then show ?thesis by simp
    qed
  qed
qed

end
