(* ===== verification/ServerCalls.thy ===== *)
theory ServerCalls
  imports SocketCalls ServerPrograms
begin

section \<open>A server on the system calls, and the main functions of the example servers\<close>

text \<open>
  The constructor and \<open>start\<close> of \<open>TcpServer\<close> with the system calls of \<open>SocketCalls\<close> in place of their
  results, and what the \<open>main\<close> functions of test8.cc to test11.cc do between the start of the process and
  the call of \<open>loop()\<close>, from where the theories of the loops go on: the loop of \<open>main\<close> is constructed, then
  the server, and \<open>start\<close> has each thread of the pool construct its loop. \<open>argv\<close> holds the name of the
  program first.
\<close>

text \<open>The surroundings of a process: the kernel, the C library and the loops of the threads started.\<close>

record 'k host =
  host_kernel :: "'k kernel"
  inet_ntop :: "u32 \<Rightarrow> string option"
  inet_pton :: "string \<Rightarrow> u32 option"
  byte_order :: host_order
  thread_loop :: "nat \<Rightarrow> nat"

subsection \<open>The server on the system calls\<close>

definition call_new_server ::
  "'k kernel \<Rightarrow> (u32 \<Rightarrow> string option) \<Rightarrow> host_order \<Rightarrow> nat \<Rightarrow> sockaddr_in \<Rightarrow> 'k \<Rightarrow> (tcp_server \<times> 'k) result" where
  "call_new_server K ntop h this_loop listenAddr k =
     and_then (call_new_acceptor K this_loop listenAddr k) (\<lambda>(a, k).
       Inr (\<lparr>server_name = InetAddress_toHostPort ntop h listenAddr, server_loop = this_loop,
         acceptor = a\<lparr>newConnectionCallback := True\<rparr>, pool = new_thread_pool this_loop, started = False,
         nextConnId = 1, connections = Map.empty, requests = []\<rparr>, k))"

text \<open>\<open>EventLoopThreadPool::start\<close>: each \<open>startLoop\<close> returns when its new thread has constructed its
  loop, which is the first of that thread.\<close>

fun call_start_loops :: "'k kernel \<Rightarrow> nat \<Rightarrow> 'k \<Rightarrow> 'k result" where
  "call_start_loops K 0 k = Inr k"
| "call_start_loops K (Suc n) k = and_then (call_new_event_loop K False k) (\<lambda>(_, k). call_start_loops K n k)"

definition call_pool_start :: "'k kernel \<Rightarrow> (nat \<Rightarrow> nat) \<Rightarrow> bool \<Rightarrow> thread_pool \<Rightarrow> 'k \<Rightarrow> (thread_pool \<times> 'k) result" where
  "call_pool_start K start_loop in_loop p k =
     and_then (pool_start start_loop in_loop p) (\<lambda>p'.
     and_then (call_start_loops K (nat (numThreads p)) k) (\<lambda>k. Inr (p', k)))"

definition call_server_start ::
  "'k kernel \<Rightarrow> (nat \<Rightarrow> nat) \<Rightarrow> bool \<Rightarrow> tcp_server \<Rightarrow> 'k \<Rightarrow> (tcp_server \<times> 'k) result" where
  "call_server_start K start_loop in_loop s k =
     and_then (if \<not> started s then
         and_then (call_pool_start K start_loop in_loop (pool s) k) (\<lambda>(p, k). Inr (s\<lparr>pool := p, started := True\<rparr>, k))
       else Inr (s, k))
       (\<lambda>(s1, k). if \<not> listening (acceptor s1) then
          if in_loop then
            and_then (call_acceptor_listen K in_loop (acceptor s1) k) (\<lambda>(a, k). Inr (s1\<lparr>acceptor := a\<rparr>, k))
          else Inr (s1\<lparr>requests := requests s1 @ [Listen]\<rparr>, k)
        else Inr (s1, k))"

text \<open>A loop and a server on a port in it, with what \<open>main\<close> does to the server before it is started.\<close>

definition serve ::
  "'k host \<Rightarrow> u16 \<Rightarrow> (tcp_server \<Rightarrow> (tcp_server \<times> 'a) result) \<Rightarrow> 'k \<Rightarrow> ((tcp_server \<times> 'a) \<times> 'k) result" where
  "serve H port setup k =
     and_then (call_new_event_loop (host_kernel H) False k) (\<lambda>(_, k).
     and_then (call_new_server (host_kernel H) (inet_ntop H) (byte_order H) 0 (InetAddress_port (byte_order H) port) k) (\<lambda>(s, k).
     and_then (setup s) (\<lambda>(s, a).
     and_then (call_server_start (host_kernel H) (thread_loop H) True s k) (\<lambda>(s, k). Inr ((s, a), k)))))"

subsection \<open>test8.cc to test11.cc\<close>

text \<open>The callbacks of the connections, and whether there is one for complete writes.\<close>

definition with_callbacks :: "nat \<Rightarrow> string list \<Rightarrow> program \<Rightarrow> bool \<Rightarrow> tcp_server \<Rightarrow> (tcp_server \<times> program \<times> bool) result" where
  "with_callbacks threads argv prog wcc s = and_then (thread_arg threads argv s) (\<lambda>s. Inr (s, prog, wcc))"

definition discard_main :: "'k host \<Rightarrow> string list \<Rightarrow> 'k \<Rightarrow> ((tcp_server \<times> program \<times> bool) \<times> 'k) result" where
  "discard_main H argv k = serve H 9981 (with_callbacks 1 argv discard False) k"

definition echo_main :: "'k host \<Rightarrow> string list \<Rightarrow> 'k \<Rightarrow> ((tcp_server \<times> program \<times> bool) \<times> 'k) result" where
  "echo_main H argv k = serve H 9981 (with_callbacks 1 argv echo False) k"

definition burst_main :: "'k host \<Rightarrow> string list \<Rightarrow> 'k \<Rightarrow> ((tcp_server \<times> program \<times> bool) \<times> 'k) result" where
  "burst_main H argv k =
     and_then (burst_messages argv) (\<lambda>(message1, message2).
       serve H 9981 (with_callbacks 3 argv (burst message1 message2) False) k)"

definition chargen_main :: "'k host \<Rightarrow> string list \<Rightarrow> 'k \<Rightarrow> ((tcp_server \<times> program \<times> bool) \<times> 'k) result" where
  "chargen_main H argv k = serve H 9981 (with_callbacks 1 argv (chargen chargen_message) True) k"

text \<open>The four programs, and which argument of each is the number of threads.\<close>

datatype example_server = Test8 | Test9 | Test10 | Test11

fun example_main :: "example_server \<Rightarrow> 'k host \<Rightarrow> string list \<Rightarrow> 'k \<Rightarrow> ((tcp_server \<times> program \<times> bool) \<times> 'k) result" where
  "example_main Test8 H argv k = discard_main H argv k"
| "example_main Test9 H argv k = echo_main H argv k"
| "example_main Test10 H argv k = burst_main H argv k"
| "example_main Test11 H argv k = chargen_main H argv k"

fun thread_position :: "example_server \<Rightarrow> nat" where
  "thread_position Test10 = 3"
| "thread_position e = 1"

subsection \<open>A server that was started\<close>

text \<open>The table of descriptors with those of some loops, and what loops have taken between two states.\<close>

definition loop_files :: "int list \<Rightarrow> int list \<Rightarrow> (int \<Rightarrow> open_file option) \<Rightarrow> int \<Rightarrow> open_file option" where
  "loop_files tfds wfds t = (\<lambda>fd. if fd \<in> set tfds then Some timer_file
     else if fd \<in> set wfds then Some wakeup_file else t fd)"

definition listening_socket :: "sockaddr_in \<Rightarrow> open_file" where
  "listening_socket addr = (bound_socket addr)\<lparr>backlog := Some SOMAXCONN\<rparr>"

text \<open>The server listens on \<open>addr\<close> as it should, and has \<open>n\<close> threads: since \<open>k\<close> the process has taken the
  descriptors of \<open>n + 1\<close> loops and the listening socket, all free before, and touched no other.\<close>

definition listens_on :: "('k \<Rightarrow> int \<Rightarrow> open_file option) \<Rightarrow> sockaddr_in \<Rightarrow> nat \<Rightarrow> tcp_server \<Rightarrow> 'k \<Rightarrow> 'k \<Rightarrow> bool" where
  "listens_on look addr n s k k' \<longleftrightarrow>
     (\<exists>tfds wfds. length tfds = n + 1 \<and> length wfds = n + 1 \<and>
        distinct (acceptSocket (acceptor s) # tfds @ wfds) \<and>
        (\<forall>fd \<in> set (acceptSocket (acceptor s) # tfds @ wfds). look k fd = None) \<and>
        look k' = loop_files tfds wfds ((look k)(acceptSocket (acceptor s) \<mapsto> listening_socket addr))) \<and>
     listening (acceptor s) \<and> newConnectionCallback (acceptor s) \<and> started s"

lemma listening_socket_flags:
  "nonblocking (listening_socket addr)" "close_on_exec (listening_socket addr)" "reuse (listening_socket addr)"
  "bound (listening_socket addr) = Some addr" "backlog (listening_socket addr) = Some SOMAXCONN"
  using bound_socket_flags [of addr]
  by (simp_all add: listening_socket_def nonblocking_def close_on_exec_def) (simp add: bound_socket_def)+

lemma listens_on_lookup:
  assumes "listens_on look addr n s k k'"
  shows "look k (acceptSocket (acceptor s)) = None \<and> look k' (acceptSocket (acceptor s)) = Some (listening_socket addr) \<and>
    (\<forall>fd d. look k fd = Some d \<longrightarrow> look k' fd = Some d)"
  using assms unfolding listens_on_def by (fastforce simp: loop_files_def)

text \<open>What the threads take.\<close>

lemma start_loops_descriptors:
  assumes "documented K look settable" and "call_start_loops K n k = Inr k'"
  shows "\<exists>tfds wfds. length tfds = n \<and> length wfds = n \<and> distinct (tfds @ wfds) \<and>
    (\<forall>fd \<in> set (tfds @ wfds). look k fd = None) \<and> look k' = loop_files tfds wfds (look k)"
  using assms(2)
proof (induction n arbitrary: k)
  case 0
  then show ?case by (simp add: loop_files_def)
next
  case (Suc n)
  then obtain t w k1 where l: "call_new_event_loop K False k = Inr ((t, w), k1)" "call_start_loops K n k1 = Inr k'"
    by (auto simp: and_then_Inr_iff)
  note d = event_loop_descriptors [OF assms(1) l(1)]
  from Suc.IH [OF l(2)] obtain ts ws where i: "length ts = n" "length ws = n" "distinct (ts @ ws)"
    "\<forall>fd \<in> set (ts @ ws). look k1 fd = None" "look k' = loop_files ts ws (look k1)" by blast
  have n: "t \<notin> set (ts @ ws)" "w \<notin> set (ts @ ws)" "\<forall>fd \<in> set (ts @ ws). look k fd = None"
    using i(4) d by (auto split: if_splits)
  have "look k' = loop_files (t # ts) (w # ws) (look k)" using i(5) d n by (auto simp: loop_files_def fun_eq_iff)
  moreover have "distinct ((t # ts) @ (w # ws)) \<and> (\<forall>fd \<in> set ((t # ts) @ (w # ws)). look k fd = None)" using i(3) d n by auto
  moreover have "length (t # ts) = Suc n \<and> length (w # ws) = Suc n" using i(1,2) by simp
  ultimately show ?case by blast
qed

text \<open>What \<open>main\<close> may do to the server before it is started.\<close>

definition only_threads :: "(tcp_server \<Rightarrow> (tcp_server \<times> 'a) result) \<Rightarrow> bool" where
  "only_threads setup \<longleftrightarrow> (\<forall>s s' a. setup s = Inr (s', a) \<longrightarrow> (\<exists>n. s' = s\<lparr>pool := setThreadNum n (pool s)\<rparr>))"

text \<open>The server is the one of the model in which the system calls are their results.\<close>

definition same_as_model :: "'k host \<Rightarrow> sockaddr_in \<Rightarrow> (tcp_server \<Rightarrow> (tcp_server \<times> 'a) result) \<Rightarrow> tcp_server \<times> 'a \<Rightarrow> bool" where
  "same_as_model H addr setup r \<longleftrightarrow> (\<exists>sockfd bind_ret listen_ret.
     and_then (new_server (inet_ntop H) (byte_order H) 0 addr sockfd bind_ret) (\<lambda>s.
     and_then (setup s) (\<lambda>(s, a).
     and_then (server_start (thread_loop H) True listen_ret s) (\<lambda>s. Inr (s, a)))) = Inr r)"

lemma listen_callback:
  assumes "call_acceptor_listen K True (a\<lparr>newConnectionCallback := True\<rparr>) k = Inr (a', k')"
  shows "\<exists>a1. call_acceptor_listen K True a k = Inr (a1, k') \<and> a' = a1\<lparr>newConnectionCallback := True\<rparr>"
  using assms by (auto simp: call_acceptor_listen_def and_then_Inr_iff)

lemma model_listen_callback:
  "acceptor_listen True ret a = Inr a' \<Longrightarrow>
    acceptor_listen True ret (a\<lparr>newConnectionCallback := True\<rparr>) = Inr (a'\<lparr>newConnectionCallback := True\<rparr>)"
  by (auto simp: acceptor_listen_def and_then_Inr_iff)

lemma serve_listens:
  assumes K: "documented (host_kernel H) look settable" and t: "only_threads setup"
    and r: "serve H port setup k = Inr ((s, a), k')"
  shows "listens_on look (InetAddress_port (byte_order H) port) (nat (numThreads (pool s))) s k k' \<and>
    loops (pool s) = map (thread_loop H) [0..<nat (numThreads (pool s))] \<and>
    same_as_model H (InetAddress_port (byte_order H) port) setup (s, a) \<and>
    (\<exists>s0 s1. setup s0 = Inr (s1, a) \<and> numThreads (pool s1) = numThreads (pool s) \<and> pool s0 = new_thread_pool 0)"
proof -
  let ?addr = "InetAddress_port (byte_order H) port"
  let ?new = "\<lambda>a. \<lparr>server_name = InetAddress_toHostPort (inet_ntop H) (byte_order H) ?addr, server_loop = 0,
    acceptor = a\<lparr>newConnectionCallback := True\<rparr>, pool = new_thread_pool 0, started = False, nextConnId = 1,
    connections = Map.empty, requests = []\<rparr>"
  obtain tm wk k0 ac k1 s1 where c: "call_new_event_loop (host_kernel H) False k = Inr ((tm, wk), k0)"
    "call_new_acceptor (host_kernel H) 0 ?addr k0 = Inr (ac, k1)"
    "setup (?new ac) = Inr (s1, a)" "call_server_start (host_kernel H) (thread_loop H) True s1 k1 = Inr (s, k')"
    using r by (auto simp: serve_def call_new_server_def and_then_Inr_iff)
  obtain n where s1: "s1 = (?new ac)\<lparr>pool := setThreadNum n (new_thread_pool 0)\<rparr>"
    using t c(3) unfolding only_threads_def by fastforce
  note b = acceptor_socket_bound [OF K c(2)]
  let ?p = "\<lparr>baseLoop = 0, pool_started = True, numThreads = n, next_index = 0, loops = map (thread_loop H) [0..<nat n]\<rparr>"
  have p: "pool_start (thread_loop H) True (setThreadNum n (new_thread_pool 0)) = Inr ?p"
    by (simp add: pool_start_def setThreadNum_def new_thread_pool_def)
  obtain k2 ac' where l: "call_start_loops (host_kernel H) (nat n) k1 = Inr k2"
    "call_acceptor_listen (host_kernel H) True (ac\<lparr>newConnectionCallback := True\<rparr>) k2 = Inr (ac', k')"
    "s = s1\<lparr>pool := ?p, started := True, acceptor := ac'\<rparr>"
    using c(4) b p by (auto simp: call_server_start_def call_pool_start_def s1 and_then_Inr_iff) (auto simp: setThreadNum_def)
  from listen_callback [OF l(2)] obtain a1 where
    a1: "call_acceptor_listen (host_kernel H) True ac k2 = Inr (a1, k')" "ac' = a1\<lparr>newConnectionCallback := True\<rparr>" by blast
  from start_loops_descriptors [OF K l(1)] obtain ts ws where
    w: "length ts = nat n" "length ws = nat n" "distinct (ts @ ws)" "\<forall>fd \<in> set (ts @ ws). look k1 fd = None"
      "look k2 = loop_files ts ws (look k1)" by blast
  note m = event_loop_descriptors [OF K c(1)]
  let ?sd = "acceptSocket ac"
  have new: "?sd \<notin> set (ts @ ws)" "tm \<notin> set (?sd # ts @ ws)" "wk \<notin> set (?sd # ts @ ws)"
    "\<forall>fd \<in> set (?sd # ts @ ws). look k fd = None" using b w(4) m by (auto split: if_splits)
  have k2: "look k2 ?sd = Some (bound_socket ?addr)" using new(1) b by (auto simp: w(5) loop_files_def)
  note li = acceptor_socket_listens [OF K k2 _ a1(1)]
  have sd: "acceptSocket (acceptor s) = ?sd" using li by (simp add: l(3) a1(2) bound_socket_def)
  have "look k' = loop_files (tm # ts) (wk # ws) ((look k)(?sd \<mapsto> listening_socket ?addr))"
    using li b m new w(5) by (auto simp: loop_files_def listening_socket_def fun_eq_iff bound_socket_def)
  then have "listens_on look ?addr (nat n) s k k'" unfolding listens_on_def sd
    using w m new li by (intro conjI exI [of _ "tm # ts"] exI [of _ "wk # ws"]) (auto simp: l(3) a1(2) bound_socket_def)
  moreover obtain sockfd bd ret where o: "new_acceptor 0 sockfd bd = Inr ac" "acceptor_listen True ret ac = Inr a1"
    using b li by (auto simp: bound_socket_def)
  have "same_as_model H ?addr setup (s, a)" unfolding same_as_model_def
    by (intro exI [of _ sockfd] exI [of _ bd] exI [of _ ret])
      (use o(1) c(3) b p model_listen_callback [OF o(2)] in
        \<open>simp add: new_server_def server_start_def, simp add: s1 l(3) a1(2)\<close>)
  moreover have "\<exists>s0 s1. setup s0 = Inr (s1, a) \<and> numThreads (pool s1) = numThreads (pool s) \<and> pool s0 = new_thread_pool 0"
    using c(3) by (intro exI [of _ "?new ac"] exI [of _ s1]) (simp add: s1 l(3) setThreadNum_def)
  ultimately show ?thesis by (simp add: l(3))
qed

lemma only_threads_with_callbacks: "only_threads (with_callbacks i argv prog wcc)"
  unfolding only_threads_def
proof (intro allI impI)
  fix s s' :: tcp_server and a
  assume "with_callbacks i argv prog wcc s = Inr (s', a)"
  then consider "s' = s" | n where "s' = s\<lparr>pool := setThreadNum n (pool s)\<rparr>"
    by (auto simp: with_callbacks_def thread_arg_def server_setThreadNum_def and_then_Inr_iff require_Inr_iff split: if_splits)
  then show "\<exists>n. s' = s\<lparr>pool := setThreadNum n (pool s)\<rparr>"
  proof cases
    case 1
    then show ?thesis by (intro exI [of _ "numThreads (pool s)"]) (simp add: setThreadNum_def)
  qed blast
qed

text \<open>The number of threads by the arguments.\<close>

definition thread_count :: "nat \<Rightarrow> string list \<Rightarrow> int" where
  "thread_count i argv = (if i < length argv then atoi (argv ! i) else 0)"

lemma with_callbacks_threads:
  "with_callbacks i argv prog wcc s0 = Inr (s1, a) \<Longrightarrow> pool s0 = new_thread_pool l \<Longrightarrow>
    numThreads (pool s1) = thread_count i argv \<and> 0 \<le> thread_count i argv \<and> a = (prog, wcc)"
  by (auto simp: with_callbacks_def thread_arg_def thread_count_def server_setThreadNum_def setThreadNum_def new_thread_pool_def
      and_then_Inr_iff require_Inr_iff split: if_splits)

lemma start_example_model:
  assumes "same_as_model H (InetAddress_port (byte_order H) 9981) (with_callbacks i argv prog wcc) (s, a)"
  shows "\<exists>sockfd bind_ret listen_ret.
    start_example i (inet_ntop H) (byte_order H) (thread_loop H) sockfd bind_ret listen_ret argv = Inr s"
  using assms by (fastforce simp: same_as_model_def start_example_def with_callbacks_def and_then_Inr_iff)

lemma example_main_serves:
  assumes "example_main e H argv k = Inr ((s, prog, wcc), k')"
  shows "\<exists>prog' wcc'. serve H 9981 (with_callbacks (thread_position e) argv prog' wcc') k = Inr ((s, prog, wcc), k')"
  using assms by (cases e) (auto simp: discard_main_def echo_main_def burst_main_def chargen_main_def and_then_Inr_iff)

text \<open>Who gives a negative number of threads ends the process by an assertion, with the port already taken.\<close>

lemma negative_threads_abort:
  assumes "call_new_event_loop (host_kernel H) False k = Inr (fds, k0)"
    and "call_new_server (host_kernel H) (inet_ntop H) (byte_order H) 0 (InetAddress_port (byte_order H) 9981) k0 = Inr (s, k1)"
    and "thread_count i argv < 0"
  shows "serve H 9981 (with_callbacks i argv prog wcc) k = Inl (AssertionFailed ''numThreads >= 0'')"
  using assms by (auto simp: serve_def with_callbacks_def thread_arg_def thread_count_def server_setThreadNum_def split: if_splits)

subsection \<open>Properties\<close>

text \<open>C25: The example servers start as they should on a kernel that does what its manual pages say:
  whenever the main function of test8 to test11 gets to the call of \<open>loop()\<close>, the descriptors opened
  since the start are a listening socket, which is nonblocking, closed on exec, reuses the address
  and is bound to port 9981 on all interfaces, and a timerfd and an eventfd, both nonblocking and
  closed on exec, for the loop of \<open>main\<close> and for that of each thread asked for; all were free, and
  every other descriptor is as it was; the pool has the loops of the threads, in order; and the
  server is one the model of \<open>TcpServer\<close> without the system calls reaches. A negative number of
  threads never gets there.\<close>

theorem example_servers_listen:
  assumes K: "documented (host_kernel H) look settable" and m: "example_main e H argv k = Inr ((s, prog, wcc), k')"
    and n: "n = thread_count (thread_position e) argv" and sd: "sd = acceptSocket (acceptor s)"
  shows "(\<exists>tfds wfds d. length tfds = nat n + 1 \<and> length wfds = nat n + 1 \<and> distinct (sd # tfds @ wfds) \<and>
       (\<forall>fd \<in> set (sd # tfds @ wfds). look k fd = None) \<and> look k' = loop_files tfds wfds ((look k)(sd \<mapsto> d)) \<and>
       kind d = SocketFile \<and> nonblocking d \<and> close_on_exec d \<and> reuse d \<and>
       bound d = Some (InetAddress_port (byte_order H) 9981) \<and> backlog d = Some SOMAXCONN) \<and>
    kind timer_file = TimerFile \<and> nonblocking timer_file \<and> close_on_exec timer_file \<and>
    kind wakeup_file = EventFile \<and> nonblocking wakeup_file \<and> close_on_exec wakeup_file \<and>
    listening (acceptor s) \<and> started s \<and> 0 \<le> n \<and> loops (pool s) = map (thread_loop H) [0..<nat n] \<and>
    (\<exists>sockfd bind_ret listen_ret. start_example (thread_position e) (inet_ntop H) (byte_order H) (thread_loop H) sockfd
       bind_ret listen_ret argv = Inr s)"
proof -
  obtain prog' wcc' where r: "serve H 9981 (with_callbacks (thread_position e) argv prog' wcc') k = Inr ((s, prog, wcc), k')"
    using example_main_serves [OF m] by blast
  note ok = serve_listens [OF K only_threads_with_callbacks r]
  then obtain s0 s1 where w: "with_callbacks (thread_position e) argv prog' wcc' s0 = Inr (s1, prog, wcc)"
    "numThreads (pool s1) = numThreads (pool s)" "pool s0 = new_thread_pool 0" by blast
  have t: "numThreads (pool s) = n" "0 \<le> n" using with_callbacks_threads [OF w(1,3)] w(2) n by simp_all
  let ?addr = "InetAddress_port (byte_order H) 9981"
  obtain tfds wfds where "length tfds = nat n + 1 \<and> length wfds = nat n + 1 \<and> distinct (sd # tfds @ wfds) \<and>
      (\<forall>fd \<in> set (sd # tfds @ wfds). look k fd = None) \<and> look k' = loop_files tfds wfds ((look k)(sd \<mapsto> listening_socket ?addr))"
    using ok unfolding listens_on_def sd t by blast
  moreover have "kind (listening_socket ?addr) = SocketFile" by (simp add: listening_socket_def bound_socket_def)
  ultimately show ?thesis using ok t start_example_model [of H "thread_position e" argv prog' wcc' s "(prog, wcc)"]
    listening_socket_flags [of ?addr] loop_file_flags
    by (intro conjI exI [of _ tfds] exI [of _ wfds] exI [of _ "listening_socket ?addr"])
      (simp_all add: listens_on_def fresh_file_def)
qed

text \<open>Two threads on the kernel in which every call succeeds.\<close>

definition table_host :: "(int \<times> (int \<Rightarrow> open_file option)) host" where
  "table_host = \<lparr>host_kernel = table_kernel, inet_ntop = (\<lambda>_. Some ''0.0.0.0''), inet_pton = (\<lambda>_. Some 0),
     byte_order = LittleEndian, thread_loop = Suc\<rparr>"

lemma table_host_listens:
  "\<exists>a' k2. call_acceptor_listen table_kernel True a k = Inr (a', k2)"
  by (simp add: call_acceptor_listen_def socket_listen_def call_listenOrDie_def listenOrDie_def table_kernel_def)

text \<open>As long as every number from the next one on is free, the next descriptor can be made.\<close>

definition numbers_left :: "int \<times> (int \<Rightarrow> open_file option) \<Rightarrow> bool" where
  "numbers_left k \<longleftrightarrow> 0 \<le> fst k \<and> (\<forall>i \<ge> fst k. snd k i = None)"

lemma numbers_left_next:
  "numbers_left k \<Longrightarrow> \<exists>k'. next_file d k = (fst k, k') \<and> numbers_left k' \<and> 0 \<le> fst k"
  by (auto simp: numbers_left_def next_file_def)

lemma numbers_left_change: "numbers_left k \<Longrightarrow> numbers_left (change sd f k)"
  by (auto simp: numbers_left_def change_def)

lemma table_host_loop:
  assumes "numbers_left k"
  shows "\<exists>fds k'. call_new_event_loop table_kernel False k = Inr (fds, k') \<and> numbers_left k'"
proof -
  obtain k1 where k1: "next_file timer_file k = (fst k, k1)" "numbers_left k1" "0 \<le> fst k"
    using numbers_left_next [OF assms] by blast
  obtain k2 where k2: "next_file wakeup_file k1 = (fst k1, k2)" "numbers_left k2" "0 \<le> fst k1"
    using numbers_left_next [OF k1(2)] by blast
  show ?thesis using k1 k2 by (simp add: call_new_event_loop_def createTimerfd_def createEventfd_def table_kernel_def)
qed

lemma table_host_loops: "numbers_left k \<Longrightarrow> \<exists>k'. call_start_loops table_kernel n k = Inr k'"
proof (induction n arbitrary: k)
  case (Suc n)
  then show ?case using table_host_loop [OF Suc.prems] by fastforce
qed simp

lemma table_host_acceptor:
  assumes "numbers_left k"
  shows "\<exists>a k'. call_new_acceptor table_kernel l addr k = Inr (a, k') \<and> \<not> listening a \<and> numbers_left k'"
proof -
  obtain k1 where k1: "next_file (fresh_socket (SOCK_STREAM OR SOCK_NONBLOCK OR SOCK_CLOEXEC)) k = (fst k, k1)" "numbers_left k1"
    "0 \<le> fst k" using numbers_left_next [OF assms] by blast
  show ?thesis using k1
    by (simp add: call_new_acceptor_def call_createNonblockingOrDie_def table_kernel_def createNonblockingOrDie_def
        socket_bindAddress_def call_bindOrDie_def bindOrDie_def socket_setReuseAddr_def setNonBlockingAndCloseOnExec_def
        numbers_left_change split_def Let_def)
qed

lemma table_host_serves:
  assumes "\<And>s. pool s = new_thread_pool 0 \<Longrightarrow> \<not> started s \<Longrightarrow> \<not> listening (acceptor s) \<Longrightarrow>
    \<exists>n a. setup s = Inr (s\<lparr>pool := setThreadNum n (new_thread_pool 0)\<rparr>, a)"
  shows "\<exists>s a k'. serve table_host port setup (3, Map.empty) = Inr ((s, a), k')"
proof -
  have "numbers_left (3, Map.empty)" by (simp add: numbers_left_def)
  from table_host_loop [OF this] obtain fds k0 where
    e: "call_new_event_loop table_kernel False (3, Map.empty) = Inr (fds, k0)" "numbers_left k0" by blast
  from table_host_acceptor [OF e(2)] obtain ac k1 where
    n: "call_new_acceptor table_kernel 0 (InetAddress_port LittleEndian port) k0 = Inr (ac, k1)" "\<not> listening ac" "numbers_left k1"
    by blast
  let ?s = "\<lparr>server_name = InetAddress_toHostPort (\<lambda>_. Some ''0.0.0.0'') LittleEndian (InetAddress_port LittleEndian port),
    server_loop = 0, acceptor = ac\<lparr>newConnectionCallback := True\<rparr>, pool = new_thread_pool 0, started = False, nextConnId = 1,
    connections = Map.empty, requests = []\<rparr>"
  obtain m a where a: "setup ?s = Inr (?s\<lparr>pool := setThreadNum m (new_thread_pool 0)\<rparr>, a)" using assms [of ?s] n(2) by auto
  obtain k2 where t: "call_start_loops table_kernel (nat m) k1 = Inr k2" using table_host_loops [OF n(3)] by blast
  obtain ac' k3 where l: "call_acceptor_listen table_kernel True (ac\<lparr>newConnectionCallback := True\<rparr>) k2 = Inr (ac', k3)"
    using table_host_listens by blast
  have "\<exists>s. call_server_start table_kernel Suc True (?s\<lparr>pool := setThreadNum m (new_thread_pool 0)\<rparr>) k1 = Inr (s, k3)"
    using l t n(2) by (simp add: call_server_start_def call_pool_start_def pool_start_def setThreadNum_def new_thread_pool_def)
  then show ?thesis using e(1) n(1) a by (auto simp: serve_def call_new_server_def table_host_def)
qed

text \<open>Two threads, so three loops and one socket: seven descriptors.\<close>

theorem example_servers_listen_witness:
  "\<exists>s prog wcc k'. example_main Test9 table_host [''test9'', ''2''] (3, Map.empty) = Inr ((s, prog, wcc), k') \<and>
     loops (pool s) = [1, 2] \<and> card (dom (snd k')) = 7 \<and>
     (\<exists>d. snd k' (acceptSocket (acceptor s)) = Some d \<and> backlog d = Some 128)"
proof -
  have two: "thread_count 1 [''test9'', ''2''] = 2" by (simp add: thread_count_def) code_simp
  have "\<exists>n a. with_callbacks 1 [''test9'', ''2''] echo False s = Inr (s\<lparr>pool := setThreadNum n (new_thread_pool 0)\<rparr>, a)"
    if "pool s = new_thread_pool 0" for s
    using two that by (auto simp: with_callbacks_def thread_arg_def server_setThreadNum_def thread_count_def)
  then have "\<exists>s a k'. serve table_host 9981 (with_callbacks 1 [''test9'', ''2''] echo False) (3, Map.empty) = Inr ((s, a), k')"
    by (rule table_host_serves)
  then obtain s a k' where m: "example_main Test9 table_host [''test9'', ''2''] (3, Map.empty) = Inr ((s, a), k')"
    by (auto simp: echo_main_def)
  obtain prog wcc where a: "a = (prog, wcc)" by (cases a)
  have K: "documented (host_kernel table_host) snd O_NONBLOCK" using table_kernel_documented by (simp add: table_host_def)
  have l: "map (thread_loop table_host) [0..<nat 2] = [1, 2]" by (simp add: table_host_def upt_rec)
  let ?sd = "acceptSocket (acceptor s)"
  note ok = example_servers_listen [OF K m [unfolded a] refl refl, unfolded thread_position.simps two]
  then obtain tfds wfds d where o: "length tfds = 3" "length wfds = 3" "distinct (?sd # tfds @ wfds)"
    "snd k' = loop_files tfds wfds ((snd (3, Map.empty))(?sd \<mapsto> d))" "backlog d = Some SOMAXCONN" by auto
  have "dom (snd k') = set (?sd # tfds @ wfds)" using o(4) by (auto simp: loop_files_def dom_def split: if_splits)
  then have "card (dom (snd k')) = 7" using distinct_card [OF o(3)] o(1,2) by simp
  moreover have "snd k' ?sd = Some d" using o(3,4) by (simp add: loop_files_def)
  moreover have "loops (pool s) = [1, 2]" using ok l by simp
  ultimately show ?thesis using m a o(5) by (auto simp: SOMAXCONN_def)
qed

end
