(* ===== verification/Programs.thy ===== *)
theory Programs
  imports ServerCalls QueryPrograms RpcPrograms Balancer Median
begin

section \<open>From the command line: the main functions of the programs on messages\<close>

text \<open>
  What the \<open>main\<close> functions in \<open>protobuf\<close> and of test13.cc do up to the call of \<open>loop()\<close>: they read their
  arguments, construct a loop, make a server or a client with its callbacks and start it. Log messages
  and \<open>ShutdownProtobufLibrary\<close> are left out.
\<close>

datatype 'a ending = Usage | BadAddress string | Running 'a

subsection \<open>server.cc, sorter.cc and protobuf\_server.cc\<close>

definition sudoku_main :: "'k host \<Rightarrow> sudoku_runtime \<Rightarrow> 'k \<Rightarrow> ((tcp_server \<times> rpc_server) \<times> 'k) result" where
  "sudoku_main H rt k = serve H 9981 (\<lambda>s. and_then (sudoku_server rt) (\<lambda>svs. Inr (s, svs))) k"

text \<open>The service of \<open>median.proto\<close>; which bytes parse as a request is up to the generated code.\<close>

definition sorter_service :: "(nat \<Rightarrow> byte list \<Rightarrow> bool) \<Rightarrow> service" where
  "sorter_service parses = \<lparr>full_name = ''median.Sorter'',
     FindMethodByName = (\<lambda>m. if m = ''Query'' then Some 0 else if m = ''Search'' then Some 1
       else if m = ''Generate'' then Some 2 else None),
     request_parses = parses\<rparr>"

record sorter_program =
  debug :: bool
  sorter_data :: "i64 list"
  sorter_services :: rpc_server

definition sorter_main ::
  "'k host \<Rightarrow> (nat \<Rightarrow> byte list \<Rightarrow> bool) \<Rightarrow> (nat \<Rightarrow> i64) \<Rightarrow> string list \<Rightarrow> 'k \<Rightarrow> ((tcp_server \<times> sorter_program) \<times> 'k) result" where
  "sorter_main H parses nrand48 argv k =
     (let port = (if 1 < length argv then atoi (argv ! 1) else 5555)
      in serve H (word_of_int port) (\<lambda>s.
           and_then (registerService (Some (sorter_service parses)) new_rpc_server) (\<lambda>svs.
             Inr (s, \<lparr>debug = 2 < length argv, sorter_data = new_sorter nrand48, sorter_services = svs\<rparr>))) k)"

definition query_server_main ::
  "'k host \<Rightarrow> query_pb \<Rightarrow> string list \<Rightarrow> 'k \<Rightarrow> ((tcp_server \<times> query_dispatcher) ending \<times> 'k) result" where
  "query_server_main H pb argv k =
     (if 1 < length argv then
        and_then (serve H (word_of_int (atoi (argv ! 1))) (\<lambda>s. Inr (s, query_server (byte_order H) pb)) k) (\<lambda>(r, k).
          Inr (Running r, k))
      else Inr (Usage, k))"

subsection \<open>balancer.cc\<close>

text \<open>
  The balancer is written for a \<open>TcpServer\<close> with a name and a callback for new threads, which the one in
  the sources has not: its constructor, \<open>setThreadNum\<close> and \<open>start\<close> are parameters, and so is the text of
  a backend's address.
\<close>

record ('s, 'k) named_server =
  make_server :: "sockaddr_in \<Rightarrow> string \<Rightarrow> 'k \<Rightarrow> ('s \<times> 'k) result"
  set_threads :: "int \<Rightarrow> 's \<Rightarrow> 's result"
  start_server :: "'s \<Rightarrow> 'k \<Rightarrow> ('s \<times> 'k) result"

record 's balancer =
  bal_server :: 's
  bal_backends :: "sockaddr_in list"
  threadCount :: nat

definition new_balancer ::
  "('s, 'k) named_server \<Rightarrow> sockaddr_in \<Rightarrow> string \<Rightarrow> sockaddr_in list \<Rightarrow> 'k \<Rightarrow> ('s balancer \<times> 'k) result" where
  "new_balancer S listenAddr name addrs k =
     and_then (make_server S listenAddr name k) (\<lambda>(s, k). Inr (\<lparr>bal_server = s, bal_backends = addrs, threadCount = 0\<rparr>, k))"

definition balancer_setThreadNum :: "('s, 'k) named_server \<Rightarrow> int \<Rightarrow> 's balancer \<Rightarrow> 's balancer result" where
  "balancer_setThreadNum S n b = and_then (set_threads S n (bal_server b)) (\<lambda>s. Inr (b\<lparr>bal_server := s\<rparr>))"

definition balancer_start :: "('s, 'k) named_server \<Rightarrow> 's balancer \<Rightarrow> 'k \<Rightarrow> ('s balancer \<times> 'k) result" where
  "balancer_start S b k = and_then (start_server S (bal_server b) k) (\<lambda>(s, k). Inr (b\<lparr>bal_server := s\<rparr>, k))"

text \<open>A thread of the pool starts.\<close>

definition balancer_thread :: "(sockaddr_in \<Rightarrow> string) \<Rightarrow> 's balancer \<Rightarrow> per_thread \<times> 's balancer" where
  "balancer_thread toIpPort b =
     (initPerThread (threadCount b) (map toIpPort (bal_backends b)), b\<lparr>threadCount := threadCount b + 1\<rparr>)"

definition balancer_main ::
  "('s, 'k) named_server \<Rightarrow> 'k host \<Rightarrow> string list \<Rightarrow> 'k \<Rightarrow> ('s balancer ending \<times> 'k) result" where
  "balancer_main S H argv k =
     (if length argv < 3 then Inr (Usage, k)
      else case balancer_backends (inet_pton H) (byte_order H) (drop 2 argv) of
        Inl bad \<Rightarrow> Inr (BadAddress bad, k)
      | Inr addrs \<Rightarrow>
          and_then (call_new_event_loop (host_kernel H) False k) (\<lambda>(_, k).
          and_then (new_balancer S (InetAddress_port (byte_order H) (word_of_int (atoi (argv ! 1)))) ''RpcBalancer'' addrs k) (\<lambda>(b, k).
          and_then (balancer_setThreadNum S 4 b) (\<lambda>b.
          and_then (balancer_start S b k) (\<lambda>(b, k). Inr (Running b, k))))))"

subsection \<open>client.cc, protobuf\_client.cc and test13.cc\<close>

text \<open>A loop, and a client in it with the address of its server; \<open>sys\<close> is what \<open>socket\<close> and
  \<open>connect\<close> return.\<close>

definition sudoku_client_main ::
  "'k host \<Rightarrow> int \<times> int \<Rightarrow> string list \<Rightarrow> 'k \<Rightarrow> ((sockaddr_in \<times> sudoku_client) ending \<times> 'k) result" where
  "sudoku_client_main H sys argv k =
     (if 1 < length argv then
        and_then (call_new_event_loop (host_kernel H) False k) (\<lambda>(_, k).
        and_then (sc_connect sys new_sudoku_client) (\<lambda>c.
          Inr (Running (InetAddress_ip (inet_pton H) (byte_order H) (argv ! 1) 9981, c), k)))
      else Inr (Usage, k))"

definition query_client_main ::
  "'k host \<Rightarrow> int \<times> int \<Rightarrow> string list \<Rightarrow> 'k \<Rightarrow> ((sockaddr_in \<times> query_message \<times> tcp_client) ending \<times> 'k) result" where
  "query_client_main H sys argv k =
     (if 2 < length argv then
        and_then (call_new_event_loop (host_kernel H) False k) (\<lambda>(_, k).
        and_then (client_connect sys new_client) (\<lambda>c.
          Inr (Running (InetAddress_ip (inet_pton H) (byte_order H) (argv ! 1) (word_of_int (atoi (argv ! 2))),
            messageToSend_of (tl argv), c), k)))
      else Inr (Usage, k))"

definition hello_main :: "'k host \<Rightarrow> int \<times> int \<Rightarrow> 'k \<Rightarrow> ((sockaddr_in \<times> program \<times> tcp_client) \<times> 'k) result" where
  "hello_main H sys k =
     and_then (call_new_event_loop (host_kernel H) False k) (\<lambda>(_, k).
     and_then (client_connect sys (enableRetry new_client)) (\<lambda>c.
       Inr ((InetAddress_ip (inet_pton H) (byte_order H) ''localhost'' 9981, hello, c), k)))"

subsection \<open>collector.cc\<close>

text \<open>
  The loop is that of a thread. \<open>connect\<close> returns when the latch has been counted down, by the
  events \<open>happening\<close> in between, and then \<open>run\<close> asks the sorters, which hold \<open>numbers\<close> and answer in
  the orders \<open>arriving\<close>.
\<close>

definition collector_main ::
  "'k host \<Rightarrow> connect_event list \<Rightarrow> (nat \<Rightarrow> nat list) \<Rightarrow> (sockaddr_in \<Rightarrow> i64 list) \<Rightarrow> string list \<Rightarrow> 'k \<Rightarrow>
    (outcome ending \<times> 'k) result" where
  "collector_main H happening arriving numbers argv k =
     (if 1 < length argv then
        and_then (call_new_event_loop (host_kernel H) False k) (\<lambda>(_, k).
         let addrs = getAddresses (inet_pton H) (byte_order H) (tl argv)
         in and_then (collector_connect False (length addrs)) (\<lambda>w.
            and_then (for_each connect_step happening w) (\<lambda>w.
            require (\<not> latch_live w) (Fatal ''CountDownLatch::wait does not return'')
              (and_then (collector_run (new_collector arriving (map numbers addrs))) (\<lambda>(found, c). Inr (Running found, k))))))
      else Inr (Usage, k))"

subsection \<open>Servers\<close>

lemma only_threads_unchanged: "only_threads (\<lambda>s. and_then r (\<lambda>a. Inr (s, f a)))"
  unfolding only_threads_def
proof (intro allI impI)
  fix s s' :: tcp_server and a
  assume "and_then r (\<lambda>a. Inr (s, f a)) = Inr (s', a)"
  then show "\<exists>n. s' = s\<lparr>pool := setThreadNum n (pool s)\<rparr>"
    by (intro exI [of _ "numThreads (pool s)"]) (auto simp: and_then_Inr_iff setThreadNum_def)
qed

lemma serve_without_threads:
  assumes K: "documented (host_kernel H) look settable" and r: "serve H port (\<lambda>s. and_then r (\<lambda>a. Inr (s, f a))) k = Inr ((s, b), k')"
  shows "listens_on look (InetAddress_port (byte_order H) port) 0 s k k' \<and> loops (pool s) = [] \<and> (\<exists>a. r = Inr a \<and> b = f a)"
proof -
  note ok = serve_listens [OF K only_threads_unchanged r]
  then obtain s0 s1 :: tcp_server where c: "and_then r (\<lambda>a. Inr (s0, f a)) = Inr (s1, b)" "numThreads (pool s1) = numThreads (pool s)"
    "pool s0 = new_thread_pool 0" by (elim conjE exE)
  then have "numThreads (pool s) = 0" "\<exists>a. r = Inr a \<and> b = f a" by (auto simp: and_then_Inr_iff new_thread_pool_def)
  with ok show ?thesis by simp
qed

subsection \<open>The balancer\<close>

lemma string_find_Some: "string_find c xs = Some i \<Longrightarrow> c \<in> set xs"
  using string_find_None [of c xs] by auto

lemma first_bad_backend:
  "balancer_backends pton h args = Inl bad \<Longrightarrow> bad = hd (filter (\<lambda>arg. CHR '':'' \<notin> set arg) args)"
  by (induction args)
    (auto simp: split_address_def string_find_None dest: string_find_Some split: option.splits sum.splits)

lemma balancer_backends_valid:
  "balancer_backends pton h args = Inr addrs \<Longrightarrow> length addrs = length args \<and> (\<forall>arg \<in> set args. CHR '':'' \<in> set arg)"
  by (induction args arbitrary: addrs)
    (auto simp: split_address_def dest: string_find_Some split: option.splits sum.splits)

text \<open>The \<open>n\<close>-th thread after \<open>b\<close>.\<close>

definition nth_thread :: "(sockaddr_in \<Rightarrow> string) \<Rightarrow> nat \<Rightarrow> 's balancer \<Rightarrow> per_thread" where
  "nth_thread toIpPort n b = fst (balancer_thread toIpPort (((snd \<circ> balancer_thread toIpPort) ^^ n) b))"

lemma balancer_threads:
  "bal_backends (((snd \<circ> balancer_thread ip) ^^ n) b) = bal_backends b \<and>
    threadCount (((snd \<circ> balancer_thread ip) ^^ n) b) = threadCount b + n"
  by (induction n) (simp_all add: balancer_thread_def)

lemma nth_thread_init: "nth_thread ip n b = initPerThread (threadCount b + n) (map ip (bal_backends b))"
  using balancer_threads [where ip = ip and n = n and b = b] by (simp add: nth_thread_def balancer_thread_def)

subsection \<open>Clients\<close>

text \<open>A client that is made and told to connect gets as far as its loop, when \<open>socket\<close> gives a descriptor.\<close>

lemma new_client_connects:
  assumes "0 \<le> sockfd"
  shows "\<exists>c. client_connect (sockfd, err) (new_client\<lparr>retry_enabled := b\<rparr>) = Inr c \<and> retry_enabled c = b \<and> connect_wanted c \<and>
    connection c = None \<and> connector_inv (connector c)"
proof -
  let ?c = "new_connector\<lparr>wanted := True\<rparr>"
  have "connector_inv ?c" "Connector.state ?c = states.kDisconnected" "resets ?c = 0" "retryTimers ?c = []"
    by (simp_all add: new_connector_def connector_inv_def kInitRetryDelayMs_def kMaxRetryDelayMs_def)
  from startInLoop_ok [OF this assms, of err] obtain c' where
    "startInLoop True (sockfd, err) ?c = Inr c'" "connector_inv c'" by blast
  then show ?thesis by (simp add: client_connect_def new_client_def start_def Let_def)
qed

lemma clients_connect:
  assumes "0 \<le> sockfd" and l: "call_new_event_loop (host_kernel H) False k = Inr (fds, k')"
  shows "2 < length argv \<Longrightarrow> \<exists>c. query_client_main H (sockfd, err) argv k = Inr (Running
      (InetAddress_ip (inet_pton H) (byte_order H) (argv ! 1) (word_of_int (atoi (argv ! 2))), messageToSend_of (tl argv), c), k') \<and>
      connect_wanted c \<and> connector_inv (connector c)"
    and "1 < length argv \<Longrightarrow> \<exists>c. sudoku_client_main H (sockfd, err) argv k = Inr (Running
      (InetAddress_ip (inet_pton H) (byte_order H) (argv ! 1) 9981, c), k') \<and> connect_wanted (sc_client c)"
    and "\<exists>c. hello_main H (sockfd, err) k = Inr ((InetAddress_ip (inet_pton H) (byte_order H) ''localhost'' 9981, hello, c), k') \<and>
      retry_enabled c \<and> connect_wanted c"
proof -
  have n: "new_client\<lparr>retry_enabled := False\<rparr> = new_client" "enableRetry new_client = new_client\<lparr>retry_enabled := True\<rparr>"
    by (simp_all add: new_client_def enableRetry_def)
  note f = new_client_connects [OF assms(1), of err False, unfolded n(1)]
  show "2 < length argv \<Longrightarrow> \<exists>c. query_client_main H (sockfd, err) argv k = Inr (Running
      (InetAddress_ip (inet_pton H) (byte_order H) (argv ! 1) (word_of_int (atoi (argv ! 2))), messageToSend_of (tl argv), c), k') \<and>
      connect_wanted c \<and> connector_inv (connector c)"
    using f l by (auto simp: query_client_main_def)
  show "1 < length argv \<Longrightarrow> \<exists>c. sudoku_client_main H (sockfd, err) argv k = Inr (Running
      (InetAddress_ip (inet_pton H) (byte_order H) (argv ! 1) 9981, c), k') \<and> connect_wanted (sc_client c)"
    using f l by (auto simp: sudoku_client_main_def sc_connect_def new_sudoku_client_def)
  show "\<exists>c. hello_main H (sockfd, err) k = Inr ((InetAddress_ip (inet_pton H) (byte_order H) ''localhost'' 9981, hello, c), k') \<and>
      retry_enabled c \<and> connect_wanted c"
    using new_client_connects [OF assms(1), of err True] l unfolding hello_main_def n(2) by auto
qed

text \<open>\<open>inet_pton\<close> reads numbers only; test13 gives it a name, and the address of its server is 0.0.0.0.\<close>

lemma hello_server_address:
  "inet_pton H ''localhost'' = None \<Longrightarrow> hello_main H sys k = Inr ((addr, prog, c), k') \<Longrightarrow>
    sin_addr addr = 0 \<and> sin_port addr = hostToNetwork16 (byte_order H) 9981"
  by (auto simp: hello_main_def and_then_Inr_iff InetAddress_ip_def fromHostPort_def zero_addr_def)

subsection \<open>The collector\<close>

lemma collector_main_finds_median:
  assumes "1 < length argv" and l: "call_new_event_loop (host_kernel H) False k = Inr (fds, k')"
    and a: "addrs = getAddresses (inet_pton H) (byte_order H) (tl argv)" "addrs \<noteq> []"
    and w: "collector_connect False (length addrs) = Inr w0" "for_each connect_step happening w0 = Inr w" "\<not> latch_live w"
    and d: "\<forall>x \<in> set addrs. numbers x \<noteq> [] \<and> ascending_data (numbers x)" "length (concat (map numbers addrs)) < 2 ^ 63 - 1"
    and o: "\<forall>r. mset (arriving r) = mset [0..<length addrs]"
  shows "collector_main H happening arriving numbers argv k =
    Inr (Running (Median (lower_median (concat (map numbers addrs)))), k')"
proof -
  let ?c = "new_collector arriving (map numbers addrs)"
  have f: "sorters ?c = map numbers addrs" "orders ?c = arriving" "q_count (stats ?c) = 0" "q_sum (stats ?c) = 0"
    by (simp_all add: new_collector_def)
  from collector_run_ok [of ?c] obtain c' where
    "collector_run ?c = Inr (Median (lower_median (concat (map numbers addrs))), c')"
    unfolding f using a(2) d o by auto
  then show ?thesis using assms(1) l w unfolding collector_main_def a(1) [symmetric] Let_def by simp
qed

subsection \<open>Properties\<close>

text \<open>C28: The servers on messages start as they should on a kernel that does what its manual pages say: the
  sudoku server on port 9981 with its service, the sorter on the port of its first argument or 5555
  with its service and a hundred numbers in ascending order, so that \<open>Query\<close> finds them, and the query
  server on the port of its argument, without which it touches nothing; the number of a port is taken
  modulo \<open>2 ^ 16\<close>. Each has opened the two descriptors of its loop and one that is bound and listens, and
  starts no threads.\<close>

theorem message_servers_listen:
  assumes K: "documented (host_kernel H) look settable"
  shows "(sudoku_main H rt k = Inr ((s, svs), k') \<longrightarrow>
      listens_on look (InetAddress_port (byte_order H) 9981) 0 s k k' \<and> loops (pool s) = [] \<and>
      service_table svs = [service_name \<mapsto> Some (sudoku_service rt)]) \<and>
    (sorter_main H parses nrand48 argv k = Inr ((s, prog), k') \<longrightarrow>
      listens_on look (InetAddress_port (byte_order H) (if 1 < length argv then word_of_int (atoi (argv ! 1)) else 5555)) 0 s k k' \<and>
      loops (pool s) = [] \<and> dom (service_table (sorter_services prog)) = {''median.Sorter''} \<and>
      length (sorter_data prog) = 100 \<and> ascending_data (sorter_data prog) \<and> (\<exists>q. sorter_Query (sorter_data prog) = Inr q)) \<and>
    (query_server_main H pb argv k = Inr (Running (s, disp), k') \<longrightarrow> 1 < length argv \<and>
      listens_on look (InetAddress_port (byte_order H) (word_of_int (atoi (argv ! 1)))) 0 s k k' \<and> loops (pool s) = []) \<and>
    (length argv \<le> 1 \<longrightarrow> query_server_main H pb argv k = Inr (Usage, k))"
proof -
  have "listens_on look (InetAddress_port (byte_order H) 9981) 0 s k k' \<and> loops (pool s) = [] \<and>
      service_table svs = [service_name \<mapsto> Some (sudoku_service rt)]"
    if m: "sudoku_main H rt k = Inr ((s, svs), k')"
    using serve_without_threads [OF K m [unfolded sudoku_main_def]]
    by (auto simp: sudoku_server_def registerService_def new_rpc_server_def sudoku_service_def)
  moreover have "listens_on look (InetAddress_port (byte_order H) (if 1 < length argv then word_of_int (atoi (argv ! 1)) else 5555)) 0 s k k' \<and>
      loops (pool s) = [] \<and> dom (service_table (sorter_services prog)) = {''median.Sorter''} \<and>
      length (sorter_data prog) = 100 \<and> ascending_data (sorter_data prog) \<and> (\<exists>q. sorter_Query (sorter_data prog) = Inr q)"
    if m: "sorter_main H parses nrand48 argv k = Inr ((s, prog), k')"
  proof -
    have l: "length (new_sorter nrand48) = 100" by (simp add: new_sorter_def length_doGenerate)
    then have q: "\<exists>q. sorter_Query (new_sorter nrand48) = Inr q" by (auto simp: sorter_Query_def)
    have asc: "ascending_data (new_sorter nrand48)" by (simp add: new_sorter_def doGenerate_ascending)
    have port: "word_of_int (if 1 < length argv then atoi (argv ! 1) else 5555) =
      (if 1 < length argv then word_of_int (atoi (argv ! 1)) else 5555 :: u16)" by simp
    from serve_without_threads [OF K m [unfolded sorter_main_def Let_def port]] obtain svs where
      r: "listens_on look (InetAddress_port (byte_order H) (if 1 < length argv then word_of_int (atoi (argv ! 1)) else 5555)) 0 s k k'"
        "loops (pool s) = []" "registerService (Some (sorter_service parses)) new_rpc_server = Inr svs"
        "prog = \<lparr>debug = 2 < length argv, sorter_data = new_sorter nrand48, sorter_services = svs\<rparr>" by blast
    have "dom (service_table svs) = {''median.Sorter''}"
      using r(3) by (auto simp: registerService_def new_rpc_server_def sorter_service_def split: if_splits)
    with r(1,2,4) l q asc show ?thesis by simp
  qed
  moreover have "1 < length argv \<and> listens_on look (InetAddress_port (byte_order H) (word_of_int (atoi (argv ! 1)))) 0 s k k' \<and>
      loops (pool s) = []" if m: "query_server_main H pb argv k = Inr (Running (s, disp), k')"
  proof -
    have l: "1 < length argv" using m by (auto simp: query_server_main_def split: if_splits)
    then have "serve H (word_of_int (atoi (argv ! 1))) (\<lambda>s. and_then (Inr (query_server (byte_order H) pb)) (\<lambda>a. Inr (s, a))) k = Inr ((s, disp), k')"
      using m by (auto simp: query_server_main_def and_then_Inr_iff)
    from serve_without_threads [OF K this] l show ?thesis by simp
  qed
  ultimately show ?thesis by (auto simp: query_server_main_def)
qed

text \<open>The sorter told to listen on port 70000 listens on port 4464.\<close>

theorem message_servers_listen_witness:
  "\<exists>s prog k'. sorter_main table_host (\<lambda>_ _. True) (\<lambda>_. 7) [''sorter'', ''70000''] (3, Map.empty) = Inr ((s, prog), k') \<and>
     (\<exists>d. snd k' (acceptSocket (acceptor s)) = Some d \<and> bound d = Some (InetAddress_port LittleEndian 4464))"
proof -
  have p: "atoi ''70000'' = 70000" by (simp add: atoi_def is_space_def is_digit_def)
  have "\<exists>s a k'. serve table_host (word_of_int 70000) (\<lambda>s. and_then (registerService (Some (sorter_service (\<lambda>_ _. True))) new_rpc_server)
      (\<lambda>svs. Inr (s, \<lparr>debug = False, sorter_data = new_sorter (\<lambda>_. 7), sorter_services = svs\<rparr>))) (3, Map.empty) = Inr ((s, a), k')"
  proof (rule table_host_serves)
    fix s :: tcp_server
    assume "pool s = new_thread_pool 0"
    then have "s = s\<lparr>pool := setThreadNum 0 (new_thread_pool 0)\<rparr>" by (simp add: setThreadNum_def new_thread_pool_def)
    then show "\<exists>n a. and_then (registerService (Some (sorter_service (\<lambda>_ _. True))) new_rpc_server)
        (\<lambda>svs. Inr (s, \<lparr>debug = False, sorter_data = new_sorter (\<lambda>_. 7), sorter_services = svs\<rparr>)) =
        Inr (s\<lparr>pool := setThreadNum n (new_thread_pool 0)\<rparr>, a)"
      unfolding registerService_def option.case and_then.simps by (intro exI) (rule arg_cong [where f = Inr], rule prod.inject [THEN iffD2], blast)
  qed
  then obtain s prog k' where
    m: "sorter_main table_host (\<lambda>_ _. True) (\<lambda>_. 7) [''sorter'', ''70000''] (3, Map.empty) = Inr ((s, prog), k')"
    by (auto simp: sorter_main_def p)
  have K: "documented (host_kernel table_host) snd O_NONBLOCK" using table_kernel_documented by (simp add: table_host_def)
  have u: "(70000 :: u16) = 4464" by simp
  have "listens_on snd (InetAddress_port LittleEndian 4464) 0 s (3, Map.empty) k'"
    using message_servers_listen [OF K, THEN conjunct2, THEN conjunct1, THEN mp, OF m] p by (simp add: table_host_def u)
  with m listens_on_lookup [OF this] listening_socket_flags(4) show ?thesis by blast
qed

text \<open>C29: The balancer checks its arguments before it does anything: with fewer than two of them it
  prints its usage, with a backend address without a colon it gives up on the first such address in
  the list, and in both cases it has made no loop and no server. When it gets to its loop it has one
  backend for each address in order, and at least one, so that its threads, numbered from 0, start
  with one session for each backend and with the backend of their number modulo the number of
  backends.\<close>

theorem balancer_checks_arguments:
  "(length argv < 3 \<longrightarrow> balancer_main S H argv k = Inr (Usage, k)) \<and>
   (3 \<le> length argv \<and> (\<exists>arg \<in> set (drop 2 argv). CHR '':'' \<notin> set arg) \<longrightarrow>
      balancer_main S H argv k = Inr (BadAddress (hd (filter (\<lambda>arg. CHR '':'' \<notin> set arg) (drop 2 argv))), k)) \<and>
   (balancer_main S H argv k = Inr (Running b, k') \<longrightarrow> bal_backends b \<noteq> [] \<and> length (bal_backends b) = length argv - 2 \<and>
      bal_backends b = getAddresses (inet_pton H) (byte_order H) (drop 2 argv) \<and>
      (\<forall>n. length (backends (nth_thread ip n b)) = length argv - 2 \<and> current (nth_thread ip n b) = n mod (length argv - 2)))"
proof -
  have "balancer_main S H argv k = Inr (BadAddress (hd (filter (\<lambda>arg. CHR '':'' \<notin> set arg) (drop 2 argv))), k)"
    if l: "3 \<le> length argv" "\<exists>arg \<in> set (drop 2 argv). CHR '':'' \<notin> set arg"
  proof (cases "balancer_backends (inet_pton H) (byte_order H) (drop 2 argv)")
    case (Inl bad)
    then show ?thesis using l(1) first_bad_backend [OF Inl] by (simp add: balancer_main_def)
  next
    case (Inr addrs)
    then show ?thesis using l(2) balancer_backends_valid by blast
  qed
  moreover have "bal_backends b \<noteq> [] \<and> length (bal_backends b) = length argv - 2 \<and>
      bal_backends b = getAddresses (inet_pton H) (byte_order H) (drop 2 argv) \<and>
      (\<forall>n. length (backends (nth_thread ip n b)) = length argv - 2 \<and> current (nth_thread ip n b) = n mod (length argv - 2))"
    if m: "balancer_main S H argv k = Inr (Running b, k')"
  proof -
    have l: "3 \<le> length argv" using m by (auto simp: balancer_main_def split: if_splits)
    obtain addrs where a: "balancer_backends (inet_pton H) (byte_order H) (drop 2 argv) = Inr addrs" "bal_backends b = addrs" "threadCount b = 0"
      using m l by (auto simp: balancer_main_def new_balancer_def balancer_setThreadNum_def balancer_start_def and_then_Inr_iff split: sum.splits)
    have "length addrs = length argv - 2" using balancer_backends_valid [OF a(1)] by simp
    then show ?thesis using l a getAddresses_valid [OF a(1)] by (auto simp: nth_thread_init initPerThread_def)
  qed
  ultimately show ?thesis by (auto simp: balancer_main_def)
qed

text \<open>A server that can always be made.\<close>

definition any_server :: "(unit, 'k) named_server" where
  "any_server = \<lparr>make_server = \<lambda>addr name k. Inr ((), k), set_threads = \<lambda>n s. Inr s, start_server = \<lambda>s k. Inr (s, k)\<rparr>"

theorem balancer_checks_arguments_witness:
  "balancer_main any_server table_host [''balancer'', ''9000'', ''10.0.0.1:80'', ''host'', ''name''] (3, Map.empty) =
     Inr (BadAddress ''host'', 3, Map.empty) \<and>
   (\<exists>b k'. balancer_main any_server table_host [''balancer'', ''9000'', ''10.0.0.1:80'', ''10.0.0.2:80''] (3, Map.empty) =
       Inr (Running b, k') \<and> current (nth_thread (\<lambda>_. ''ip'') 5 b) = 1)"
proof -
  let ?args = "[''balancer'', ''9000'', ''10.0.0.1:80'', ''10.0.0.2:80'']"
  let ?bad = "[''balancer'', ''9000'', ''10.0.0.1:80'', ''host'', ''name'']"
  have "balancer_main any_server table_host ?bad (3, Map.empty) =
      Inr (BadAddress (hd (filter (\<lambda>arg. CHR '':'' \<notin> set arg) (drop 2 ?bad))), 3, Map.empty)"
    by (rule balancer_checks_arguments [THEN conjunct2, THEN conjunct1, THEN mp]) simp
  then have "balancer_main any_server table_host ?bad (3, Map.empty) = Inr (BadAddress ''host'', 3, Map.empty)" by simp
  moreover obtain addrs where "balancer_backends (inet_pton table_host) (byte_order table_host) (drop 2 ?args) = Inr addrs"
    by (simp add: split_address_def)
  moreover have "numbers_left (3, Map.empty)" by (simp add: numbers_left_def)
  from table_host_loop [OF this] obtain fds k' where "call_new_event_loop (host_kernel table_host) False (3, Map.empty) = Inr (fds, k')"
    by (auto simp: table_host_def)
  ultimately obtain b where b: "balancer_main any_server table_host ?args (3, Map.empty) = Inr (Running b, k')"
    by (auto simp: balancer_main_def new_balancer_def balancer_setThreadNum_def balancer_start_def any_server_def)
  from balancer_checks_arguments [THEN conjunct2, THEN conjunct2, THEN mp, OF b, of "\<lambda>_. ''ip''"]
  have "current (nth_thread (\<lambda>_. ''ip'') 5 b) = 5 mod (length ?args - 2)" by blast
  moreover have "5 mod (length ?args - 2) = (1 :: nat)" by code_simp
  ultimately show ?thesis using b \<open>balancer_main any_server table_host ?bad (3, Map.empty) = Inr (BadAddress ''host'', 3, Map.empty)\<close>
    by auto
qed

end
