(* ===== verification/Spec2Isabelle.thy ===== *)
theory Spec2Isabelle
  imports LoopTimers ServerLoop ConnectionPoller Balancer HostPort Median QueryPrograms MessageStream RpcPrograms
    ServerPrograms CodecTest DispatcherTest ClientLoop LoopThread TimerPrograms LoopPrograms RpcStream
    LoopOwner RpcConnection SocketCalls ServerCalls Programs
begin

text \<open>
  A verification library for this repository, a network library after muduo: event loops with one
  thread each, timers, TCP servers and clients, and on top of them a protobuf codec, message
  dispatchers, remote procedure calls, a load balancer and a distributed median.

  \<^bold>\<open>How the parts work together.\<close> An \<open>EventLoop\<close> polls descriptors through its \<open>Poller\<close>, lets each active
  \<open>Channel\<close> call its owner's handlers, runs expired timers of its \<open>TimerQueue\<close> and then the functors
  other threads have queued. \<open>Acceptor\<close> and \<open>Connector\<close> make descriptors, \<open>TcpServer\<close> and \<open>TcpClient\<close> turn
  them into \<open>TcpConnection\<close>s, which read into and write from a \<open>Buffer\<close>. The codec cuts the input buffer
  into checked frames, a dispatcher or an \<open>RpcChannel\<close> acts on the messages, and the programs under
  \<open>src/protobuf\<close> are built from these.

  \<^bold>\<open>Theories and sources.\<close>
  \<^item> \<open>Prelude\<close>: results that can be faults (a failed \<open>assert\<close>, which the Makefile leaves on; a read or write
    out of range; a null or freed pointer; \<open>LOG_FATAL\<close>), repetition over lists, copies into vectors,
    signed division. \<open>Endian\<close>: \<open>SocketsOps.h\<close>, with the byte order of the host as a parameter.
    \<open>StdSet\<close>: \<open>std::set\<close> and its contract.
  \<^item> \<open>ByteQueue\<close> states what a buffer promises as a locale, \<open>Buffer\<close> is \<open>Buffer.h\<close> and \<open>Buffer.cc\<close> with the
    two indices and the vector, and interprets it: any script of operations behaves as on a plain list.
  \<^item> \<open>Codec\<close>: \<open>protobuf/codec.h\<close>, \<open>codec.cc\<close>. Framing round trip over any chunks, and no input makes the
    parser fail, read out of range or loop.
  \<^item> \<open>Channel\<close>, \<open>Poller\<close>: the classes of these names. The invariant ties slots, the channel map and the
    indices together.
  \<^item> \<open>TimerQueue\<close>: \<open>Timer\<close>, \<open>TimerId\<close>, \<open>TimerQueue\<close>, with the heap of timers, so that use after free is a
    fault. \<open>EventLoop\<close>: the member functions, and the loop's thread with other threads as the step
    relation \<open>step\<close>; a locale \<open>loop_client\<close> says what a user of a loop must keep, of polls that report what it
    can be told of. \<open>LoopTimers\<close> and
    \<open>ConnectionLoop\<close> interpret it for the timer queue and for a connection. \<open>LoopOwner\<close>: the thread-local
    variable and \<open>threadId_\<close>, from which the flag of the other theories is computed; one loop per thread.
  \<^item> \<open>TcpConnection\<close>, \<open>ConnectionLoop\<close>: \<open>TcpConnection.h\<close>, \<open>TcpConnection.cc\<close>; the bytes on the wire, graceful
    shutdown.
  \<^item> \<open>Sockets\<close>: \<open>SocketsOps.cc\<close>, \<open>InetAddress\<close>, \<open>Acceptor\<close>. \<open>Connector\<close>, \<open>TcpClient\<close>, \<open>TcpServer\<close> (with
    \<open>EventLoopThreadPool\<close>): the classes of these names. \<open>LoopThread\<close>: \<open>EventLoopThread\<close>, as the steps its
    creator and its own thread make between accesses to the lock, the condition variable, the pointer and
    the loop; \<open>quit\<close> is two of them, so the loop can be gone between its flag and its wakeup.
    \<open>HostPort\<close>: the address arguments of \<open>balancer.cc\<close> and \<open>collector.cc\<close>. \<open>SocketCalls\<close>: the wrappers,
    \<open>Socket\<close> and \<open>Acceptor\<close>, and the descriptors a loop's constructor makes, with the system calls themselves,
    on a kernel that does what its manual pages say.
  \<^item> \<open>Dispatcher\<close>: \<open>protobuf/dispatcher.h\<close> and \<open>dispatcher_lite.h\<close>, two interpretations of one contract.
  \<^item> \<open>CallTable\<close> is the contract of a table of outstanding calls, interpreted by \<open>Rpc\<close>
    (\<open>RpcChannel\<close>, \<open>RpcServer\<close>) and \<open>Balancer\<close> (\<open>balancer.cc\<close>). \<open>RpcStream\<close> puts channels, codecs and
    byte streams in pieces together and proves that they refine the exchange of whole messages in
    \<open>Rpc\<close>; it also has the frames with which a peer can end the process.
    \<open>RpcConnection\<close> puts a \<open>TcpConnection\<close> at each end, with its buffers and partial writes, and proves that
    this refines \<open>RpcStream\<close> and that every call is answered in the end.
  \<^item> \<open>Kth\<close> (\<open>kth.h\<close>) proves the distributed selection for any search that counts, a locale that \<open>Median\<close>
    (\<open>sorter.cc\<close>, \<open>collector.cc\<close>) interprets.
  \<^item> \<open>ConnectionSteps\<close> is the contract of the relations that all of a connection's code keeps to, interpreted
    by \<open>ServerLoop\<close> and \<open>ConnectionPoller\<close>. \<open>ConnectionPoller\<close> carries out on the poller what a connection asks
    of it, among other channels, with the one case in which that aborts.
  \<^item> \<open>MessageStream\<close> follows messages from the codec of one program over a connection to the codec of
    another.
  \<^item> \<open>ServerLoop\<close> puts a server and all its connections together, in any interleaving of their loops;
    \<open>QueryPrograms\<close> (\<open>protobuf_server.cc\<close>, \<open>protobuf_client.cc\<close>) the codec, a dispatcher and a connection;
    \<open>RpcPrograms\<close> (\<open>server.cc\<close>, \<open>client.cc\<close>, the clients of \<open>collector.cc\<close>) channels, server and client.
    \<open>ClientLoop\<close> does for a client, its connector and all connections it makes what \<open>ServerLoop\<close> does for a
    server, with the one call that aborts.
  \<^item> \<open>ConnectionView\<close> is the abstract specification a connection's user relies on: a machine of phase, bytes
    received, bytes not yet taken and bytes sent, which a connection with any user code refines whatever
    its loop, poller, kernel and other threads do. \<open>ServerPrograms\<close> (\<open>test8.cc\<close> to \<open>test11.cc\<close>, \<open>test13.cc\<close>)
    proves the example servers by invariants of that machine.
  \<^item> \<open>CodecTest\<close> (\<open>codec_test.cc\<close>), \<open>DispatcherTest\<close> (\<open>dispatcher_test.cc\<close>, \<open>dispatcher_lite_test.cc\<close>): the test
    programs with their assertions, which hold. \<open>TimerPrograms\<close> (\<open>test4.cc\<close>, \<open>test5.cc\<close>): what programs that
    consist of timer callbacks and queued functors print. \<open>LoopPrograms\<close> (\<open>test1.cc\<close>, \<open>test2.cc\<close>, \<open>test3.cc\<close>,
    \<open>test7.cc\<close>, \<open>test12.cc\<close>): the loop, acceptor and connector programs; \<open>test6.cc\<close> is in \<open>LoopThread\<close>.
  \<^item> \<open>ServerCalls\<close>, \<open>Programs\<close>: the \<open>main\<close> functions from the arguments to the call of \<open>loop()\<close>, on the system
    calls of \<open>SocketCalls\<close>: which descriptors the loops of a server have opened, which one it has bound and
    listens on, how many threads it has, and what wrong arguments do.

  \<^bold>\<open>How code became definitions.\<close> A class is a record, a member function a function from the record to a
  result, with the code's branches and assertions; a function named in the sources keeps its name, with
  a prefix where another has it. Threads are interleaved steps; what a step makes other threads do is
  kept as a list of functors or requests. Integers that can wrap are words; counters whose wrap would
  need \<open>2 ^ 31\<close> or more operations are numbers with the bound as a hypothesis. Sizes are natural numbers.
  System calls, the clock, the allocator, the protobuf runtime, \<open>adler32\<close>, random numbers and user
  callbacks are parameters; hypotheses on them state what their documentation does.

  \<^bold>\<open>What the theorems ask of the surroundings.\<close> The step relations allow whatever the code allows. Where
  that is too much for a theorem, what it asks for has a name and stands among its hypotheses, and
  another theorem shows what happens without it.
  \<^item> \<open>ordinary\<close> (\<open>ConnectionLoop\<close>): no poll reports \<open>POLLHUP\<close> with \<open>POLLPRI\<close> or \<open>POLLRDHUP\<close> but without \<open>POLLIN\<close>, on
    which \<open>Channel::handleEvent\<close> closes and then reads. Without it a connection can close twice:
    \<open>hangup_closes_twice\<close>, \<open>hangup_fails_server\<close>, \<open>hangup_fails_client\<close>. The bytes of a connection, its graceful
    shutdown and the lives of a server's connections do not need it.
  \<^item> \<open>careful\<close> (\<open>Connector\<close>), \<open>client_careful\<close> (\<open>TcpClient\<close>) and \<open>orderly\<close> (\<open>ClientLoop\<close>): \<open>start\<close> is called on a
    connector that is idle, with no retry pending, and \<open>restart\<close> on one that is connected. Without it:
    \<open>restart_after_stop_aborts\<close>, \<open>connect_after_loss_aborts\<close>.
  \<^item> \<open>untroubled\<close> (\<open>ConnectionPoller\<close>): no message of another thread is run after the connection was destroyed,
    and \<open>ordinary\<close>. Without it: \<open>late_send_aborts\<close>.
  \<^item> \<open>destroyed_at_home\<close> (\<open>LoopOwner\<close>): a loop is destroyed by its own thread. Without it:
    \<open>foreign_destruction_reached\<close>.
  \<^item> \<open>no_wakeup_lost\<close> (\<open>EventLoop\<close>) asks that nothing is pending when the loop is entered. Without it:
    \<open>early_functor_waits\<close>.

  \<^bold>\<open>Grain of the steps.\<close> A callback or functor of a loop is one step, and other threads act between
  steps. A \<open>send\<close> of another thread tests \<open>state_\<close> some time before it queues; a \<open>shutdown\<close> of another thread,
  which tests and sets \<open>state_\<close> without a lock, is one step.

  \<^bold>\<open>Bounds.\<close> The parse loop of the codec and the search loop of \<open>getKth\<close> are recursive functions proved to
  terminate; the search needs at most 66 of its 100 steps. The loop of \<open>EventLoop::loop\<close>, which runs
  until it is told to stop, is a step relation; as a function, \<open>loop_while\<close>, it consumes a list of what the
  polls report, and a list that ends leaves it looping.

  \<^bold>\<open>Not modelled.\<close> The generated protobuf classes, apart from the messages \<open>rpc.proto\<close>, \<open>median.proto\<close> and
  \<open>query.proto\<close> describe; logging and printing; the setters of callbacks, which store their argument;
  the logging, thread and time libraries, which are not in this repository. What is left of the sources beside these
  is declarations, comments and includes.
\<close>

end
